(* ===== verification/Prelude.thy ===== *)
theory Prelude
  imports Main "HOL-Library.Word"
begin

text \<open>
  The shared vocabulary of the development: the names of the C integer types, the
  signed reading of a byte, the way a run of a C function can go wrong, and the generic
  lemmas on bytes and lists that several components use.

  Machine integers are kept at their width (\<open>'n word\<close>) where the code relies on the
  conversion or the wrap-around; sizes, counts and offsets that the code provably keeps
  in range are \<open>nat\<close>.
\<close>

section \<open>Machine integers\<close>

type_synonym i8 = "8 word"
type_synonym u8 = "8 word"
type_synonym u32 = "32 word"
type_synonym u64 = "64 word"

named_theorems byte_simps "signed and unsigned readings of a byte"

lemma sint_of_int8 [byte_simps]:
  "- 128 \<le> k \<Longrightarrow> k < 128 \<Longrightarrow> sint (word_of_int k :: 8 word) = k"
  by (simp add: signed_of_int signed_take_bit_int_eq_self)

lemma sint8_bounds: "- 128 \<le> sint (w :: 8 word)" "sint (w :: 8 word) < 128"
  using sint_greater_eq[of w] sint_less[of w] by simp_all

lemma sint8_eq_0 [simp]: "sint (w :: 8 word) = 0 \<longleftrightarrow> w = 0"
  by (metis signed_word_eqI signed_0)

lemma sint8_uint [byte_simps]: "uint (w :: 8 word) < 128 \<Longrightarrow> sint w = uint w"
proof -
  assume a: "uint w < 128"
  have "sint (word_of_int (uint w) :: 8 word) = uint w"
    using a by (intro sint_of_int8) (auto intro: order_trans [of _ 0])
  then show ?thesis by simp
qed

lemma sint8_neg [byte_simps]: "sint (w :: 8 word) \<noteq> - 128 \<Longrightarrow> sint (- w) = - sint w"
proof -
  assume a: "sint w \<noteq> - 128"
  have "- w = word_of_int (- sint w)" by simp
  moreover have "- 128 < sint w" "sint w < 128"
    using a sint8_bounds[of w] by auto
  ultimately show ?thesis using sint_of_int8[of "- sint w"] by auto
qed

lemma sint8_of_nat [byte_simps]: "n < 128 \<Longrightarrow> sint (word_of_nat n :: 8 word) = int n"
  using sint_of_int8[of "int n"] by simp

lemma uint8_of_nat [byte_simps]: "n < 256 \<Longrightarrow> uint (word_of_nat n :: 8 word) = int n"
  by (simp add: unsigned_of_nat take_bit_eq_mod)

lemma unat8_of_nat [byte_simps]: "n < 256 \<Longrightarrow> unat (word_of_nat n :: 8 word) = n"
  by (simp add: unat_of_nat)

text \<open>
  Unsigned subtraction of the C type \<open>size_t\<close> (64 bits), with the wrap-around
  written out.
\<close>

definition size_sub :: "nat \<Rightarrow> nat \<Rightarrow> nat" where
  "size_sub a b = (if b \<le> a then a - b else a + 2 ^ 64 - b)"

lemma size_sub_le [simp]: "b \<le> a \<Longrightarrow> size_sub a b = a - b"
  by (simp add: size_sub_def)

section \<open>Failing runs\<close>

text \<open>
  A C function that fails does so in one of these ways: an \<open>assert\<close> fires, the
  library's \<open>app_error\<close> or \<open>unix_error\<close> ends the process, memory outside the
  modelled object is touched (undefined behaviour), a null pointer is dereferenced, an integer
  is divided by zero, or the fuel given to a loop is used up (\<open>Still_running\<close>; each such loop has a theorem that the
  fuel the model gives it is enough). \<open>Unmodelled\<close> is a path the model does not follow;
  where it occurs, a theorem shows that the path is not taken.
  A fallible operation returns \<open>c_error + 'a\<close>.
\<close>

datatype c_error =
  Assert_fails | App_error | Out_of_bounds | Null_deref | Division_by_zero | Still_running
| Unmodelled

type_synonym 'a run = "c_error + 'a"

fun bind_run :: "'a run \<Rightarrow> ('a \<Rightarrow> 'b run) \<Rightarrow> 'b run" where
  "bind_run (Inl e) f = Inl e"
| "bind_run (Inr x) f = f x"

lemma bind_run_cong [fundef_cong]:
  "r = r' \<Longrightarrow> (\<And>x. r' = Inr x \<Longrightarrow> f x = f' x) \<Longrightarrow> bind_run r f = bind_run r' f'"
  by (cases r') auto

lemma bind_run_Inr_iff:
  "bind_run r f = Inr y \<longleftrightarrow> (\<exists>x. r = Inr x \<and> f x = Inr y)"
  by (cases r) auto

lemma bind_run_assoc: "bind_run (bind_run r f) g = bind_run r (\<lambda>x. bind_run (f x) g)"
  by (cases r) auto

section \<open>Lists\<close>

lemma take_update_drop:
  "i < length xs \<Longrightarrow> xs[i := x] = take i xs @ x # drop (Suc i) xs"
  by (rule upd_conv_take_nth_drop)

lemma list_all2_update_both:
  "list_all2 P xs ys \<Longrightarrow> P x y \<Longrightarrow> list_all2 P (xs[i := x]) (ys[i := y])"
  by (rule list_all2_update_cong)

end
