(* ===== verification/Arena.thy ===== *)
theory Arena
  imports Prelude
begin

text \<open>
  The arena list of \<open>8/so21_lista_8/arena.c\<close> and \<open>arena.h\<close>: fixed-size regions
  obtained from \<open>Mmap\<close>, linked in a STAILQ, on which the string allocator and the
  object pool are built.

  An arena is a pair of its address and its contents; the STAILQ is the list of arenas in
  link order. \<open>Mmap\<close> is not part of the repository: the address it returns is an argument
  of the operations that call it. \<open>ARENA_SIZE\<close> is a macro the including file may
  override, and \<open>sizeof(arena_t)\<close> depends on \<open>ARENA_EXTRA\<close> and on \<open>queue.h\<close>, so both
  are fields of a configuration.
\<close>

section \<open>The operations of arena.c\<close>

record arena_cfg =
  ARENA_SIZE :: nat
  sizeof_arena_t :: nat

type_synonym 'h arenalist = "(nat \<times> 'h) list"

definition alloc_first_arena :: "'h arenalist \<Rightarrow> nat \<times> 'h \<Rightarrow> 'h arenalist" where
  "alloc_first_arena al newar = newar # al"

fun insert_after_arena :: "'h arenalist \<Rightarrow> nat \<Rightarrow> nat \<times> 'h \<Rightarrow> 'h arenalist" where
  "insert_after_arena [] ar newar = []"
| "insert_after_arena (a # al) ar newar =
     (if fst a = ar then a # newar # al else a # insert_after_arena al ar newar)"

fun alloc_after_arena :: "'h arenalist \<Rightarrow> nat option \<Rightarrow> nat \<times> 'h \<Rightarrow> 'h arenalist" where
  "alloc_after_arena al None newar = al @ [newar]"
| "alloc_after_arena al (Some ar) newar = insert_after_arena al ar newar"

fun find_ptr_arena :: "arena_cfg \<Rightarrow> 'h arenalist \<Rightarrow> nat \<Rightarrow> nat option" where
  "find_ptr_arena c [] ptr = None"
| "find_ptr_arena c (a # al) ptr =
     (if fst a < ptr \<and> ptr < fst a + ARENA_SIZE c then Some (fst a)
      else find_ptr_arena c al ptr)"

text \<open>The contents behind an arena pointer, and a write through it.\<close>

definition arena_at :: "'h arenalist \<Rightarrow> nat \<Rightarrow> 'h option" where
  "arena_at al ar = map_of al ar"

fun arena_put :: "'h arenalist \<Rightarrow> nat \<Rightarrow> 'h \<Rightarrow> 'h arenalist" where
  "arena_put [] ar h = []"
| "arena_put (a # al) ar h = (if fst a = ar then (ar, h) # al else a # arena_put al ar h)"

text \<open>\<open>STAILQ_FIRST\<close> and \<open>STAILQ_NEXT\<close>, as arena addresses.\<close>

definition arena_first :: "'h arenalist \<Rightarrow> nat option" where
  "arena_first al = (case al of [] \<Rightarrow> None | a # _ \<Rightarrow> Some (fst a))"

fun arena_next :: "'h arenalist \<Rightarrow> nat \<Rightarrow> nat option" where
  "arena_next [] ar = None"
| "arena_next (a # al) ar = (if fst a = ar then arena_first al else arena_next al ar)"

section \<open>Disjoint arenas\<close>

text \<open>
  What the kernel promises of \<open>mmap\<close>: a new region overlaps none of the live ones.
  Every list built by the operations from such regions is pairwise disjoint.
\<close>

definition apart :: "arena_cfg \<Rightarrow> nat \<Rightarrow> nat \<Rightarrow> bool" where
  "apart c a b \<longleftrightarrow> a + ARENA_SIZE c \<le> b \<or> b + ARENA_SIZE c \<le> a"

fun arenas_apart :: "arena_cfg \<Rightarrow> nat list \<Rightarrow> bool" where
  "arenas_apart c [] \<longleftrightarrow> True"
| "arenas_apart c (a # as) \<longleftrightarrow> list_all (apart c a) as \<and> arenas_apart c as"

abbreviation bases :: "'h arenalist \<Rightarrow> nat list" where
  "bases al \<equiv> map fst al"

lemma apart_sym: "apart c a b \<longleftrightarrow> apart c b a"
  by (auto simp: apart_def)

lemma apart_neq: "0 < ARENA_SIZE c \<Longrightarrow> apart c a b \<Longrightarrow> a \<noteq> b"
  by (auto simp: apart_def)

lemma arenas_apart_append:
  "arenas_apart c (as @ bs) \<longleftrightarrow>
     arenas_apart c as \<and> arenas_apart c bs \<and> (\<forall>a\<in>set as. \<forall>b\<in>set bs. apart c a b)"
  by (induction as) (auto simp: list_all_iff)

lemma arenas_apart_distinct: "0 < ARENA_SIZE c \<Longrightarrow> arenas_apart c as \<Longrightarrow> distinct as"
  by (induction as) (auto simp: list_all_iff dest: apart_neq)

lemma arenas_apart_nth:
  "arenas_apart c as \<Longrightarrow> i < length as \<Longrightarrow> j < length as \<Longrightarrow> i \<noteq> j \<Longrightarrow> apart c (as ! i) (as ! j)"
proof (induction as arbitrary: i j)
  case (Cons a as)
  then show ?case
    by (cases i; cases j) (auto simp: list_all_iff apart_sym)
qed simp

lemma bases_arena_put [simp]: "bases (arena_put al ar h) = bases al"
  by (induction al) auto

lemma length_arena_put [simp]: "length (arena_put al ar h) = length al"
  by (induction al) auto

lemma arena_at_put:
  "arena_at (arena_put al ar h) b =
     (if b = ar \<and> ar \<in> set (bases al) then Some h else arena_at al b)"
  by (induction al) (force simp: arena_at_def)+

lemma arena_put_split:
  "ar \<notin> set (bases xs) \<Longrightarrow> arena_put (xs @ (ar, h) # ys) ar h' = xs @ (ar, h') # ys"
  by (induction xs) auto

lemma arena_at_split:
  "ar \<notin> set (bases xs) \<Longrightarrow> arena_at (xs @ (ar, h) # ys) ar = Some h"
  by (induction xs) (auto simp: arena_at_def)

lemma arena_next_split:
  "ar \<notin> set (bases xs) \<Longrightarrow> arena_next (xs @ (ar, h) # ys) ar = arena_first ys"
  by (induction xs) auto

lemma insert_after_split:
  "ar \<notin> set (bases xs) \<Longrightarrow>
     insert_after_arena (xs @ (ar, h) # ys) ar n = xs @ (ar, h) # n # ys"
  by (induction xs) auto

lemma set_insert_after:
  "ar \<in> set (bases al) \<Longrightarrow> set (insert_after_arena al ar n) = insert n (set al)"
  by (induction al) auto

lemma find_ptr_arena_Some:
  "find_ptr_arena c al ptr = Some ar \<Longrightarrow>
     ar \<in> set (bases al) \<and> ar < ptr \<and> ptr < ar + ARENA_SIZE c"
  by (induction al) (auto split: if_splits)

lemma find_ptr_arena_None:
  "find_ptr_arena c al ptr = None \<longleftrightarrow>
     (\<forall>ar\<in>set (bases al). \<not> (ar < ptr \<and> ptr < ar + ARENA_SIZE c))"
  by (induction al) auto

lemma find_ptr_arena_unique:
  assumes "arenas_apart c (bases al)" and "ar \<in> set (bases al)"
    and "ar < ptr" and "ptr < ar + ARENA_SIZE c"
  shows "find_ptr_arena c al ptr = Some ar"
  using assms
proof (induction al)
  case (Cons a al)
  show ?case
  proof (cases "fst a = ar")
    case False
    then have "ar \<in> set (bases al)" using Cons.prems(2) by auto
    moreover from this have "apart c (fst a) ar"
      using Cons.prems(1) by (auto simp: list_all_iff)
    ultimately show ?thesis using Cons by (auto simp: apart_def)
  qed (use Cons.prems in auto)
qed simp

text \<open>\<open>mm k\<close> is the address \<open>Mmap\<close> returns when \<open>k\<close> arenas exist.\<close>

definition mmap_fresh :: "arena_cfg \<Rightarrow> (nat \<Rightarrow> nat) \<Rightarrow> 'h arenalist \<Rightarrow> bool" where
  "mmap_fresh c mm al \<longleftrightarrow> (\<forall>b\<in>set (bases al). apart c (mm (length al)) b)"

section \<open>The contract of an allocator built on arenas\<close>

text \<open>
  Both allocators free an object the same way: find the arena of the pointer, then run an
  operation inside that arena. The locale states what the inner operation promises, over an
  abstract value \<open>'a\<close> of an arena's contents, and proves once what the whole list does.
  \<open>live a\<close> are the offsets handed out inside an arena with abstract value \<open>a\<close>, and
  \<open>shape a\<close> is what releasing an object leaves as it was.
\<close>

definition pool_free ::
  "arena_cfg \<Rightarrow> ('h \<Rightarrow> nat \<Rightarrow> 'h run) \<Rightarrow> 'h arenalist \<Rightarrow> nat \<Rightarrow> 'h arenalist run" where
  "pool_free c release al ptr =
     (case find_ptr_arena c al ptr of
        None \<Rightarrow> Inl Assert_fails
      | Some ar \<Rightarrow>
          (case arena_at al ar of
             None \<Rightarrow> Inl Out_of_bounds
           | Some h \<Rightarrow> bind_run (release h (ptr - ar)) (\<lambda>h'. Inr (arena_put al ar h'))))"

definition pool_live :: "('a \<Rightarrow> nat set) \<Rightarrow> 'h arenalist \<Rightarrow> 'a list \<Rightarrow> nat set" where
  "pool_live live al as = (\<Union>(x, a)\<in>set (zip al as). (+) (fst x) ` live a)"

definition pool_ok :: "arena_cfg \<Rightarrow> ('h \<Rightarrow> 'a \<Rightarrow> bool) \<Rightarrow> 'h arenalist \<Rightarrow> 'a list \<Rightarrow> bool" where
  "pool_ok c repr al as \<longleftrightarrow> list_all2 repr (map snd al) as \<and> arenas_apart c (bases al)"

lemma pool_live_Nil [simp]: "pool_live live [] [] = {}"
  by (simp add: pool_live_def)

lemma pool_live_split [simp]:
  "length xs = length as \<Longrightarrow>
     pool_live live (xs @ x # ys) (as @ a # bs) =
       pool_live live xs as \<union> (+) (fst x) ` live a \<union> pool_live live ys bs"
  by (auto simp: pool_live_def)

lemma pool_live_append:
  "length xs = length as \<Longrightarrow>
     pool_live live (xs @ ys) (as @ bs) = pool_live live xs as \<union> pool_live live ys bs"
  by (auto simp: pool_live_def)

lemma pool_liveE:
  assumes "q \<in> pool_live live al as" and "length al = length as"
  obtains xs ar h ys as1 a bs off where "al = xs @ (ar, h) # ys" "as = as1 @ a # bs"
    "length xs = length as1" "off \<in> live a" "q = ar + off"
proof -
  from assms(1) obtain x a off where "(x, a) \<in> set (zip al as)" and q: "off \<in> live a" "q = fst x + off"
    by (auto simp: pool_live_def)
  then obtain us vs where z: "zip al as = us @ (x, a) # vs" by (meson split_list)
  have "al = map fst (zip al as)" "as = map snd (zip al as)" using assms(2) by simp_all
  then have "al = map fst us @ (fst x, snd x) # map fst vs" "as = map snd us @ a # map snd vs"
    unfolding z by simp_all
  with q show ?thesis by (intro that[of "map fst us" "fst x" "snd x" _ "map snd us"]) auto
qed

lemma pool_ok_length: "pool_ok c repr al as \<Longrightarrow> length al = length as"
  unfolding pool_ok_def by (auto dest: list_all2_lengthD)

lemma pool_ok_split:
  "length xs = length as \<Longrightarrow>
     pool_ok c repr (xs @ (ar, h) # ys) (as @ a # bs) \<longleftrightarrow>
       repr h a \<and> pool_ok c repr (xs @ ys) (as @ bs) \<and> (\<forall>b\<in>set (bases (xs @ ys)). apart c ar b)"
  unfolding pool_ok_def
  by (simp add: list_all2_append arenas_apart_append list_all_iff ball_Un apart_sym[of c ar])
    (use apart_sym in blast)

lemma pool_ok_splitE:
  assumes "pool_ok c repr (xs @ (ar, h) # ys) as0"
  obtains as a bs where "as0 = as @ a # bs" "length xs = length as" "repr h a"
  using assms unfolding pool_ok_def
  by (auto simp: list_all2_append1 list_all2_Cons1)

locale arena_client =
  fixes cfg :: arena_cfg
    and repr :: "'h \<Rightarrow> 'a \<Rightarrow> bool"
    and live :: "'a \<Rightarrow> nat set"
    and shape :: "'a \<Rightarrow> 's"
    and release :: "'h \<Rightarrow> nat \<Rightarrow> 'h run"
  assumes live_inside:
      "repr h a \<Longrightarrow> off \<in> live a \<Longrightarrow> 0 < off \<and> off < ARENA_SIZE cfg"
    and release_live:
      "repr h a \<Longrightarrow> off \<in> live a \<Longrightarrow>
         \<exists>h' a'. release h off = Inr h' \<and> repr h' a' \<and> live a' = live a - {off} \<and>
           shape a' = shape a"
begin

lemma live_in_range:
  assumes "pool_ok cfg repr al as" and "q \<in> pool_live live al as"
  shows "\<exists>b\<in>set (bases al). b < q \<and> q < b + ARENA_SIZE cfg"
proof -
  obtain xs ar h ys as1 a bs off where *: "al = xs @ (ar, h) # ys" "as = as1 @ a # bs"
    "length xs = length as1" "off \<in> live a" "q = ar + off"
    by (rule pool_liveE[OF assms(2) pool_ok_length[OF assms(1)]]) blast
  with assms(1) have "repr h a" by (simp add: pool_ok_split)
  with * live_inside[of h a off] show ?thesis by auto
qed

text \<open>Addresses inside one arena are live in that arena or not at all.\<close>

lemma not_in_others:
  assumes "pool_ok cfg repr (xs @ ys) (as @ bs)" and "length xs = length as"
    and "\<forall>b\<in>set (bases (xs @ ys)). apart cfg ar b" and "ar < q" "q < ar + ARENA_SIZE cfg"
  shows "q \<notin> pool_live live xs as" "q \<notin> pool_live live ys bs"
proof -
  have "q \<notin> pool_live live (xs @ ys) (as @ bs)"
    using live_in_range[OF assms(1), of q] assms(3-5) by (fastforce simp: apart_def)
  then show "q \<notin> pool_live live xs as" "q \<notin> pool_live live ys bs"
    using assms(2) by (auto simp: pool_live_append)
qed

lemma live_at:
  assumes ok: "pool_ok cfg repr al as" and i: "i < length al"
  shows "off \<in> live (as ! i) \<longleftrightarrow>
           0 < off \<and> off < ARENA_SIZE cfg \<and> fst (al ! i) + off \<in> pool_live live al as"
proof -
  let ?ar = "fst (al ! i)" and ?x = "take i al" and ?y = "drop (Suc i) al"
  let ?u = "take i as" and ?v = "drop (Suc i) as"
  have len: "length al = length as" using ok by (rule pool_ok_length)
  have al: "al = ?x @ (?ar, snd (al ! i)) # ?y" and as: "as = ?u @ as ! i # ?v"
    using i len by (simp_all add: id_take_nth_drop[symmetric])
  have ok': "pool_ok cfg repr (?x @ (?ar, snd (al ! i)) # ?y) (?u @ as ! i # ?v)" using ok al as by simp
  have l: "length ?x = length ?u" using len by simp
  have rep: "repr (snd (al ! i)) (as ! i)" and rest: "pool_ok cfg repr (?x @ ?y) (?u @ ?v)"
    and ap: "\<forall>b\<in>set (bases (?x @ ?y)). apart cfg ?ar b"
    using iffD1[OF pool_ok_split[OF l] ok'] by blast+
  have live: "pool_live live al as = pool_live live ?x ?u \<union> (+) ?ar ` live (as ! i) \<union> pool_live live ?y ?v"
    using pool_live_split[OF l, of live "(?ar, snd (al ! i))" ?y "as ! i" ?v] al as by simp
  show ?thesis
    using live_inside[OF rep, of off] not_in_others[OF rest l ap, of "?ar + off"]
    by (auto simp: live)
qed

lemma pool_alloc:
  assumes ok: "pool_ok cfg repr (xs @ (ar, h) # ys) (as @ a # bs)" and len: "length xs = length as"
    and new: "repr h' a'" "live a' = insert off (live a)" "off \<notin> live a"
  shows "pool_ok cfg repr (xs @ (ar, h') # ys) (as @ a' # bs)"
    and "ar + off \<notin> pool_live live (xs @ (ar, h) # ys) (as @ a # bs)"
    and "pool_live live (xs @ (ar, h') # ys) (as @ a' # bs) =
           insert (ar + off) (pool_live live (xs @ (ar, h) # ys) (as @ a # bs))"
proof -
  show "pool_ok cfg repr (xs @ (ar, h') # ys) (as @ a' # bs)"
    using ok new(1) len by (simp add: pool_ok_split)
  have "0 < off" "off < ARENA_SIZE cfg" using live_inside[OF new(1)] new(2) by auto
  then show "ar + off \<notin> pool_live live (xs @ (ar, h) # ys) (as @ a # bs)"
    using not_in_others[of xs ys as bs ar "ar + off"] ok len new(3) by (auto simp: pool_ok_split)
  show "pool_live live (xs @ (ar, h') # ys) (as @ a' # bs) =
          insert (ar + off) (pool_live live (xs @ (ar, h) # ys) (as @ a # bs))"
    using len new(2) by auto
qed

lemma pool_add:
  assumes ok: "pool_ok cfg repr (xs @ ys) (as @ bs)" and len: "length xs = length as"
    and new: "repr h a" "live a = {}" "\<forall>b\<in>set (bases (xs @ ys)). apart cfg ar b"
  shows "pool_ok cfg repr (xs @ (ar, h) # ys) (as @ a # bs)"
    and "pool_live live (xs @ (ar, h) # ys) (as @ a # bs) = pool_live live (xs @ ys) (as @ bs)"
  using assms pool_live_append[OF len, of live ys bs] by (auto simp: pool_ok_split)

theorem pool_free_live:
  assumes ok: "pool_ok cfg repr al as" and ptr: "ptr \<in> pool_live live al as"
  shows "\<exists>al' as'. pool_free cfg release al ptr = Inr al' \<and> pool_ok cfg repr al' as' \<and>
           bases al' = bases al \<and> map shape as' = map shape as \<and>
           pool_live live al' as' = pool_live live al as - {ptr}"
proof -
  obtain xs ar h ys as1 a bs off
    where al: "al = xs @ (ar, h) # ys" and as: "as = as1 @ a # bs"
      and len: "length xs = length as1" and off: "off \<in> live a" "ptr = ar + off"
    by (rule pool_liveE[OF ptr pool_ok_length[OF ok]]) blast
  have rep: "repr h a" and rest: "pool_ok cfg repr (xs @ ys) (as1 @ bs)"
    and ap: "\<forall>b\<in>set (bases (xs @ ys)). apart cfg ar b"
    using ok len by (auto simp: al as pool_ok_split)
  obtain h' a' where rel: "release h off = Inr h'" and rep': "repr h' a'"
    and lv: "live a' = live a - {off}" and sh: "shape a' = shape a"
    using release_live[OF rep off(1)] by blast
  have in_ar: "0 < off" "off < ARENA_SIZE cfg" using live_inside[OF rep off(1)] by auto
  then have "\<not> apart cfg ar ar" by (simp add: apart_def)
  then have ne: "ar \<notin> set (bases xs)" using ap by (metis Un_iff map_append set_append)
  have "find_ptr_arena cfg al ptr = Some ar"
    using ok in_ar off(2) by (intro find_ptr_arena_unique) (auto simp: pool_ok_def al)
  then have 1: "pool_free cfg release al ptr = Inr (xs @ (ar, h') # ys)"
    using rel off(2) by (simp add: pool_free_def al arena_at_split[OF ne] arena_put_split[OF ne])
  have 2: "pool_ok cfg repr (xs @ (ar, h') # ys) (as1 @ a' # bs)"
    using rep' rest ap len by (simp add: pool_ok_split)
  have others: "ptr \<notin> pool_live live xs as1" "ptr \<notin> pool_live live ys bs"
    using not_in_others[OF rest len ap, of ptr] in_ar off(2) by auto
  have img: "(+) ar ` live a' = (+) ar ` live a - {ptr}"
    unfolding lv off(2) by auto
  have 3: "pool_live live (xs @ (ar, h') # ys) (as1 @ a' # bs) = pool_live live al as - {ptr}"
    unfolding al as pool_live_split[OF len] fst_conv img using others by blast
  have 4: "bases (xs @ (ar, h') # ys) = bases al" "map shape (as1 @ a' # bs) = map shape as"
    by (simp_all add: al as sh)
  show ?thesis
    using 1 2 3 4 by (intro exI conjI)
qed

end

end
