(* ===== verification/Stralloc.thy ===== *)
theory Stralloc
  imports Arena
begin

text \<open>
  The string allocator of \<open>8/so21_lista_8/stralloc.c\<close>: an implicit list of blocks with
  one signed header byte each (positive: used, negative: free, zero: end of chunk), searched
  next-fit from a global cursor over the arenas of \<open>Arena\<close>.

  A chunk is the memory of one arena, as a function from offsets to bytes; every access is
  checked against \<open>ARENA_SIZE\<close> and leaves the model with \<open>Out_of_bounds\<close> when it fails.
  Offsets are \<open>nat\<close>: the code's \<open>unsigned cur_offset\<close> never passes \<open>ARENA_SIZE\<close>.
\<close>

section \<open>The code\<close>

abbreviation MAX_LENGTH :: nat where "MAX_LENGTH \<equiv> 126"
abbreviation MAX_BLKSZ :: nat where "MAX_BLKSZ \<equiv> 127"

type_synonym chunk = "nat \<Rightarrow> i8"

definition zero_chunk :: chunk where
  "zero_chunk = (\<lambda>_. 0)"

function init_chunk_loop :: "arena_cfg \<Rightarrow> chunk \<Rightarrow> nat \<Rightarrow> chunk \<times> nat" where
  "init_chunk_loop c d off =
     (if off + MAX_BLKSZ < ARENA_SIZE c
      then init_chunk_loop c (d(off := word_of_int (- int MAX_BLKSZ))) (off + MAX_BLKSZ)
      else (d, off))"
  by pat_completeness auto
termination by (relation "measure (\<lambda>(c, d, off). ARENA_SIZE c - off)") auto

declare init_chunk_loop.simps [simp del]

definition init_chunk :: "arena_cfg \<Rightarrow> chunk \<Rightarrow> chunk" where
  "init_chunk c d =
     (let (d1, off) = init_chunk_loop c d (sizeof_arena_t c);
          d2 = d1(off := word_of_int (- (int (ARENA_SIZE c) - 1 - int off)))
      in d2(ARENA_SIZE c - 1 := 0))"

definition block_size :: "chunk \<Rightarrow> nat \<Rightarrow> nat" where
  "block_size d off = nat \<bar>sint (d off)\<bar>"

text \<open>
  The tail of the two branches that split a block: the header becomes \<open>len\<close>, the header
  after it the difference (in the code's order, so the second address is computed from the
  new header).
\<close>

definition split_block :: "arena_cfg \<Rightarrow> chunk \<Rightarrow> nat \<Rightarrow> u8 \<Rightarrow> (chunk \<times> nat \<times> nat option) run" where
  "split_block c d off len =
     (let big_block = (word_of_nat (block_size d off) :: u8);
          d1 = d(off := len);
          nxt = off + block_size d1 off
      in if ARENA_SIZE c \<le> nxt then Inl Out_of_bounds
         else Inr (d1(nxt := big_block - len), off, Some (off + 1)))"

definition merge_block :: "chunk \<Rightarrow> nat \<Rightarrow> chunk" where
  "merge_block d off = d(off := d off + word_of_nat (block_size d (off + block_size d off)))"

lemma block_size_eq_0: "block_size d off = 0 \<longleftrightarrow> d off = 0"
  by (simp add: block_size_def)

lemma block_size_pos: "d off \<noteq> 0 \<Longrightarrow> 0 < block_size d off"
  using block_size_eq_0[of d off] by linarith

text \<open>The result is the chunk, the cursor and the offset of the block's payload or \<open>NULL\<close>.\<close>

function alloc_block ::
  "arena_cfg \<Rightarrow> chunk \<Rightarrow> nat \<Rightarrow> u8 \<Rightarrow> (chunk \<times> nat \<times> nat option) run" where
  "alloc_block c d off len =
     (if ARENA_SIZE c \<le> off then Inl Out_of_bounds
      else if d off = 0 then Inr (d, off, None)
      else if 0 < sint (d off) then alloc_block c d (off + block_size d off) len
      else if int (block_size d off) = uint len
        then Inr (d(off := - d off), off, Some (off + 1))
      else if uint len < int (block_size d off) then split_block c d off len
      else if ARENA_SIZE c \<le> off + block_size d off then Inl Out_of_bounds
      else if \<not> sint (d (off + block_size d off)) < 0
        then alloc_block c d (off + block_size d off) len
      else if int (block_size d (off + block_size d off)) \<le> uint len - int (block_size d off)
        then alloc_block c (merge_block d off) (off + block_size (merge_block d off) off) len
      else split_block c (merge_block d off) off len)"
  by pat_completeness auto
termination
proof (relation "measures [\<lambda>(c, d, off, len). ARENA_SIZE c - off,
                           \<lambda>(c, d, off, len). if d off = 0 then 0 else 1 :: nat]", goal_cases)
  case (4 c d off len)
  let ?b = "block_size (merge_block d off) off"
  have "merge_block d off off = 0 \<and> ?b = 0 \<or> 0 < ?b"
    using block_size_eq_0[of "merge_block d off" off] by linarith
  with 4 show ?case by (elim disjE) auto
qed (auto simp: diff_less_mono2 dest: block_size_pos)

declare alloc_block.simps [simp del]

record str_heap =
  arenas :: "chunk arenalist"
  cur_arena :: "nat option"
  cur_offset :: nat

text \<open>
  The arena after \<open>ar\<close>, or the first one after the last, and the search loop of \<open>stralloc\<close>; \<open>mm k\<close> is the address \<open>Mmap\<close> returns when \<open>k\<close> arenas
  exist. Every arena is visited at most once before one is added, so the fuel below is
  enough (\<open>stralloc_ok\<close>).
\<close>

definition next_or_first :: "'h arenalist \<Rightarrow> nat \<Rightarrow> nat option" where
  "next_or_first al ar =
     (case arena_next al ar of None \<Rightarrow> arena_first al | Some a \<Rightarrow> Some a)"

fun stralloc_loop ::
  "arena_cfg \<Rightarrow> (nat \<Rightarrow> nat) \<Rightarrow> nat \<Rightarrow> str_heap \<Rightarrow> nat \<Rightarrow> u8 \<Rightarrow> (str_heap \<times> nat) run" where
  "stralloc_loop c mm 0 h ar len = Inl Still_running"
| "stralloc_loop c mm (Suc fuel) h ar len =
     (case arena_at (arenas h) ar of
        None \<Rightarrow> Inl Out_of_bounds
      | Some d \<Rightarrow>
          bind_run (alloc_block c d (cur_offset h) len) (\<lambda>(d', off', p).
            let al = arena_put (arenas h) ar d' in
            case p of
              Some q \<Rightarrow> Inr (h\<lparr>arenas := al, cur_arena := Some ar, cur_offset := off'\<rparr>, ar + q)
            | None \<Rightarrow>
                let h' = h\<lparr>arenas := al, cur_offset := sizeof_arena_t c\<rparr> in
                (case next_or_first al ar of
                   None \<Rightarrow> Inl Null_deref
                 | Some ar1 \<Rightarrow>
                     if Some ar1 = cur_arena h' then
                       let al' = alloc_after_arena al (Some ar1)
                                   (mm (length al), init_chunk c zero_chunk) in
                       (case arena_next al' ar1 of
                          None \<Rightarrow> Inl Null_deref
                        | Some ar2 \<Rightarrow> stralloc_loop c mm fuel (h'\<lparr>arenas := al'\<rparr>) ar2 len)
                     else stralloc_loop c mm fuel h' ar1 len)))"

definition stralloc ::
  "arena_cfg \<Rightarrow> (nat \<Rightarrow> nat) \<Rightarrow> str_heap \<Rightarrow> nat \<Rightarrow> (str_heap \<times> nat option) run" where
  "stralloc c mm h len =
     (if \<not> len \<le> MAX_LENGTH then Inl Assert_fails
      else if len = 0 then Inr (h, None)
      else
        let h0 = (if cur_arena h = None
                  then let al = alloc_first_arena (arenas h)
                                  (mm (length (arenas h)), init_chunk c zero_chunk)
                       in h\<lparr>arenas := al, cur_arena := arena_first al,
                           cur_offset := sizeof_arena_t c\<rparr>
                  else h)
        in case cur_arena h0 of
             None \<Rightarrow> Inl Null_deref
           | Some ar \<Rightarrow>
               bind_run (stralloc_loop c mm (length (arenas h0) + 2) h0 ar (word_of_nat (len + 1)))
                 (\<lambda>(h1, ptr). Inr (h1, Some ptr)))"

text \<open>The byte at an address, and the walk of \<open>strfree\<close> over the block headers.\<close>

fun byte_at :: "arena_cfg \<Rightarrow> chunk arenalist \<Rightarrow> nat \<Rightarrow> i8 run" where
  "byte_at c [] addr = Inl Out_of_bounds"
| "byte_at c (a # al) addr =
     (if fst a \<le> addr \<and> addr < fst a + ARENA_SIZE c then Inr (snd a (addr - fst a))
      else byte_at c al addr)"

function free_walk :: "chunk \<Rightarrow> nat \<Rightarrow> nat \<Rightarrow> nat run" where
  "free_walk d ptr target =
     (if ptr < target
      then if d ptr = 0 then Inl Assert_fails
           else free_walk d (ptr + block_size d ptr) target
      else Inr ptr)"
  by pat_completeness auto
termination by (relation "measure (\<lambda>(d, ptr, target). target - ptr)") (auto dest: block_size_pos)

declare free_walk.simps [simp del]

definition strfree :: "arena_cfg \<Rightarrow> str_heap \<Rightarrow> nat option \<Rightarrow> str_heap run" where
  "strfree c h str =
     (case str of
        None \<Rightarrow> Inr h
      | Some sstr \<Rightarrow>
          bind_run (byte_at c (arenas h) (sstr - 1)) (\<lambda>b.
            if \<not> 0 < sint b then Inl Assert_fails
            else case find_ptr_arena c (arenas h) sstr of
              None \<Rightarrow> Inl Assert_fails
            | Some ar \<Rightarrow>
                (case arena_at (arenas h) ar of
                   None \<Rightarrow> Inl Out_of_bounds
                 | Some d \<Rightarrow>
                     bind_run (free_walk d (sizeof_arena_t c) (sstr - ar - 1)) (\<lambda>ptr.
                       if ptr \<noteq> sstr - ar - 1 then Inl Assert_fails
                       else if d ptr = 0 then Inl Assert_fails
                       else Inr (h\<lparr>arenas := arena_put (arenas h) ar (d(ptr := - d ptr))\<rparr>)))))"

function chunk_check :: "arena_cfg \<Rightarrow> chunk \<Rightarrow> nat \<Rightarrow> unit run" where
  "chunk_check c d off =
     (if off \<noteq> ARENA_SIZE c - 1
      then if \<not> off < ARENA_SIZE c then Inl Assert_fails
           else if d off = 0 then Inl Assert_fails
           else chunk_check c d (off + block_size d off)
      else if d off = 0 then Inr () else Inl Assert_fails)"
  by pat_completeness auto
termination by (relation "measure (\<lambda>(c, d, off). ARENA_SIZE c - off)") (auto dest: block_size_pos)

declare chunk_check.simps [simp del]

fun strmemcheck :: "arena_cfg \<Rightarrow> chunk arenalist \<Rightarrow> unit run" where
  "strmemcheck c [] = Inr ()"
| "strmemcheck c (a # al) =
     bind_run (chunk_check c (snd a) (sizeof_arena_t c)) (\<lambda>_. strmemcheck c al)"

section \<open>Well-formed chunks\<close>

text \<open>
  \<open>headers_at d off hs\<close>: from offset \<open>off\<close> the chunk holds blocks with the signed headers
  \<open>hs\<close>. A chunk is well formed when its headers fill it exactly and a zero header ends it:
  the invariant the code checks in \<open>strmemcheck\<close>.
\<close>

fun headers_at :: "chunk \<Rightarrow> nat \<Rightarrow> int list \<Rightarrow> bool" where
  "headers_at d off [] \<longleftrightarrow> True"
| "headers_at d off (h # hs) \<longleftrightarrow> h \<noteq> 0 \<and> sint (d off) = h \<and> headers_at d (off + nat \<bar>h\<bar>) hs"

definition hsum :: "int list \<Rightarrow> nat" where
  "hsum hs = sum_list (map (\<lambda>h. nat \<bar>h\<bar>) hs)"

definition chunk_at :: "arena_cfg \<Rightarrow> chunk \<Rightarrow> nat \<Rightarrow> int list \<Rightarrow> bool" where
  "chunk_at c d off hs \<longleftrightarrow>
     headers_at d off hs \<and> off + hsum hs + 1 = ARENA_SIZE c \<and> d (off + hsum hs) = 0"

named_theorems chunk_simps "sizes and headers of block lists"

lemma hsum_simps [simp]:
  "hsum [] = 0" "hsum (h # hs) = nat \<bar>h\<bar> + hsum hs" "hsum (xs @ ys) = hsum xs + hsum ys"
  by (simp_all add: hsum_def)

lemma hsum_ints [simp]: "hsum (map int ls) = sum_list ls"
  by (induction ls) auto

lemma headers_at_append [simp]:
  "headers_at d off (xs @ ys) \<longleftrightarrow> headers_at d off xs \<and> headers_at d (off + hsum xs) ys"
  by (induction xs arbitrary: off) (auto simp: add.assoc)

lemma headers_at_cong:
  "(\<And>x. off \<le> x \<Longrightarrow> x < off + hsum hs \<Longrightarrow> d x = d' x) \<Longrightarrow>
     headers_at d off hs \<longleftrightarrow> headers_at d' off hs"
proof (induction hs arbitrary: off)
  case (Cons h hs)
  show ?case
  proof (cases "h = 0")
    case False
    then have "d off = d' off" by (intro Cons.prems) auto
    moreover have "headers_at d (off + nat \<bar>h\<bar>) hs = headers_at d' (off + nat \<bar>h\<bar>) hs"
      by (rule Cons.IH) (auto intro!: Cons.prems)
    ultimately show ?thesis by simp
  qed simp
qed simp

lemma block_size_header: "sint (d off) = h \<Longrightarrow> block_size d off = nat \<bar>h\<bar>"
  by (simp add: block_size_def)

text \<open>Used blocks (positive headers) are skipped, by the allocator and by the checker.\<close>

lemma alloc_block_used:
  assumes "sint (d off) = int l" "0 < l" "off < ARENA_SIZE c"
  shows "alloc_block c d off len = alloc_block c d (off + l) len"
proof -
  have "d off \<noteq> 0" using assms by auto
  with assms show ?thesis
    by (subst alloc_block.simps) (auto simp: block_size_header)
qed

lemma alloc_block_skip:
  assumes "headers_at d off (map int ls)" and "off + sum_list ls < ARENA_SIZE c"
  shows "alloc_block c d off len = alloc_block c d (off + sum_list ls) len"
  using assms
proof (induction ls arbitrary: off)
  case (Cons l ls)
  then have "alloc_block c d off len = alloc_block c d (off + l) len"
    by (intro alloc_block_used) auto
  with Cons show ?case by (simp add: add.assoc)
qed simp

lemma chunk_check_headers:
  assumes "headers_at d off hs" and "off + hsum hs < ARENA_SIZE c"
  shows "chunk_check c d off = chunk_check c d (off + hsum hs)"
  using assms
proof (induction hs arbitrary: off)
  case (Cons h hs)
  have "d off \<noteq> 0" and "block_size d off = nat \<bar>h\<bar>"
    using Cons.prems by (auto simp: block_size_header)
  moreover have "0 < nat \<bar>h\<bar>" using Cons.prems(1) by auto
  then have "off < ARENA_SIZE c - 1" using Cons.prems(2) by simp
  ultimately have "chunk_check c d off = chunk_check c d (off + nat \<bar>h\<bar>)"
    by (subst chunk_check.simps) auto
  with Cons show ?case by (simp add: add.assoc)
qed simp

lemma chunk_check_ok:
  assumes "chunk_at c d off hs"
  shows "chunk_check c d off = Inr ()"
proof -
  have "ARENA_SIZE c - 1 = off + hsum hs" using assms unfolding chunk_at_def by linarith
  then show ?thesis using assms unfolding chunk_at_def
    by (subst chunk_check_headers[of d off hs]) (auto simp: chunk_check.simps)
qed

lemma chunk_check_complete:
  assumes "chunk_check c d off = Inr ()" and "0 < ARENA_SIZE c"
  shows "\<exists>hs. chunk_at c d off hs"
  using assms
proof (induction c d off rule: chunk_check.induct)
  case (1 c d off)
  show ?case
  proof (cases "off = ARENA_SIZE c - 1")
    case True
    with 1 have "d off = 0" by (subst (asm) (2) chunk_check.simps) (auto split: if_splits)
    with True 1 have "chunk_at c d off []" by (simp add: chunk_at_def)
    then show ?thesis by blast
  next
    case False
    with 1(2) have *: "off < ARENA_SIZE c" "d off \<noteq> 0"
      "chunk_check c d (off + block_size d off) = Inr ()"
      by (subst (asm) chunk_check.simps; simp split: if_splits)+
    with 1 False obtain hs where "chunk_at c d (off + block_size d off) hs" by blast
    then have "chunk_at c d off (sint (d off) # hs)"
      using * by (auto simp: chunk_at_def block_size_def add.assoc)
    then show ?thesis by blast
  qed
qed

section \<open>Regions: what the allocator really maintains\<close>

text \<open>
  \<open>init_chunk\<close> cuts the chunk into blocks of 127 bytes and one shorter last block, and no
  operation moves these cuts. Each of these regions has one block that can be handed out, its
  head; splitting a head leaves a remainder that is marked used (the header is written with a
  positive sign) and stays used for ever.
\<close>

datatype region = Region (used: bool) (hsize: nat) (rest: "nat list")

definition rtotal :: "region \<Rightarrow> nat" where
  "rtotal r = hsize r + sum_list (rest r)"

definition region_headers :: "region \<Rightarrow> int list" where
  "region_headers r = (if used r then int (hsize r) else - int (hsize r)) # map int (rest r)"

definition flat :: "region list \<Rightarrow> int list" where
  "flat rs = concat (map region_headers rs)"

definition region_pos :: "region \<Rightarrow> bool" where
  "region_pos r \<longleftrightarrow> 0 < hsize r \<and> rtotal r \<le> MAX_BLKSZ"

fun regions_ok :: "region list \<Rightarrow> bool" where
  "regions_ok [] \<longleftrightarrow> True"
| "regions_ok (r # rs) \<longleftrightarrow>
     region_pos r \<and> (rs \<noteq> [] \<longrightarrow> rtotal r = MAX_BLKSZ) \<and> regions_ok rs"

definition region_chunk :: "arena_cfg \<Rightarrow> chunk \<Rightarrow> nat \<Rightarrow> region list \<Rightarrow> bool" where
  "region_chunk c d off rs \<longleftrightarrow> chunk_at c d off (flat rs) \<and> regions_ok rs"

definition rsum :: "region list \<Rightarrow> nat" where
  "rsum rs = sum_list (map rtotal rs)"

lemma flat_simps [simp]:
  "flat [] = []" "flat (r # rs) = region_headers r @ flat rs" "flat (xs @ ys) = flat xs @ flat ys"
  by (simp_all add: flat_def)

lemma rsum_simps [simp]:
  "rsum [] = 0" "rsum (r # rs) = rtotal r + rsum rs" "rsum (xs @ ys) = rsum xs + rsum ys"
  by (simp_all add: rsum_def)

lemma hsum_region [simp]: "hsum (region_headers r) = rtotal r"
  by (simp add: region_headers_def rtotal_def)

lemma hsum_flat [simp]: "hsum (flat rs) = rsum rs"
  by (induction rs) auto

lemma regions_ok_append:
  "regions_ok (xs @ ys) \<longleftrightarrow>
     regions_ok xs \<and> regions_ok ys \<and> (xs \<noteq> [] \<and> ys \<noteq> [] \<longrightarrow> rtotal (last xs) = MAX_BLKSZ)"
  by (induction xs) auto

text \<open>The abstract allocator: first fit over the heads, no coalescing, the rest is lost.\<close>

fun take_head :: "nat \<Rightarrow> region \<Rightarrow> region" where
  "take_head len (Region u s ls) = Region True len (if s = len then ls else (s - len) # ls)"

fun fit :: "nat \<Rightarrow> region list \<Rightarrow> (region list \<times> region \<times> region list) option" where
  "fit len [] = None"
| "fit len (r # rs) =
     (if \<not> used r \<and> len \<le> hsize r then Some ([], r, rs)
      else map_option (\<lambda>(xs, r', ys). (r # xs, r', ys)) (fit len rs))"

lemma fit_Some:
  "fit len rs = Some (xs, r, ys) \<Longrightarrow> rs = xs @ r # ys \<and> \<not> used r \<and> len \<le> hsize r"
  by (induction rs arbitrary: xs) (auto split: if_splits)

lemma fit_None: "fit len rs = None \<longleftrightarrow> (\<forall>r\<in>set rs. used r \<or> hsize r < len)"
  by (induction rs) auto

lemma rtotal_take_head: "len \<le> hsize r \<Longrightarrow> rtotal (take_head len r) = rtotal r"
  by (cases r) (auto simp: rtotal_def)

lemma used_take_head [simp]: "used (take_head len r)" "hsize (take_head len r) = len"
  by (cases r; simp)+

lemma region_chunk_tail:
  "region_chunk c d off (xs @ ys) \<Longrightarrow> region_chunk c d (off + rsum xs) ys"
  by (auto simp: region_chunk_def chunk_at_def regions_ok_append add.assoc)

lemma region_chunk_bound: "region_chunk c d off rs \<Longrightarrow> off + rsum rs < ARENA_SIZE c"
  by (auto simp: region_chunk_def chunk_at_def)

lemma region_chunk_end: "region_chunk c d off [] \<Longrightarrow> alloc_block c d off len = Inr (d, off, None)"
  by (subst alloc_block.simps) (auto simp: region_chunk_def chunk_at_def)

lemma free_head_next:
  assumes "region_chunk c d off (Region False s ls # rs)" and "s < MAX_BLKSZ"
  shows "\<not> sint (d (off + s)) < 0"
proof (cases ls)
  case (Cons l ls')
  then show ?thesis using assms
    by (auto simp: region_chunk_def chunk_at_def region_headers_def)
next
  case Nil
  then have "rs = []" using assms by (auto simp: region_chunk_def rtotal_def)
  with Nil show ?thesis using assms
    by (auto simp: region_chunk_def chunk_at_def region_headers_def rtotal_def)
qed

lemma alloc_block_skip_region:
  assumes rc: "region_chunk c d off (r # rs)" and skip: "used r \<or> hsize r < len"
    and len: "len \<le> MAX_BLKSZ"
  shows "alloc_block c d off (word_of_nat len) = alloc_block c d (off + rtotal r) (word_of_nat len)"
proof -
  obtain u s ls where r: "r = Region u s ls" by (cases r)
  have hd: "headers_at d off (region_headers r)" and bound: "off + rtotal r < ARENA_SIZE c"
    using rc by (auto simp: region_chunk_def chunk_at_def)
  then have ls: "headers_at d (off + s) (map int ls)" and s: "0 < s"
    by (cases u; simp add: r region_headers_def)+
  have bs: "off + s + sum_list ls < ARENA_SIZE c"
    using bound by (simp add: r rtotal_def)
  have "alloc_block c d off (word_of_nat len) = alloc_block c d (off + s) (word_of_nat len)"
  proof (cases u)
    case True
    with hd s bs show ?thesis by (intro alloc_block_used) (auto simp: r region_headers_def)
  next
    case False
    with skip have sl: "s < len" by (simp add: r)
    have h: "sint (d off) = - int s" using hd False by (simp add: r region_headers_def)
    then have b: "block_size d off = s" by (simp add: block_size_header)
    have n: "d off \<noteq> 0" using h s by auto
    have nx: "\<not> sint (d (off + s)) < 0"
      using free_head_next[of c d off s ls rs] rc False sl len by (simp add: r)
    show ?thesis
      by (subst alloc_block.simps) (use h b n nx sl len bs in \<open>simp add: byte_simps\<close>)
  qed
  also have "\<dots> = alloc_block c d (off + s + sum_list ls) (word_of_nat len)"
    by (rule alloc_block_skip[OF ls bs])
  finally show ?thesis by (simp add: r rtotal_def add.assoc)
qed

lemma alloc_block_hit:
  assumes rc: "region_chunk c d off (r # rs)" and free: "\<not> used r" "len \<le> hsize r"
    and len: "0 < len"
  shows "\<exists>d'. alloc_block c d off (word_of_nat len) = Inr (d', off, Some (off + 1)) \<and>
           region_chunk c d' off (take_head len r # rs) \<and>
           (\<forall>x. x \<noteq> off \<longrightarrow> x \<noteq> off + len \<longrightarrow> d' x = d x)"
proof -
  obtain s ls where r: "r = Region False s ls" using free by (cases r) auto
  have hd: "headers_at d off (region_headers r)" and bound: "off + rtotal r < ARENA_SIZE c"
    using rc by (auto simp: region_chunk_def chunk_at_def)
  have h: "sint (d off) = - int s" using hd by (simp add: r region_headers_def)
  then have b: "block_size d off = s" by (simp add: block_size_header)
  have s127: "s \<le> 127" using rc by (simp add: r region_chunk_def region_pos_def rtotal_def)
  have n: "d off \<noteq> 0" using h free len by (auto simp: r)
  have off: "off + s < ARENA_SIZE c" using bound by (simp add: r rtotal_def)
  have ls: "headers_at d (off + s) (map int ls @ flat rs)"
    using rc by (auto simp: region_chunk_def chunk_at_def r region_headers_def rtotal_def)
  have fin: "off + rtotal r + rsum rs + 1 = ARENA_SIZE c" "d (off + rtotal r + rsum rs) = 0"
    using rc by (auto simp: region_chunk_def chunk_at_def add.assoc)
  have regs: "regions_ok (take_head len r # rs)"
    using rc free len rtotal_take_head[of len r]
    by (auto simp: region_chunk_def region_pos_def)
  show ?thesis
  proof (cases "s = len")
    case True
    let ?d = "d(off := - d off)"
    have "sint (?d off) = int s" using h s127 by (simp add: byte_simps)
    moreover have "headers_at ?d (off + s) (map int ls @ flat rs)"
      using ls len True by (subst headers_at_cong[of _ _ _ d]) auto
    ultimately have "region_chunk c ?d off (take_head len r # rs)"
      using regs fin len True
      by (auto simp: region_chunk_def chunk_at_def r region_headers_def rtotal_def add.assoc)
    moreover have "alloc_block c d off (word_of_nat len) = Inr (?d, off, Some (off + 1))"
      by (subst alloc_block.simps) (use h b n True s127 off len in \<open>simp add: byte_simps\<close>)
    ultimately show ?thesis by auto
  next
    case False
    with free have sl: "len < s" by (simp add: r)
    let ?d1 = "d(off := word_of_nat len)"
    let ?d = "?d1(off + len := word_of_nat s - word_of_nat len)"
    have e: "len + nat (int s - int len) = s"
      "\<And>k. len + (nat (int s - int len) + k) = s + k" using sl by auto
    have b1: "block_size ?d1 off = len"
      using sl s127 by (simp add: block_size_def byte_simps)
    have "(word_of_nat s - word_of_nat len :: 8 word) = word_of_nat (s - len)"
      using sl by (simp add: of_nat_diff)
    then have "sint (?d (off + len)) = int (s - len)"
      using s127 by (simp add: byte_simps)
    moreover have "sint (?d off) = int len"
      using len sl s127 by (simp add: byte_simps)
    moreover have "headers_at ?d (off + s) (map int ls @ flat rs)"
      using ls sl by (subst headers_at_cong[of _ _ _ d]) auto
    ultimately have "region_chunk c ?d off (take_head len r # rs)"
      using regs fin len sl
      by (auto simp: region_chunk_def chunk_at_def r region_headers_def rtotal_def add.assoc e)
    moreover have "alloc_block c d off (word_of_nat len) = Inr (?d, off, Some (off + 1))"
      by (subst alloc_block.simps)
        (use h b b1 n sl s127 off len in \<open>simp add: byte_simps split_block_def Let_def\<close>)
    ultimately show ?thesis by auto
  qed
qed

lemma region_chunk_Cons:
  "region_chunk c d off (r # rs) \<longleftrightarrow>
     headers_at d off (region_headers r) \<and> region_pos r \<and> (rs \<noteq> [] \<longrightarrow> rtotal r = MAX_BLKSZ) \<and>
     region_chunk c d (off + rtotal r) rs"
  by (auto simp: region_chunk_def chunk_at_def add.assoc)

lemma region_chunk_frame:
  assumes "region_chunk c d off (xs @ ys)"
    and "region_chunk c d' (off + rsum xs) ys'" and "ys' = [] \<longleftrightarrow> ys = []"
    and "\<And>x. x < off + rsum xs \<Longrightarrow> d' x = d x"
  shows "region_chunk c d' off (xs @ ys')"
  using assms
proof (induction xs arbitrary: off)
  case (Cons r xs)
  have "region_chunk c d' (off + rtotal r) (xs @ ys')"
    using Cons.prems by (intro Cons.IH) (auto simp: region_chunk_Cons add.assoc)
  moreover have "headers_at d' off (region_headers r) = headers_at d off (region_headers r)"
    using Cons.prems(4) by (intro headers_at_cong) auto
  ultimately show ?case using Cons.prems by (auto simp: region_chunk_Cons)
qed simp

lemma alloc_block_None:
  assumes "region_chunk c d off rs" "fit len rs = None" "len \<le> MAX_BLKSZ"
  shows "alloc_block c d off (word_of_nat len) = Inr (d, off + rsum rs, None)"
  using assms
proof (induction rs arbitrary: off)
  case Nil
  then show ?case by (simp add: region_chunk_end)
next
  case (Cons r rs)
  then have "used r \<or> hsize r < len" and "fit len rs = None" by (auto split: if_splits)
  with Cons show ?case
    by (subst alloc_block_skip_region[of _ _ _ r rs]) (auto simp: region_chunk_Cons add.assoc)
qed

lemma alloc_block_Some:
  assumes "region_chunk c d off rs" "fit len rs = Some (xs, r, ys)" "0 < len" "len \<le> MAX_BLKSZ"
  shows "\<exists>d'. alloc_block c d off (word_of_nat len) =
                Inr (d', off + rsum xs, Some (off + rsum xs + 1)) \<and>
           region_chunk c d' off (xs @ take_head len r # ys) \<and>
           (\<forall>x. x \<noteq> off + rsum xs \<longrightarrow> x \<noteq> off + rsum xs + len \<longrightarrow> d' x = d x)"
  using assms
proof (induction rs arbitrary: off xs)
  case (Cons r0 rs)
  show ?case
  proof (cases "\<not> used r0 \<and> len \<le> hsize r0")
    case True
    with Cons.prems have "xs = []" "r = r0" "ys = rs" by auto
    with True Cons.prems show ?thesis
      using alloc_block_hit[of c d off r0 rs len] by simp
  next
    case False
    with Cons.prems(2) obtain xs' where xs: "xs = r0 # xs'" and fit: "fit len rs = Some (xs', r, ys)"
      by (auto split: if_splits)
    have rc: "region_chunk c d (off + rtotal r0) rs" using Cons.prems(1) by (simp add: region_chunk_Cons)
    from Cons.IH[OF rc fit Cons.prems(3,4)] obtain d' where
      d': "alloc_block c d (off + rtotal r0) (word_of_nat len) =
             Inr (d', off + rsum xs, Some (off + rsum xs + 1))"
        "region_chunk c d' (off + rtotal r0) (xs' @ take_head len r # ys)"
      and fr: "\<forall>x. x \<noteq> off + rsum xs \<longrightarrow> x \<noteq> off + rsum xs + len \<longrightarrow> d' x = d x"
      by (auto simp: xs add.assoc)
    have "alloc_block c d off (word_of_nat len) = alloc_block c d (off + rtotal r0) (word_of_nat len)"
      using False Cons.prems by (intro alloc_block_skip_region[of _ _ _ _ rs]) auto
    moreover have "region_chunk c d' off ([r0] @ (xs' @ take_head len r # ys))"
    proof (rule region_chunk_frame[of c d off "[r0]" rs])
      show "region_chunk c d off ([r0] @ rs)" using Cons.prems(1) by simp
      show "region_chunk c d' (off + rsum [r0]) (xs' @ take_head len r # ys)" using d'(2) by simp
      show "(xs' @ take_head len r # ys = []) = (rs = [])" using fit by auto
      show "\<And>x. x < off + rsum [r0] \<Longrightarrow> d' x = d x" using fr by (auto simp: xs)
    qed
    ultimately show ?thesis using d'(1) fr by (auto simp: xs)
  qed
qed simp

section \<open>A fresh chunk\<close>

text \<open>\<open>init_chunk\<close> needs room for one full block; the header size and the arena size the code
  is built with leave far more.\<close>

definition cfg_ok :: "arena_cfg \<Rightarrow> bool" where
  "cfg_ok c \<longleftrightarrow> sizeof_arena_t c + MAX_BLKSZ < ARENA_SIZE c"

definition fresh_regions :: "nat \<Rightarrow> nat \<Rightarrow> region list" where
  "fresh_regions n r =
     replicate n (Region False MAX_BLKSZ []) @ (if r = 0 then [] else [Region False r []])"

lemma init_chunk_loop_spec:
  assumes "init_chunk_loop c d off = (d', off')" and "off < ARENA_SIZE c"
  shows "off' < ARENA_SIZE c \<and> ARENA_SIZE c \<le> off' + MAX_BLKSZ \<and>
     (\<exists>n. off' = off + MAX_BLKSZ * n \<and> (off + MAX_BLKSZ < ARENA_SIZE c \<longrightarrow> 0 < n) \<and>
          headers_at d' off (replicate n (- 127))) \<and>
     (\<forall>x<off. d' x = d x)"
  using assms
proof (induction c d off rule: init_chunk_loop.induct)
  case (1 c d off)
  show ?case
  proof (cases "off + MAX_BLKSZ < ARENA_SIZE c")
    case True
    let ?d = "d(off := word_of_int (- int MAX_BLKSZ))"
    have "init_chunk_loop c ?d (off + MAX_BLKSZ) = (d', off')"
      using 1(2) True by (subst (asm) init_chunk_loop.simps) simp
    from 1(1)[OF True this True] obtain n where n: "off' = off + MAX_BLKSZ + MAX_BLKSZ * n"
      "headers_at d' (off + MAX_BLKSZ) (replicate n (- 127))"
      and b: "off' < ARENA_SIZE c" "ARENA_SIZE c \<le> off' + MAX_BLKSZ"
      and fr: "\<forall>x<off + MAX_BLKSZ. d' x = ?d x"
      by auto
    have "sint (d' off) = - 127" using fr by (simp add: byte_simps)
    then have "headers_at d' off (replicate (Suc n) (- 127))" using n(2) by simp
    moreover have "off' = off + MAX_BLKSZ * Suc n" using n(1) by simp
    moreover have "\<forall>x<off. d' x = d x" using fr by simp
    ultimately show ?thesis using b by (intro conjI exI[of _ "Suc n"]) auto
  next
    case False
    then have "d' = d" "off' = off"
      using 1(2) by (subst (asm) init_chunk_loop.simps; simp)+
    with False 1(3) show ?thesis by (intro conjI exI[of _ "0::nat"]) auto
  qed
qed

lemma flat_fresh:
  "flat (fresh_regions n r) =
     replicate n (- 127) @ (if r = 0 then [] else [- int r])"
  by (induction n) (auto simp: fresh_regions_def region_headers_def)

lemma regions_ok_fresh: "r \<le> MAX_BLKSZ \<Longrightarrow> regions_ok (fresh_regions n r)"
  by (induction n) (auto simp: fresh_regions_def region_pos_def rtotal_def)

lemma rsum_fresh: "rsum (fresh_regions n r) = MAX_BLKSZ * n + r"
  by (induction n) (auto simp: fresh_regions_def rtotal_def)

lemma init_chunk_regions:
  assumes "cfg_ok c"
  shows "\<exists>n r. 0 < n \<and> region_chunk c (init_chunk c d) (sizeof_arena_t c) (fresh_regions n r)"
proof -
  let ?o = "sizeof_arena_t c"
  obtain d1 off where l: "init_chunk_loop c d ?o = (d1, off)" by fastforce
  from init_chunk_loop_spec[OF l] assms obtain n where n: "off = ?o + MAX_BLKSZ * n" "0 < n"
    "headers_at d1 ?o (replicate n (- 127))"
    and b: "off < ARENA_SIZE c" "ARENA_SIZE c \<le> off + MAX_BLKSZ"
    by (auto simp: cfg_ok_def)
  define r where "r = ARENA_SIZE c - 1 - off"
  have r: "off + r + 1 = ARENA_SIZE c" "r \<le> 126" using b by (auto simp: r_def)
  let ?d = "init_chunk c d"
  have d: "?d = (d1(off := word_of_int (- int r)))(off + r := 0)"
  proof -
    have "int (ARENA_SIZE c) - 1 - int off = int r" "ARENA_SIZE c - 1 = off + r" using r by auto
    then show ?thesis by (simp only: init_chunk_def l Let_def prod.case)
  qed
  have hs: "hsum (replicate n (- 127)) = MAX_BLKSZ * n"
    by (induction n) auto
  have "headers_at ?d ?o (replicate n (- 127))"
    using n by (subst headers_at_cong[of _ _ _ d1]) (auto simp: d hs)
  moreover have "r \<noteq> 0 \<Longrightarrow> sint (?d off) = - int r"
    using r(2) by (simp add: d byte_simps)
  ultimately have "headers_at ?d ?o (flat (fresh_regions n r))"
    using n(1) hs by (auto simp: flat_fresh)
  then have "region_chunk c ?d ?o (fresh_regions n r)"
    using r n(1) regions_ok_fresh[of r n]
    by (auto simp: region_chunk_def chunk_at_def rsum_fresh d)
  with n(2) show ?thesis by blast
qed

section \<open>The live pointers of a chunk, and freeing one\<close>

fun live_offs :: "nat \<Rightarrow> region list \<Rightarrow> nat set" where
  "live_offs off [] = {}"
| "live_offs off (r # rs) = (if used r then {off + 1} else {}) \<union> live_offs (off + rtotal r) rs"

fun free_head :: "region \<Rightarrow> region" where
  "free_head (Region u s ls) = Region False s ls"

text \<open>The part of \<open>strfree\<close> that works inside the arena of the pointer.\<close>

definition str_release :: "arena_cfg \<Rightarrow> chunk \<Rightarrow> nat \<Rightarrow> chunk run" where
  "str_release c d off =
     (if \<not> 0 < sint (d (off - 1)) then Inl Assert_fails
      else bind_run (free_walk d (sizeof_arena_t c) (off - 1)) (\<lambda>ptr.
        if ptr \<noteq> off - 1 then Inl Assert_fails
        else if d ptr = 0 then Inl Assert_fails
        else Inr (d(ptr := - d ptr))))"

definition str_repr :: "arena_cfg \<Rightarrow> chunk \<Rightarrow> region list \<Rightarrow> bool" where
  "str_repr c d rs \<longleftrightarrow> region_chunk c d (sizeof_arena_t c) rs"

lemma live_offs_append [simp]:
  "live_offs off (xs @ ys) = live_offs off xs \<union> live_offs (off + rsum xs) ys"
  by (induction xs arbitrary: off) (auto simp: add.assoc)

lemma live_offs_range:
  "regions_ok rs \<Longrightarrow> x \<in> live_offs off rs \<Longrightarrow> off < x \<and> x \<le> off + rsum rs"
proof (induction rs arbitrary: off)
  case (Cons r rs)
  have "0 < rtotal r" using Cons.prems(1) by (auto simp: region_pos_def rtotal_def)
  with Cons show ?case by (fastforce split: if_splits)
qed simp

lemma live_offsE:
  assumes "x \<in> live_offs off rs"
  obtains xs r ys where "rs = xs @ r # ys" "used r" "x = off + rsum xs + 1"
  using assms
proof (induction rs arbitrary: off thesis)
  case (Cons r rs)
  show ?case
  proof (cases "used r \<and> x = off + 1")
    case True
    then show ?thesis using Cons.prems(1)[of "[]" r rs] by simp
  next
    case False
    then have "x \<in> live_offs (off + rtotal r) rs" using Cons.prems(2) by (auto split: if_splits)
    then obtain xs r' ys where "rs = xs @ r' # ys" "used r'" "x = off + rtotal r + rsum xs + 1"
      using Cons.IH by blast
    then show ?thesis using Cons.prems(1)[of "r # xs" r' ys] by simp
  qed
qed simp

lemma live_offs_fresh [simp]: "live_offs off (fresh_regions n r) = {}"
  by (induction n arbitrary: off) (auto simp: fresh_regions_def)

lemma region_parts_ok:
  assumes "regions_ok (xs @ r # ys)"
  shows "regions_ok xs" "regions_ok ys" "0 < rtotal r"
  using assms by (auto simp: regions_ok_append region_pos_def rtotal_def)

text \<open>What a change of one region does to the live pointers.\<close>

lemma live_offs_change:
  assumes "regions_ok (xs @ r # ys)" and "rtotal r' = rtotal r"
  shows "used r' \<Longrightarrow> live_offs off (xs @ r' # ys) =
           insert (off + rsum xs + 1) (live_offs off (xs @ r # ys))"
    and "\<not> used r' \<Longrightarrow> live_offs off (xs @ r' # ys) =
           live_offs off (xs @ r # ys) - {off + rsum xs + 1}"
    and "\<not> used r \<Longrightarrow> off + rsum xs + 1 \<notin> live_offs off (xs @ r # ys)"
  using assms(2) region_parts_ok[OF assms(1)]
    live_offs_range[of xs "off + rsum xs + 1" off]
    live_offs_range[of ys "off + rsum xs + 1" "off + rsum xs + rtotal r"]
  by auto

lemma free_walk_headers:
  "headers_at d off hs \<Longrightarrow> free_walk d off (off + hsum hs + k) = free_walk d (off + hsum hs) (off + hsum hs + k)"
proof (induction hs arbitrary: off)
  case (Cons h hs)
  then have "free_walk d off (off + hsum (h # hs) + k) =
             free_walk d (off + nat \<bar>h\<bar>) (off + hsum (h # hs) + k)"
    by (subst free_walk.simps) (auto simp: block_size_header)
  moreover have "headers_at d (off + nat \<bar>h\<bar>) hs" using Cons.prems by simp
  ultimately show ?case using Cons.IH[of "off + nat \<bar>h\<bar>"] by (simp add: add.assoc)
qed simp

lemma str_release_live:
  assumes rc: "region_chunk c d (sizeof_arena_t c) (xs @ r # ys)" and u: "used r"
  defines "off \<equiv> sizeof_arena_t c + rsum xs"
  shows "str_release c d (off + 1) = Inr (d(off := - d off))"
    and "region_chunk c (d(off := - d off)) (sizeof_arena_t c) (xs @ free_head r # ys)"
proof -
  obtain s ls where r: "r = Region True s ls" using u by (cases r) auto
  have tail: "region_chunk c d off (r # ys)" using region_chunk_tail[OF rc] by (simp add: off_def)
  then have h: "sint (d off) = int s" and s: "0 < s" "s \<le> 127"
    by (auto simp: r region_chunk_Cons region_headers_def region_pos_def rtotal_def)
  have "headers_at d (sizeof_arena_t c) (flat xs)"
    using rc by (simp add: region_chunk_def chunk_at_def)
  from free_walk_headers[OF this, of 0] have "free_walk d (sizeof_arena_t c) off = Inr off"
    by (simp add: off_def free_walk.simps)
  moreover have "d off \<noteq> 0" using h s by auto
  ultimately show "str_release c d (off + 1) = Inr (d(off := - d off))"
    using h s by (simp add: str_release_def)
  let ?d = "d(off := - d off)"
  have nh: "sint (?d off) = - int s" using h s by (simp add: byte_simps)
  have cong1: "headers_at ?d (off + s) (map int ls) = headers_at d (off + s) (map int ls)"
    by (rule headers_at_cong) (use s in auto)
  have pos: "0 < rtotal r" using s by (simp add: r rtotal_def)
  have "headers_at ?d (off + rtotal r) (flat ys) = headers_at d (off + rtotal r) (flat ys)"
    by (rule headers_at_cong) (use pos in auto)
  then have cong2: "region_chunk c ?d (off + rtotal r) ys = region_chunk c d (off + rtotal r) ys"
    using pos by (simp add: region_chunk_def chunk_at_def)
  have "region_chunk c ?d off (free_head r # ys)"
    using tail nh s cong1 cong2
    by (simp add: r region_chunk_Cons region_headers_def region_pos_def rtotal_def)
  then have "region_chunk c ?d (sizeof_arena_t c + rsum xs) (free_head r # ys)"
    unfolding off_def .
  then show "region_chunk c ?d (sizeof_arena_t c) (xs @ free_head r # ys)"
    by (rule region_chunk_frame[OF rc]) (simp_all add: off_def)
qed

interpretation str: arena_client c "str_repr c" "live_offs (sizeof_arena_t c)" "map rtotal" "str_release c"
  for c
proof
  fix d rs off
  assume rep: "str_repr c d rs" and off: "off \<in> live_offs (sizeof_arena_t c) rs"
  then have ok: "regions_ok rs" by (simp add: str_repr_def region_chunk_def)
  show "0 < off \<and> off < ARENA_SIZE c"
    using live_offs_range[OF ok off] region_chunk_bound[of c d "sizeof_arena_t c" rs] rep
    by (auto simp: str_repr_def)
  obtain xs r ys where rs: "rs = xs @ r # ys" and u: "used r"
    and o': "off = sizeof_arena_t c + rsum xs + 1"
    using off by (rule live_offsE)
  let ?k = "sizeof_arena_t c + rsum xs"
  have "\<not> used (free_head r)" "rtotal (free_head r) = rtotal r"
    by (cases r; simp add: rtotal_def)+
  then have "live_offs (sizeof_arena_t c) (xs @ free_head r # ys) =
             live_offs (sizeof_arena_t c) rs - {off}"
    using live_offs_change(2)[of xs r ys "free_head r" "sizeof_arena_t c"] ok by (simp add: rs o')
  with str_release_live[of c d xs r ys] rep u
  show "\<exists>h' a'. str_release c d off = Inr h' \<and> str_repr c h' a' \<and>
          live_offs (sizeof_arena_t c) a' = live_offs (sizeof_arena_t c) rs - {off} \<and>
          map rtotal a' = map rtotal rs"
    unfolding str_repr_def rs o' using \<open>rtotal (free_head r) = rtotal r\<close>
    by (intro exI[of _ "d(?k := - d ?k)"] exI[of _ "xs @ free_head r # ys"]) auto
qed

lemma byte_at_arena:
  assumes "arenas_apart c (bases al)" and "arena_at al ar = Some d" and "off < ARENA_SIZE c"
  shows "byte_at c al (ar + off) = Inr (d off)"
  using assms
proof (induction al)
  case (Cons a al)
  show ?case
  proof (cases "fst a = ar")
    case False
    then have at: "arena_at al ar = Some d" using Cons.prems(2) by (simp add: arena_at_def)
    then have "ar \<in> set (bases al)" by (force simp: arena_at_def dest: map_of_SomeD)
    then have "apart c (fst a) ar" using Cons.prems(1) by (auto simp: list_all_iff)
    with False at Cons show ?thesis by (auto simp: apart_def)
  qed (use Cons.prems in \<open>auto simp: arena_at_def\<close>)
qed (simp add: arena_at_def)

text \<open>On a pointer into an arena, \<open>strfree\<close> is the generic release through the arena list.\<close>

lemma strfree_pool:
  assumes ap: "arenas_apart c (bases (arenas h))" and find: "find_ptr_arena c (arenas h) ptr = Some ar"
  shows "strfree c h (Some ptr) =
           bind_run (pool_free c (str_release c) (arenas h) ptr) (\<lambda>al. Inr (h\<lparr>arenas := al\<rparr>))"
proof -
  have ar: "ar \<in> set (bases (arenas h))" "ar < ptr" "ptr < ar + ARENA_SIZE c"
    using find_ptr_arena_Some[OF find] by auto
  then obtain d where d: "arena_at (arenas h) ar = Some d"
    unfolding arena_at_def by (metis list.set_map map_of_eq_None_iff option.exhaust)
  have "byte_at c (arenas h) (ar + (ptr - ar - 1)) = Inr (d (ptr - ar - 1))"
    using ar by (intro byte_at_arena[OF ap d]) auto
  moreover have "ar + (ptr - ar - 1) = ptr - Suc 0" using ar by simp
  ultimately have b: "byte_at c (arenas h) (ptr - Suc 0) = Inr (d (ptr - Suc ar))" by simp
  show ?thesis
    by (cases "free_walk d (sizeof_arena_t c) (ptr - ar - 1)")
      (simp_all add: strfree_def b find d pool_free_def str_release_def)
qed

section \<open>The whole allocator\<close>

text \<open>
  The invariant of the allocator's state: every arena is well formed and the cursor stands at
  the start of a region of the current arena. The ghost value is the list of regions of each
  arena; the live pointers are the used heads.
\<close>

definition cursor_ok :: "arena_cfg \<Rightarrow> str_heap \<Rightarrow> region list list \<Rightarrow> bool" where
  "cursor_ok c h rss \<longleftrightarrow>
     (case cur_arena h of
        None \<Rightarrow> arenas h = []
      | Some ar \<Rightarrow> \<exists>i us vs. i < length (arenas h) \<and> fst (arenas h ! i) = ar \<and>
                   rss ! i = us @ vs \<and> cur_offset h = sizeof_arena_t c + rsum us)"

definition str_inv :: "arena_cfg \<Rightarrow> str_heap \<Rightarrow> region list list \<Rightarrow> bool" where
  "str_inv c h rss \<longleftrightarrow> pool_ok c (str_repr c) (arenas h) rss \<and> cursor_ok c h rss"

definition str_live :: "arena_cfg \<Rightarrow> str_heap \<Rightarrow> region list list \<Rightarrow> nat set" where
  "str_live c h rss = pool_live (live_offs (sizeof_arena_t c)) (arenas h) rss"

definition stralloc_post :: "arena_cfg \<Rightarrow> nat \<Rightarrow> nat set \<Rightarrow> (str_heap \<times> nat) run \<Rightarrow> bool" where
  "stralloc_post c len L res \<longleftrightarrow>
     (\<exists>h' p rss'. res = Inr (h', p) \<and> str_inv c h' rss' \<and> p \<notin> L \<and>
        str_live c h' rss' = insert p L \<and> byte_at c (arenas h') (p - 1) = Inr (word_of_nat len))"

lemma cursor_okI:
  "cur_arena h = Some ar \<Longrightarrow> i < length (arenas h) \<Longrightarrow> fst (arenas h ! i) = ar \<Longrightarrow>
     rss ! i = us @ vs \<Longrightarrow> cur_offset h = sizeof_arena_t c + rsum us \<Longrightarrow> cursor_ok c h rss"
  by (auto simp: cursor_ok_def)

lemma pool_bases_distinct:
  assumes "pool_ok c (str_repr c) al rss" and "cfg_ok c"
  shows "distinct (bases al)"
  using assms by (intro arenas_apart_distinct[of c]) (auto simp: pool_ok_def cfg_ok_def)

lemma split_nth:
  "j < length xs \<Longrightarrow> xs ! j = x \<Longrightarrow> xs = take j xs @ x # drop (Suc j) xs"
  by (metis id_take_nth_drop)

lemma alloc_block_found:
  assumes rep: "str_repr c d (us @ vs)" and fit: "fit len vs = Some (ps, r, qs)"
    and len: "0 < len" "len \<le> MAX_BLKSZ"
  defines "k \<equiv> sizeof_arena_t c + rsum us + rsum ps"
  shows "\<exists>d'. alloc_block c d (sizeof_arena_t c + rsum us) (word_of_nat len) = Inr (d', k, Some (k + 1)) \<and>
           str_repr c d' ((us @ ps) @ take_head len r # qs) \<and> d' k = word_of_nat len \<and> k < ARENA_SIZE c \<and>
           live_offs (sizeof_arena_t c) ((us @ ps) @ take_head len r # qs) =
             insert (k + 1) (live_offs (sizeof_arena_t c) (us @ vs)) \<and>
           k + 1 \<notin> live_offs (sizeof_arena_t c) (us @ vs)"
proof -
  have rc: "region_chunk c d (sizeof_arena_t c) (us @ vs)" using rep by (simp add: str_repr_def)
  have vs: "vs = ps @ r # qs" and r: "\<not> used r" "len \<le> hsize r" using fit_Some[OF fit] by auto
  from alloc_block_Some[OF region_chunk_tail[OF rc] fit len] obtain d' where
    al: "alloc_block c d (sizeof_arena_t c + rsum us) (word_of_nat len) = Inr (d', k, Some (k + 1))"
    and rc': "region_chunk c d' (sizeof_arena_t c + rsum us) (ps @ take_head len r # qs)"
    and fr: "\<forall>x. x \<noteq> k \<longrightarrow> x \<noteq> k + len \<longrightarrow> d' x = d x"
    unfolding k_def by blast
  have rep': "region_chunk c d' (sizeof_arena_t c) (us @ (ps @ take_head len r # qs))"
    by (rule region_chunk_frame[OF rc rc']) (use fr in \<open>auto simp: vs k_def\<close>)
  have "region_chunk c d' k (take_head len r # qs)"
    using region_chunk_tail[OF rc'] by (simp add: k_def add.assoc)
  then have "sint (d' k) = int len" and kb: "k < ARENA_SIZE c"
    using region_chunk_bound[of c d' k "take_head len r # qs"]
    by (auto simp: region_chunk_Cons region_headers_def)
  then have "sint (d' k) = sint (word_of_nat len :: 8 word)" using len by (simp add: byte_simps)
  then have hd: "d' k = word_of_nat len" by (rule signed_word_eqI)
  have ok: "regions_ok ((us @ ps) @ r # qs)" using rc by (simp add: region_chunk_def vs)
  note live = live_offs_change[OF ok, of "take_head len r" "sizeof_arena_t c"]
  have t: "rtotal (take_head len r) = rtotal r" using r(2) by (rule rtotal_take_head)
  show ?thesis
    using al rep' hd kb live(1)[OF t] live(3)[OF t r(1)]
    by (simp add: str_repr_def vs k_def add.assoc)
qed

lemma attempt_found:
  assumes ok: "pool_ok c (str_repr c) (xs @ (ar, d) # ys) (as @ (us @ vs) # bs)"
    and len: "length xs = length as" and c: "cfg_ok c"
    and h: "arenas h = xs @ (ar, d) # ys" "cur_offset h = sizeof_arena_t c + rsum us"
    and fit: "fit len vs = Some (ps, r, qs)" and l: "0 < len" "len \<le> MAX_BLKSZ"
  shows "stralloc_post c len (pool_live (live_offs (sizeof_arena_t c)) (xs @ (ar, d) # ys) (as @ (us @ vs) # bs))
           (stralloc_loop c mm (Suc n) h ar (word_of_nat len))"
proof -
  let ?k = "sizeof_arena_t c + rsum us + rsum ps" and ?rs = "(us @ ps) @ take_head len r # qs"
  have ne: "ar \<notin> set (bases xs)" using pool_bases_distinct[OF ok c] by auto
  from ok len have rep: "str_repr c d (us @ vs)" by (simp add: pool_ok_split)
  from alloc_block_found[OF rep fit l] obtain d' where
    al: "alloc_block c d (cur_offset h) (word_of_nat len) = Inr (d', ?k, Some (?k + 1))"
    and rep': "str_repr c d' ?rs" and hd: "d' ?k = word_of_nat len" "?k < ARENA_SIZE c"
    and lv: "live_offs (sizeof_arena_t c) ?rs = insert (?k + 1) (live_offs (sizeof_arena_t c) (us @ vs))"
      "?k + 1 \<notin> live_offs (sizeof_arena_t c) (us @ vs)"
    unfolding h by blast
  note pool = str.pool_alloc[OF ok len rep' lv]
  let ?h = "h\<lparr>arenas := xs @ (ar, d') # ys, cur_arena := Some ar, cur_offset := ?k\<rparr>"
  have res: "stralloc_loop c mm (Suc n) h ar (word_of_nat len) = Inr (?h, ar + (?k + 1))"
    using al by (simp add: h arena_at_split[OF ne] arena_put_split[OF ne] Let_def)
  have "cursor_ok c ?h (as @ ?rs # bs)"
    by (rule cursor_okI[of _ ar "length xs" _ "us @ ps" "take_head len r # qs"])
      (simp_all add: len nth_append)
  moreover have "byte_at c (xs @ (ar, d') # ys) (ar + ?k) = Inr (d' ?k)"
    using pool(1) hd(2) by (intro byte_at_arena arena_at_split[OF ne]) (auto simp: pool_ok_def)
  ultimately show ?thesis
    unfolding stralloc_post_def res str_inv_def str_live_def
    using pool hd by (intro exI[of _ ?h] exI[of _ "ar + (?k + 1)"] exI[of _ "as @ ?rs # bs"]) simp
qed

lemma next_arena_index:
  assumes "distinct (bases al)" and "j < length al"
  shows "next_or_first al (fst (al ! j)) = Some (fst (al ! (Suc j mod length al)))"
proof -
  have split: "al = take j al @ (fst (al ! j), snd (al ! j)) # drop (Suc j) al"
    using assms(2) by (simp add: id_take_nth_drop[symmetric])
  have ne: "fst (al ! j) \<notin> set (bases (take j al))"
    using assms by (subst (asm) split) auto
  have nx: "arena_next al (fst (al ! j)) = arena_first (drop (Suc j) al)"
    by (subst (1) split) (rule arena_next_split[OF ne])
  show ?thesis
  proof (cases "Suc j < length al")
    case True
    then show ?thesis by (simp add: next_or_first_def nx arena_first_def Cons_nth_drop_Suc[symmetric])
  next
    case False
    then have "Suc j = length al" using assms(2) by simp
    then have "arena_next al (fst (al ! j)) = None" by (simp add: nx arena_first_def)
    moreover have "arena_first al = Some (fst (al ! 0))"
      using assms(2) by (cases al) (simp_all add: arena_first_def)
    ultimately show ?thesis using \<open>Suc j = length al\<close> by (simp add: next_or_first_def)
  qed
qed

lemma fit_fresh:
  "0 < n \<Longrightarrow> len \<le> MAX_BLKSZ \<Longrightarrow> \<exists>r qs. fit len (fresh_regions n k) = Some ([], r, qs)"
  by (cases n) (auto simp: fresh_regions_def)

lemma attempt_fresh:
  assumes ok: "pool_ok c (str_repr c) (xs @ ys) (as @ bs)" and len: "length xs = length as"
    and c: "cfg_ok c" and nb: "\<forall>b\<in>set (bases (xs @ ys)). apart c nb b"
    and h: "arenas h = xs @ (nb, init_chunk c d) # ys" "cur_offset h = sizeof_arena_t c"
    and l: "0 < len" "len \<le> MAX_BLKSZ"
  shows "stralloc_post c len (pool_live (live_offs (sizeof_arena_t c)) (xs @ ys) (as @ bs))
           (stralloc_loop c mm (Suc n) h nb (word_of_nat len))"
proof -
  obtain m k where "0 < m" and rep: "str_repr c (init_chunk c d) (fresh_regions m k)"
    using init_chunk_regions[OF c, of d] by (auto simp: str_repr_def)
  then obtain r qs where fit: "fit len (fresh_regions m k) = Some ([], r, qs)"
    using fit_fresh l by blast
  note pool = str.pool_add[OF ok len rep _ nb]
  then have "pool_ok c (str_repr c) (xs @ (nb, init_chunk c d) # ys) (as @ ([] @ fresh_regions m k) # bs)"
    by simp
  from attempt_found[OF this len c h(1) _ fit l] h(2) pool(2) show ?thesis by simp
qed

lemma mod_steps:
  assumes "(j + k) mod L = i" "1 < k" "(0::nat) < L"
  shows "(Suc j mod L + (k - 1)) mod L = i"
  using assms by (cases k) (simp_all add: mod_add_left_eq)

lemma mod_no_return: "i < L \<Longrightarrow> 0 < k \<Longrightarrow> k < L \<Longrightarrow> (i + k) mod L \<noteq> (i :: nat)"
  by (cases "i + k < L") (auto simp: le_mod_geq)

lemma stralloc_loop_post:
  assumes ok: "pool_ok c (str_repr c) al rss" and c: "cfg_ok c" and fresh: "mmap_fresh c mm al"
    and l: "0 < len" "len \<le> MAX_BLKSZ" and i: "i < length al"
    and "arenas h = al" "j < length al" "rss ! j = us @ vs"
    and "cur_offset h = sizeof_arena_t c + rsum us" "cur_arena h = Some (fst (al ! i))"
    and "(j + k) mod length al = i" "0 < k" "\<forall>k'. 0 < k' \<and> k' < k \<longrightarrow> (j + k') mod length al \<noteq> i"
    and "k < n"
  shows "stralloc_post c len (pool_live (live_offs (sizeof_arena_t c)) al rss)
           (stralloc_loop c mm n h (fst (al ! j)) (word_of_nat len))"
  using assms(7-)
proof (induction n arbitrary: h j us vs k)
  case (Suc n)
  let ?L = "length al" and ?ar = "fst (al ! j)" and ?d = "snd (al ! j)"
  have L: "length rss = ?L" using pool_ok_length[OF ok] by simp
  have dist: "distinct (bases al)" by (rule pool_bases_distinct[OF ok c])
  have sal: "al = take j al @ (?ar, ?d) # drop (Suc j) al"
    using Suc.prems(2) by (simp add: id_take_nth_drop[symmetric])
  have srs: "rss = take j rss @ (us @ vs) # drop (Suc j) rss"
    using Suc.prems(2,3) L by (metis id_take_nth_drop)
  have lj: "length (take j al) = length (take j rss)" using L by simp
  have ok': "pool_ok c (str_repr c) (take j al @ (?ar, ?d) # drop (Suc j) al)
               (take j rss @ (us @ vs) # drop (Suc j) rss)"
    using ok sal srs by simp
  show ?case
  proof (cases "fit len vs")
    case (Some res)
    obtain ps r qs where "res = (ps, r, qs)" by (cases res)
    with Some have fit: "fit len vs = Some (ps, r, qs)" by simp
    have ha: "arenas h = take j al @ (?ar, ?d) # drop (Suc j) al" using sal Suc.prems(1) by simp
    have "stralloc_post c len
            (pool_live (live_offs (sizeof_arena_t c)) (take j al @ (?ar, ?d) # drop (Suc j) al)
              (take j rss @ (us @ vs) # drop (Suc j) rss))
            (stralloc_loop c mm (Suc n) h ?ar (word_of_nat len))"
      by (rule attempt_found[OF ok' lj c ha Suc.prems(4) fit l])
    then show ?thesis unfolding sal[symmetric] srs[symmetric] .
  next
    case None
    have rep: "str_repr c ?d (us @ vs)" using iffD1[OF pool_ok_split[OF lj] ok'] by blast
    then have "region_chunk c ?d (sizeof_arena_t c + rsum us) vs"
      unfolding str_repr_def by (rule region_chunk_tail)
    then have al: "alloc_block c ?d (cur_offset h) (word_of_nat len) =
                 Inr (?d, cur_offset h + rsum vs, None)"
      using alloc_block_None[OF _ None l(2)] Suc.prems(4) by simp
    have ne: "?ar \<notin> set (bases (take j al))" using dist by (subst (asm) sal) auto
    have at: "arena_at al ?ar = Some ?d" by (subst (1) sal) (rule arena_at_split[OF ne])
    have put: "arena_put al ?ar ?d = al"
      by (subst (1) sal) (subst arena_put_split[OF ne], rule sal[symmetric])
    let ?j = "Suc j mod ?L"
    have j': "?j < ?L" using Suc.prems(2) mod_less_divisor[of ?L "Suc j"] by linarith
    let ?h = "h\<lparr>cur_offset := sizeof_arena_t c\<rparr>"
    have hh: "h\<lparr>arenas := al, cur_offset := sizeof_arena_t c\<rparr> = ?h" using Suc.prems(1) by simp
    define al' where "al' = take (Suc i) al @ (mm ?L, init_chunk c zero_chunk) # drop (Suc i) al"
    have step: "stralloc_loop c mm (Suc n) h ?ar (word_of_nat len) =
        (if fst (al ! ?j) = fst (al ! i)
         then (case arena_next (insert_after_arena al (fst (al ! ?j)) (mm ?L, init_chunk c zero_chunk))
                      (fst (al ! ?j)) of
                 None \<Rightarrow> Inl Null_deref
               | Some ar2 \<Rightarrow> stralloc_loop c mm n
                   (?h\<lparr>arenas := insert_after_arena al (fst (al ! ?j)) (mm ?L, init_chunk c zero_chunk)\<rparr>)
                   ar2 (word_of_nat len))
         else stralloc_loop c mm n ?h (fst (al ! ?j)) (word_of_nat len))"
      by (simp add: at al put Let_def next_arena_index[OF dist Suc.prems(2)] hh Suc.prems(1,5)
          cong: option.case_cong)
    show ?thesis
    proof (cases "k = 1")
      case True
      then have ji: "?j = i" using Suc.prems(6) by simp
      have sali: "al = take i al @ (fst (al ! i), snd (al ! i)) # drop (Suc i) al"
        using i by (simp add: id_take_nth_drop[symmetric])
      have nei: "fst (al ! i) \<notin> set (bases (take i al))" using dist by (subst (asm) sali) auto
      have ins: "insert_after_arena al (fst (al ! i)) (mm ?L, init_chunk c zero_chunk) = al'"
        unfolding al'_def using i
        by (subst (1) sali) (subst insert_after_split[OF nei], simp add: take_Suc_conv_app_nth)
      have nxt: "arena_next al' (fst (al ! i)) = Some (mm ?L)"
        unfolding al'_def using i arena_next_split[OF nei, of "snd (al ! i)"]
        by (simp add: take_Suc_conv_app_nth arena_first_def)
      obtain n' where n: "n = Suc n'" using Suc.prems(9) True by (cases n) auto
      have "stralloc_post c len
              (pool_live (live_offs (sizeof_arena_t c)) (take (Suc i) al @ drop (Suc i) al)
                 (take (Suc i) rss @ drop (Suc i) rss))
              (stralloc_loop c mm (Suc n') (?h\<lparr>arenas := al'\<rparr>) (mm ?L) (word_of_nat len))"
        by (rule attempt_fresh[OF _ _ c _ _ _ l])
          (use ok L i fresh in \<open>simp_all add: al'_def mmap_fresh_def\<close>)
      then show ?thesis
        unfolding step by (simp only: ji ins nxt option.case refl if_True n append_take_drop_id)
    next
      case False
      then have k: "1 < k" using Suc.prems(7) by simp
      then have "?j \<noteq> i" using Suc.prems(8) by (metis One_nat_def Suc_eq_plus1 zero_less_one)
      then have "fst (al ! ?j) \<noteq> fst (al ! i)"
        using dist j' i by (metis length_map nth_eq_iff_index_eq nth_map)
      moreover have "stralloc_post c len (pool_live (live_offs (sizeof_arena_t c)) al rss)
              (stralloc_loop c mm n ?h (fst (al ! ?j)) (word_of_nat len))"
      proof (rule Suc.IH[of ?h ?j "[]" "rss ! ?j" "k - 1"])
        show "(?j + (k - 1)) mod ?L = i"
          by (rule mod_steps[OF Suc.prems(6) k]) (use i in linarith)
        show "\<forall>k'. 0 < k' \<and> k' < k - 1 \<longrightarrow> (?j + k') mod ?L \<noteq> i"
        proof (intro allI impI)
          fix k' assume k': "0 < k' \<and> k' < k - 1"
          then have "(j + Suc k') mod ?L \<noteq> i" using Suc.prems(8)[rule_format, of "Suc k'"] by linarith
          then show "(?j + k') mod ?L \<noteq> i" by (simp add: mod_add_left_eq)
        qed
      qed (use Suc.prems j' k in auto)
      ultimately show ?thesis unfolding step by (simp only: if_False)
    qed
  qed
qed simp

lemma stralloc_post_run:
  assumes inv: "str_inv c h rss" and c: "cfg_ok c" and fresh: "mmap_fresh c mm (arenas h)"
    and l: "0 < len" "len \<le> MAX_LENGTH"
  shows "\<exists>h' p. stralloc c mm h len = Inr (h', Some p) \<and>
           stralloc_post c (len + 1) (str_live c h rss) (Inr (h', p))"
proof -
  let ?w = "word_of_nat (len + 1) :: u8"
  have l': "0 < len + 1" "len + 1 \<le> MAX_BLKSZ" using l by auto
  have ok: "pool_ok c (str_repr c) (arenas h) rss" using inv by (simp add: str_inv_def)
  have key: "\<exists>h0 ar. stralloc c mm h len =
        bind_run (stralloc_loop c mm (length (arenas h0) + 2) h0 ar ?w) (\<lambda>(h1, ptr). Inr (h1, Some ptr)) \<and>
      stralloc_post c (len + 1) (str_live c h rss) (stralloc_loop c mm (length (arenas h0) + 2) h0 ar ?w)"
  proof (cases "cur_arena h")
    case None
    then have e: "arenas h = []" using inv by (simp add: str_inv_def cursor_ok_def)
    then have rss: "rss = []" using pool_ok_length[OF ok] by simp
    let ?nb = "mm 0"
    let ?h0 = "h\<lparr>arenas := [(?nb, init_chunk c zero_chunk)], cur_arena := Some ?nb,
                 cur_offset := sizeof_arena_t c\<rparr>"
    have "stralloc c mm h len =
        bind_run (stralloc_loop c mm (length (arenas ?h0) + 2) ?h0 ?nb ?w) (\<lambda>(h1, ptr). Inr (h1, Some ptr))"
      using None l e by (simp add: stralloc_def alloc_first_arena_def arena_first_def Let_def)
    moreover have "stralloc_post c (len + 1) (str_live c h rss)
        (stralloc_loop c mm (Suc (Suc (length (arenas ?h0)))) ?h0 ?nb ?w)"
      using attempt_fresh[of c "[]" "[]" "[]" "[]" ?nb ?h0 zero_chunk "len + 1"] ok l' c
      by (simp add: e rss str_live_def)
    ultimately show ?thesis by (metis add_2_eq_Suc')
  next
    case (Some ar)
    then obtain i us vs where i: "i < length (arenas h)" "fst (arenas h ! i) = ar"
      "rss ! i = us @ vs" "cur_offset h = sizeof_arena_t c + rsum us"
      using inv by (auto simp: str_inv_def cursor_ok_def)
    have "stralloc c mm h len =
        bind_run (stralloc_loop c mm (length (arenas h) + 2) h ar ?w) (\<lambda>(h1, ptr). Inr (h1, Some ptr))"
      using Some l by (simp add: stralloc_def Let_def)
    moreover have "stralloc_post c (len + 1) (str_live c h rss)
        (stralloc_loop c mm (length (arenas h) + 2) h ar ?w)"
      unfolding str_live_def i(2)[symmetric]
      by (rule stralloc_loop_post[OF ok c fresh l' i(1) refl i(1,3,4), of "length (arenas h)"])
        (use Some i mod_no_return[OF i(1)] in auto)
    ultimately show ?thesis by blast
  qed
  then show ?thesis by (fastforce simp: stralloc_post_def)
qed

lemma cursor_ok_bases:
  assumes "cursor_ok c h rss" and "bases al = bases (arenas h)"
    and "map (map rtotal) rss' = map (map rtotal) rss"
    and "length (arenas h) = length rss"
  shows "cursor_ok c (h\<lparr>arenas := al\<rparr>) rss'"
proof (cases "cur_arena h")
  case None
  then show ?thesis using assms(1,2) by (simp add: cursor_ok_def)
next
  case (Some ar)
  then obtain i us vs where i: "i < length (arenas h)" "fst (arenas h ! i) = ar"
    "rss ! i = us @ vs" "cur_offset h = sizeof_arena_t c + rsum us"
    using assms(1) by (auto simp: cursor_ok_def)
  have "length rss' = length rss" using assms(3) by (metis length_map)
  then have "map rtotal (rss' ! i) = map rtotal (rss ! i)"
    using i(1) assms(3,4) by (metis nth_map)
  then have m: "map rtotal (rss' ! i) = map rtotal us @ map rtotal vs" using i(3) by simp
  obtain us' vs' where split: "rss' ! i = us' @ vs'" and us': "map rtotal us' = map rtotal us"
    using m by (auto simp: map_eq_append_conv)
  have "rsum us' = rsum us" using us' by (simp add: rsum_def)
  moreover have "length al = length (arenas h)" "fst (al ! i) = ar"
    using assms(2) i by (metis length_map, metis length_map nth_map)
  ultimately show ?thesis using Some i split
    by (intro cursor_okI[of _ ar i _ us' vs']) auto
qed


section \<open>Freeing, writing and overlapping\<close>

lemma strfree_live:
  assumes inv: "str_inv c h rss" and p: "p \<in> str_live c h rss"
  shows "\<exists>h' rss'. strfree c h (Some p) = Inr h' \<and> str_inv c h' rss' \<and>
           str_live c h' rss' = str_live c h rss - {p}"
proof -
  have ok: "pool_ok c (str_repr c) (arenas h) rss" and cur: "cursor_ok c h rss"
    using inv by (auto simp: str_inv_def)
  from str.pool_free_live[OF ok p[unfolded str_live_def]] obtain al rss' where
    free: "pool_free c (str_release c) (arenas h) p = Inr al" and ok': "pool_ok c (str_repr c) al rss'"
    and shape: "bases al = bases (arenas h)" "map (map rtotal) rss' = map (map rtotal) rss"
    and live: "pool_live (live_offs (sizeof_arena_t c)) al rss' = str_live c h rss - {p}"
    unfolding str_live_def by blast
  obtain ar where "find_ptr_arena c (arenas h) p = Some ar"
    using free by (cases "find_ptr_arena c (arenas h) p") (auto simp: pool_free_def)
  with free ok have "strfree c h (Some p) = Inr (h\<lparr>arenas := al\<rparr>)"
    by (simp add: strfree_pool pool_ok_def)
  moreover have "cursor_ok c (h\<lparr>arenas := al\<rparr>) rss'"
    using pool_ok_length[OF ok] by (intro cursor_ok_bases[OF cur shape])
  ultimately show ?thesis
    using ok' live by (intro exI[of _ "h\<lparr>arenas := al\<rparr>"] exI[of _ rss'])
      (simp add: str_inv_def str_live_def)
qed

text \<open>The header of a live pointer, and how far its block reaches.\<close>

lemma live_header:
  assumes "str_repr c d rs" and "off \<in> live_offs (sizeof_arena_t c) rs"
  shows "\<exists>s. sint (d (off - 1)) = int s \<and> 0 < s \<and> off + s \<le> ARENA_SIZE c \<and>
           (\<forall>off' \<in> live_offs (sizeof_arena_t c) rs. off < off' \<longrightarrow> off + s \<le> off')"
proof -
  obtain xs r ys where rs: "rs = xs @ r # ys" and u: "used r"
    and off: "off = sizeof_arena_t c + rsum xs + 1"
    using assms(2) by (rule live_offsE)
  have rc: "region_chunk c d (sizeof_arena_t c) (xs @ r # ys)" using assms(1) by (simp add: str_repr_def rs)
  then have ok: "regions_ok (xs @ r # ys)" by (simp add: region_chunk_def)
  have tail: "region_chunk c d (off - 1) (r # ys)" using region_chunk_tail[OF rc] by (simp add: off)
  have h: "sint (d (off - 1)) = int (hsize r)" "0 < hsize r" "hsize r \<le> rtotal r"
    using tail u by (auto simp: region_chunk_Cons region_headers_def rtotal_def)
  moreover have "off + hsize r \<le> ARENA_SIZE c"
    using region_chunk_bound[OF tail] h(3) off by simp
  moreover have "\<forall>off' \<in> live_offs (sizeof_arena_t c) rs. off < off' \<longrightarrow> off + hsize r \<le> off'"
  proof (intro ballI impI)
    fix off' assume "off' \<in> live_offs (sizeof_arena_t c) rs" and gt: "off < off'"
    then consider "off' \<in> live_offs (sizeof_arena_t c) xs"
      | "off' \<in> live_offs (sizeof_arena_t c + rsum xs + rtotal r) ys"
      using off by (auto simp: rs u split: if_splits)
    then show "off + hsize r \<le> off'"
    proof cases
      case 1
      then show ?thesis using live_offs_range[OF region_parts_ok(1)[OF ok] 1] gt off by simp
    next
      case 2
      then show ?thesis using live_offs_range[OF region_parts_ok(2)[OF ok] 2] h(3) off by simp
    qed
  qed
  ultimately show ?thesis by blast
qed

lemma str_live_block:
  assumes inv: "str_inv c h rss" and p: "p \<in> str_live c h rss"
  shows "\<exists>b. byte_at c (arenas h) (p - 1) = Inr b \<and> 0 < sint b \<and>
           (\<forall>q \<in> str_live c h rss. p < q \<longrightarrow> p + nat (sint b) \<le> q)"
proof -
  have ok: "pool_ok c (str_repr c) (arenas h) rss" using inv by (simp add: str_inv_def)
  obtain xs ar d ys as1 rs bs off where al: "arenas h = xs @ (ar, d) # ys" "rss = as1 @ rs # bs"
    and len: "length xs = length as1" and off: "off \<in> live_offs (sizeof_arena_t c) rs" "p = ar + off"
    by (rule pool_liveE[OF p[unfolded str_live_def] pool_ok_length[OF ok]]) blast
  have rep: "str_repr c d rs" and rest: "pool_ok c (str_repr c) (xs @ ys) (as1 @ bs)"
    and ap: "\<forall>b\<in>set (bases (xs @ ys)). apart c ar b"
    using ok len by (auto simp: al pool_ok_split)
  from live_header[OF rep off(1)] obtain s where s: "sint (d (off - 1)) = int s" "0 < s"
    and bound: "off + s \<le> ARENA_SIZE c"
    and next_: "\<And>off'. off' \<in> live_offs (sizeof_arena_t c) rs \<Longrightarrow> off < off' \<Longrightarrow> off + s \<le> off'"
    by blast
  have pos: "0 < off" using str.live_inside[OF rep off(1)] by simp
  have "\<not> apart c ar ar" using bound s(2) pos by (simp add: apart_def)
  then have ne: "ar \<notin> set (bases xs)" using ap by (metis Un_iff map_append set_append)
  have "byte_at c (arenas h) (ar + (off - 1)) = Inr (d (off - 1))"
    using ok bound s(2) pos unfolding al
    by (intro byte_at_arena arena_at_split[OF ne]) (auto simp: pool_ok_def)
  moreover have "ar + (off - 1) = p - 1" using pos off(2) by simp
  moreover have "\<forall>q \<in> str_live c h rss. p < q \<longrightarrow> p + s \<le> q"
  proof (intro ballI impI)
    fix q assume q: "q \<in> str_live c h rss" and gt: "p < q"
    show "p + s \<le> q"
    proof (cases "q < ar + ARENA_SIZE c")
      case True
      then have "q \<notin> pool_live (live_offs (sizeof_arena_t c)) xs as1"
        "q \<notin> pool_live (live_offs (sizeof_arena_t c)) ys bs"
        using str.not_in_others[OF rest len ap, of q] gt off(2) by auto
      with q obtain off' where "off' \<in> live_offs (sizeof_arena_t c) rs" "q = ar + off'"
        by (auto simp: str_live_def al len)
      with next_[of off'] gt off(2) show ?thesis by simp
    qed (use bound off(2) in simp)
  qed
  ultimately show ?thesis using s by (intro exI[of _ "d (off - 1)"]) auto
qed

lemma strfree_clears:
  assumes ap: "arenas_apart c (bases (arenas h))" and free: "strfree c h (Some p) = Inr h'"
  shows "\<exists>b. byte_at c (arenas h') (p - 1) = Inr b \<and> sint b < 0"
proof -
  obtain b ar d ptr where b: "byte_at c (arenas h) (p - 1) = Inr b" "0 < sint b"
    and find: "find_ptr_arena c (arenas h) p = Some ar" and d: "arena_at (arenas h) ar = Some d"
    and ptr: "ptr = p - ar - 1" and h': "h' = h\<lparr>arenas := arena_put (arenas h) ar (d(ptr := - d ptr))\<rparr>"
    using free by (auto simp: strfree_def bind_run_Inr_iff split: if_splits option.splits)
  have ar: "ar \<in> set (bases (arenas h))" "ar < p" "p < ar + ARENA_SIZE c"
    using find_ptr_arena_Some[OF find] by auto
  then have pp: "ar + ptr = p - 1" "ptr < ARENA_SIZE c" using ptr by auto
  have "b = d ptr" using byte_at_arena[OF ap d pp(2)] b(1) pp(1) by simp
  then have "sint (- d ptr) < 0" using b(2) by (simp add: byte_simps)
  moreover have at: "arena_at (arenas h') ar = Some (d(ptr := - d ptr))"
    using ar(1) by (simp add: h' arena_at_put)
  have "byte_at c (arenas h') (ar + ptr) = Inr (- d ptr)"
    using byte_at_arena[OF _ at pp(2)] ap by (simp add: h')
  ultimately show ?thesis using pp(1) by auto
qed

section \<open>Client writes\<close>

text \<open>
  A write through a pointer the client holds, and \<open>randfill\<close> of \<open>test.h\<close> (the bytes are
  the values of \<open>rand\<close>).
\<close>

fun poke :: "arena_cfg \<Rightarrow> chunk arenalist \<Rightarrow> nat \<Rightarrow> i8 \<Rightarrow> chunk arenalist run" where
  "poke c [] addr b = Inl Out_of_bounds"
| "poke c (a # al) addr b =
     (if fst a \<le> addr \<and> addr < fst a + ARENA_SIZE c
      then Inr ((fst a, (snd a)(addr - fst a := b)) # al)
      else bind_run (poke c al addr b) (\<lambda>al'. Inr (a # al')))"

fun randfill :: "arena_cfg \<Rightarrow> str_heap \<Rightarrow> nat \<Rightarrow> i8 list \<Rightarrow> str_heap run" where
  "randfill c h buf [] = Inr h"
| "randfill c h buf (b # bs) =
     bind_run (poke c (arenas h) buf b) (\<lambda>al. randfill c (h\<lparr>arenas := al\<rparr>) (buf + 1) bs)"

lemma byte_at_poke:
  "poke c al addr b = Inr al' \<Longrightarrow> byte_at c al' x = (if x = addr then Inr b else byte_at c al x)"
  by (induction al arbitrary: al') (auto simp: bind_run_Inr_iff split: if_splits)

lemma bases_poke: "poke c al addr b = Inr al' \<Longrightarrow> bases al' = bases al"
  by (induction al arbitrary: al') (auto simp: bind_run_Inr_iff split: if_splits)

lemma poke_split:
  assumes "arenas_apart c (bases (xs @ (ar, d) # ys))" and "off < ARENA_SIZE c"
  shows "poke c (xs @ (ar, d) # ys) (ar + off) b = Inr (xs @ (ar, d(off := b)) # ys)"
  using assms by (induction xs) (auto simp: apart_def list_all_iff)

lemma pool_live_bases: "bases al = bases al' \<Longrightarrow> pool_live live al as = pool_live live al' as"
proof (induction al arbitrary: al' as)
  case (Cons a al)
  then obtain a' al1 where "al' = a' # al1" "fst a' = fst a" "bases al = bases al1"
    by (cases al') auto
  then show ?case using Cons.IH[of al1] by (cases as) (auto simp: pool_live_def)
qed (simp add: pool_live_def)

lemma region_chunk_write:
  assumes rc: "region_chunk c d o' (xs @ r # ys)"
    and x: "o' + rsum xs < x" "x < o' + rsum xs + hsize r"
  shows "region_chunk c (d(x := b)) o' (xs @ r # ys)"
proof (rule region_chunk_frame[OF rc])
  let ?k = "o' + rsum xs"
  have tail: "region_chunk c d ?k (r # ys)" using region_chunk_tail[OF rc] by simp
  obtain u s ls where r: "r = Region u s ls" by (cases r)
  have s: "hsize r = s" "rtotal r = s + sum_list ls" by (simp_all add: r rtotal_def)
  have cong1: "headers_at (d(x := b)) (?k + s) (map int ls) = headers_at d (?k + s) (map int ls)"
    by (rule headers_at_cong) (use x s in auto)
  have "headers_at (d(x := b)) (?k + rtotal r) (flat ys) = headers_at d (?k + rtotal r) (flat ys)"
    by (rule headers_at_cong) (use x s in auto)
  then have "region_chunk c (d(x := b)) (?k + rtotal r) ys = region_chunk c d (?k + rtotal r) ys"
    using x s by (auto simp: region_chunk_def chunk_at_def)
  then show "region_chunk c (d(x := b)) ?k (r # ys)"
    using tail cong1 x s by (cases u) (auto simp: r region_chunk_Cons region_headers_def)
qed (use x in auto)

lemma poke_live:
  assumes inv: "str_inv c h rss" and p: "p \<in> str_live c h rss"
    and hd: "byte_at c (arenas h) (p - 1) = Inr w" and x: "p \<le> x" "x < p - 1 + nat (sint w)"
  shows "\<exists>al. poke c (arenas h) x b = Inr al \<and> str_inv c (h\<lparr>arenas := al\<rparr>) rss \<and>
           str_live c (h\<lparr>arenas := al\<rparr>) rss = str_live c h rss"
proof -
  have ok: "pool_ok c (str_repr c) (arenas h) rss" using inv by (simp add: str_inv_def)
  obtain xs ar d ys as1 rs bs off where al: "arenas h = xs @ (ar, d) # ys" "rss = as1 @ rs # bs"
    and len: "length xs = length as1" and off: "off \<in> live_offs (sizeof_arena_t c) rs" "p = ar + off"
    by (rule pool_liveE[OF p[unfolded str_live_def] pool_ok_length[OF ok]]) blast
  obtain us r vs where rs: "rs = us @ r # vs" and u: "used r"
    and o': "off = sizeof_arena_t c + rsum us + 1"
    using off(1) by (rule live_offsE)
  have rep: "region_chunk c d (sizeof_arena_t c) (us @ r # vs)"
    and rest: "pool_ok c (str_repr c) (xs @ ys) (as1 @ bs)"
    and ap: "\<forall>b\<in>set (bases (xs @ ys)). apart c ar b"
    using ok len by (auto simp: al pool_ok_split str_repr_def rs)
  have h: "sint (d (off - 1)) = int (hsize r)" and bd: "off - 1 + rtotal r < ARENA_SIZE c"
    using region_chunk_tail[OF rep] region_chunk_bound[OF rep] u
    by (auto simp: region_chunk_Cons region_headers_def o')
  have aps: "arenas_apart c (bases (arenas h))" using ok by (simp add: pool_ok_def)
  have "\<not> apart c ar ar" using bd by (simp add: apart_def)
  then have ne: "ar \<notin> set (bases xs)" using ap by (metis Un_iff map_append set_append)
  have "byte_at c (arenas h) (ar + (off - 1)) = Inr (d (off - 1))"
    using bd by (intro byte_at_arena[OF aps]) (simp_all add: al arena_at_split[OF ne])
  then have w: "nat (sint w) = hsize r" using hd h off(2) o' by simp
  have xx: "x = ar + (x - ar)" "off - 1 < x - ar" "x - ar < off - 1 + hsize r"
    using x off(2) o' w by auto
  have "hsize r \<le> rtotal r" by (simp add: rtotal_def)
  then have xb: "x - ar < ARENA_SIZE c" using bd xx(3) by simp
  let ?al = "xs @ (ar, d(x - ar := b)) # ys"
  have pk: "poke c (arenas h) x b = Inr ?al"
    using poke_split[OF aps[unfolded al] xb, of b] xx(1) by (simp add: al)
  have "region_chunk c (d(x - ar := b)) (sizeof_arena_t c) (us @ r # vs)"
    by (rule region_chunk_write[OF rep]) (use xx o' in auto)
  then have ok': "pool_ok c (str_repr c) ?al rss"
    using rest ap len by (simp add: al pool_ok_split str_repr_def rs)
  have "bases ?al = bases (arenas h)" by (simp add: al)
  moreover from this have "cursor_ok c (h\<lparr>arenas := ?al\<rparr>) rss"
    using inv pool_ok_length[OF ok] by (intro cursor_ok_bases) (auto simp: str_inv_def)
  ultimately show ?thesis
    using pk ok' pool_live_bases[of ?al "arenas h"] by (auto simp: str_inv_def str_live_def)
qed

lemma str_live_pos:
  assumes "str_inv c h rss" and "p \<in> str_live c h rss"
  shows "0 < p"
  using str.live_in_range[of c "arenas h" rss p] assms by (auto simp: str_inv_def str_live_def)

lemma randfill_live:
  assumes "str_inv c h rss" and "p \<in> str_live c h rss"
    and "byte_at c (arenas h) (p - 1) = Inr w" and "p \<le> x" "x + length bs \<le> p - 1 + nat (sint w)"
  shows "\<exists>h'. randfill c h x bs = Inr h' \<and> str_inv c h' rss \<and>
           str_live c h' rss = str_live c h rss \<and> bases (arenas h') = bases (arenas h) \<and>
           (\<forall>y. y < x \<or> x + length bs \<le> y \<longrightarrow> byte_at c (arenas h') y = byte_at c (arenas h) y)"
  using assms
proof (induction bs arbitrary: h x)
  case (Cons b bs)
  from poke_live[OF Cons.prems(1-4), of b] Cons.prems(5) obtain al where
    al: "poke c (arenas h) x b = Inr al" "str_inv c (h\<lparr>arenas := al\<rparr>) rss"
      "str_live c (h\<lparr>arenas := al\<rparr>) rss = str_live c h rss"
    by auto
  note same = byte_at_poke[OF al(1)]
  have "byte_at c (arenas (h\<lparr>arenas := al\<rparr>)) (p - 1) = Inr w"
    using Cons.prems(3,4) same[of "p - 1"] str_live_pos[OF Cons.prems(1,2)] by auto
  with Cons.IH[OF al(2), of "x + 1"] Cons.prems al(3) obtain h' where
    "randfill c (h\<lparr>arenas := al\<rparr>) (x + 1) bs = Inr h'" "str_inv c h' rss"
    "str_live c h' rss = str_live c h rss" "bases (arenas h') = bases al"
    "\<forall>y. y < x + 1 \<or> x + 1 + length bs \<le> y \<longrightarrow> byte_at c (arenas h') y = byte_at c al y"
    by auto
  with al(1) same bases_poke[OF al(1)] show ?case by auto
qed simp

lemma bases_stralloc_loop:
  assumes "stralloc_loop c mm n h ar len = Inr (h', p)"
    and "set (bases (arenas h)) \<subseteq> mm ` {..<length (arenas h)}"
  shows "set (bases (arenas h')) \<subseteq> mm ` {..<length (arenas h')}"
  using assms
proof (induction n arbitrary: h ar)
  case (Suc n)
  have ins: "set (bases (insert_after_arena al a (mm (length al), x))) \<subseteq>
      mm ` {..<length (insert_after_arena al a (mm (length al), x))}"
    if "set (bases al) \<subseteq> mm ` {..<length al}" for al :: "chunk arenalist" and a x
  proof (cases "a \<in> set (bases al)")
    case True
    have "length (insert_after_arena al a n) = Suc (length al)" for n
      using True by (induction al) auto
    then show ?thesis using that by (auto simp: set_insert_after[OF True] lessThan_Suc)
  next
    case False
    then have "insert_after_arena al a n = al" for n by (induction al) auto
    then show ?thesis using that by simp
  qed
  from Suc.prems(1) obtain d d' off' q where d: "arena_at (arenas h) ar = Some d"
    and q: "alloc_block c d (cur_offset h) len = Inr (d', off', q)"
    by (auto simp: bind_run_Inr_iff split: option.splits)
  let ?al = "arena_put (arenas h) ar d'" and ?h = "h\<lparr>cur_offset := sizeof_arena_t c\<rparr>"
  have put: "set (bases ?al) \<subseteq> mm ` {..<length ?al}" using Suc.prems(2) by simp
  show ?case
  proof (cases q)
    case None
    from Suc.prems(1) obtain ar1 where ar1: "next_or_first ?al ar = Some ar1"
      by (auto simp: d q None Let_def split: option.splits)
    show ?thesis
    proof (cases "Some ar1 = cur_arena h")
      case True
      let ?al2 = "insert_after_arena ?al ar1 (mm (length ?al), init_chunk c zero_chunk)"
      from Suc.prems(1) True obtain ar2 where
        "stralloc_loop c mm n (?h\<lparr>arenas := ?al2\<rparr>) ar2 len = Inr (h', p)"
        by (auto simp: d q None ar1 Let_def split: option.splits)
      from Suc.IH[OF this] ins[OF put] show ?thesis by simp
    next
      case False
      with Suc.prems(1) have "stralloc_loop c mm n (h\<lparr>arenas := ?al, cur_offset := sizeof_arena_t c\<rparr>) ar1 len = Inr (h', p)"
        by (simp add: d q None ar1 Let_def)
      from Suc.IH[OF this] put show ?thesis by simp
    qed
  next
    case (Some a)
    have "bases ?al = bases (arenas h)" by (rule bases_arena_put)
    with Suc.prems Some show ?thesis by (auto simp: d q simp del: set_map)
  qed
qed simp

section \<open>Properties\<close>

text \<open>C1: in every well-formed heap, for every length from 1 to 126 and a kernel that maps
  fresh memory disjoint from the arenas, \<open>stralloc\<close> returns: its search loop ends, no
  access leaves an arena, the pointer is not one the client already holds, the header before
  it holds the block size \<open>len + 1\<close>, the live pointers grow by it alone and the heap is
  again well formed.\<close>

theorem stralloc_ok:
  assumes "str_inv c h rss" and "cfg_ok c" and "mmap_fresh c mm (arenas h)"
    and "0 < len" and "len \<le> MAX_LENGTH"
  shows "\<exists>h' p rss'. stralloc c mm h len = Inr (h', Some p) \<and> str_inv c h' rss' \<and>
           p \<notin> str_live c h rss \<and> str_live c h' rss' = insert p (str_live c h rss) \<and>
           byte_at c (arenas h') (p - 1) = Inr (word_of_nat (len + 1))"
  using stralloc_post_run[OF assms] by (auto simp: stralloc_post_def)

definition demo_cfg :: arena_cfg where
  "demo_cfg = \<lparr>ARENA_SIZE = 300, sizeof_arena_t = 8\<rparr>"

definition demo_mmap :: "nat \<Rightarrow> nat" where
  "demo_mmap k = 1000 * (k + 1)"

definition empty_str_heap :: str_heap where
  "empty_str_heap = \<lparr>arenas = [], cur_arena = None, cur_offset = 0\<rparr>"

lemma empty_str_inv:
  "str_inv c empty_str_heap []" "str_live c empty_str_heap [] = {}" "arenas empty_str_heap = []"
  by (simp_all add: str_inv_def empty_str_heap_def pool_ok_def cursor_ok_def str_live_def)

lemma demo_cfg_ok: "cfg_ok demo_cfg"
  by (simp add: cfg_ok_def demo_cfg_def)

lemma demo_alloc:
  "\<exists>h p rss. stralloc demo_cfg demo_mmap empty_str_heap 10 = Inr (h, Some p) \<and> str_inv demo_cfg h rss \<and>
     p \<in> str_live demo_cfg h rss \<and> byte_at demo_cfg (arenas h) (p - 1) = Inr 11"
  using stralloc_post_run[of demo_cfg empty_str_heap "[]" demo_mmap 10]
  by (auto simp: empty_str_inv demo_cfg_ok mmap_fresh_def stralloc_post_def)

theorem stralloc_ok_witness:
  "\<exists>h p rss. stralloc demo_cfg demo_mmap empty_str_heap 126 = Inr (h, Some p) \<and>
     str_live demo_cfg h rss = {p}"
  using stralloc_ok[of demo_cfg empty_str_heap "[]" demo_mmap 126]
  by (auto simp: empty_str_inv demo_cfg_ok mmap_fresh_def)

text \<open>C4: a pointer \<open>stralloc\<close> handed out and the client still holds can be freed: no
  assertion of \<open>strfree\<close> fires, exactly this pointer stops being live and the heap is again
  well formed.\<close>

theorem strfree_ok:
  assumes "str_inv c h rss" and "p \<in> str_live c h rss"
  shows "\<exists>h' rss'. strfree c h (Some p) = Inr h' \<and> str_inv c h' rss' \<and>
           str_live c h' rss' = str_live c h rss - {p}"
  by (rule strfree_live[OF assms])

theorem strfree_ok_witness:
  "\<exists>h p h'. stralloc demo_cfg demo_mmap empty_str_heap 10 = Inr (h, Some p) \<and>
     strfree demo_cfg h (Some p) = Inr h'"
  using demo_alloc strfree_ok by blast

text \<open>A second \<open>strfree\<close> of the same pointer never goes unnoticed: after any successful
  \<open>strfree\<close> the next one on that pointer stops at an assertion.\<close>

theorem strfree_twice:
  assumes "arenas_apart c (bases (arenas h))" and "strfree c h (Some p) = Inr h'"
  shows "strfree c h' (Some p) = Inl Assert_fails"
  using strfree_clears[OF assms] by (auto simp: strfree_def)

theorem strfree_twice_witness:
  "\<exists>h p h'. stralloc demo_cfg demo_mmap empty_str_heap 10 = Inr (h, Some p) \<and>
     strfree demo_cfg h (Some p) = Inr h' \<and> strfree demo_cfg h' (Some p) = Inl Assert_fails"
proof -
  obtain h p rss where a: "stralloc demo_cfg demo_mmap empty_str_heap 10 = Inr (h, Some p)"
    and inv: "str_inv demo_cfg h rss" and p: "p \<in> str_live demo_cfg h rss"
    using demo_alloc by blast
  obtain h' where f: "strfree demo_cfg h (Some p) = Inr h'" using strfree_live[OF inv p] by blast
  have "arenas_apart demo_cfg (bases (arenas h))" using inv by (simp add: str_inv_def pool_ok_def)
  with a f strfree_twice show ?thesis by blast
qed

text \<open>The strings of two live pointers never overlap: the block of the lower one, whose
  size its header gives, ends before the header of the next live pointer.\<close>

theorem str_blocks_disjoint:
  assumes "str_inv c h rss" and "p \<in> str_live c h rss" and "q \<in> str_live c h rss" and "p < q"
  shows "\<exists>b. byte_at c (arenas h) (p - 1) = Inr b \<and> 0 < sint b \<and> p - 1 + nat (sint b) \<le> q - 1"
  using str_live_block[OF assms(1,2)] str_live_pos[OF assms(1,2)] assms(3,4) by fastforce

definition demo_chunk :: chunk where
  "demo_chunk = (\<lambda>x. if x = 8 then 11 else if x = 19 then 116 else if x = 135 then 7
                     else if x = 142 then 120 else if x = 262 then - 37 else 0)"

definition demo_heap :: str_heap where
  "demo_heap = \<lparr>arenas = [(1000, demo_chunk)], cur_arena = Some 1000, cur_offset = 135\<rparr>"

definition demo_regions :: "region list" where
  "demo_regions = [Region True 11 [116], Region True 7 [120], Region False 37 []]"

lemma demo_heap_inv: "str_inv demo_cfg demo_heap [demo_regions]"
proof -
  have "region_chunk demo_cfg demo_chunk 8 demo_regions"
    by (simp add: region_chunk_def chunk_at_def demo_regions_def demo_cfg_def region_headers_def
        demo_chunk_def region_pos_def rtotal_def)
  then have "pool_ok demo_cfg (str_repr demo_cfg) (arenas demo_heap) [demo_regions]"
    by (simp add: pool_ok_def demo_heap_def str_repr_def demo_cfg_def)
  moreover have "cursor_ok demo_cfg demo_heap [demo_regions]"
    by (rule cursor_okI[of _ 1000 0 _ "[Region True 11 [116]]" "[Region True 7 [120], Region False 37 []]"])
      (simp_all add: demo_heap_def demo_regions_def demo_cfg_def rtotal_def)
  ultimately show ?thesis by (simp add: str_inv_def)
qed

lemma demo_heap_live: "str_live demo_cfg demo_heap [demo_regions] = {1009, 1136}"
  by (auto simp: str_live_def demo_heap_def demo_regions_def pool_live_def demo_cfg_def rtotal_def)

theorem str_blocks_disjoint_witness:
  "\<exists>b. byte_at demo_cfg (arenas demo_heap) 1008 = Inr b \<and> 1008 + nat (sint b) \<le> (1135 :: nat)"
  using str_blocks_disjoint[OF demo_heap_inv, of 1009 1136] by (auto simp: demo_heap_live)

text \<open>Filling a live string as \<open>test.h\<close> does, with up to as many bytes as were asked
  for, stays inside its arena, changes no byte outside the string, and keeps the heap well
  formed with the same live pointers.\<close>

theorem randfill_ok:
  assumes "str_inv c h rss" and "p \<in> str_live c h rss"
    and "byte_at c (arenas h) (p - 1) = Inr (word_of_nat (len + 1))" and "len \<le> MAX_LENGTH"
    and "length bs \<le> len"
  shows "\<exists>h'. randfill c h p bs = Inr h' \<and> str_inv c h' rss \<and> str_live c h' rss = str_live c h rss \<and>
           (\<forall>y. y < p \<or> p + length bs \<le> y \<longrightarrow> byte_at c (arenas h') y = byte_at c (arenas h) y)"
proof -
  have "sint (word_of_nat (len + 1) :: 8 word) = int (len + 1)"
    using assms(4) by (intro sint8_of_nat) simp
  then have "p + length bs \<le> p - 1 + nat (sint (word_of_nat (len + 1) :: 8 word))"
    using assms(5) str_live_pos[OF assms(1,2)] by simp
  from randfill_live[OF assms(1-3) order_refl this] show ?thesis by blast
qed

theorem randfill_ok_witness:
  "\<exists>h'. randfill demo_cfg demo_heap 1009 [1, 2, 3] = Inr h' \<and>
     byte_at demo_cfg (arenas h') 1008 = byte_at demo_cfg (arenas demo_heap) 1008"
  using randfill_ok[OF demo_heap_inv, of 1009 10 "[1, 2, 3]"]
  by (auto simp: demo_heap_live) (auto simp: demo_heap_def demo_cfg_def demo_chunk_def)

text \<open>The consistency check \<open>strmemcheck\<close> passes on every well-formed heap.\<close>

lemma strmemcheck_all:
  "(\<forall>a\<in>set al. chunk_check c (snd a) (sizeof_arena_t c) = Inr ()) \<longleftrightarrow> strmemcheck c al = Inr ()"
  by (induction al) (auto simp: bind_run_Inr_iff)

theorem strmemcheck_ok:
  assumes "str_inv c h rss"
  shows "strmemcheck c (arenas h) = Inr ()"
proof -
  have "list_all2 (str_repr c) (map snd (arenas h)) rss"
    using assms by (simp add: str_inv_def pool_ok_def)
  then have "\<forall>a\<in>set (arenas h). \<exists>rs. str_repr c (snd a) rs"
    by (metis in_set_conv_nth length_map list_all2_conv_all_nth nth_map)
  then show ?thesis
    unfolding strmemcheck_all[symmetric] by (auto simp: str_repr_def region_chunk_def chunk_check_ok)
qed

theorem strmemcheck_ok_witness: "strmemcheck demo_cfg (arenas demo_heap) = Inr ()"
  by (rule strmemcheck_ok[OF demo_heap_inv])

text \<open>\<open>strmemcheck\<close> accepts exactly the arenas whose blocks, each with a header
  different from zero, fill the arena up to a zero header in its last byte.\<close>

theorem strmemcheck_sound:
  assumes "0 < ARENA_SIZE c"
  shows "strmemcheck c al = Inr () \<longleftrightarrow> (\<forall>a\<in>set al. \<exists>hs. chunk_at c (snd a) (sizeof_arena_t c) hs)"
  unfolding strmemcheck_all[symmetric]
  using chunk_check_ok chunk_check_complete[OF _ assms] by blast

theorem strmemcheck_sound_witness:
  "strmemcheck demo_cfg [(1000, demo_chunk)] = Inr () \<longleftrightarrow> (\<exists>hs. chunk_at demo_cfg demo_chunk 8 hs)"
  using strmemcheck_sound[of demo_cfg "[(1000, demo_chunk)]"] by (simp add: demo_cfg_def)

text \<open>\<open>alloc_block\<close> is first fit over the heads of the regions from the cursor on: with
  no free head that is large enough it runs to the end of the chunk and changes nothing,
  and otherwise it takes the first one, leaving every byte but the two headers as it was.\<close>

theorem alloc_block_fit:
  assumes "region_chunk c d off rs" and "0 < len" and "len \<le> MAX_BLKSZ"
  shows "case fit len rs of
      None \<Rightarrow> alloc_block c d off (word_of_nat len) = Inr (d, off + rsum rs, None)
    | Some (xs, r, ys) \<Rightarrow> \<exists>d'. alloc_block c d off (word_of_nat len) =
          Inr (d', off + rsum xs, Some (off + rsum xs + 1)) \<and>
        region_chunk c d' off (xs @ take_head len r # ys) \<and>
        (\<forall>x. x \<noteq> off + rsum xs \<longrightarrow> x \<noteq> off + rsum xs + len \<longrightarrow> d' x = d x)"
  using alloc_block_None[OF assms(1) _ assms(3)] alloc_block_Some[OF assms(1) _ assms(2,3)]
  by (auto split: option.split)

theorem alloc_block_fit_witness:
  "alloc_block demo_cfg demo_chunk 8 38 = Inr (demo_chunk, 299, None)"
proof -
  have "region_chunk demo_cfg demo_chunk 8 demo_regions"
    using demo_heap_inv by (simp add: str_inv_def pool_ok_def demo_heap_def str_repr_def demo_cfg_def)
  from alloc_block_fit[OF this, of 38] show ?thesis
    by (simp add: demo_regions_def rtotal_def)
qed

text \<open>Splitting loses memory. The remainder of a split block is marked used, so after
  \<open>strfree\<close> of the string the region, although the client holds nothing in it, serves no
  request longer than the one that split it: the allocator walks past all of it.\<close>

theorem split_lost:
  assumes "str_repr c d (xs @ r # ys)" and "\<not> used r" and "0 < len" and "len < hsize r"
    and "len < len'" and "len' \<le> MAX_BLKSZ"
  defines "off \<equiv> sizeof_arena_t c + rsum xs"
  shows "\<exists>d1 d2. alloc_block c d off (word_of_nat len) = Inr (d1, off, Some (off + 1)) \<and>
           str_release c d1 (off + 1) = Inr d2 \<and>
           alloc_block c d2 off (word_of_nat len') = alloc_block c d2 (off + rtotal r) (word_of_nat len')"
proof -
  have rc: "region_chunk c d (sizeof_arena_t c) (xs @ r # ys)" using assms(1) by (simp add: str_repr_def)
  have tail: "region_chunk c d off (r # ys)" using region_chunk_tail[OF rc] by (simp add: off_def)
  have le: "len \<le> hsize r" using assms(4) by simp
  from alloc_block_hit[OF tail assms(2) le assms(3)] obtain d1 where
    a1: "alloc_block c d off (word_of_nat len) = Inr (d1, off, Some (off + 1))"
    and rc1: "region_chunk c d1 off (take_head len r # ys)"
    and fr: "\<forall>x. x \<noteq> off \<longrightarrow> x \<noteq> off + len \<longrightarrow> d1 x = d x" by blast
  have "region_chunk c d1 (sizeof_arena_t c) (xs @ take_head len r # ys)"
    by (rule region_chunk_frame[OF rc rc1[unfolded off_def]]) (use fr in \<open>auto simp: off_def\<close>)
  from str_release_live[OF this used_take_head(1)] obtain d2 where
    f: "str_release c d1 (off + 1) = Inr d2"
    and rc2: "region_chunk c d2 (sizeof_arena_t c) (xs @ free_head (take_head len r) # ys)"
    unfolding off_def by blast
  have sz: "hsize (free_head (take_head len r)) = len" "rtotal (free_head (take_head len r)) = rtotal r"
    using le by (cases r; auto simp: rtotal_def)+
  have "alloc_block c d2 off (word_of_nat len') =
      alloc_block c d2 (off + rtotal (free_head (take_head len r))) (word_of_nat len')"
    using region_chunk_tail[OF rc2] assms(5,6) sz(1)
    by (intro alloc_block_skip_region[of _ _ _ _ ys]) (auto simp: off_def)
  with a1 f sz(2) show ?thesis by auto
qed

theorem split_lost_witness:
  "\<exists>d1 d2. alloc_block demo_cfg demo_chunk 262 5 = Inr (d1, 262, Some 263) \<and>
     str_release demo_cfg d1 263 = Inr d2 \<and> alloc_block demo_cfg d2 262 6 = alloc_block demo_cfg d2 299 6"
proof -
  have "str_repr demo_cfg demo_chunk ([Region True 11 [116], Region True 7 [120]] @ [Region False 37 []])"
    using demo_heap_inv by (simp add: str_inv_def pool_ok_def demo_heap_def demo_regions_def)
  from split_lost[OF this, of 5 6] show ?thesis by (simp add: rtotal_def demo_cfg_def)
qed

text \<open>The merge of two free blocks is wrong: with sizes \<open>a\<close> and \<open>b\<close> the code adds the
  positive size to the negative header and writes \<open>b - a\<close>, where a free block of both
  would be \<open>- (a + b)\<close>; for equal sizes the result is zero, the end-of-chunk mark.\<close>

theorem merge_wrong:
  assumes "sint (d off) = - int a" and "sint (d (off + a)) = - int b"
    and "0 < a" and "a \<le> MAX_BLKSZ" and "0 < b" and "b \<le> MAX_BLKSZ"
  shows "sint (merge_block d off off) = int b - int a"
proof -
  have "d off = word_of_int (sint (d off))" by simp
  then have "d off = word_of_int (- int a)" unfolding assms(1) .
  moreover have "block_size d off = a" "block_size d (off + a) = b"
    using assms by (simp_all add: block_size_def)
  ultimately have m: "merge_block d off off = word_of_int (int b - int a)"
    by (simp add: merge_block_def)
  then show ?thesis
    using assms by (simp only: m) (intro sint_of_int8, auto)
qed

theorem merge_wrong_witness:
  "sint (merge_block ((\<lambda>_. 0)(8 := - 5, 13 := - 9)) 8 8) = 4"
  using merge_wrong[of "(\<lambda>_. 0)(8 := - 5, 13 := - 9)" 8 5 9] by (simp add: byte_simps)

text \<open>No client of the allocator reaches the merge branches: in a well-formed chunk, the
  block after a free block that is too small for any request is never free.\<close>

theorem merge_dead:
  assumes "str_repr c d (xs @ r # ys)" and "\<not> used r" and "hsize r < MAX_BLKSZ"
  defines "off \<equiv> sizeof_arena_t c + rsum xs"
  shows "sint (d off) = - int (hsize r) \<and> \<not> sint (d (off + block_size d off)) < 0"
proof -
  have tail: "region_chunk c d off (r # ys)"
    using region_chunk_tail[of c d "sizeof_arena_t c" xs "r # ys"] assms(1) by (simp add: off_def str_repr_def)
  have h: "sint (d off) = - int (hsize r)"
    using tail assms(2) by (simp add: region_chunk_Cons region_headers_def)
  obtain s ls where r: "r = Region False s ls" using assms(2) by (cases r) auto
  have "\<not> sint (d (off + block_size d off)) < 0"
    using free_head_next[of c d off s ls ys] tail h assms(3) by (simp add: r block_size_header)
  with h show ?thesis by simp
qed

theorem merge_dead_witness:
  "sint (demo_chunk 262) = - 37 \<and> \<not> sint (demo_chunk (262 + block_size demo_chunk 262)) < 0"
proof -
  have "str_repr demo_cfg demo_chunk ([Region True 11 [116], Region True 7 [120]] @ [Region False 37 []])"
    using demo_heap_inv by (simp add: str_inv_def pool_ok_def demo_heap_def demo_regions_def)
  from merge_dead[OF this] show ?thesis by (simp add: rtotal_def demo_cfg_def)
qed
end
