(* ===== verification/Bitmap.thy ===== *)
theory Bitmap
  imports Prelude
begin

text \<open>
  The bitmaps of \<open>8/so21_lista_8/objpool.c\<close>: the flat one (\<open>bit_set\<close>, \<open>bit_test\<close>,
  \<open>bit_clear\<close> of the BSD header \<open>bitstring.h\<close> and the byte scan of \<open>alloc_block\<close>, compiled
  when \<open>TEST\<close> is defined) and the three-level one (\<open>my_bit_*\<close>), behind one interface.

  A bitmap is the list of bytes reserved for it in the arena. A byte outside it is
  \<open>Out_of_bounds\<close>. The inline \<open>tzcnt\<close> is read as storing the number of trailing zeros
  of its input operand in its output operand.
\<close>

unbundle bit_operations_syntax

section \<open>Bytes\<close>

definition rd :: "u8 list \<Rightarrow> nat \<Rightarrow> u8 run" where
  "rd b i = (if i < length b then Inr (b ! i) else Inl Out_of_bounds)"

definition wr :: "u8 list \<Rightarrow> nat \<Rightarrow> u8 \<Rightarrow> u8 list run" where
  "wr b i w = (if i < length b then Inr (b[i := w]) else Inl Out_of_bounds)"

definition or_bit :: "u8 list \<Rightarrow> nat \<Rightarrow> nat \<Rightarrow> u8 list run" where
  "or_bit b i k = bind_run (rd b i) (\<lambda>w. wr b i (w OR push_bit k 1))"

definition and_not_bit :: "u8 list \<Rightarrow> nat \<Rightarrow> nat \<Rightarrow> u8 list run" where
  "and_not_bit b i k = bind_run (rd b i) (\<lambda>w. wr b i (w AND NOT (push_bit k 1)))"

text \<open>\<open>tzcnt\<close> of a 32-bit operand; the byte is promoted to \<open>int\<close> before \<open>~\<close>.\<close>

definition tzcnt :: "u32 \<Rightarrow> nat" where
  "tzcnt x = length (takeWhile (\<lambda>k. \<not> bit x k) [0..<32])"

definition tzcnt_not :: "u8 \<Rightarrow> nat" where
  "tzcnt_not w = tzcnt (NOT (ucast w))"

text \<open>The scan \<open>while (*b_p == 0xff) {b_p++; n++;}\<close>.\<close>

function scan_ff :: "u8 list \<Rightarrow> nat \<Rightarrow> nat run" where
  "scan_ff b i =
     (if i < length b then (if b ! i = 0xff then scan_ff b (i + 1) else Inr i)
      else Inl Out_of_bounds)"
  by pat_completeness auto
termination by (relation "measure (\<lambda>(b, i). length b - i)") auto

declare scan_ff.simps [simp del]

section \<open>The two bitmaps\<close>

record bitmap_ops =
  bm_test :: "u8 list \<Rightarrow> nat \<Rightarrow> bool run"
  bm_set :: "u8 list \<Rightarrow> nat \<Rightarrow> u8 list run"
  bm_clear :: "u8 list \<Rightarrow> nat \<Rightarrow> u8 list run"
  bm_ffc :: "u8 list \<Rightarrow> nat run"

definition bit_test :: "u8 list \<Rightarrow> nat \<Rightarrow> bool run" where
  "bit_test b n = bind_run (rd b (n div 8)) (\<lambda>w. Inr (w AND push_bit (n mod 8) 1 \<noteq> 0))"

definition bit_set :: "u8 list \<Rightarrow> nat \<Rightarrow> u8 list run" where
  "bit_set b n = or_bit b (n div 8) (n mod 8)"

definition bit_clear :: "u8 list \<Rightarrow> nat \<Rightarrow> u8 list run" where
  "bit_clear b n = and_not_bit b (n div 8) (n mod 8)"

definition flat_ffc :: "u8 list \<Rightarrow> nat run" where
  "flat_ffc b = bind_run (scan_ff b 0) (\<lambda>i. Inr (tzcnt_not (b ! i) + i * 8))"

definition flat_ops :: bitmap_ops where
  "flat_ops = \<lparr>bm_test = bit_test, bm_set = bit_set, bm_clear = bit_clear, bm_ffc = flat_ffc\<rparr>"

text \<open>The globals \<open>level2_offset\<close>, \<open>level1_offset\<close>, \<open>bitmap_offset\<close>.\<close>

record level_offsets =
  level2_offset :: nat
  level1_offset :: nat
  bitmap_offset :: nat

definition my_bit_test :: "level_offsets \<Rightarrow> u8 list \<Rightarrow> nat \<Rightarrow> bool run" where
  "my_bit_test l b n =
     bind_run (rd b (bitmap_offset l + n div 8)) (\<lambda>w. Inr (w AND push_bit (n mod 8) 1 \<noteq> 0))"

definition my_bit_set :: "level_offsets \<Rightarrow> u8 list \<Rightarrow> nat \<Rightarrow> u8 list run" where
  "my_bit_set l b n =
     (let level1_idx = n div 8; level2_idx = level1_idx div 8 in
      bind_run (or_bit b (bitmap_offset l + n div 8) (n mod 8)) (\<lambda>b.
      bind_run (rd b (bitmap_offset l + n div 8)) (\<lambda>w.
      if w = 0xff then
        bind_run (or_bit b (level1_offset l + level1_idx div 8) (level1_idx mod 8)) (\<lambda>b.
        bind_run (rd b (level1_offset l + level1_idx div 8)) (\<lambda>w1.
        if w1 = 0xff
        then or_bit b (level2_offset l + level2_idx div 8) (level2_idx mod 8)
        else Inr b))
      else Inr b)))"

definition my_bit_clear :: "level_offsets \<Rightarrow> u8 list \<Rightarrow> nat \<Rightarrow> u8 list run" where
  "my_bit_clear l b n =
     (let level1_idx = n div 8; level2_idx = level1_idx div 8 in
      bind_run (and_not_bit b (bitmap_offset l + n div 8) (n mod 8)) (\<lambda>b.
      bind_run (rd b (level1_offset l + level1_idx div 8)) (\<lambda>w1.
      bind_run (rd b (bitmap_offset l + n div 8)) (\<lambda>w.
      if w1 \<noteq> 0 \<and> w \<noteq> 0xff then
        bind_run (and_not_bit b (level1_offset l + level1_idx div 8) (level1_idx mod 8)) (\<lambda>b.
        bind_run (rd b (level2_offset l + level2_idx div 8)) (\<lambda>w2.
        bind_run (rd b (level1_offset l + level1_idx div 8)) (\<lambda>w1.
        if w2 \<noteq> 0 \<and> w1 \<noteq> 0xff
        then and_not_bit b (level2_offset l + level2_idx div 8) (level2_idx mod 8)
        else Inr b)))
      else Inr b))))"

definition my_bit_ffc :: "level_offsets \<Rightarrow> u8 list \<Rightarrow> nat run" where
  "my_bit_ffc l b =
     bind_run (scan_ff b 0) (\<lambda>level2_idx.
       let level1_idx = level2_idx * 8 + tzcnt_not (b ! level2_idx) in
       bind_run (rd b (level1_offset l + level1_idx)) (\<lambda>w1.
         let bitmap_idx = level1_idx * 8 + tzcnt_not w1 in
         bind_run (rd b (bitmap_offset l + bitmap_idx)) (\<lambda>w.
           Inr (bitmap_idx * 8 + tzcnt_not w))))"

definition hier_ops :: "level_offsets \<Rightarrow> bitmap_ops" where
  "hier_ops l = \<lparr>bm_test = my_bit_test l, bm_set = my_bit_set l, bm_clear = my_bit_clear l,
                 bm_ffc = my_bit_ffc l\<rparr>"

section \<open>Bits of bytes\<close>

lemma all_ones8: "(w :: 8 word) = 0xff \<longleftrightarrow> (\<forall>k<8. bit w k)"
proof -
  have "(0xff :: 8 word) = - 1" by simp
  then show ?thesis by (auto simp: bit_eq_iff)
qed

lemma zero8: "(w :: 8 word) = 0 \<longleftrightarrow> (\<forall>k<8. \<not> bit w k)"
  by (auto simp: bit_eq_iff dest: bit_imp_le_length)

lemma bit_or_push [simp]: "k < 8 \<Longrightarrow> bit ((w :: 8 word) OR 2 ^ k) j \<longleftrightarrow> bit w j \<or> j = k"
  by (auto simp: bit_simps dest: bit_imp_le_length)

lemma bit_and_not_push [simp]:
  "bit ((w :: 8 word) AND NOT (2 ^ k)) j \<longleftrightarrow> bit w j \<and> j \<noteq> k"
  by (auto simp: bit_simps dest: bit_imp_le_length)

lemma and_push_zero: "k < 8 \<Longrightarrow> (w :: 8 word) AND 2 ^ k = 0 \<longleftrightarrow> \<not> bit w k"
  by (auto simp: zero8 bit_simps)

lemma takeWhile_upt:
  assumes "m < n" and "\<not> P m" and "\<forall>j<m. P j"
  shows "length (takeWhile P [0..<n]) = m"
proof -
  have "[0..<n] = [0..<m] @ m # [Suc m..<n]"
    using assms(1) by (metis less_imp_le_nat le0 upt_add_eq_append upt_conv_Cons le_add_diff_inverse)
  then show ?thesis using assms(2,3) by (simp add: takeWhile_append)
qed

lemma tzcnt_not_spec:
  assumes "w \<noteq> 0xff"
  shows "tzcnt_not w < 8 \<and> \<not> bit w (tzcnt_not w) \<and> (\<forall>j<tzcnt_not w. bit w j)"
proof -
  from assms obtain k where "k < 8 \<and> \<not> bit w k" by (auto simp: all_ones8)
  then have ex: "\<exists>k. k < 8 \<and> \<not> bit w k" by blast
  define m where "m = (LEAST k. k < 8 \<and> \<not> bit w k)"
  have m: "m < 8 \<and> \<not> bit w m" unfolding m_def by (rule LeastI_ex[OF ex])
  have low: "\<forall>j<m. bit w j" using not_less_Least[of _ "\<lambda>k. k < 8 \<and> \<not> bit w k"] m
    unfolding m_def[symmetric] by (meson order_less_trans)
  have bits: "bit (NOT (ucast w) :: 32 word) k \<longleftrightarrow> k < 32 \<and> \<not> bit w k" for k
    by (auto simp: bit_simps dest: bit_imp_le_length)
  have "tzcnt_not w = m" unfolding tzcnt_not_def tzcnt_def
    by (rule takeWhile_upt) (use m low in \<open>auto simp: bits\<close>)
  with m low show ?thesis by simp
qed

lemma scan_ff_spec:
  "i \<le> m \<Longrightarrow> m < length b \<Longrightarrow> b ! m \<noteq> 0xff \<Longrightarrow>
     \<exists>j. scan_ff b i = Inr j \<and> i \<le> j \<and> j \<le> m \<and> b ! j \<noteq> 0xff \<and> (\<forall>k. i \<le> k \<and> k < j \<longrightarrow> b ! k = 0xff)"
proof (induction b i rule: scan_ff.induct)
  case (1 b i)
  show ?case
  proof (cases "b ! i = 0xff")
    case True
    then have "i \<noteq> m" using 1(4) by auto
    with 1 True obtain j where "scan_ff b (i + 1) = Inr j" "i + 1 \<le> j" "j \<le> m" "b ! j \<noteq> 0xff"
      "\<forall>k. i + 1 \<le> k \<and> k < j \<longrightarrow> b ! k = 0xff" by fastforce
    moreover from this True have "\<forall>k. i \<le> k \<and> k < j \<longrightarrow> b ! k = 0xff"
      by (metis Suc_eq_plus1 Suc_le_eq le_neq_implies_less)
    ultimately show ?thesis using True 1(2,3)
      by (subst scan_ff.simps) auto
  next
    case False
    with 1 show ?thesis by (subst scan_ff.simps) auto
  qed
qed

section \<open>What an allocator needs of a bitmap\<close>

text \<open>
  \<open>wf b A\<close>: the bitmap \<open>b\<close> represents the set \<open>A\<close> of bits that are set, all below \<open>N\<close>.
  The laws are what \<open>alloc_block\<close>, \<open>free_block\<close> and \<open>objmemcheck\<close> rely on.
\<close>

locale bitmap_impl =
  fixes ops :: bitmap_ops
    and N :: nat
    and wf :: "u8 list \<Rightarrow> nat set \<Rightarrow> bool"
  assumes wf_bound: "wf b A \<Longrightarrow> A \<subseteq> {..<N}"
    and test_law: "wf b A \<Longrightarrow> i < N \<Longrightarrow> bm_test ops b i = Inr (i \<in> A)"
    and set_law: "wf b A \<Longrightarrow> i < N \<Longrightarrow> \<exists>b'. bm_set ops b i = Inr b' \<and> wf b' (insert i A)"
    and clear_law: "wf b A \<Longrightarrow> i < N \<Longrightarrow> \<exists>b'. bm_clear ops b i = Inr b' \<and> wf b' (A - {i})"
    and ffc_law: "wf b A \<Longrightarrow> i < N \<Longrightarrow> i \<notin> A \<Longrightarrow>
           \<exists>j. bm_ffc ops b = Inr j \<and> j \<notin> A \<and> j \<le> i \<and> (\<forall>k<j. k \<in> A)"
begin

lemma ffc_least:
  assumes "wf b A" and "A \<noteq> {..<N}"
  shows "bm_ffc ops b = Inr (LEAST j. j \<notin> A) \<and> (LEAST j. j \<notin> A) < N \<and> (LEAST j. j \<notin> A) \<notin> A"
proof -
  obtain i where i: "i < N" "i \<notin> A" using assms wf_bound[OF assms(1)] by auto
  from ffc_law[OF assms(1) i] obtain j where j: "bm_ffc ops b = Inr j" "j \<notin> A" "j \<le> i" "\<forall>k<j. k \<in> A"
    by blast
  have "(LEAST j. j \<notin> A) = j" by (rule Least_equality) (use j in \<open>auto simp: not_less[symmetric]\<close>)
  with i j show ?thesis by simp
qed

lemma finite_wf: "wf b A \<Longrightarrow> finite A"
  using wf_bound finite_subset by blast

end

section \<open>Bits of a run of bytes\<close>

definition bitAt :: "nat \<Rightarrow> u8 list \<Rightarrow> nat \<Rightarrow> bool" where
  "bitAt off b n \<longleftrightarrow> bit (b ! (off + n div 8)) (n mod 8)"

lemma div_mod8_eq: "m div 8 = n div 8 \<and> m mod 8 = n mod 8 \<longleftrightarrow> m = (n :: nat)"
  by (metis div_mult_mod_eq)

lemma bitAt_byte: "k < 8 \<Longrightarrow> bitAt off b (8 * i + k) \<longleftrightarrow> bit (b ! (off + i)) k"
  by (simp add: bitAt_def)

lemma byte_full: "b ! (off + i) = 0xff \<longleftrightarrow> (\<forall>k<8. bitAt off b (8 * i + k))"
  by (auto simp: all_ones8 bitAt_byte)

lemma or_bit_at:
  assumes "off + n div 8 < length b"
  shows "\<exists>b'. or_bit b (off + n div 8) (n mod 8) = Inr b' \<and> length b' = length b \<and>
           (\<forall>i. i \<noteq> off + n div 8 \<longrightarrow> b' ! i = b ! i) \<and>
           (\<forall>m. bitAt off b' m \<longleftrightarrow> bitAt off b m \<or> m = n)"
proof -
  have "bitAt off (b[off + n div 8 := b ! (off + n div 8) OR push_bit (n mod 8) 1]) m \<longleftrightarrow>
      bitAt off b m \<or> m = n" for m
    using assms div_mod8_eq[of m n]
    by (cases "m div 8 = n div 8") (auto simp: bitAt_def)
  then show ?thesis using assms by (auto simp: or_bit_def rd_def wr_def)
qed

lemma and_not_bit_at:
  assumes "off + n div 8 < length b"
  shows "\<exists>b'. and_not_bit b (off + n div 8) (n mod 8) = Inr b' \<and> length b' = length b \<and>
           (\<forall>i. i \<noteq> off + n div 8 \<longrightarrow> b' ! i = b ! i) \<and>
           (\<forall>m. bitAt off b' m \<longleftrightarrow> bitAt off b m \<and> m \<noteq> n)"
proof -
  have "bitAt off (b[off + n div 8 := b ! (off + n div 8) AND NOT (push_bit (n mod 8) 1)]) m \<longleftrightarrow>
      bitAt off b m \<and> m \<noteq> n" for m
    using assms div_mod8_eq[of m n]
    by (cases "m div 8 = n div 8") (auto simp: bitAt_def)
  then show ?thesis using assms by (auto simp: and_not_bit_def rd_def wr_def)
qed

text \<open>The first zero bit lies in the first byte that is not \<open>0xff\<close>.\<close>

lemma first_zero_bit:
  assumes "b ! (off + i) \<noteq> 0xff" and "\<forall>k<i. b ! (off + k) = 0xff"
  shows "\<not> bitAt off b (8 * i + tzcnt_not (b ! (off + i))) \<and>
         (\<forall>m < 8 * i + tzcnt_not (b ! (off + i)). bitAt off b m)"
proof -
  note t = tzcnt_not_spec[OF assms(1)]
  have "bitAt off b m" if m: "m < 8 * i + tzcnt_not (b ! (off + i))" for m
  proof (cases "m div 8 < i")
    case True
    then have "b ! (off + m div 8) = 0xff" using assms(2) by simp
    then show ?thesis by (simp add: bitAt_def all_ones8)
  next
    case False
    have "m < (i + 1) * 8" using m conjunct1[OF t] by (simp only: add_mult_distrib mult.commute)
    then have "m div 8 < i + 1" by (rule less_mult_imp_div_less)
    with False have "m div 8 = i" by linarith
    moreover from this have "m mod 8 < tzcnt_not (b ! (off + i))"
      using m mult_div_mod_eq[of 8 m] by linarith
    ultimately have "m div 8 = i" "m mod 8 < tzcnt_not (b ! (off + i))" by blast+
    with t show ?thesis by (simp add: bitAt_def)
  qed
  with t show ?thesis by (simp add: bitAt_byte)
qed

section \<open>The flat bitmap\<close>

definition flat_wf :: "nat \<Rightarrow> u8 list \<Rightarrow> nat set \<Rightarrow> bool" where
  "flat_wf N b A \<longleftrightarrow> A \<subseteq> {..<N} \<and> N \<le> 8 * length b \<and> (\<forall>n < 8 * length b. bitAt 0 b n \<longleftrightarrow> n \<in> A)"

lemma flat_wf_zero: "N \<le> 8 * n \<Longrightarrow> flat_wf N (replicate n 0) {}"
  by (auto simp: flat_wf_def bitAt_def)

interpretation flat: bitmap_impl flat_ops N "flat_wf N" for N
proof
  fix b A i
  assume wf: "flat_wf N b A"
  then show "A \<subseteq> {..<N}" by (simp add: flat_wf_def)
  assume i: "i < N"
  then have len: "0 + i div 8 < length b" using wf by (auto simp: flat_wf_def)
  have bit: "bitAt 0 b i \<longleftrightarrow> i \<in> A" using wf i by (auto simp: flat_wf_def)
  then show "bm_test flat_ops b i = Inr (i \<in> A)"
    using len by (simp add: flat_ops_def bit_test_def rd_def and_push_zero bitAt_def)
  from or_bit_at[OF len] show "\<exists>b'. bm_set flat_ops b i = Inr b' \<and> flat_wf N b' (insert i A)"
    using wf i by (auto simp: flat_ops_def bit_set_def flat_wf_def)
  from and_not_bit_at[OF len] show "\<exists>b'. bm_clear flat_ops b i = Inr b' \<and> flat_wf N b' (A - {i})"
    using wf i by (auto simp: flat_ops_def bit_clear_def flat_wf_def)
  assume ni: "i \<notin> A"
  have "b ! (0 + i div 8) \<noteq> 0xff"
    unfolding byte_full using ni bit by (auto intro!: exI[of _ "i mod 8"])
  then obtain j where j: "scan_ff b 0 = Inr j" "j \<le> i div 8" "b ! (0 + j) \<noteq> 0xff"
    "\<forall>k<j. b ! (0 + k) = 0xff"
    using scan_ff_spec[of 0 "i div 8" b] len by auto
  let ?r = "8 * j + tzcnt_not (b ! (0 + j))"
  note r = first_zero_bit[OF j(3,4)]
  have "?r \<le> i" using r ni bit not_le_imp_less by blast
  moreover from this have "?r \<notin> A" and "\<forall>k<?r. k \<in> A"
    using r wf i by (auto simp: flat_wf_def)
  ultimately show "\<exists>j. bm_ffc flat_ops b = Inr j \<and> j \<notin> A \<and> j \<le> i \<and> (\<forall>k<j. k \<in> A)"
    using j(1) by (intro exI[of _ ?r]) (simp add: flat_ops_def flat_ffc_def)
qed

section \<open>The three-level bitmap\<close>

text \<open>
  \<open>level2_size\<close> bytes of level 2, eight times as many of level 1, 64 times as many of the
  bitmap: the layout \<open>init_arena\<close> computes when the number of bitmap bytes is a multiple of
  64. A bit of a level is set exactly when the byte below it is full.
\<close>

definition levels :: "nat \<Rightarrow> level_offsets" where
  "levels m = \<lparr>level2_offset = 0, level1_offset = m, bitmap_offset = m + 8 * m\<rparr>"

definition summary :: "nat \<Rightarrow> nat \<Rightarrow> u8 list \<Rightarrow> nat \<Rightarrow> bool" where
  "summary u d b i \<longleftrightarrow> (bitAt u b i \<longleftrightarrow> b ! (d + i) = 0xff)"

definition hier_wf :: "nat \<Rightarrow> nat \<Rightarrow> u8 list \<Rightarrow> nat set \<Rightarrow> bool" where
  "hier_wf m N b A \<longleftrightarrow> A \<subseteq> {..<N} \<and> N \<le> 512 * m \<and> length b = 73 * m \<and>
     (\<forall>n < 512 * m. bitAt (9 * m) b n \<longleftrightarrow> n \<in> A) \<and>
     (\<forall>i < 64 * m. summary m (9 * m) b i) \<and> (\<forall>i < 8 * m. summary 0 m b i)"

lemma hier_wf_zero: "N \<le> 512 * m \<Longrightarrow> hier_wf m N (replicate (73 * m) 0) {}"
  by (auto simp: hier_wf_def bitAt_def summary_def)

text \<open>Setting or clearing one bit of a level keeps every other summary bit right.\<close>

lemma summary_or:
  assumes "u + n div 8 < length b" and "u + n div 8 < d"
  shows "\<exists>b'. or_bit b (u + n div 8) (n mod 8) = Inr b' \<and> length b' = length b \<and>
     (\<forall>i. i \<noteq> u + n div 8 \<longrightarrow> b' ! i = b ! i) \<and> (\<forall>m. bitAt u b' m \<longleftrightarrow> bitAt u b m \<or> m = n) \<and>
     (\<forall>i. i \<noteq> n \<longrightarrow> summary u d b' i = summary u d b i) \<and>
     (summary u d b' n \<longleftrightarrow> b ! (d + n) = 0xff)"
proof -
  from or_bit_at[OF assms(1)] obtain b' where b': "or_bit b (u + n div 8) (n mod 8) = Inr b'"
    "length b' = length b" "\<forall>i. i \<noteq> u + n div 8 \<longrightarrow> b' ! i = b ! i"
    "\<forall>m. bitAt u b' m \<longleftrightarrow> bitAt u b m \<or> m = n" by blast
  have "b' ! (d + i) = b ! (d + i)" for i using b'(3) assms(2) by simp
  with b' show ?thesis by (auto simp: summary_def)
qed

lemma summary_and_not:
  assumes "u + n div 8 < length b" and "u + n div 8 < d"
  shows "\<exists>b'. and_not_bit b (u + n div 8) (n mod 8) = Inr b' \<and> length b' = length b \<and>
     (\<forall>i. i \<noteq> u + n div 8 \<longrightarrow> b' ! i = b ! i) \<and> (\<forall>m. bitAt u b' m \<longleftrightarrow> bitAt u b m \<and> m \<noteq> n) \<and>
     (\<forall>i. i \<noteq> n \<longrightarrow> summary u d b' i = summary u d b i) \<and>
     (summary u d b' n \<longleftrightarrow> b ! (d + n) \<noteq> 0xff)"
proof -
  from and_not_bit_at[OF assms(1)] obtain b' where b': "and_not_bit b (u + n div 8) (n mod 8) = Inr b'"
    "length b' = length b" "\<forall>i. i \<noteq> u + n div 8 \<longrightarrow> b' ! i = b ! i"
    "\<forall>m. bitAt u b' m \<longleftrightarrow> bitAt u b m \<and> m \<noteq> n" by blast
  have "b' ! (d + i) = b ! (d + i)" for i using b'(3) assms(2) by simp
  with b' show ?thesis by (auto simp: summary_def)
qed

lemma bitAt_frame: "b' ! (off + n div 8) = b ! (off + n div 8) \<Longrightarrow> bitAt off b' n = bitAt off b n"
  by (simp add: bitAt_def)

lemma summary_frame:
  "b' ! (u + i div 8) = b ! (u + i div 8) \<Longrightarrow> b' ! (d + i) = b ! (d + i) \<Longrightarrow>
     summary u d b' i = summary u d b i"
  by (simp add: summary_def bitAt_def)

lemma hier_byte_index:
  assumes "n < 512 * (m :: nat)"
  shows "n div 8 < 64 * m" "n div 8 div 8 < 8 * m" "n div 8 div 8 div 8 < m"
  using assms by (simp_all add: less_mult_imp_div_less)

lemma hier_test:
  assumes "hier_wf m N b A" and "n < N"
  shows "my_bit_test (levels m) b n = Inr (n \<in> A)"
proof -
  have "n < 512 * m" using assms by (auto simp: hier_wf_def)
  with hier_byte_index[of n m] assms show ?thesis
    by (auto simp: hier_wf_def my_bit_test_def levels_def rd_def and_push_zero bitAt_def)
qed

lemma hier_set:
  assumes wf: "hier_wf m N b A" and n: "n < N"
  shows "\<exists>b'. my_bit_set (levels m) b n = Inr b' \<and> hier_wf m N b' (insert n A)"
proof -
  have nm: "n < 512 * m" and len: "length b = 73 * m" using wf n by (auto simp: hier_wf_def)
  note idx = hier_byte_index[OF nm]
  let ?p = "9 * m + n div 8" and ?q = "m + n div 8 div 8" and ?r = "0 + n div 8 div 8 div 8"
  have p: "?p < length b" and q: "?q < 9 * m" and r: "?r < m" and pq: "?q < length b" "?r < length b"
    using idx len by auto
  from or_bit_at[OF p] obtain b1 where b1: "or_bit b ?p (n mod 8) = Inr b1" "length b1 = length b"
    "\<forall>i. i \<noteq> ?p \<longrightarrow> b1 ! i = b ! i" "\<forall>k. bitAt (9 * m) b1 k \<longleftrightarrow> bitAt (9 * m) b k \<or> k = n" by blast
  have bits1: "\<forall>k<512 * m. bitAt (9 * m) b1 k \<longleftrightarrow> k \<in> insert n A" using b1(4) wf by (auto simp: hier_wf_def)
  have s1: "\<forall>i < 64 * m. i \<noteq> n div 8 \<longrightarrow> summary m (9 * m) b1 i"
  proof (intro allI impI)
    fix i assume i: "i < 64 * m" "i \<noteq> n div 8"
    then have "i div 8 < 8 * m" by (simp add: less_mult_imp_div_less)
    then have "b1 ! (m + i div 8) = b ! (m + i div 8)" "b1 ! (9 * m + i) = b ! (9 * m + i)"
      using b1(3) i by auto
    then show "summary m (9 * m) b1 i" using wf i(1) summary_frame by (metis hier_wf_def)
  qed
  have s2: "\<forall>i < 8 * m. summary 0 m b1 i"
  proof (intro allI impI)
    fix i assume i: "i < 8 * m"
    then have "i div 8 < m" by (simp add: less_mult_imp_div_less)
    then have "b1 ! (0 + i div 8) = b ! (0 + i div 8)" "b1 ! (m + i) = b ! (m + i)"
      using b1(3) i by auto
    then show "summary 0 m b1 i" using wf i summary_frame by (metis hier_wf_def)
  qed
  show ?thesis
  proof (cases "b1 ! ?p = 0xff")
    case False
    have "b ! ?p \<noteq> 0xff"
      using False b1(4) unfolding byte_full by blast
    then have "\<not> bitAt m b (n div 8)" using wf idx(1) by (auto simp: hier_wf_def summary_def)
    moreover have "b1 ! ?q = b ! ?q" using b1(3) q by auto
    ultimately have "summary m (9 * m) b1 (n div 8)"
      using False by (simp add: summary_def bitAt_def)
    then have "hier_wf m N b1 (insert n A)"
      using bits1 s1 s2 wf n b1(2) unfolding hier_wf_def by auto
    with b1(1,2) p False show ?thesis by (simp add: my_bit_set_def levels_def rd_def Let_def)
  next
    case full: True
    have "?q < length b1" using pq b1(2) by simp
    from summary_or[OF this q] obtain b2 where b2: "or_bit b1 ?q (n div 8 mod 8) = Inr b2"
      "length b2 = length b" "\<forall>i. i \<noteq> ?q \<longrightarrow> b2 ! i = b1 ! i"
      "\<forall>k. bitAt m b2 k \<longleftrightarrow> bitAt m b1 k \<or> k = n div 8"
      "\<forall>i. i \<noteq> n div 8 \<longrightarrow> summary m (9 * m) b2 i = summary m (9 * m) b1 i"
      "summary m (9 * m) b2 (n div 8)"
      using full b1(2) by auto
    have bits2: "\<forall>k<512 * m. bitAt (9 * m) b2 k \<longleftrightarrow> k \<in> insert n A"
    proof (intro allI impI)
      fix k assume k: "k < 512 * m"
      have "b2 ! (9 * m + k div 8) = b1 ! (9 * m + k div 8)" using b2(3) q by auto
      then show "bitAt (9 * m) b2 k \<longleftrightarrow> k \<in> insert n A" using bits1 k bitAt_frame by blast
    qed
    have s1': "\<forall>i < 64 * m. summary m (9 * m) b2 i" using s1 b2(5,6) by metis
    have s2': "\<forall>i < 8 * m. i \<noteq> n div 8 div 8 \<longrightarrow> summary 0 m b2 i"
    proof (intro allI impI)
      fix i assume i: "i < 8 * m" "i \<noteq> n div 8 div 8"
      then have "i div 8 < m" by (simp add: less_mult_imp_div_less)
      then have "b2 ! (0 + i div 8) = b1 ! (0 + i div 8)" "b2 ! (m + i) = b1 ! (m + i)"
        using b2(3) i by auto
      then show "summary 0 m b2 i" using s2 i(1) summary_frame by metis
    qed
    show ?thesis
    proof (cases "b2 ! ?q = 0xff")
      case False
      have "b1 ! ?q \<noteq> 0xff" using False b2(4) unfolding byte_full by blast
      then have "\<not> bitAt 0 b1 (n div 8 div 8)" using s2 idx(2) by (auto simp: summary_def)
      moreover have "b2 ! ?r = b1 ! ?r" using b2(3) r by auto
      ultimately have "summary 0 m b2 (n div 8 div 8)"
        using False by (simp add: summary_def bitAt_def)
      then have "hier_wf m N b2 (insert n A)"
        using bits2 s1' s2' wf n b2(2) unfolding hier_wf_def by auto
      with b1(1,2) b2(1,2) p pq full False show ?thesis
        by (simp add: my_bit_set_def levels_def rd_def Let_def)
    next
      case full2: True
      have "?r < length b2" using pq b2(2) by simp
      from summary_or[OF this r] obtain b3 where b3: "or_bit b2 ?r (n div 8 div 8 mod 8) = Inr b3"
        "length b3 = length b" "\<forall>i. i \<noteq> ?r \<longrightarrow> b3 ! i = b2 ! i"
        "\<forall>i. i \<noteq> n div 8 div 8 \<longrightarrow> summary 0 m b3 i = summary 0 m b2 i"
        "summary 0 m b3 (n div 8 div 8)"
        using full2 b2(2) by auto
      have bits3: "\<forall>k<512 * m. bitAt (9 * m) b3 k \<longleftrightarrow> k \<in> insert n A"
      proof (intro allI impI)
        fix k assume k: "k < 512 * m"
        have "b3 ! (9 * m + k div 8) = b2 ! (9 * m + k div 8)" using b3(3) r by auto
        then show "bitAt (9 * m) b3 k \<longleftrightarrow> k \<in> insert n A" using bits2 k bitAt_frame by blast
      qed
      have "\<forall>i < 64 * m. summary m (9 * m) b3 i"
      proof (intro allI impI)
        fix i assume i: "i < 64 * m"
        have "b3 ! (m + i div 8) = b2 ! (m + i div 8)" "b3 ! (9 * m + i) = b2 ! (9 * m + i)"
          using b3(3) r by auto
        then show "summary m (9 * m) b3 i" using s1' i summary_frame by metis
      qed
      moreover have "\<forall>i < 8 * m. summary 0 m b3 i" using s2' b3(4,5) by metis
      ultimately have "hier_wf m N b3 (insert n A)"
        using bits3 wf n b3(2) unfolding hier_wf_def by auto
      with b1(1,2) b2(1,2) b3(1) p pq full full2 show ?thesis
        by (simp add: my_bit_set_def levels_def rd_def Let_def)
    qed
  qed
qed

lemma hier_clear:
  assumes wf: "hier_wf m N b A" and n: "n < N"
  shows "\<exists>b'. my_bit_clear (levels m) b n = Inr b' \<and> hier_wf m N b' (A - {n})"
proof -
  have nm: "n < 512 * m" and len: "length b = 73 * m" using wf n by (auto simp: hier_wf_def)
  note idx = hier_byte_index[OF nm]
  let ?p = "9 * m + n div 8" and ?q = "m + n div 8 div 8" and ?r = "0 + n div 8 div 8 div 8"
  have p: "?p < length b" and q: "?q < 9 * m" and r: "?r < m" and pq: "?q < length b" "?r < length b"
    using idx len by auto
  from and_not_bit_at[OF p] obtain b1 where b1: "and_not_bit b ?p (n mod 8) = Inr b1" "length b1 = length b"
    "\<forall>i. i \<noteq> ?p \<longrightarrow> b1 ! i = b ! i" "\<forall>k. bitAt (9 * m) b1 k \<longleftrightarrow> bitAt (9 * m) b k \<and> k \<noteq> n" by blast
  have bits1: "\<forall>k<512 * m. bitAt (9 * m) b1 k \<longleftrightarrow> k \<in> A - {n}" using b1(4) wf by (auto simp: hier_wf_def)
  have "\<not> bitAt (9 * m) b1 (8 * (n div 8) + n mod 8)" using b1(4) by simp
  then have nf: "b1 ! ?p \<noteq> 0xff" unfolding byte_full by (auto intro!: exI[of _ "n mod 8"])
  have s1: "\<forall>i < 64 * m. i \<noteq> n div 8 \<longrightarrow> summary m (9 * m) b1 i"
  proof (intro allI impI)
    fix i assume i: "i < 64 * m" "i \<noteq> n div 8"
    then have "i div 8 < 8 * m" by (simp add: less_mult_imp_div_less)
    then have "b1 ! (m + i div 8) = b ! (m + i div 8)" "b1 ! (9 * m + i) = b ! (9 * m + i)"
      using b1(3) i by auto
    then show "summary m (9 * m) b1 i" using wf i(1) summary_frame by (metis hier_wf_def)
  qed
  have s2: "\<forall>i < 8 * m. summary 0 m b1 i"
  proof (intro allI impI)
    fix i assume i: "i < 8 * m"
    then have "i div 8 < m" by (simp add: less_mult_imp_div_less)
    then have "b1 ! (0 + i div 8) = b ! (0 + i div 8)" "b1 ! (m + i) = b ! (m + i)"
      using b1(3) i by auto
    then show "summary 0 m b1 i" using wf i summary_frame by (metis hier_wf_def)
  qed
  show ?thesis
  proof (cases "b1 ! ?q = 0")
    case z: True
    then have "\<not> bitAt m b1 (n div 8)" by (simp add: bitAt_def)
    then have "summary m (9 * m) b1 (n div 8)" using nf by (simp add: summary_def)
    then have "\<forall>i < 64 * m. summary m (9 * m) b1 i" using s1 by metis
    then have "hier_wf m N b1 (A - {n})"
      using bits1 s2 wf n b1(2) unfolding hier_wf_def by auto
    with b1(1,2) p pq z show ?thesis by (simp add: my_bit_clear_def levels_def rd_def Let_def)
  next
    case nz: False
    have "?q < length b1" using pq b1(2) by simp
    from summary_and_not[OF this q] obtain b2 where b2: "and_not_bit b1 ?q (n div 8 mod 8) = Inr b2"
      "length b2 = length b" "\<forall>i. i \<noteq> ?q \<longrightarrow> b2 ! i = b1 ! i"
      "\<forall>k. bitAt m b2 k \<longleftrightarrow> bitAt m b1 k \<and> k \<noteq> n div 8"
      "\<forall>i. i \<noteq> n div 8 \<longrightarrow> summary m (9 * m) b2 i = summary m (9 * m) b1 i"
      "summary m (9 * m) b2 (n div 8)"
      using nf b1(2) by auto
    have bits2: "\<forall>k<512 * m. bitAt (9 * m) b2 k \<longleftrightarrow> k \<in> A - {n}"
    proof (intro allI impI)
      fix k assume k: "k < 512 * m"
      have "b2 ! (9 * m + k div 8) = b1 ! (9 * m + k div 8)" using b2(3) q by auto
      then show "bitAt (9 * m) b2 k \<longleftrightarrow> k \<in> A - {n}" using bits1 k bitAt_frame by blast
    qed
    have s1': "\<forall>i < 64 * m. summary m (9 * m) b2 i" using s1 b2(5,6) by metis
    have "\<not> bitAt m b2 (8 * (n div 8 div 8) + n div 8 mod 8)" using b2(4) by simp
    then have nf2: "b2 ! ?q \<noteq> 0xff" unfolding byte_full by (auto intro!: exI[of _ "n div 8 mod 8"])
    have s2': "\<forall>i < 8 * m. i \<noteq> n div 8 div 8 \<longrightarrow> summary 0 m b2 i"
    proof (intro allI impI)
      fix i assume i: "i < 8 * m" "i \<noteq> n div 8 div 8"
      then have "i div 8 < m" by (simp add: less_mult_imp_div_less)
      then have "b2 ! (0 + i div 8) = b1 ! (0 + i div 8)" "b2 ! (m + i) = b1 ! (m + i)"
        using b2(3) i by auto
      then show "summary 0 m b2 i" using s2 i(1) summary_frame by metis
    qed
    show ?thesis
    proof (cases "b2 ! ?r = 0")
      case z2: True
      then have "\<not> bitAt 0 b2 (n div 8 div 8)" by (simp add: bitAt_def)
      then have "summary 0 m b2 (n div 8 div 8)" using nf2 by (simp add: summary_def)
      then have "\<forall>i < 8 * m. summary 0 m b2 i" using s2' by metis
      then have "hier_wf m N b2 (A - {n})"
        using bits2 s1' wf n b2(2) unfolding hier_wf_def by auto
      with b1(1,2) b2(1,2) p pq nz nf z2 show ?thesis
        by (simp add: my_bit_clear_def levels_def rd_def Let_def)
    next
      case nz2: False
      have "?r < length b2" using pq b2(2) by simp
      from summary_and_not[OF this r] obtain b3 where b3: "and_not_bit b2 ?r (n div 8 div 8 mod 8) = Inr b3"
        "length b3 = length b" "\<forall>i. i \<noteq> ?r \<longrightarrow> b3 ! i = b2 ! i"
        "\<forall>i. i \<noteq> n div 8 div 8 \<longrightarrow> summary 0 m b3 i = summary 0 m b2 i"
        "summary 0 m b3 (n div 8 div 8)"
        using nf2 b2(2) by auto
      have bits3: "\<forall>k<512 * m. bitAt (9 * m) b3 k \<longleftrightarrow> k \<in> A - {n}"
      proof (intro allI impI)
        fix k assume k: "k < 512 * m"
        have "b3 ! (9 * m + k div 8) = b2 ! (9 * m + k div 8)" using b3(3) r by auto
        then show "bitAt (9 * m) b3 k \<longleftrightarrow> k \<in> A - {n}" using bits2 k bitAt_frame by blast
      qed
      have "\<forall>i < 64 * m. summary m (9 * m) b3 i"
      proof (intro allI impI)
        fix i assume i: "i < 64 * m"
        have "b3 ! (m + i div 8) = b2 ! (m + i div 8)" "b3 ! (9 * m + i) = b2 ! (9 * m + i)"
          using b3(3) r by auto
        then show "summary m (9 * m) b3 i" using s1' i summary_frame by metis
      qed
      moreover have "\<forall>i < 8 * m. summary 0 m b3 i" using s2' b3(4,5) by metis
      ultimately have "hier_wf m N b3 (A - {n})"
        using bits3 wf n b3(2) unfolding hier_wf_def by auto
      with b1(1,2) b2(1,2) b3(1) p pq nz nf nz2 nf2 show ?thesis
        by (simp add: my_bit_clear_def levels_def rd_def Let_def)
    qed
  qed
qed

text \<open>The first byte of a level that is not full, seen from the level above.\<close>

lemma first_not_full:
  assumes "\<forall>i<n. summary u d b i" and "j < n" and "\<not> bitAt u b j" and "\<forall>k<j. bitAt u b k"
  shows "b ! (d + j) \<noteq> 0xff" and "\<forall>k<j. b ! (d + k) = 0xff"
  using assms by (auto simp: summary_def)

lemma hier_ffc:
  assumes wf: "hier_wf m N b A" and n: "n < N" "n \<notin> A"
  shows "\<exists>j. my_bit_ffc (levels m) b = Inr j \<and> j \<notin> A \<and> j \<le> n \<and> (\<forall>k<j. k \<in> A)"
proof -
  have nm: "n < 512 * m" and len: "length b = 73 * m" using wf n by (auto simp: hier_wf_def)
  note idx = hier_byte_index[OF nm]
  have S1: "\<forall>i < 64 * m. summary m (9 * m) b i" and S2: "\<forall>i < 8 * m. summary 0 m b i"
    and bits: "\<forall>n < 512 * m. bitAt (9 * m) b n \<longleftrightarrow> n \<in> A"
    using wf by (auto simp: hier_wf_def)
  have z0: "\<not> bitAt (9 * m) b n" using bits nm n(2) by simp
  have nf0: "b ! (9 * m + n div 8) \<noteq> 0xff"
    unfolding byte_full using z0 by (auto intro!: exI[of _ "n mod 8"])
  then have z1: "\<not> bitAt m b (n div 8)" using S1 idx(1) by (auto simp: summary_def)
  then have nf1: "b ! (m + n div 8 div 8) \<noteq> 0xff"
    unfolding byte_full by (auto intro!: exI[of _ "n div 8 mod 8"])
  then have z2: "\<not> bitAt 0 b (n div 8 div 8)" using S2 idx(2) by (auto simp: summary_def)
  then have nf2: "b ! (0 + n div 8 div 8 div 8) \<noteq> 0xff"
    unfolding byte_full by (auto intro!: exI[of _ "n div 8 div 8 mod 8"])
  have "n div 8 div 8 div 8 < length b" using idx(3) len by simp
  from scan_ff_spec[OF _ this, of 0] nf2 obtain j where j: "scan_ff b 0 = Inr j"
    "b ! (0 + j) \<noteq> 0xff" "\<forall>k<j. b ! (0 + k) = 0xff" by auto
  let ?i1 = "8 * j + tzcnt_not (b ! (0 + j))"
  note r2 = first_zero_bit[OF j(2,3)]
  have i1: "?i1 \<le> n div 8 div 8" using r2 z2 not_le_imp_less by blast
  then have i1m: "?i1 < 8 * m" using idx(2) by linarith
  note f1 = first_not_full[OF S2 i1m conjunct1[OF r2] conjunct2[OF r2]]
  let ?i0 = "8 * ?i1 + tzcnt_not (b ! (m + ?i1))"
  note r1 = first_zero_bit[OF f1]
  have i0: "?i0 \<le> n div 8" using r1 z1 not_le_imp_less by blast
  then have i0m: "?i0 < 64 * m" using idx(1) by linarith
  note f0 = first_not_full[OF S1 i0m conjunct1[OF r1] conjunct2[OF r1]]
  let ?r = "8 * ?i0 + tzcnt_not (b ! (9 * m + ?i0))"
  note r0 = first_zero_bit[OF f0]
  have rn: "?r \<le> n" using r0 z0 not_le_imp_less by blast
  then have "?r \<notin> A" "\<forall>k<?r. k \<in> A" using r0 bits nm by auto
  moreover have "my_bit_ffc (levels m) b = Inr ?r"
    using j(1) i1m i0m len by (simp add: my_bit_ffc_def levels_def rd_def Let_def mult.commute)
  ultimately show ?thesis using rn by blast
qed

interpretation hier: bitmap_impl "hier_ops (levels m)" N "hier_wf m N" for m N
proof
  fix b A i
  show "hier_wf m N b A \<Longrightarrow> A \<subseteq> {..<N}" by (simp add: hier_wf_def)
qed (simp_all add: hier_ops_def hier_test hier_set hier_clear hier_ffc)

end
