(* ===== verification/Objpool.thy ===== *)
theory Objpool
  imports Arena Bitmap
begin

text \<open>
  The object pool of \<open>8/so21_lista_8/objpool.c\<close>: arenas of 32-byte objects with a bitmap of
  used items. Every operation takes the bitmap operations as an argument: the code chooses
  between \<open>flat_ops\<close> (with \<open>TEST\<close>) and \<open>hier_ops\<close> at compile time by renaming
  \<open>my_bit_set\<close> and the others.

  \<open>items\<close> is kept as an offset into the arena, and the bytes reserved for the bitmap are a
  list of their own: \<open>obj_layout\<close> shows that they end before the first item. The contents of
  the objects are not modelled, since no operation reads them.
\<close>

section \<open>The code\<close>

definition sizeof_object_t :: nat where
  "sizeof_object_t = 32"

text \<open>\<open>bitstr_size\<close> of the BSD header: the bytes that hold \<open>n\<close> bits.\<close>

definition bitstr_size :: "nat \<Rightarrow> nat" where
  "bitstr_size n = (n + 7) div 8"

record objarena =
  nitems :: nat
  nfree :: nat
  items :: nat
  bitmap :: "u8 list"

definition bitmap_size :: "arena_cfg \<Rightarrow> nat" where
  "bitmap_size c = bitstr_size (size_sub (ARENA_SIZE c) (sizeof_arena_t c) div sizeof_object_t)"

definition level1_size :: "arena_cfg \<Rightarrow> nat" where
  "level1_size c = bitmap_size c div 8"

definition level2_size :: "arena_cfg \<Rightarrow> nat" where
  "level2_size c = level1_size c div 8"

definition obj_levels :: "arena_cfg \<Rightarrow> level_offsets" where
  "obj_levels c = \<lparr>level2_offset = 0, level1_offset = level2_size c,
                   bitmap_offset = level2_size c + level1_size c\<rparr>"

definition init_arena :: "arena_cfg \<Rightarrow> objarena" where
  "init_arena c =
     (let n = size_sub (size_sub (size_sub (size_sub (ARENA_SIZE c) (sizeof_arena_t c)) (bitmap_size c))
                (level2_size c)) (level1_size c) div sizeof_object_t
      in \<lparr>nitems = n, nfree = n, items = ARENA_SIZE c - n * sizeof_object_t,
          bitmap = replicate (bitmap_size c + level2_size c + level1_size c) 0\<rparr>)"

text \<open>The offset of the object is returned; \<open>ffc\<close> never yields a negative index.\<close>

definition alloc_block :: "bitmap_ops \<Rightarrow> objarena \<Rightarrow> (objarena \<times> nat) run" where
  "alloc_block ops h =
     (if \<not> 0 < nfree h then Inl Assert_fails
      else bind_run (bm_ffc ops (bitmap h)) (\<lambda>index.
           bind_run (bm_set ops (bitmap h) index) (\<lambda>b.
             Inr (h\<lparr>bitmap := b, nfree := nfree h - 1\<rparr>, items h + sizeof_object_t * index))))"

text \<open>
  The index of a pointer: an unsigned 64-bit quotient cut to 32 bits. A value that is
  negative as an \<open>int\<close> is at least \<open>2 ^ 31\<close> here and outside every bitmap.
\<close>

definition obj_index :: "objarena \<Rightarrow> nat \<Rightarrow> nat" where
  "obj_index h ptr = size_sub ptr (items h) div sizeof_object_t mod 2 ^ 32"

definition free_block :: "bitmap_ops \<Rightarrow> objarena \<Rightarrow> nat \<Rightarrow> objarena run" where
  "free_block ops h ptr =
     (let index = obj_index h ptr in
      bind_run (bm_test ops (bitmap h) index) (\<lambda>t.
        if t then bind_run (bm_clear ops (bitmap h) index) (\<lambda>b.
               Inr (h\<lparr>bitmap := b, nfree := nfree h + 1\<rparr>))
        else Inr h))"

fun objalloc_scan :: "bitmap_ops \<Rightarrow> objarena arenalist \<Rightarrow> (objarena arenalist \<times> nat) run option" where
  "objalloc_scan ops [] = None"
| "objalloc_scan ops (ar # al) =
     (if 0 < nfree (snd ar)
      then Some (bind_run (alloc_block ops (snd ar)) (\<lambda>(h, ptr). Inr ((fst ar, h) # al, fst ar + ptr)))
      else map_option (\<lambda>r. bind_run r (\<lambda>(al', ptr). Inr (ar # al', ptr))) (objalloc_scan ops al))"

definition objalloc ::
  "arena_cfg \<Rightarrow> bitmap_ops \<Rightarrow> (nat \<Rightarrow> nat) \<Rightarrow> objarena arenalist \<Rightarrow> (objarena arenalist \<times> nat) run" where
  "objalloc c ops mm al =
     (case objalloc_scan ops al of
        Some r \<Rightarrow> r
      | None \<Rightarrow>
          let ar = mm (length al);
              al' = alloc_after_arena al None (ar, init_arena c)
          in bind_run (alloc_block ops (init_arena c)) (\<lambda>(h, ptr). Inr (arena_put al' ar h, ar + ptr)))"

definition objfree ::
  "arena_cfg \<Rightarrow> bitmap_ops \<Rightarrow> objarena arenalist \<Rightarrow> nat option \<Rightarrow> objarena arenalist run" where
  "objfree c ops al ptr =
     (case ptr of
        None \<Rightarrow> Inr al
      | Some p \<Rightarrow>
          (case find_ptr_arena c al p of
             None \<Rightarrow> Inl Assert_fails
           | Some ar \<Rightarrow>
               (case arena_at al ar of
                  None \<Rightarrow> Inl Out_of_bounds
                | Some h \<Rightarrow> bind_run (free_block ops h (p - ar)) (\<lambda>h'. Inr (arena_put al ar h')))))"

fun count_used :: "bitmap_ops \<Rightarrow> u8 list \<Rightarrow> nat \<Rightarrow> nat run" where
  "count_used ops b 0 = Inr 0"
| "count_used ops b (Suc i) =
     bind_run (count_used ops b i) (\<lambda>nused.
     bind_run (bm_test ops b i) (\<lambda>t. Inr (nused + (if t then 1 else 0))))"

fun objmemcheck :: "bitmap_ops \<Rightarrow> objarena arenalist \<Rightarrow> unit run" where
  "objmemcheck ops [] = Inr ()"
| "objmemcheck ops (ar # al) =
     bind_run (count_used ops (bitmap (snd ar)) (nitems (snd ar))) (\<lambda>nused.
       if nused \<noteq> size_sub (nitems (snd ar)) (nfree (snd ar)) then Inl Assert_fails
       else objmemcheck ops al)"

section \<open>The layout of an arena\<close>

definition obj_nitems :: "arena_cfg \<Rightarrow> nat" where
  "obj_nitems c = nitems (init_arena c)"

definition obj_items :: "arena_cfg \<Rightarrow> nat" where
  "obj_items c = items (init_arena c)"

definition obj_bytes :: "arena_cfg \<Rightarrow> nat" where
  "obj_bytes c = bitmap_size c + level2_size c + level1_size c"

text \<open>
  The configuration the code is built with: \<open>ARENA_SIZE\<close> of \<open>arena.h\<close>, one link pointer and
  the three words of \<open>ARENA_EXTRA\<close>.
\<close>

definition obj_cfg :: arena_cfg where
  "obj_cfg = \<lparr>ARENA_SIZE = 2 ^ 16, sizeof_arena_t = 32\<rparr>"

lemmas obj_layout_defs = obj_cfg_def bitmap_size_def level1_size_def level2_size_def
  bitstr_size_def sizeof_object_t_def init_arena_def obj_levels_def

lemma obj_cfg_values:
  "bitmap_size obj_cfg = 256" "level1_size obj_cfg = 32" "level2_size obj_cfg = 4"
  "obj_nitems obj_cfg = 2037" "obj_items obj_cfg = 352" "obj_bytes obj_cfg = 292"
  by (simp_all add: obj_layout_defs obj_nitems_def obj_items_def obj_bytes_def)

lemma obj_cfg_levels: "obj_levels obj_cfg = levels 4"
  by (simp add: obj_levels_def obj_cfg_values levels_def)

definition obj_cfg_ok :: "arena_cfg \<Rightarrow> bool" where
  "obj_cfg_ok c \<longleftrightarrow> 0 < obj_items c \<and> 0 < obj_nitems c \<and> ARENA_SIZE c < 2 ^ 31 \<and>
     obj_items c + sizeof_object_t * obj_nitems c = ARENA_SIZE c"

definition obj_live :: "arena_cfg \<Rightarrow> nat set \<Rightarrow> nat set" where
  "obj_live c A = (\<lambda>i. obj_items c + sizeof_object_t * i) ` A"

definition obj_repr :: "arena_cfg \<Rightarrow> (u8 list \<Rightarrow> nat set \<Rightarrow> bool) \<Rightarrow> objarena \<Rightarrow> nat set \<Rightarrow> bool" where
  "obj_repr c bm_wf h A \<longleftrightarrow> bm_wf (bitmap h) A \<and> nitems h = obj_nitems c \<and> items h = obj_items c \<and>
     nfree h + card A = obj_nitems c"

lemma obj_live_insert: "obj_live c (insert i A) = insert (obj_items c + sizeof_object_t * i) (obj_live c A)"
  by (simp add: obj_live_def)

lemma obj_live_mem [simp]: "obj_items c + sizeof_object_t * i \<in> obj_live c A \<longleftrightarrow> i \<in> A"
  by (auto simp: obj_live_def sizeof_object_t_def)

lemma obj_live_minus:
  "obj_live c (A - {i}) = obj_live c A - {obj_items c + sizeof_object_t * i}"
  by (auto simp: obj_live_def sizeof_object_t_def)

text \<open>What the spec picks: the first arena that is not full and its least free index.\<close>

fun pick :: "nat \<Rightarrow> nat set list \<Rightarrow> (nat \<times> nat) option" where
  "pick N [] = None"
| "pick N (A # as) =
     (if A \<noteq> {..<N} then Some (0, LEAST j. j \<notin> A)
      else map_option (\<lambda>(i, j). (Suc i, j)) (pick N as))"

lemma pick_Some: "pick N as = Some (i, j) \<Longrightarrow> i < length as \<and> as ! i \<noteq> {..<N} \<and> j = (LEAST j. j \<notin> as ! i)"
  by (induction as arbitrary: i) (auto split: if_splits)

section \<open>An arena of objects over any bitmap\<close>

locale obj_arena = bitmap_impl ops "obj_nitems c" wf
  for ops :: bitmap_ops and c :: arena_cfg and wf :: "u8 list \<Rightarrow> nat set \<Rightarrow> bool" +
  assumes cfg: "obj_cfg_ok c"
    and fresh: "wf (replicate (obj_bytes c) 0) {}"
begin

abbreviation repr :: "objarena \<Rightarrow> nat set \<Rightarrow> bool" where
  "repr \<equiv> obj_repr c wf"

lemma repr_init: "repr (init_arena c) {}"
  using fresh by (simp add: obj_repr_def obj_nitems_def obj_items_def obj_bytes_def init_arena_def Let_def)

lemma repr_full: "repr h A \<Longrightarrow> 0 < nfree h \<longleftrightarrow> A \<noteq> {..<obj_nitems c}"
  using wf_bound[of "bitmap h" A] card_subset_eq[of "{..<obj_nitems c}" A]
  by (auto simp: obj_repr_def)

lemma alloc_block_repr:
  assumes "repr h A" and "A \<noteq> {..<obj_nitems c}"
  defines "j \<equiv> LEAST j. j \<notin> A"
  shows "\<exists>h'. alloc_block ops h = Inr (h', obj_items c + sizeof_object_t * j) \<and>
           repr h' (insert j A) \<and> j \<notin> A \<and> j < obj_nitems c"
proof -
  have wf: "wf (bitmap h) A" using assms(1) by (simp add: obj_repr_def)
  from ffc_least[OF wf assms(2)] have j: "bm_ffc ops (bitmap h) = Inr j" "j < obj_nitems c" "j \<notin> A"
    by (simp_all add: j_def)
  from set_law[OF wf j(2)] obtain b where b: "bm_set ops (bitmap h) j = Inr b" "wf b (insert j A)" by blast
  have "0 < nfree h" using repr_full[OF assms(1)] assms(2) by simp
  moreover have "card (insert j A) = Suc (card A)" using finite_wf[OF wf] j(3) by simp
  ultimately show ?thesis using assms(1) b j by (simp add: alloc_block_def obj_repr_def)
qed

lemma obj_index_live:
  assumes "repr h A" and "i < obj_nitems c" and "k < sizeof_object_t"
  shows "obj_index h (obj_items c + sizeof_object_t * i + k) = i"
proof -
  have "sizeof_object_t * i < 2 ^ 31"
    using cfg assms(2) by (simp add: obj_cfg_ok_def sizeof_object_t_def)
  then have "i < 2 ^ 32" by (simp add: sizeof_object_t_def)
  moreover have "size_sub (obj_items c + sizeof_object_t * i + k) (items h) = sizeof_object_t * i + k"
    using assms(1) by (simp add: obj_repr_def)
  moreover have "(sizeof_object_t * i + k) div sizeof_object_t = i"
    using assms(3) by (simp add: sizeof_object_t_def)
  ultimately show ?thesis unfolding obj_index_def by (simp only: mod_less)
qed

lemma free_block_item:
  assumes "repr h A" and "i < obj_nitems c" and "k < sizeof_object_t"
  shows "\<exists>h'. free_block ops h (obj_items c + sizeof_object_t * i + k) = Inr h' \<and> repr h' (A - {i}) \<and>
           (i \<notin> A \<longrightarrow> h' = h)"
proof -
  have wf: "wf (bitmap h) A" using assms(1) by (simp add: obj_repr_def)
  note idx = obj_index_live[OF assms]
  show ?thesis
  proof (cases "i \<in> A")
    case True
    from clear_law[OF wf assms(2)] obtain b where "bm_clear ops (bitmap h) i = Inr b" "wf b (A - {i})"
      by blast
    moreover have "card A = Suc (card (A - {i}))"
      using card_Suc_Diff1[OF finite_wf[OF wf] True] by (rule sym)
    ultimately show ?thesis
      using True assms(1) test_law[OF wf assms(2)] by (simp add: free_block_def idx obj_repr_def)
  next
    case False
    then show ?thesis
      using assms(1) test_law[OF wf assms(2)] by (simp add: free_block_def idx)
  qed
qed

lemma live_index:
  assumes "repr h A" and "off \<in> obj_live c A"
  obtains i where "i \<in> A" "i < obj_nitems c" "off = obj_items c + sizeof_object_t * i"
  using assms wf_bound by (auto simp: obj_live_def obj_repr_def)

sublocale pool: arena_client c repr "obj_live c" "\<lambda>_. ()" "free_block ops"
proof
  fix h A off
  assume rep: "repr h A" and off: "off \<in> obj_live c A"
  obtain i where i: "i \<in> A" "i < obj_nitems c" "off = obj_items c + sizeof_object_t * i"
    using rep off by (rule live_index)
  show "0 < off \<and> off < ARENA_SIZE c"
    using cfg i by (auto simp: obj_cfg_ok_def sizeof_object_t_def)
  show "\<exists>h' A'. free_block ops h off = Inr h' \<and> repr h' A' \<and> obj_live c A' = obj_live c A - {off} \<and> () = ()"
    using free_block_item[OF rep i(2), of 0] i(3) obj_live_minus[of c A i]
    by (auto simp: sizeof_object_t_def)
qed

text \<open>\<open>objalloc\<close> does what \<open>pick\<close> says.\<close>

lemma scan_pick:
  assumes "list_all2 repr (map snd al) as"
  shows "case pick (obj_nitems c) as of
      None \<Rightarrow> objalloc_scan ops al = None
    | Some (i, j) \<Rightarrow> \<exists>h'. objalloc_scan ops al =
          Some (Inr (al[i := (fst (al ! i), h')], fst (al ! i) + (obj_items c + sizeof_object_t * j))) \<and>
        repr h' (insert j (as ! i)) \<and> j \<notin> as ! i"
  using assms
proof (induction al arbitrary: as)
  case (Cons a al)
  then obtain A as' where as: "as = A # as'" "repr (snd a) A" "list_all2 repr (map snd al) as'"
    by (auto simp: list_all2_Cons1)
  show ?case
  proof (cases "A = {..<obj_nitems c}")
    case True
    with Cons.IH[OF as(3)] show ?thesis
      using repr_full[OF as(2)] by (auto simp: as(1) split: option.splits)
  next
    case False
    with alloc_block_repr[OF as(2) False] show ?thesis
      using repr_full[OF as(2)] by (auto simp: as(1))
  qed
qed simp

lemma objalloc_pick:
  assumes ok: "pool_ok c repr al as" and mm: "\<forall>b\<in>set (bases al). apart c (mm (length al)) b"
  shows "\<exists>al' as' p. objalloc c ops mm al = Inr (al', p) \<and> pool_ok c repr al' as' \<and>
    p \<notin> pool_live (obj_live c) al as \<and> pool_live (obj_live c) al' as' = insert p (pool_live (obj_live c) al as) \<and>
    (case pick (obj_nitems c) as of
       None \<Rightarrow> bases al' = bases al @ [mm (length al)] \<and> p = mm (length al) + obj_items c
     | Some (i, j) \<Rightarrow> bases al' = bases al \<and> p = fst (al ! i) + (obj_items c + sizeof_object_t * j))"
proof (cases "pick (obj_nitems c) as")
  case None
  let ?b = "mm (length al)"
  have scan: "objalloc_scan ops al = None"
    using scan_pick[of al as] ok None by (simp add: pool_ok_def)
  have "{} \<noteq> {..<obj_nitems c}" using cfg by (auto simp: obj_cfg_ok_def)
  from alloc_block_repr[OF repr_init this] obtain h' where
    h': "alloc_block ops (init_arena c) = Inr (h', obj_items c)" "repr h' {0}"
    by (auto simp: sizeof_object_t_def)
  have pos: "0 < ARENA_SIZE c" using cfg by (auto simp: obj_cfg_ok_def)
  have "?b \<notin> set (bases al)" using mm pos by (auto simp: apart_def)
  then have "objalloc c ops mm al = Inr (al @ [(?b, h')], ?b + obj_items c)"
    using arena_put_split[of ?b al "init_arena c" "[]" h'] h'(1) by (simp add: objalloc_def scan Let_def)
  moreover have len: "length al = length as" using ok by (rule pool_ok_length)
  have "pool_ok c repr (al @ [(?b, h')]) (as @ [{0}])"
    using ok mm h'(2) len by (simp add: pool_ok_split)
  moreover have "pool_live (obj_live c) (al @ [(?b, h')]) (as @ [{0}]) =
      insert (?b + obj_items c) (pool_live (obj_live c) al as)"
    using len pool_live_split[of al as "obj_live c" "(?b, h')" "[]" "{0}" "[]"] by (simp add: obj_live_def)
  moreover have "?b + obj_items c \<notin> pool_live (obj_live c) al as"
    using pool.not_in_others(1)[of al "[]" as "[]" ?b "?b + obj_items c"] ok len mm cfg
    by (auto simp: obj_cfg_ok_def sizeof_object_t_def)
  ultimately show ?thesis using None by auto
next
  case (Some ij)
  then obtain i j where ij: "pick (obj_nitems c) as = Some (i, j)" by (cases ij) auto
  have i: "i < length as" using pick_Some[OF ij] by simp
  have len: "length al = length as" using ok by (rule pool_ok_length)
  from scan_pick[of al as] ok ij obtain h' where
    scan: "objalloc_scan ops al =
      Some (Inr (al[i := (fst (al ! i), h')], fst (al ! i) + (obj_items c + sizeof_object_t * j)))"
    and h': "repr h' (insert j (as ! i))" "j \<notin> as ! i"
    by (auto simp: pool_ok_def)
  let ?ar = "fst (al ! i)" and ?h = "snd (al ! i)" and ?x = "take i al" and ?y = "drop (Suc i) al"
  let ?u = "take i as" and ?v = "drop (Suc i) as"
  have al: "al = ?x @ (?ar, ?h) # ?y" and as: "as = ?u @ as ! i # ?v"
    using i len by (simp_all add: id_take_nth_drop[symmetric])
  have ok': "pool_ok c repr (?x @ (?ar, ?h) # ?y) (?u @ as ! i # ?v)" using ok al as by simp
  have l: "length ?x = length ?u" using len by simp
  have new: "obj_live c (insert j (as ! i)) = insert (obj_items c + sizeof_object_t * j) (obj_live c (as ! i))"
    by (rule obj_live_insert)
  have notin: "obj_items c + sizeof_object_t * j \<notin> obj_live c (as ! i)" using h'(2) by simp
  note step = pool.pool_alloc[OF ok' l h'(1) new notin]
  have al': "al[i := (?ar, h')] = ?x @ (?ar, h') # ?y" using i len by (simp add: upd_conv_take_nth_drop)
  have "objalloc c ops mm al = Inr (?x @ (?ar, h') # ?y, ?ar + (obj_items c + sizeof_object_t * j))"
    by (simp add: objalloc_def scan al')
  moreover have "bases (?x @ (?ar, h') # ?y) = bases al"
    unfolding al'[symmetric] using i len by (simp add: map_update) (metis list_update_id nth_map)
  ultimately show ?thesis using step ij unfolding al[symmetric] as[symmetric]
    by (intro exI[of _ "?x @ (?ar, h') # ?y"] exI[of _ "?u @ insert j (as ! i) # ?v"]) auto
qed

lemma objfree_pool:
  "objfree c ops al (Some p) = pool_free c (free_block ops) al p"
  by (simp add: objfree_def pool_free_def)

text \<open>Freeing through any address inside an item, used or not.\<close>

lemma free_slot:
  assumes ok: "pool_ok c repr al as" and i: "i < length al"
    and j: "j < obj_nitems c" "k < sizeof_object_t"
  defines "p \<equiv> fst (al ! i) + (obj_items c + sizeof_object_t * j)"
  shows "\<exists>al' as'. objfree c ops al (Some (p + k)) = Inr al' \<and> pool_ok c repr al' as' \<and>
           bases al' = bases al \<and> pool_live (obj_live c) al' as' = pool_live (obj_live c) al as - {p} \<and>
           (p \<notin> pool_live (obj_live c) al as \<longrightarrow> al' = al)"
proof -
  let ?ar = "fst (al ! i)" and ?h = "snd (al ! i)" and ?x = "take i al" and ?y = "drop (Suc i) al"
  let ?u = "take i as" and ?v = "drop (Suc i) as" and ?off = "obj_items c + sizeof_object_t * j"
  have len: "length al = length as" using ok by (rule pool_ok_length)
  have al: "al = ?x @ (?ar, ?h) # ?y" and as: "as = ?u @ as ! i # ?v"
    using i len by (simp_all add: id_take_nth_drop[symmetric])
  have ok': "pool_ok c repr (?x @ (?ar, ?h) # ?y) (?u @ as ! i # ?v)" using ok al as by simp
  have l: "length ?x = length ?u" using len by simp
  have rep: "repr ?h (as ! i)" and rest: "pool_ok c repr (?x @ ?y) (?u @ ?v)"
    and ap: "\<forall>b\<in>set (bases (?x @ ?y)). apart c ?ar b"
    using iffD1[OF pool_ok_split[OF l] ok'] by blast+
  have "sizeof_object_t * j + k < sizeof_object_t * obj_nitems c"
    using j by (simp add: sizeof_object_t_def)
  then have rng: "0 < ?off + k" "?off + k < ARENA_SIZE c" "?off < ARENA_SIZE c" "0 < ?off"
    using cfg by (auto simp: obj_cfg_ok_def)
  from free_block_item[OF rep j] obtain h' where
    f: "free_block ops ?h (?off + k) = Inr h'" "repr h' (as ! i - {j})" "j \<notin> as ! i \<longrightarrow> h' = ?h"
    by (auto simp: add.assoc)
  have "\<not> apart c ?ar ?ar" using rng by (simp add: apart_def)
  then have ne: "?ar \<notin> set (bases ?x)" using ap by (metis Un_iff map_append set_append)
  have find: "find_ptr_arena c al (p + k) = Some ?ar"
  proof (rule find_ptr_arena_unique)
    show "arenas_apart c (bases al)" using ok by (simp add: pool_ok_def)
  qed (use i rng in \<open>auto simp: p_def\<close>)
  have at: "arena_at al ?ar = Some ?h" and put: "arena_put al ?ar h' = ?x @ (?ar, h') # ?y"
    using arena_at_split[OF ne, of ?h ?y] arena_put_split[OF ne, of ?h ?y h'] al by simp_all
  have "objfree c ops al (Some (p + k)) = Inr (?x @ (?ar, h') # ?y)"
  proof -
    have "p + k - ?ar = ?off + k" by (simp add: p_def)
    with f(1) show ?thesis by (simp add: objfree_def find at put)
  qed
  moreover have "pool_ok c repr (?x @ (?ar, h') # ?y) (?u @ (as ! i - {j}) # ?v)"
    using rest ap l f(2) by (simp add: pool_ok_split)
  moreover have "bases (?x @ (?ar, h') # ?y) = bases al"
    using arg_cong[OF al, of bases] by simp
  moreover have "pool_live (obj_live c) (?x @ (?ar, h') # ?y) (?u @ (as ! i - {j}) # ?v) =
      pool_live (obj_live c) al as - {p}"
  proof -
    have "pool_live (obj_live c) al as = pool_live (obj_live c) ?x ?u \<union>
        (+) ?ar ` obj_live c (as ! i) \<union> pool_live (obj_live c) ?y ?v"
      using pool_live_split[OF l, of "obj_live c" "(?ar, ?h)" ?y "as ! i" ?v] al as by simp
    moreover have "p \<notin> pool_live (obj_live c) ?x ?u" "p \<notin> pool_live (obj_live c) ?y ?v"
      using pool.not_in_others[OF rest l ap, of p] rng unfolding p_def by auto
    moreover have "(+) ?ar ` obj_live c (as ! i - {j}) = (+) ?ar ` obj_live c (as ! i) - {p}"
      by (auto simp: obj_live_minus p_def)
    ultimately show ?thesis unfolding pool_live_split[OF l] fst_conv by blast
  qed
  moreover have "p \<notin> pool_live (obj_live c) al as \<Longrightarrow> ?x @ (?ar, h') # ?y = al"
  proof -
    assume "p \<notin> pool_live (obj_live c) al as"
    then have "?off \<notin> obj_live c (as ! i)" using pool.live_at[OF ok i, of ?off] by (simp add: p_def)
    then have "h' = ?h" using f(3) by simp
    then show ?thesis using al by simp
  qed
  ultimately show ?thesis by blast
qed

lemma live_slot:
  assumes ok: "pool_ok c repr al as" and p: "p \<in> pool_live (obj_live c) al as"
  obtains i j where "i < length al" "j < obj_nitems c" "p = fst (al ! i) + (obj_items c + sizeof_object_t * j)"
proof -
  obtain xs ar h ys as1 A bs off where *: "al = xs @ (ar, h) # ys" "as = as1 @ A # bs"
    "length xs = length as1" "off \<in> obj_live c A" "p = ar + off"
    by (rule pool_liveE[OF p pool_ok_length[OF ok]]) blast
  with ok have "repr h A" by (simp add: pool_ok_split)
  then obtain j where "j < obj_nitems c" "off = obj_items c + sizeof_object_t * j"
    using *(4) by (rule live_index)
  with * show ?thesis by (intro that[of "length xs" j]) (simp_all add: nth_append)
qed

lemma live_sets_eq:
  assumes "pool_ok c repr al as" and "pool_live (obj_live c) al as = L"
  shows "as = map (\<lambda>b. {j. b + (obj_items c + sizeof_object_t * j) \<in> L \<and> j < obj_nitems c}) (bases al)"
proof (rule nth_equalityI)
  show "length as = length (map (\<lambda>b. {j. b + (obj_items c + sizeof_object_t * j) \<in> L \<and> j < obj_nitems c}) (bases al))"
    using pool_ok_length[OF assms(1)] by simp
  fix i assume "i < length as"
  then have i: "i < length al" using pool_ok_length[OF assms(1)] by simp
  have "list_all2 repr (map snd al) as" using assms(1) by (simp add: pool_ok_def)
  then have "repr (snd (al ! i)) (as ! i)"
    using i by (metis length_map list_all2_nthD nth_map)
  then have bound: "as ! i \<subseteq> {..<obj_nitems c}" using wf_bound by (auto simp: obj_repr_def)
  have rng: "j < obj_nitems c \<Longrightarrow> 0 < obj_items c + sizeof_object_t * j \<and>
      obj_items c + sizeof_object_t * j < ARENA_SIZE c" for j
    using cfg by (auto simp: obj_cfg_ok_def sizeof_object_t_def)
  have "j \<in> as ! i \<longleftrightarrow> fst (al ! i) + (obj_items c + sizeof_object_t * j) \<in> L \<and> j < obj_nitems c" for j
    using pool.live_at[OF assms(1) i, of "obj_items c + sizeof_object_t * j"] rng[of j] bound assms(2)
    by auto
  then show "as ! i = map (\<lambda>b. {j. b + (obj_items c + sizeof_object_t * j) \<in> L \<and> j < obj_nitems c}) (bases al) ! i"
    using i by auto
qed

lemma count_used_repr:
  "repr h A \<Longrightarrow> n \<le> obj_nitems c \<Longrightarrow> count_used ops (bitmap h) n = Inr (card (A \<inter> {..<n}))"
proof (induction n)
  case (Suc n)
  have "A \<inter> {..<Suc n} = (if n \<in> A then insert n (A \<inter> {..<n}) else A \<inter> {..<n})"
    by (auto simp: lessThan_Suc)
  with Suc show ?case using test_law[of "bitmap h" A n] by (simp add: obj_repr_def)
qed simp

lemma objmemcheck_repr:
  assumes "list_all2 repr (map snd al) as"
  shows "objmemcheck ops al = Inr ()"
  using assms
proof (induction al arbitrary: as)
  case (Cons a al)
  then obtain A as' where as: "repr (snd a) A" "list_all2 repr (map snd al) as'"
    by (auto simp: list_all2_Cons1)
  have A: "A \<inter> {..<obj_nitems c} = A" and s: "nfree (snd a) + card A = obj_nitems c"
    "nitems (snd a) = obj_nitems c"
    using as(1) wf_bound by (auto simp: obj_repr_def)
  have "count_used ops (bitmap (snd a)) (nitems (snd a)) = Inr (card A)"
    using count_used_repr[OF as(1) order_refl] A s(2) by simp
  moreover have "size_sub (nitems (snd a)) (nfree (snd a)) = card A" using s by simp
  ultimately show ?case using Cons.IH[OF as(2)] by simp
qed simp

end

section \<open>The two pools of the program\<close>

interpretation flat_pool: obj_arena flat_ops obj_cfg "flat_wf (obj_nitems obj_cfg)"
proof
  show "obj_cfg_ok obj_cfg"
    by (simp add: obj_cfg_ok_def obj_cfg_values sizeof_object_t_def) (simp add: obj_cfg_def)
  show "flat_wf (obj_nitems obj_cfg) (replicate (obj_bytes obj_cfg) 0) {}"
    by (rule flat_wf_zero) (simp add: obj_cfg_values)
qed

interpretation hier_pool: obj_arena "hier_ops (levels 4)" obj_cfg "hier_wf 4 (obj_nitems obj_cfg)"
proof
  show "obj_cfg_ok obj_cfg" by (rule flat_pool.cfg)
  show "hier_wf 4 (obj_nitems obj_cfg) (replicate (obj_bytes obj_cfg) 0) {}"
    using hier_wf_zero[of "obj_nitems obj_cfg" 4] by (simp add: obj_cfg_values)
qed

text \<open>The choice \<open>#ifdef TEST\<close> makes, and the invariant and the objects held by the client.\<close>

definition pool_ops :: "bool \<Rightarrow> bitmap_ops" where
  "pool_ops TEST = (if TEST then flat_ops else hier_ops (obj_levels obj_cfg))"

definition obj_inv :: "bool \<Rightarrow> objarena arenalist \<Rightarrow> nat set list \<Rightarrow> bool" where
  "obj_inv TEST = pool_ok obj_cfg (obj_repr obj_cfg
     (if TEST then flat_wf (obj_nitems obj_cfg) else hier_wf 4 (obj_nitems obj_cfg)))"

definition obj_held :: "objarena arenalist \<Rightarrow> nat set list \<Rightarrow> nat set" where
  "obj_held = pool_live (obj_live obj_cfg)"

lemmas obj_defs = obj_inv_def obj_held_def pool_ops_def obj_cfg_levels

lemma objalloc_step:
  assumes "obj_inv T al as" and "mmap_fresh obj_cfg mm al"
  shows "\<exists>al' as' p. objalloc obj_cfg (pool_ops T) mm al = Inr (al', p) \<and> obj_inv T al' as' \<and>
    p \<notin> obj_held al as \<and> obj_held al' as' = insert p (obj_held al as) \<and>
    (case pick (obj_nitems obj_cfg) as of
       None \<Rightarrow> bases al' = bases al @ [mm (length al)] \<and> p = mm (length al) + obj_items obj_cfg
     | Some (i, j) \<Rightarrow> bases al' = bases al \<and>
         p = fst (al ! i) + (obj_items obj_cfg + sizeof_object_t * j))"
  using assms flat_pool.objalloc_pick[of al as mm] hier_pool.objalloc_pick[of al as mm]
  unfolding mmap_fresh_def by (cases T) (simp_all add: obj_defs)

lemma objfree_slot:
  assumes "obj_inv T al as" and "p \<in> obj_held al as" and "k < sizeof_object_t"
  shows "\<exists>al' as'. objfree obj_cfg (pool_ops T) al (Some (p + k)) = Inr al' \<and> obj_inv T al' as' \<and>
           bases al' = bases al \<and> obj_held al' as' = obj_held al as - {p} \<and>
           objfree obj_cfg (pool_ops T) al' (Some (p + k)) = Inr al'"
proof (cases T)
  case True
  then have ok: "pool_ok obj_cfg flat_pool.repr al as" and p: "p \<in> pool_live (obj_live obj_cfg) al as"
    using assms by (simp_all add: obj_defs)
  obtain i j where i: "i < length al" "j < obj_nitems obj_cfg"
    and pj: "p = fst (al ! i) + (obj_items obj_cfg + sizeof_object_t * j)"
    using ok p by (rule flat_pool.live_slot)
  from flat_pool.free_slot[OF ok i assms(3)] obtain al' as' where
    1: "objfree obj_cfg flat_ops al (Some (p + k)) = Inr al'" "pool_ok obj_cfg flat_pool.repr al' as'"
      "bases al' = bases al" "pool_live (obj_live obj_cfg) al' as' = pool_live (obj_live obj_cfg) al as - {p}"
    unfolding pj by blast
  have len: "length al' = length al" using 1(3) by (metis length_map)
  have "fst (al' ! i) = fst (al ! i)" using 1(3) i(1) len by (metis nth_map)
  then have "objfree obj_cfg flat_ops al' (Some (p + k)) = Inr al'"
    using flat_pool.free_slot[OF 1(2) _ i(2) assms(3), of i] i(1) 1(4) len unfolding pj by auto
  with 1 True show ?thesis by (auto simp: obj_defs)
next
  case False
  then have ok: "pool_ok obj_cfg hier_pool.repr al as" and p: "p \<in> pool_live (obj_live obj_cfg) al as"
    using assms by (simp_all add: obj_defs)
  obtain i j where i: "i < length al" "j < obj_nitems obj_cfg"
    and pj: "p = fst (al ! i) + (obj_items obj_cfg + sizeof_object_t * j)"
    using ok p by (rule hier_pool.live_slot)
  from hier_pool.free_slot[OF ok i assms(3)] obtain al' as' where
    1: "objfree obj_cfg (hier_ops (levels 4)) al (Some (p + k)) = Inr al'" "pool_ok obj_cfg hier_pool.repr al' as'"
      "bases al' = bases al" "pool_live (obj_live obj_cfg) al' as' = pool_live (obj_live obj_cfg) al as - {p}"
    unfolding pj by blast
  have len: "length al' = length al" using 1(3) by (metis length_map)
  have "fst (al' ! i) = fst (al ! i)" using 1(3) i(1) len by (metis nth_map)
  then have "objfree obj_cfg (hier_ops (levels 4)) al' (Some (p + k)) = Inr al'"
    using hier_pool.free_slot[OF 1(2) _ i(2) assms(3), of i] i(1) 1(4) len unfolding pj by auto
  with 1 False show ?thesis by (auto simp: obj_defs)
qed

lemma obj_slot:
  assumes "obj_inv T al as" and "x \<in> obj_held al as"
  shows "\<exists>i j. i < length al \<and> j < obj_nitems obj_cfg \<and>
           x = fst (al ! i) + (obj_items obj_cfg + sizeof_object_t * j)"
  using assms
  by (cases T; simp add: obj_defs) (metis flat_pool.live_slot, metis hier_pool.live_slot)

lemma obj_inv_sets:
  assumes "obj_inv T al as"
  shows "as = map (\<lambda>b. {j. b + (obj_items obj_cfg + sizeof_object_t * j) \<in> obj_held al as \<and>
                          j < obj_nitems obj_cfg}) (bases al)"
proof (cases T)
  case True
  then show ?thesis
    using assms flat_pool.live_sets_eq[OF _ refl, of al as] unfolding obj_defs by (simp only: if_True)
next
  case False
  then show ?thesis
    using assms hier_pool.live_sets_eq[OF _ refl, of al as] unfolding obj_defs by (simp only: if_False)
qed

lemma obj_held_eq:
  assumes "obj_inv T al as" and "obj_inv T' al2 as2" and "bases al2 = bases al"
    and "obj_held al2 as2 = obj_held al as"
  shows "as2 = as"
  using obj_inv_sets[OF assms(1)] obj_inv_sets[OF assms(2)] unfolding assms(3,4) by (rule trans[OF _ sym, rotated])

lemma obj_inv_empty: "obj_inv T [] []" "obj_held [] [] = {}"
  by (simp_all add: obj_inv_def pool_ok_def obj_held_def)

section \<open>Properties\<close>

text \<open>With either bitmap, in every well-formed pool and for a kernel that maps fresh memory
  disjoint from the arenas, \<open>objalloc\<close> trips no assertion and reads no byte outside the
  bitmap, returns an object the client does not hold, and keeps the pool well formed with
  this object held in addition.\<close>

theorem objalloc_ok:
  assumes "obj_inv TEST al as" and "mmap_fresh obj_cfg mm al"
  shows "\<exists>al' as' p. objalloc obj_cfg (pool_ops TEST) mm al = Inr (al', p) \<and> obj_inv TEST al' as' \<and>
           p \<notin> obj_held al as \<and> obj_held al' as' = insert p (obj_held al as)"
  using objalloc_step[OF assms] by blast

definition demo_obj_mmap :: "nat \<Rightarrow> nat" where
  "demo_obj_mmap k = 100000 * (k + 1)"

theorem objalloc_ok_witness:
  "\<exists>al p. objalloc obj_cfg (pool_ops False) demo_obj_mmap [] = Inr (al, p)"
  using objalloc_ok[of False "[]" "[]" demo_obj_mmap] by (auto simp: obj_inv_empty mmap_fresh_def)

text \<open>Freeing a held object through a pointer to any of its 32 bytes succeeds, releases
  exactly that object and keeps the pool well formed; freeing it again is not noticed and
  changes nothing.\<close>

theorem objfree_ok:
  assumes "obj_inv TEST al as" and "p \<in> obj_held al as" and "k < sizeof_object_t"
  shows "\<exists>al' as'. objfree obj_cfg (pool_ops TEST) al (Some (p + k)) = Inr al' \<and> obj_inv TEST al' as' \<and>
           obj_held al' as' = obj_held al as - {p} \<and>
           objfree obj_cfg (pool_ops TEST) al' (Some (p + k)) = Inr al'"
  using objfree_slot[OF assms] by blast

lemma demo_objalloc:
  "\<exists>al as p. objalloc obj_cfg (pool_ops T) demo_obj_mmap [] = Inr (al, p) \<and>
     obj_inv T al as \<and> p \<in> obj_held al as"
  using objalloc_step[of T "[]" "[]" demo_obj_mmap] by (auto simp: obj_inv_empty mmap_fresh_def)

theorem objfree_ok_witness:
  "\<exists>al p al'. objalloc obj_cfg (pool_ops True) demo_obj_mmap [] = Inr (al, p) \<and>
     objfree obj_cfg (pool_ops True) al (Some (p + 5)) = Inr al'"
proof -
  obtain al as p where "objalloc obj_cfg (pool_ops True) demo_obj_mmap [] = Inr (al, p)"
    and "obj_inv True al as" "p \<in> obj_held al as" using demo_objalloc[of True] by blast
  with objfree_ok[of True al as p 5] show ?thesis by (auto simp: sizeof_object_t_def)
qed

text \<open>Two objects held at the same time do not overlap.\<close>

theorem obj_disjoint:
  assumes "obj_inv TEST al as" and "p \<in> obj_held al as" and "q \<in> obj_held al as" and "p < q"
  shows "p + sizeof_object_t \<le> q"
proof -
  note sl = obj_slot[OF assms(1)]
  obtain i j where i: "i < length al" "j < obj_nitems obj_cfg"
    "p = fst (al ! i) + (obj_items obj_cfg + sizeof_object_t * j)" using sl[OF assms(2)] by blast
  obtain k l where k: "k < length al" "l < obj_nitems obj_cfg"
    "q = fst (al ! k) + (obj_items obj_cfg + sizeof_object_t * l)" using sl[OF assms(3)] by blast
  have ap: "arenas_apart obj_cfg (bases al)" using assms(1) by (auto simp: obj_inv_def pool_ok_def)
  show ?thesis
  proof (cases "i = k")
    case True
    with i k assms(4) show ?thesis by (simp add: sizeof_object_t_def)
  next
    case False
    have "apart obj_cfg (bases al ! i) (bases al ! k)"
      by (rule arenas_apart_nth[OF ap]) (use i k False in auto)
    with i k assms(4) show ?thesis
      by (auto simp: apart_def sizeof_object_t_def obj_cfg_values) (auto simp: obj_cfg_def)
  qed
qed

lemma demo_flat_two:
  "obj_inv True [(100000, (init_arena obj_cfg)\<lparr>nfree := 2035, bitmap := 3 # replicate 291 0\<rparr>)] [{0, 1}]"
proof -
  have m: "mask 2 = (3 :: int)" by (simp add: mask_eq_exp_minus_1)
  have "bit (mask 2 :: int) k \<longleftrightarrow> k = 0 \<or> k = 1" for k
    by (simp only: bit_mask_iff) auto
  then have b: "bit (3 :: int) k \<longleftrightarrow> k = 0 \<or> k = 1" for k by (simp only: m)
  have "bitAt 0 (3 # replicate 291 0) n \<longleftrightarrow> n = 0 \<or> n = 1" if "n < 2336" for n
    using that by (cases "n div 8") (auto simp: bitAt_def b)
  then show ?thesis
    by (auto simp: obj_inv_def pool_ok_def obj_repr_def flat_wf_def obj_cfg_values
        obj_nitems_def[symmetric] obj_items_def[symmetric])
qed

theorem obj_disjoint_witness: "(100352 :: nat) + sizeof_object_t \<le> 100384"
  by (rule obj_disjoint[OF demo_flat_two])
    (auto simp: obj_held_def pool_live_def obj_live_def obj_cfg_values sizeof_object_t_def)

text \<open>\<open>objmemcheck\<close> passes on every well-formed pool: \<open>nfree\<close> counts the clear
  bits.\<close>

theorem objmemcheck_ok:
  assumes "obj_inv TEST al as"
  shows "objmemcheck (pool_ops TEST) al = Inr ()"
  using assms flat_pool.objmemcheck_repr hier_pool.objmemcheck_repr
  by (cases TEST) (auto simp: obj_defs pool_ok_def)

theorem objmemcheck_ok_witness:
  "objmemcheck (pool_ops True) [(100000, (init_arena obj_cfg)\<lparr>nfree := 2035, bitmap := 3 # replicate 291 0\<rparr>)] =
     Inr ()"
  by (rule objmemcheck_ok[OF demo_flat_two])

text \<open>C7: the three-level bitmap is a faithful optimisation: from pools with the same arenas
  and the same held objects, the two builds return the same pointer from \<open>objalloc\<close> and
  end in such pools again.\<close>

theorem hier_like_flat:
  assumes "obj_inv True al as" and "obj_inv False al2 as2"
    and "bases al2 = bases al" and "obj_held al2 as2 = obj_held al as" and "mmap_fresh obj_cfg mm al"
  shows "\<exists>al' as' al2' as2' p.
     objalloc obj_cfg (pool_ops True) mm al = Inr (al', p) \<and>
     objalloc obj_cfg (pool_ops False) mm al2 = Inr (al2', p) \<and>
     obj_inv True al' as' \<and> obj_inv False al2' as2' \<and> bases al2' = bases al' \<and>
     obj_held al2' as2' = obj_held al' as'"
proof -
  have eq: "as2 = as" using assms(1-4) by (rule obj_held_eq)
  have len: "length al2 = length al" using assms(3) by (metis length_map)
  have "mmap_fresh obj_cfg mm al2" using assms(3,5) len by (simp add: mmap_fresh_def)
  from objalloc_step[OF assms(2) this] objalloc_step[OF assms(1,5)] assms(3,4) len show ?thesis
  proof (cases "pick (obj_nitems obj_cfg) as")
    case (Some ij)
    obtain i j where ij: "ij = (i, j)" by (cases ij)
    have "i < length al"
      using pick_Some[of _ as i j] Some ij assms(1) pool_ok_length[of obj_cfg _ al as]
      by (fastforce simp: obj_inv_def)
    then have "fst (al2 ! i) = fst (al ! i)" using assms(3) len by (metis nth_map)
    with objalloc_step[OF assms(2) \<open>mmap_fresh obj_cfg mm al2\<close>] objalloc_step[OF assms(1,5)]
      assms(3,4) Some ij eq show ?thesis by fastforce
  qed (use eq in fastforce)
qed

theorem hier_like_flat_witness:
  "\<exists>al al2 p. objalloc obj_cfg (pool_ops True) demo_obj_mmap [] = Inr (al, p) \<and>
     objalloc obj_cfg (pool_ops False) demo_obj_mmap [] = Inr (al2, p)"
  using hier_like_flat[of "[]" "[]" "[]" "[]" demo_obj_mmap]
  by (auto simp: obj_inv_empty mmap_fresh_def)

text \<open>The layout \<open>init_arena\<close> computes for the arena size of the program: the header and
  the three bitmap levels end before the first item, the items end with the arena and are
  aligned to 32 bytes relative to it, and there are 2037 of them.\<close>

theorem obj_layout:
  "sizeof_arena_t obj_cfg + length (bitmap (init_arena obj_cfg)) \<le> items (init_arena obj_cfg) \<and>
   items (init_arena obj_cfg) + sizeof_object_t * nitems (init_arena obj_cfg) = ARENA_SIZE obj_cfg \<and>
   sizeof_object_t dvd items (init_arena obj_cfg) \<and> nitems (init_arena obj_cfg) = 2037"
  by (simp add: obj_layout_defs)

end
