(* ===== verification/Testh.thy ===== *)
theory Testh
  imports Stralloc Objpool
begin

text \<open>
  The test program \<open>8/so21_lista_8/test.h\<close>, which both allocators include: it allocates and
  frees at random for \<open>CYCLES\<close> rounds, keeps the pointers in an array and frees the rest at
  the end. \<open>alloc_fn\<close>, \<open>free_fn\<close> and the memory behind \<open>randfill\<close> come from the file that
  includes it, so they are a record of operations here. \<open>rand k\<close> is the value of the
  \<open>k\<close>-th call of \<open>rand\<close>; \<open>calls\<close> counts the calls made so far.
\<close>

section \<open>The code\<close>

abbreviation MAX_PTRS :: nat where "MAX_PTRS \<equiv> 10000"
abbreviation CYCLES :: nat where "CYCLES \<equiv> 100"

record 'h test_ops =
  alloc_fn :: "(nat \<Rightarrow> nat) \<Rightarrow> 'h \<Rightarrow> nat \<Rightarrow> ('h \<times> nat \<times> nat option \<times> nat) run"
  free_fn :: "'h \<Rightarrow> nat option \<Rightarrow> 'h run"
  fill_fn :: "'h \<Rightarrow> nat option \<Rightarrow> u8 list \<Rightarrow> 'h run"

record 'h test_state =
  heap :: 'h
  calls :: nat
  ptrs :: "nat \<Rightarrow> nat option"
  ptrn :: nat

definition rand_bytes :: "(nat \<Rightarrow> nat) \<Rightarrow> nat \<Rightarrow> nat \<Rightarrow> u8 list" where
  "rand_bytes rand k len = map (\<lambda>i. word_of_nat (rand (k + i))) [0..<len]"

definition test_alloc :: "'h test_ops \<Rightarrow> (nat \<Rightarrow> nat) \<Rightarrow> 'h test_state \<Rightarrow> 'h test_state run" where
  "test_alloc ops rand s =
     (if MAX_PTRS \<le> ptrn s then Inl Out_of_bounds
      else bind_run (alloc_fn ops rand (heap s) (calls s)) (\<lambda>(h, k, p, len).
           bind_run (fill_fn ops h p (rand_bytes rand k len)) (\<lambda>h'.
             Inr (s\<lparr>heap := h', calls := k + len, ptrs := (ptrs s)(ptrn s := p), ptrn := ptrn s + 1\<rparr>))))"

definition test_free :: "'h test_ops \<Rightarrow> (nat \<Rightarrow> nat) \<Rightarrow> 'h test_state \<Rightarrow> 'h test_state run" where
  "test_free ops rand s =
     (if ptrn s = 0 then Inl Division_by_zero
      else let i = rand (calls s) mod ptrn s in
           bind_run (free_fn ops (heap s) (ptrs s i)) (\<lambda>h.
             Inr (s\<lparr>heap := h, calls := calls s + 1, ptrs := (ptrs s)(i := ptrs s (ptrn s - 1)),
                    ptrn := ptrn s - 1\<rparr>)))"

lemma test_alloc_ptrn: "test_alloc ops rand s = Inr s' \<Longrightarrow> ptrn s' = Suc (ptrn s)"
  by (auto simp: test_alloc_def bind_run_Inr_iff split: if_splits)

lemma test_free_ptrn: "test_free ops rand s = Inr s' \<Longrightarrow> ptrn s' = ptrn s - 1 \<and> 0 < ptrn s"
  by (auto simp: test_free_def bind_run_Inr_iff Let_def split: if_splits)

text \<open>\<open>while (n > ptrn) test_alloc();\<close> and \<open>while (n < ptrn) test_free();\<close>\<close>

function alloc_until ::
  "'h test_ops \<Rightarrow> (nat \<Rightarrow> nat) \<Rightarrow> nat \<Rightarrow> 'h test_state \<Rightarrow> 'h test_state run" where
  "alloc_until ops rand n s =
     (if ptrn s < n
      then (case test_alloc ops rand s of Inl e \<Rightarrow> Inl e | Inr s' \<Rightarrow> alloc_until ops rand n s')
      else Inr s)"
  by pat_completeness auto
termination
  by (relation "measure (\<lambda>(ops, rand, n, s). n - ptrn s)") (auto dest: test_alloc_ptrn)

function free_until ::
  "'h test_ops \<Rightarrow> (nat \<Rightarrow> nat) \<Rightarrow> nat \<Rightarrow> 'h test_state \<Rightarrow> 'h test_state run" where
  "free_until ops rand n s =
     (if n < ptrn s
      then (case test_free ops rand s of Inl e \<Rightarrow> Inl e | Inr s' \<Rightarrow> free_until ops rand n s')
      else Inr s)"
  by pat_completeness auto
termination
  by (relation "measure (\<lambda>(ops, rand, n, s). ptrn s - n)") (auto dest: test_free_ptrn)

declare alloc_until.simps [simp del] free_until.simps [simp del]

definition test_cycle :: "'h test_ops \<Rightarrow> (nat \<Rightarrow> nat) \<Rightarrow> 'h test_state \<Rightarrow> 'h test_state run" where
  "test_cycle ops rand s =
     (let n = rand (calls s) mod MAX_PTRS; s0 = s\<lparr>calls := calls s + 1\<rparr> in
      bind_run (if ptrn s0 < n then alloc_until ops rand n s0 else Inr s0) (\<lambda>s1.
        if n < ptrn s1 then free_until ops rand n s1 else Inr s1))"

fun test_cycles ::
  "'h test_ops \<Rightarrow> (nat \<Rightarrow> nat) \<Rightarrow> nat \<Rightarrow> 'h test_state \<Rightarrow> 'h test_state run" where
  "test_cycles ops rand 0 s = Inr s"
| "test_cycles ops rand (Suc n) s =
     bind_run (test_cycle ops rand s) (\<lambda>s'. test_cycles ops rand n s')"

definition test_main :: "'h test_ops \<Rightarrow> (nat \<Rightarrow> nat) \<Rightarrow> 'h \<Rightarrow> 'h test_state run" where
  "test_main ops rand h =
     bind_run (test_cycles ops rand CYCLES \<lparr>heap = h, calls = 0, ptrs = (\<lambda>_. None), ptrn = 0\<rparr>)
       (\<lambda>s. free_until ops rand 0 s)"

section \<open>What the test needs of an allocator\<close>

text \<open>
  \<open>inv h L\<close>: the heap is well formed and the client holds exactly the pointers \<open>L\<close>.
  Allocation may return \<open>NULL\<close> (for length 0); otherwise the pointer is new and its bytes
  can be filled.
\<close>

locale tested_allocator =
  fixes ops :: "'h test_ops"
    and inv :: "'h \<Rightarrow> nat set \<Rightarrow> bool"
  assumes alloc_law: "inv h L \<Longrightarrow>
      \<exists>h' k' p len. alloc_fn ops rand h k = Inr (h', k', p, len) \<and> set_option p \<inter> L = {} \<and>
        (\<forall>bs. length bs = len \<longrightarrow>
           (\<exists>h''. fill_fn ops h' p bs = Inr h'' \<and> inv h'' (set_option p \<union> L)))"
    and free_law: "inv h L \<Longrightarrow> set_option p \<subseteq> L \<Longrightarrow>
      \<exists>h'. free_fn ops h p = Inr h' \<and> inv h' (L - set_option p)"
begin

definition held :: "'h test_state \<Rightarrow> nat set" where
  "held s = (\<Union>i<ptrn s. set_option (ptrs s i))"

lemma held_iff: "x \<in> held s \<longleftrightarrow> (\<exists>i<ptrn s. ptrs s i = Some x)"
  by (auto simp: held_def)

definition test_inv :: "'h test_state \<Rightarrow> bool" where
  "test_inv s \<longleftrightarrow> inv (heap s) (held s) \<and>
     (\<forall>i<ptrn s. \<forall>j<ptrn s. i \<noteq> j \<longrightarrow> set_option (ptrs s i) \<inter> set_option (ptrs s j) = {})"

lemma test_alloc_inv:
  assumes "test_inv s" and "ptrn s < MAX_PTRS"
  shows "\<exists>s'. test_alloc ops rand s = Inr s' \<and> test_inv s'"
proof -
  have inv: "inv (heap s) (held s)" using assms(1) by (simp add: test_inv_def)
  from alloc_law[OF inv, of rand "calls s"] obtain h k p len where
    a: "alloc_fn ops rand (heap s) (calls s) = Inr (h, k, p, len)" "set_option p \<inter> held s = {}"
    and fill: "\<And>bs. length bs = len \<Longrightarrow>
      \<exists>h''. fill_fn ops h p bs = Inr h'' \<and> inv h'' (set_option p \<union> held s)" by blast
  obtain h' where h': "fill_fn ops h p (rand_bytes rand k len) = Inr h'" "inv h' (set_option p \<union> held s)"
    using fill[of "rand_bytes rand k len"] by (auto simp: rand_bytes_def)
  let ?s = "s\<lparr>heap := h', calls := k + len, ptrs := (ptrs s)(ptrn s := p), ptrn := ptrn s + 1\<rparr>"
  have "held ?s = set_option p \<union> held s" by (auto simp: held_def lessThan_Suc)
  moreover have "set_option (ptrs s i) \<inter> set_option p = {}" if "i < ptrn s" for i
    using a(2) that by (auto simp: held_def)
  then have "\<forall>i<ptrn ?s. \<forall>j<ptrn ?s. i \<noteq> j \<longrightarrow> set_option (ptrs ?s i) \<inter> set_option (ptrs ?s j) = {}"
    using assms(1) by (fastforce simp: test_inv_def less_Suc_eq)
  ultimately have "test_inv ?s" using h'(2) by (simp add: test_inv_def)
  moreover have "test_alloc ops rand s = Inr ?s" using assms(2) a(1) h'(1) by (simp add: test_alloc_def)
  ultimately show ?thesis by blast
qed

lemma test_free_inv:
  assumes "test_inv s" and "0 < ptrn s"
  shows "\<exists>s'. test_free ops rand s = Inr s' \<and> test_inv s'"
proof -
  let ?i = "rand (calls s) mod ptrn s" and ?l = "ptrn s - 1"
  have i: "?i < ptrn s" using assms(2) by simp
  have inv: "inv (heap s) (held s)"
    and dis: "\<And>i j. i < ptrn s \<Longrightarrow> j < ptrn s \<Longrightarrow> i \<noteq> j \<Longrightarrow> set_option (ptrs s i) \<inter> set_option (ptrs s j) = {}"
    using assms(1) by (simp_all add: test_inv_def)
  have "set_option (ptrs s ?i) \<subseteq> held s" using i by (auto simp: held_def)
  from free_law[OF inv this] obtain h where
    h: "free_fn ops (heap s) (ptrs s ?i) = Inr h" "inv h (held s - set_option (ptrs s ?i))" by blast
  let ?s = "s\<lparr>heap := h, calls := calls s + 1, ptrs := (ptrs s)(?i := ptrs s ?l), ptrn := ?l\<rparr>"
  have "held ?s = held s - set_option (ptrs s ?i)"
  proof (rule set_eqI)
    fix x
    have "x \<in> held ?s \<longleftrightarrow> (\<exists>j<ptrn s. j \<noteq> ?i \<and> ptrs s j = Some x)"
    proof
      assume "x \<in> held ?s"
      then obtain j where "j < ptrn ?s" "ptrs ?s j = Some x" unfolding held_iff by blast
      then show "\<exists>j<ptrn s. j \<noteq> ?i \<and> ptrs s j = Some x"
        by (cases "j = ?i") (auto intro: exI[of _ ?l] exI[of _ j])
    next
      assume "\<exists>j<ptrn s. j \<noteq> ?i \<and> ptrs s j = Some x"
      then obtain j where j: "j < ptrn s" "j \<noteq> ?i" "ptrs s j = Some x" by blast
      show "x \<in> held ?s"
      proof (cases "j = ?l")
        case True
        with j i have "?i < ptrn ?s" "ptrs ?s ?i = Some x" by auto
        then show ?thesis unfolding held_iff by blast
      next
        case False
        with j have "j < ptrn ?s" "ptrs ?s j = Some x" by auto
        then show ?thesis unfolding held_iff by blast
      qed
    qed
    also have "\<dots> \<longleftrightarrow> x \<in> held s - set_option (ptrs s ?i)"
      using dis[OF _ i] i by (fastforce simp: held_def)
    finally show "x \<in> held ?s \<longleftrightarrow> x \<in> held s - set_option (ptrs s ?i)" .
  qed
  moreover have "\<forall>a<ptrn ?s. \<forall>b<ptrn ?s. a \<noteq> b \<longrightarrow> set_option (ptrs ?s a) \<inter> set_option (ptrs ?s b) = {}"
    using dis assms(2) by auto
  ultimately have "test_inv ?s" using h(2) by (simp add: test_inv_def)
  moreover have "test_free ops rand s = Inr ?s" using assms(2) h(1) by (simp add: test_free_def Let_def)
  ultimately show ?thesis by blast
qed

lemma alloc_until_inv:
  "test_inv s \<Longrightarrow> n \<le> MAX_PTRS \<Longrightarrow> \<exists>s'. alloc_until ops rand n s = Inr s' \<and> test_inv s'"
proof (induction "n - ptrn s" arbitrary: s rule: less_induct)
  case less
  show ?case
  proof (cases "ptrn s < n")
    case True
    with less.prems test_alloc_inv[of s rand] obtain s1 where
      s1: "test_alloc ops rand s = Inr s1" "test_inv s1" by fastforce
    with less.hyps[of s1] less.prems True test_alloc_ptrn[OF s1(1)] show ?thesis
      by (subst alloc_until.simps) auto
  qed (use less.prems in \<open>subst alloc_until.simps, simp\<close>)
qed

lemma free_until_inv:
  "test_inv s \<Longrightarrow> \<exists>s'. free_until ops rand n s = Inr s' \<and> test_inv s' \<and> ptrn s' = min n (ptrn s)"
proof (induction "ptrn s - n" arbitrary: s rule: less_induct)
  case less
  show ?case
  proof (cases "n < ptrn s")
    case True
    with less.prems test_free_inv[of s rand] obtain s1 where
      s1: "test_free ops rand s = Inr s1" "test_inv s1" by fastforce
    with less.hyps[of s1] True test_free_ptrn[OF s1(1)] show ?thesis
      by (subst free_until.simps) auto
  qed (use less.prems in \<open>subst free_until.simps, simp\<close>)
qed

lemma test_cycle_inv:
  assumes "test_inv s"
  shows "\<exists>s'. test_cycle ops rand s = Inr s' \<and> test_inv s'"
proof -
  let ?n = "rand (calls s) mod MAX_PTRS" and ?s = "s\<lparr>calls := calls s + 1\<rparr>"
  have "held ?s = held s" by (simp add: held_def)
  then have s: "test_inv ?s" using assms by (simp add: test_inv_def)
  have "?n \<le> MAX_PTRS" by simp
  from alloc_until_inv[OF s this, of rand] s obtain s1 where
    s1: "(if ptrn ?s < ?n then alloc_until ops rand ?n ?s else Inr ?s) = Inr s1" "test_inv s1"
    by (cases "ptrn ?s < ?n") (simp_all only: if_True if_False, blast+)
  from free_until_inv[OF s1(2), of rand ?n] s1 show ?thesis
    unfolding test_cycle_def Let_def s1(1) by auto
qed

lemma test_cycles_inv: "test_inv s \<Longrightarrow> \<exists>s'. test_cycles ops rand n s = Inr s' \<and> test_inv s'"
proof (induction n arbitrary: s)
  case (Suc n)
  with test_cycle_inv[OF Suc.prems, of rand] show ?case by fastforce
qed simp

theorem test_main_ok:
  assumes "inv h {}"
  shows "\<exists>s. test_main ops rand h = Inr s \<and> ptrn s = 0 \<and> inv (heap s) {}"
proof -
  let ?s = "\<lparr>heap = h, calls = 0, ptrs = (\<lambda>_. None), ptrn = 0\<rparr> :: 'h test_state"
  have "test_inv ?s" using assms by (simp add: test_inv_def held_def)
  from test_cycles_inv[OF this, of rand CYCLES] obtain s1 where
    1: "test_cycles ops rand CYCLES ?s = Inr s1" "test_inv s1" by blast
  from free_until_inv[OF 1(2), of rand 0] obtain s2 where
    2: "free_until ops rand 0 s1 = Inr s2" "test_inv s2" "ptrn s2 = 0" by auto
  then have "inv (heap s2) {}" by (simp add: test_inv_def held_def)
  with 1(1) 2 show ?thesis by (auto simp: test_main_def simp del: test_cycles.simps)
qed

end

section \<open>The test on the string allocator\<close>

abbreviation MAX_LEN :: nat where "MAX_LEN \<equiv> 100"

definition str_alloc_fn ::
  "arena_cfg \<Rightarrow> (nat \<Rightarrow> nat) \<Rightarrow> (nat \<Rightarrow> nat) \<Rightarrow> str_heap \<Rightarrow> nat \<Rightarrow> (str_heap \<times> nat \<times> nat option \<times> nat) run" where
  "str_alloc_fn c mm rand h k =
     (let len = rand k mod (MAX_LEN + 1) in
      bind_run (stralloc c mm h len) (\<lambda>(h', p). Inr (h', k + 1, p, len)))"

definition str_fill :: "arena_cfg \<Rightarrow> str_heap \<Rightarrow> nat option \<Rightarrow> i8 list \<Rightarrow> str_heap run" where
  "str_fill c h p bs =
     (case p of None \<Rightarrow> if bs = [] then Inr h else Inl Null_deref | Some q \<Rightarrow> randfill c h q bs)"

definition str_test :: "arena_cfg \<Rightarrow> (nat \<Rightarrow> nat) \<Rightarrow> str_heap test_ops" where
  "str_test c mm = \<lparr>alloc_fn = str_alloc_fn c mm, free_fn = strfree c, fill_fn = str_fill c\<rparr>"

text \<open>What \<open>mmap\<close> promises when nothing is unmapped.\<close>

definition mmap_apart :: "arena_cfg \<Rightarrow> (nat \<Rightarrow> nat) \<Rightarrow> bool" where
  "mmap_apart c mm \<longleftrightarrow> (\<forall>i j. i < j \<longrightarrow> apart c (mm j) (mm i))"

definition str_test_inv :: "arena_cfg \<Rightarrow> (nat \<Rightarrow> nat) \<Rightarrow> str_heap \<Rightarrow> nat set \<Rightarrow> bool" where
  "str_test_inv c mm h L \<longleftrightarrow> cfg_ok c \<and> mmap_apart c mm \<and>
     (\<exists>rss. str_inv c h rss \<and> str_live c h rss = L) \<and>
     set (bases (arenas h)) \<subseteq> mm ` {..<length (arenas h)}"

lemma str_test_inv_fresh: "str_test_inv c mm h L \<Longrightarrow> mmap_fresh c mm (arenas h)"
  by (auto simp: str_test_inv_def mmap_apart_def mmap_fresh_def)

lemma bases_strfree: "strfree c h p = Inr h' \<Longrightarrow> bases (arenas h') = bases (arenas h)"
  by (auto simp: strfree_def bind_run_Inr_iff split: option.splits if_splits)

lemma bases_stralloc:
  assumes "stralloc c mm h len = Inr (h', p)"
    and "set (bases (arenas h)) \<subseteq> mm ` {..<length (arenas h)}"
  shows "set (bases (arenas h')) \<subseteq> mm ` {..<length (arenas h')}"
proof (cases "len = 0")
  case True
  with assms show ?thesis by (simp add: stralloc_def)
next
  case False
  let ?h0 = "if cur_arena h = None
    then h\<lparr>arenas := alloc_first_arena (arenas h) (mm (length (arenas h)), init_chunk c zero_chunk),
           cur_arena := arena_first (alloc_first_arena (arenas h) (mm (length (arenas h)), init_chunk c zero_chunk)),
           cur_offset := sizeof_arena_t c\<rparr>
    else h"
  from assms(1) False obtain ar q n where
    "stralloc_loop c mm n ?h0 ar (word_of_nat (len + 1)) = Inr (h', q)"
    by (auto simp: stralloc_def Let_def bind_run_Inr_iff simp del: stralloc_loop.simps
        split: if_splits option.splits)
  moreover have "set (bases (arenas ?h0)) \<subseteq> mm ` {..<length (arenas ?h0)}"
    using assms(2) by (auto simp: alloc_first_arena_def lessThan_Suc)
  ultimately show ?thesis by (rule bases_stralloc_loop)
qed

interpretation str_tested: tested_allocator "str_test c mm" "str_test_inv c mm" for c mm
proof
  fix h L k and rand :: "nat \<Rightarrow> nat"
  assume inv: "str_test_inv c mm h L"
  then obtain rss where rss: "str_inv c h rss" "str_live c h rss = L" and c: "cfg_ok c"
    and b: "set (bases (arenas h)) \<subseteq> mm ` {..<length (arenas h)}"
    by (auto simp: str_test_inv_def)
  let ?len = "rand k mod (MAX_LEN + 1)"
  have len: "?len \<le> MAX_LENGTH" using mod_less_divisor[of "MAX_LEN + 1" "rand k"] by linarith
  show "\<exists>h' k' p len. alloc_fn (str_test c mm) rand h k = Inr (h', k', p, len) \<and> set_option p \<inter> L = {} \<and>
      (\<forall>bs. length bs = len \<longrightarrow> (\<exists>h''. fill_fn (str_test c mm) h' p bs = Inr h'' \<and>
         str_test_inv c mm h'' (set_option p \<union> L)))"
  proof (cases "?len = 0")
    case True
    then have "alloc_fn (str_test c mm) rand h k = Inr (h, k + 1, None, 0)"
      by (simp add: str_test_def str_alloc_fn_def stralloc_def)
    then show ?thesis using inv by (simp add: str_test_def str_fill_def)
  next
    case False
    then have pos: "0 < ?len" by simp
    from stralloc_post_run[OF rss(1) c str_test_inv_fresh[OF inv] pos len] obtain h1 p rss1 where
      a: "stralloc c mm h ?len = Inr (h1, Some p)" "str_inv c h1 rss1" "p \<notin> L"
        "str_live c h1 rss1 = insert p L"
      and hd: "byte_at c (arenas h1) (p - 1) = Inr (word_of_nat (?len + 1))"
      by (auto simp: stralloc_post_def rss(2))
    have b1: "set (bases (arenas h1)) \<subseteq> mm ` {..<length (arenas h1)}" using a(1) b by (rule bases_stralloc)
    have p: "p \<in> str_live c h1 rss1" using a(4) by simp
    have sz: "nat (sint (word_of_nat (?len + 1) :: 8 word)) = ?len + 1"
      using len by (subst sint8_of_nat) simp_all
    have "\<exists>h''. str_fill c h1 (Some p) bs = Inr h'' \<and> str_test_inv c mm h'' (insert p L)"
      if bs: "length bs = ?len" for bs
    proof -
      have "p + length bs \<le> p - 1 + nat (sint (word_of_nat (?len + 1) :: 8 word))"
        using sz bs str_live_pos[OF a(2) p] by simp
      from randfill_live[OF a(2) p hd order_refl this] obtain h2 where
        "randfill c h1 p bs = Inr h2" "str_inv c h2 rss1" "str_live c h2 rss1 = str_live c h1 rss1"
        "bases (arenas h2) = bases (arenas h1)" by blast
      moreover from this have "length (arenas h2) = length (arenas h1)" by (metis length_map)
      ultimately show ?thesis using a(4) b1 inv unfolding str_test_inv_def
        by (auto simp: str_fill_def simp del: set_map)
    qed
    then show ?thesis using a(1,3) by (simp add: str_test_def str_alloc_fn_def Let_def)
  qed
next
  fix h L p
  assume inv: "str_test_inv c mm h L" and p: "set_option p \<subseteq> L"
  obtain rss where rss: "str_inv c h rss" "str_live c h rss = L"
    using inv by (auto simp: str_test_inv_def)
  show "\<exists>h'. free_fn (str_test c mm) h p = Inr h' \<and> str_test_inv c mm h' (L - set_option p)"
  proof (cases p)
    case None
    then show ?thesis using inv by (simp add: str_test_def strfree_def)
  next
    case (Some q)
    then have "q \<in> str_live c h rss" using p rss(2) by simp
    from strfree_live[OF rss(1) this] obtain h1 rss1 where
      f: "strfree c h (Some q) = Inr h1" "str_inv c h1 rss1" "str_live c h1 rss1 = L - {q}"
      by (auto simp: rss(2))
    have "bases (arenas h1) = bases (arenas h)" using f(1) by (rule bases_strfree)
    moreover from this have "length (arenas h1) = length (arenas h)" by (metis length_map)
    ultimately show ?thesis using f inv Some unfolding str_test_inv_def
      by (auto simp: str_test_def simp del: set_map)
  qed
qed

section \<open>The test on the object pool\<close>

text \<open>
  \<open>randfill\<close> of an object: its bytes are not part of the model, so only the place of the
  write is checked, which must be among the items of an arena.
\<close>

definition obj_alloc_fn ::
  "arena_cfg \<Rightarrow> bitmap_ops \<Rightarrow> (nat \<Rightarrow> nat) \<Rightarrow> (nat \<Rightarrow> nat) \<Rightarrow> objarena arenalist \<Rightarrow> nat \<Rightarrow>
     (objarena arenalist \<times> nat \<times> nat option \<times> nat) run" where
  "obj_alloc_fn c bops mm rand al k =
     bind_run (objalloc c bops mm al) (\<lambda>(al', p). Inr (al', k, Some p, sizeof_object_t))"

definition obj_fill ::
  "arena_cfg \<Rightarrow> objarena arenalist \<Rightarrow> nat option \<Rightarrow> u8 list \<Rightarrow> objarena arenalist run" where
  "obj_fill c al p bs =
     (case p of
        None \<Rightarrow> if bs = [] then Inr al else Inl Null_deref
      | Some q \<Rightarrow>
          (case find_ptr_arena c al q of
             None \<Rightarrow> Inl Out_of_bounds
           | Some ar \<Rightarrow>
               (case arena_at al ar of
                  None \<Rightarrow> Inl Out_of_bounds
                | Some h \<Rightarrow> if items h \<le> q - ar \<and> q - ar + length bs \<le> ARENA_SIZE c
                            then Inr al else Inl Out_of_bounds)))"

definition obj_test :: "bool \<Rightarrow> (nat \<Rightarrow> nat) \<Rightarrow> objarena arenalist test_ops" where
  "obj_test TEST mm =
     \<lparr>alloc_fn = obj_alloc_fn obj_cfg (pool_ops TEST) mm, free_fn = objfree obj_cfg (pool_ops TEST),
      fill_fn = obj_fill obj_cfg\<rparr>"

definition obj_test_inv :: "bool \<Rightarrow> (nat \<Rightarrow> nat) \<Rightarrow> objarena arenalist \<Rightarrow> nat set \<Rightarrow> bool" where
  "obj_test_inv TEST mm al L \<longleftrightarrow> mmap_apart obj_cfg mm \<and>
     (\<exists>as. obj_inv TEST al as \<and> obj_held al as = L) \<and> set (bases al) \<subseteq> mm ` {..<length al}"

lemma obj_test_fresh: "obj_test_inv T mm al L \<Longrightarrow> mmap_fresh obj_cfg mm al"
  by (auto simp: obj_test_inv_def mmap_apart_def mmap_fresh_def)

lemma obj_fill_held:
  assumes "obj_inv T al as" and "p \<in> obj_held al as" and "length bs = sizeof_object_t"
  shows "obj_fill obj_cfg al (Some p) bs = Inr al"
proof -
  obtain i j where i: "i < length al" "j < obj_nitems obj_cfg"
    "p = fst (al ! i) + (obj_items obj_cfg + sizeof_object_t * j)"
    using obj_slot[OF assms(1,2)] by blast
  have ap: "arenas_apart obj_cfg (bases al)" using assms(1) by (auto simp: obj_inv_def pool_ok_def)
  obtain bw where "list_all2 (obj_repr obj_cfg bw) (map snd al) as"
    using assms(1) by (auto simp: obj_inv_def pool_ok_def)
  then have "obj_repr obj_cfg bw (snd (al ! i)) (as ! i)"
    using i(1) by (metis length_map list_all2_nthD nth_map)
  then have it: "items (snd (al ! i)) = obj_items obj_cfg" by (simp add: obj_repr_def)
  have "distinct (bases al)" by (rule arenas_apart_distinct[OF _ ap]) (simp add: obj_cfg_def)
  then have at: "arena_at al (fst (al ! i)) = Some (snd (al ! i))"
    using i(1) by (auto simp: arena_at_def intro: map_of_is_SomeI)
  have "sizeof_object_t * j + sizeof_object_t \<le> sizeof_object_t * obj_nitems obj_cfg"
    using i(2) by (simp add: sizeof_object_t_def)
  then have rng: "obj_items obj_cfg + sizeof_object_t * j + sizeof_object_t \<le> ARENA_SIZE obj_cfg"
    "0 < obj_items obj_cfg"
    using flat_pool.cfg by (auto simp: obj_cfg_ok_def)
  have "find_ptr_arena obj_cfg al p = Some (fst (al ! i))"
    by (rule find_ptr_arena_unique[OF ap]) (use i rng in \<open>auto simp: sizeof_object_t_def\<close>)
  with at it rng i(3) assms(3) show ?thesis by (simp add: obj_fill_def)
qed

interpretation obj_tested: tested_allocator "obj_test T mm" "obj_test_inv T mm" for T mm
proof
  fix al L k and rand :: "nat \<Rightarrow> nat"
  assume inv: "obj_test_inv T mm al L"
  then obtain as where as: "obj_inv T al as" "obj_held al as = L" by (auto simp: obj_test_inv_def)
  from objalloc_step[OF as(1) obj_test_fresh[OF inv]] obtain al1 as1 p where
    a: "objalloc obj_cfg (pool_ops T) mm al = Inr (al1, p)" "obj_inv T al1 as1" "p \<notin> L"
      "obj_held al1 as1 = insert p L"
    and b: "bases al1 = bases al \<or> bases al1 = bases al @ [mm (length al)]"
    unfolding as(2) by (auto split: option.splits)
  have "length al1 = length (bases al1)" by simp
  with b have len: "bases al1 = bases al \<and> length al1 = length al \<or>
      bases al1 = bases al @ [mm (length al)] \<and> length al1 = Suc (length al)"
    by (metis length_append_singleton length_map)
  then have "set (bases al1) \<subseteq> mm ` {..<length al1}"
    using inv unfolding obj_test_inv_def by (auto simp: lessThan_Suc simp del: set_map)
  then have inv1: "obj_test_inv T mm al1 (insert p L)"
    using inv a unfolding obj_test_inv_def by blast
  have "obj_fill obj_cfg al1 (Some p) bs = Inr al1" if "length bs = sizeof_object_t" for bs
    by (rule obj_fill_held[OF a(2) _ that]) (simp add: a(4))
  with inv1 a(1,3) show "\<exists>h' k' p len. alloc_fn (obj_test T mm) rand al k = Inr (h', k', p, len) \<and>
      set_option p \<inter> L = {} \<and> (\<forall>bs. length bs = len \<longrightarrow>
        (\<exists>h''. fill_fn (obj_test T mm) h' p bs = Inr h'' \<and> obj_test_inv T mm h'' (set_option p \<union> L)))"
    by (simp add: obj_test_def obj_alloc_fn_def)
next
  fix al L p
  assume inv: "obj_test_inv T mm al L" and p: "set_option p \<subseteq> L"
  obtain as where as: "obj_inv T al as" "obj_held al as = L" using inv by (auto simp: obj_test_inv_def)
  show "\<exists>h'. free_fn (obj_test T mm) al p = Inr h' \<and> obj_test_inv T mm h' (L - set_option p)"
  proof (cases p)
    case None
    then show ?thesis using inv by (simp add: obj_test_def objfree_def)
  next
    case (Some q)
    then have "q \<in> obj_held al as" using p as(2) by simp
    from objfree_slot[OF as(1) this, of 0] obtain al1 as1 where
      f: "objfree obj_cfg (pool_ops T) al (Some q) = Inr al1" "obj_inv T al1 as1" "bases al1 = bases al"
        "obj_held al1 as1 = L - {q}"
      by (auto simp: as(2) sizeof_object_t_def)
    moreover from f(3) have "length al1 = length al" by (metis length_map)
    ultimately show ?thesis using inv Some unfolding obj_test_inv_def
      by (auto simp: obj_test_def simp del: set_map)
  qed
qed

section \<open>Properties\<close>

text \<open>C5: for every outcome of \<open>rand\<close> and a kernel that maps disjoint regions, the test
  program on the string allocator runs to its end: every loop ends, no assertion fires, no
  access leaves its arena, and all strings are freed at the end.\<close>

theorem str_test_ok:
  assumes "cfg_ok c" and "mmap_apart c mm"
  shows "\<exists>s rss. test_main (str_test c mm) rand empty_str_heap = Inr s \<and> ptrn s = 0 \<and>
           str_inv c (heap s) rss \<and> str_live c (heap s) rss = {}"
proof -
  have "str_test_inv c mm empty_str_heap {}"
    using assms empty_str_inv by (auto simp: str_test_inv_def)
  from str_tested.test_main_ok[OF this, of rand] show ?thesis by (auto simp: str_test_inv_def)
qed

lemma demo_mmap_apart: "mmap_apart demo_cfg demo_mmap"
  by (auto simp: mmap_apart_def apart_def demo_cfg_def demo_mmap_def)

theorem str_test_ok_witness:
  "\<exists>s. test_main (str_test demo_cfg demo_mmap) (\<lambda>k. k * k) empty_str_heap = Inr s \<and> ptrn s = 0"
  using str_test_ok[OF demo_cfg_ok demo_mmap_apart] by blast

text \<open>C6: the same for the object pool, with either bitmap.\<close>

theorem obj_test_ok:
  assumes "mmap_apart obj_cfg mm"
  shows "\<exists>s as. test_main (obj_test TEST mm) rand [] = Inr s \<and> ptrn s = 0 \<and>
           obj_inv TEST (heap s) as \<and> obj_held (heap s) as = {}"
proof -
  have "obj_test_inv TEST mm [] {}"
    using assms obj_inv_empty by (auto simp: obj_test_inv_def)
  from obj_tested.test_main_ok[OF this, of rand] show ?thesis by (auto simp: obj_test_inv_def)
qed

theorem obj_test_ok_witness:
  "\<exists>s. test_main (obj_test False demo_obj_mmap) (\<lambda>k. k * k) [] = Inr s \<and> ptrn s = 0"
proof -
  have "mmap_apart obj_cfg demo_obj_mmap"
    by (auto simp: mmap_apart_def apart_def obj_cfg_def demo_obj_mmap_def)
  from obj_test_ok[OF this] show ?thesis by blast
qed

end
