(* ===== verification/Forksort.thy ===== *)
theory Forksort
  imports Prelude "HOL-Library.Multiset"
begin

unbundle bit_operations_syntax

text \<open>
  The parallel sort of \<open>7/so21_lista_7/forksort.c\<close>. The table, shared by all processes, is a
  list of \<open>long\<close> values; elements are compared and moved only, so they are \<open>int\<close>. An access
  outside the table is \<open>Out_of_bounds\<close>. \<open>random\<close> and \<open>fork\<close> are oracles: \<open>rnd e k\<close> is the
  value of the \<open>k\<close>-th call of \<open>random\<close> in a process, \<open>fork_ret e k\<close> is what the \<open>k\<close>-th
  \<open>fork\<close> returns in the parent (\<open>- 1\<close> when it fails).

  A child process is run to its end at the point of the \<open>fork\<close>: the child and the code its
  parent runs before it waits work on disjoint ranges, and \<open>quicksort_commute\<close> shows that
  the order of two such sorts does not matter. The child inherits the generator's state, the
  parent keeps its own.
\<close>

section \<open>The code\<close>

type_synonym table = "int list"

definition memmove_longs :: "table \<Rightarrow> nat \<Rightarrow> nat \<Rightarrow> nat \<Rightarrow> table" where
  "memmove_longs t dst src n = take dst t @ take n (drop src t) @ drop (dst + n) t"

function find_insert :: "table \<Rightarrow> nat \<Rightarrow> nat \<Rightarrow> nat" where
  "find_insert t i pivot =
     (if i < pivot \<and> t ! i < t ! pivot then find_insert t (i + 1) pivot else i)"
  by pat_completeness auto
termination by (relation "measure (\<lambda>(t, i, pivot). pivot - i)") auto

definition insert_step :: "table \<Rightarrow> nat \<Rightarrow> nat \<Rightarrow> table" where
  "insert_step t left pivot =
     (let i = find_insert t left pivot in
      if i < pivot
      then let n = pivot - i; tmp = t ! pivot; t1 = memmove_longs t (i + 1) i n in t1[i := tmp]
      else t)"

function insertion_loop :: "table \<Rightarrow> nat \<Rightarrow> nat \<Rightarrow> nat \<Rightarrow> table run" where
  "insertion_loop t left pivot right =
     (if pivot \<le> right
      then if length t \<le> pivot then Inl Out_of_bounds
           else insertion_loop (insert_step t left pivot) left (pivot + 1) right
      else Inr t)"
  by pat_completeness auto
termination by (relation "measure (\<lambda>(t, left, pivot, right). Suc right - pivot)") auto

definition InsertionSort :: "table \<Rightarrow> nat \<Rightarrow> nat \<Rightarrow> table run" where
  "InsertionSort t left right = insertion_loop t left (left + 1) right"

definition SwapElem :: "table \<Rightarrow> nat \<Rightarrow> nat \<Rightarrow> table run" where
  "SwapElem t i j =
     (if i < length t \<and> j < length t then Inr (t[i := t ! j, j := t ! i]) else Inl Out_of_bounds)"

function scan_left :: "table \<Rightarrow> nat \<Rightarrow> nat \<Rightarrow> int \<Rightarrow> nat run" where
  "scan_left t left right pivot =
     (if left < right
      then if length t \<le> left then Inl Out_of_bounds
           else if t ! left < pivot then scan_left t (left + 1) right pivot else Inr left
      else Inr left)"
  by pat_completeness auto
termination by (relation "measure (\<lambda>(t, left, right, pivot). right - left)") auto

function scan_right :: "table \<Rightarrow> nat \<Rightarrow> nat \<Rightarrow> int \<Rightarrow> nat run" where
  "scan_right t left right pivot =
     (if left < right
      then if length t \<le> right then Inl Out_of_bounds
           else if pivot \<le> t ! right then scan_right t left (right - 1) pivot else Inr right
      else Inr right)"
  by pat_completeness auto
termination by (relation "measure (\<lambda>(t, left, right, pivot). right - left)") auto

declare find_insert.simps [simp del] insertion_loop.simps [simp del]
  scan_left.simps [simp del] scan_right.simps [simp del]

lemma scan_left_spec:
  "scan_left t l r p = Inr l' \<Longrightarrow> l \<le> r \<Longrightarrow>
     l \<le> l' \<and> l' \<le> r \<and> (\<forall>i. l \<le> i \<and> i < l' \<longrightarrow> t ! i < p) \<and> (l' < r \<longrightarrow> p \<le> t ! l')"
proof (induction t l r p rule: scan_left.induct)
  case (1 t l r p)
  show ?case
  proof (cases "l < r \<and> l < length t \<and> t ! l < p")
    case True
    then have "scan_left t (l + 1) r p = Inr l'" using 1(2) by (subst (asm) scan_left.simps) simp
    moreover have "\<not> length t \<le> l" "l + 1 \<le> r" using True by auto
    ultimately have "l + 1 \<le> l' \<and> l' \<le> r \<and> (\<forall>i. l + 1 \<le> i \<and> i < l' \<longrightarrow> t ! i < p) \<and> (l' < r \<longrightarrow> p \<le> t ! l')"
      using 1(1) True by blast
    moreover have "l + 1 \<le> i \<or> i = l" if "l \<le> i" for i using that by linarith
    ultimately show ?thesis using True by fastforce
  next
    case False
    then have "l' = l" and "l < r \<longrightarrow> p \<le> t ! l"
      using 1(2) by (subst (asm) scan_left.simps; force split: if_splits)+
    with 1(3) show ?thesis by auto
  qed
qed

lemma scan_right_spec:
  "scan_right t l r p = Inr r' \<Longrightarrow> l \<le> r \<Longrightarrow>
     l \<le> r' \<and> r' \<le> r \<and> (\<forall>i. r' < i \<and> i \<le> r \<longrightarrow> p \<le> t ! i) \<and> (l < r' \<longrightarrow> t ! r' < p)"
proof (induction t l r p rule: scan_right.induct)
  case (1 t l r p)
  show ?case
  proof (cases "l < r \<and> r < length t \<and> p \<le> t ! r")
    case True
    then have "scan_right t l (r - 1) p = Inr r'" using 1(2) by (subst (asm) scan_right.simps) simp
    moreover have "\<not> length t \<le> r" "l \<le> r - 1" using True by auto
    ultimately have "l \<le> r' \<and> r' \<le> r - 1 \<and> (\<forall>i. r' < i \<and> i \<le> r - 1 \<longrightarrow> p \<le> t ! i) \<and> (l < r' \<longrightarrow> t ! r' < p)"
      using 1(1) True by blast
    moreover have "i \<le> r - 1 \<or> i = r" if "i \<le> r" for i using that by linarith
    ultimately show ?thesis using True by fastforce
  next
    case False
    then have "r' = r" and "l < r \<longrightarrow> t ! r < p"
      using 1(2) by (subst (asm) scan_right.simps; force split: if_splits)+
    with 1(3) show ?thesis by auto
  qed
qed

text \<open>
  An iteration that moves neither index swaps, and the next one moves the left index: the
  measure counts twice the distance and one more when the left element is not below the pivot.
\<close>

function partition_loop :: "table \<Rightarrow> nat \<Rightarrow> nat \<Rightarrow> int \<Rightarrow> (table \<times> nat) run" where
  "partition_loop t left right pivot =
     (if left < right then
        bind_run (scan_left t left right pivot) (\<lambda>l.
        bind_run (scan_right t l right pivot) (\<lambda>r.
        if l < r then bind_run (SwapElem t l r) (\<lambda>t'. partition_loop t' l r pivot)
        else Inr (t, l)))
      else Inr (t, left))"
  by pat_completeness auto
termination
proof (relation "measure (\<lambda>(t, left, right, pivot). 2 * (right - left) + (if t ! left < pivot then 0 else 1))",
    goal_cases)
  case (2 t left right pivot l r t')
  from scan_left_spec[OF 2(2)] 2(1) have l: "left \<le> l" "l \<le> right" "t ! left < pivot \<longrightarrow> left < l \<or> l = right"
    by (auto simp: le_less)
  from scan_right_spec[OF 2(3) l(2)] 2(4) have r: "r \<le> right" "t ! r < pivot" by auto
  have "t' ! l = t ! r" using 2(4,5) by (auto simp: SwapElem_def split: if_splits)
  with l r 2(4) show ?case by (auto split: if_splits)
qed simp

declare partition_loop.simps [simp del]

definition Partition :: "table \<Rightarrow> nat \<Rightarrow> nat \<Rightarrow> int \<Rightarrow> (table \<times> nat) run" where
  "Partition t lo hi pivot = partition_loop t lo hi pivot"

lemma partition_loop_bounds:
  "partition_loop t l r p = Inr (t', s) \<Longrightarrow> l \<le> r \<Longrightarrow> l \<le> s \<and> s \<le> r \<and> length t' = length t"
proof (induction t l r p rule: partition_loop.induct)
  case (1 t l r p)
  show ?case
  proof (cases "l < r")
    case True
    with 1(2) obtain l1 r1 where sl: "scan_left t l r p = Inr l1" and sr: "scan_right t l1 r p = Inr r1"
      by (subst (asm) partition_loop.simps) (auto simp: bind_run_Inr_iff)
    note b = scan_left_spec[OF sl 1(3)]
    note b' = scan_right_spec[OF sr]
    show ?thesis
    proof (cases "l1 < r1")
      case swap: True
      with 1(2) True obtain t1 where t1: "SwapElem t l1 r1 = Inr t1" "partition_loop t1 l1 r1 p = Inr (t', s)"
        by (subst (asm) partition_loop.simps) (auto simp: bind_run_Inr_iff sl sr)
      have "length t1 = length t" using t1(1) by (auto simp: SwapElem_def split: if_splits)
      with 1(1)[OF True sl sr swap t1(1,2)] swap b b' show ?thesis by auto
    next
      case False
      with 1(2) True have "t' = t" "s = l1"
        by (subst (asm) partition_loop.simps; simp add: sl sr)+
      with b show ?thesis by auto
    qed
  qed (use 1(2,3) in \<open>subst (asm) partition_loop.simps, auto\<close>)
qed

section \<open>Rearranging a range\<close>

text \<open>
  \<open>range_perm l r t t'\<close>: \<open>t'\<close> is \<open>t\<close> with the elements at \<open>l..r\<close> rearranged, and
  \<open>sorted_on l r t\<close>: the elements at \<open>l..r\<close> are in order.
\<close>

definition range_perm :: "nat \<Rightarrow> nat \<Rightarrow> table \<Rightarrow> table \<Rightarrow> bool" where
  "range_perm l r t t' \<longleftrightarrow> mset t' = mset t \<and> (\<forall>i < length t. i < l \<or> r < i \<longrightarrow> t' ! i = t ! i)"

definition sorted_on :: "nat \<Rightarrow> nat \<Rightarrow> table \<Rightarrow> bool" where
  "sorted_on l r t \<longleftrightarrow> (\<forall>i j. l \<le> i \<and> i \<le> j \<and> j \<le> r \<longrightarrow> t ! i \<le> t ! j)"

lemma range_perm_length: "range_perm l r t t' \<Longrightarrow> length t' = length t"
  unfolding range_perm_def by (metis size_mset)

lemma range_perm_refl [simp]: "range_perm l r t t"
  by (simp add: range_perm_def)

lemma range_perm_trans:
  assumes "range_perm l r t t'" and "range_perm l r t' t''"
  shows "range_perm l r t t''"
  using assms range_perm_length[OF assms(1)] by (simp add: range_perm_def)

lemma range_perm_mono:
  "range_perm l r t t' \<Longrightarrow> l' \<le> l \<Longrightarrow> r \<le> r' \<Longrightarrow> range_perm l' r' t t'"
  by (auto simp: range_perm_def)

lemma range_perm_outside: "range_perm l r t t' \<Longrightarrow> i < length t \<Longrightarrow> i < l \<or> r < i \<Longrightarrow> t' ! i = t ! i"
  by (auto simp: range_perm_def)

lemma slice_set:
  assumes "r < length t"
  shows "set (take (Suc r - l) (drop l t)) = (!) t ` {l..r}"
proof -
  have "set (take (Suc r - l) (drop l t)) = (\<lambda>k. t ! (l + k)) ` {..<Suc r - l}"
  proof -
    have "take (Suc r - l) (drop l t) = map (\<lambda>k. t ! (l + k)) [0..<Suc r - l]"
      using assms by (intro nth_equalityI) auto
    then show ?thesis by (simp add: lessThan_atLeast0)
  qed
  also have "\<dots> = (!) t ` {l..r}"
  proof -
    have "(\<lambda>k. l + k) ` {..<Suc r - l} = {l..r}"
    proof (rule set_eqI)
      fix x show "x \<in> (\<lambda>k. l + k) ` {..<Suc r - l} \<longleftrightarrow> x \<in> {l..r}"
        by (cases "l \<le> x") (auto intro!: image_eqI[of x _ "x - l"])
    qed
    then show ?thesis by (metis image_image)
  qed
  finally show ?thesis .
qed

lemma slice_split: "l \<le> Suc r \<Longrightarrow> t = take l t @ take (Suc r - l) (drop l t) @ drop (Suc r) t"
  by (metis append_take_drop_id drop_drop le_add_diff_inverse2)

lemma range_perm_ball:
  assumes p: "range_perm l r t t'" and r: "r < length t" and P: "\<forall>i. l \<le> i \<and> i \<le> r \<longrightarrow> P (t ! i)"
  shows "\<forall>i. l \<le> i \<and> i \<le> r \<longrightarrow> P (t' ! i)"
proof (cases "l \<le> r")
  case True
  note len = range_perm_length[OF p]
  have "take l t' = take l t" "drop (Suc r) t' = drop (Suc r) t"
    using p r len True by (auto intro!: nth_equalityI simp: range_perm_def)
  moreover have "mset (take l t') + mset (take (Suc r - l) (drop l t')) + mset (drop (Suc r) t') =
      mset (take l t) + mset (take (Suc r - l) (drop l t)) + mset (drop (Suc r) t)"
  proof -
    have s: "mset u = mset (take l u) + mset (take (Suc r - l) (drop l u)) + mset (drop (Suc r) u)" for u :: table
      using arg_cong[OF slice_split[of l r u], of mset] True by (simp add: add.assoc)
    show ?thesis using p s[of t'] s[of t] by (simp add: range_perm_def)
  qed
  ultimately have "mset (take (Suc r - l) (drop l t')) = mset (take (Suc r - l) (drop l t))" by simp
  then have "set (take (Suc r - l) (drop l t')) = set (take (Suc r - l) (drop l t))"
    by (metis set_mset_mset)
  then have "(!) t' ` {l..r} = (!) t ` {l..r}" using r len by (simp add: slice_set)
  note img = this
  show ?thesis
  proof (intro allI impI)
    fix i assume "l \<le> i \<and> i \<le> r"
    then have "t' ! i \<in> (!) t ` {l..r}" unfolding img[symmetric] by (intro imageI) simp
    then show "P (t' ! i)" using P by auto
  qed
qed auto

lemma SwapElem_ok:
  assumes "i < length t" "j < length t" "l \<le> i" "l \<le> j" "i \<le> r" "j \<le> r"
  shows "\<exists>t'. SwapElem t i j = Inr t' \<and> range_perm l r t t' \<and> t' ! i = t ! j \<and> t' ! j = t ! i"
proof -
  let ?t = "t[i := t ! j, j := t ! i]"
  have "mset ?t = mset t" using assms mset_swap[of j t i] by (simp add: list_update_swap)
  then have "range_perm l r t ?t" using assms by (auto simp: range_perm_def)
  then show ?thesis using assms by (auto simp: SwapElem_def nth_list_update)
qed

lemma sorted_on_single: "sorted_on l l t"
  unfolding sorted_on_def by (metis le_antisym order_refl order_trans)

section \<open>Insertion sort\<close>

lemma find_insert_spec:
  "l \<le> p \<Longrightarrow> l \<le> find_insert t l p \<and> find_insert t l p \<le> p \<and>
     (\<forall>k. l \<le> k \<and> k < find_insert t l p \<longrightarrow> t ! k < t ! p) \<and>
     (find_insert t l p < p \<longrightarrow> t ! p \<le> t ! find_insert t l p)"
proof (induction t l p rule: find_insert.induct)
  case (1 t i p)
  show ?case
  proof (cases "i < p \<and> t ! i < t ! p")
    case True
    then have "find_insert t i p = find_insert t (i + 1) p" by (subst find_insert.simps) simp
    moreover have "i + 1 \<le> k \<or> k = i" if "i \<le> k" for k using that by linarith
    ultimately show ?thesis using 1(1) True by fastforce
  next
    case False
    then have "find_insert t i p = i" by (subst find_insert.simps) auto
    with False 1(2) show ?thesis by auto
  qed
qed

lemma insert_step_nth:
  assumes "l \<le> p" and "p < length t"
  defines "i \<equiv> find_insert t l p"
  shows "length (insert_step t l p) = length t"
    and "k < length t \<Longrightarrow> insert_step t l p ! k =
      (if k < i \<or> p < k then t ! k else if k = i then t ! p else t ! (k - 1))"
    and "mset (insert_step t l p) = mset t"
proof -
  have i: "i \<le> p" using find_insert_spec[OF assms(1), of t] by (simp add: i_def)
  have eq: "insert_step t l p = take i t @ t ! p # take (p - i) (drop i t) @ drop (Suc p) t"
  proof (cases "i < p")
    case True
    then have "insert_step t l p = (memmove_longs t (i + 1) i (p - i))[i := t ! p]"
      by (simp add: insert_step_def i_def Let_def)
    also have "\<dots> = take i t @ t ! p # take (p - i) (drop i t) @ drop (Suc p) t"
      using True assms(2) by (simp add: memmove_longs_def take_Suc_conv_app_nth list_update_append)
    finally show ?thesis .
  next
    case False
    then have "i = p" using i by simp
    moreover from this have "insert_step t l p = t" by (simp add: insert_step_def i_def Let_def)
    ultimately show ?thesis using assms(2) by (simp add: id_take_nth_drop[symmetric])
  qed
  show "length (insert_step t l p) = length t" using i assms(2) by (simp add: eq)
  have "t = take i t @ take (p - i) (drop i t) @ t ! p # drop (Suc p) t"
    using i assms(2) by (metis append_take_drop_id drop_drop id_take_nth_drop le_add_diff_inverse2 append_assoc Cons_nth_drop_Suc)
  from arg_cong[OF this, of mset] show "mset (insert_step t l p) = mset t" by (simp add: eq)
  show "k < length t \<Longrightarrow> insert_step t l p ! k =
      (if k < i \<or> p < k then t ! k else if k = i then t ! p else t ! (k - 1))"
    using i assms(2) by (auto simp: eq nth_append nth_Cons' min_def)
qed

lemma insert_step_sorted:
  assumes "l \<le> p" and "p < length t" and "sorted_on l p t \<or> l = p \<or> sorted_on l (p - 1) t"
  shows "sorted_on l p (insert_step t l p)" and "range_perm l p t (insert_step t l p)"
proof -
  let ?i = "find_insert t l p"
  note sp = find_insert_spec[OF assms(1), of t]
  have st: "t ! a \<le> t ! b" if "l \<le> a" "a \<le> b" "b < p" for a b
    using assms(3) that by (auto simp: sorted_on_def)
  note nth = insert_step_nth(2)[OF assms(1,2)]
  show "range_perm l p t (insert_step t l p)"
    using sp by (auto simp: range_perm_def insert_step_nth(3)[OF assms(1,2)] nth)
  show "sorted_on l p (insert_step t l p)" unfolding sorted_on_def
  proof (intro allI impI)
    fix a b assume ab: "l \<le> a \<and> a \<le> b \<and> b \<le> p"
    have big: "t ! p \<le> t ! c" if "?i \<le> c" "c < p" for c
      using sp st[of ?i c] that by auto
    have na: "insert_step t l p ! a = (if a < ?i then t ! a else if a = ?i then t ! p else t ! (a - 1))"
      and nb: "insert_step t l p ! b = (if b < ?i then t ! b else if b = ?i then t ! p else t ! (b - 1))"
      using ab assms(2) by (auto simp: nth)
    consider "b < ?i" | "b = ?i" | "?i < b" by linarith
    then show "insert_step t l p ! a \<le> insert_step t l p ! b"
    proof cases
      case 1
      then show ?thesis using ab sp by (auto simp: na nb intro!: st)
    next
      case 2
      then show ?thesis using ab sp unfolding na nb by (auto simp: less_imp_le)
    next
      case 3
      then have b: "l \<le> b - 1" "b - 1 < p" "?i \<le> b - 1" using ab sp by auto
      consider "a < ?i" | "a = ?i" | "?i < a" by linarith
      then show ?thesis
      proof cases
        case 1
        then have "t ! a \<le> t ! (b - 1)" using ab b by (intro st) auto
        with 1 3 show ?thesis by (simp add: na nb)
      next
        case 2
        have "insert_step t l p ! a = t ! p" unfolding na using 2 by simp
        moreover have "insert_step t l p ! b = t ! (b - 1)" unfolding nb using 3 by simp
        ultimately show ?thesis using big[OF b(3,2)] by simp
      next
        case a: 3
        then have "t ! (a - 1) \<le> t ! (b - 1)" using ab b sp by (intro st) auto
        with a 3 show ?thesis by (simp add: na nb)
      qed
    qed
  qed
qed

lemma insertion_loop_ok:
  "l < p \<Longrightarrow> p \<le> Suc r \<Longrightarrow> r < length t \<Longrightarrow> sorted_on l (p - 1) t \<Longrightarrow>
     \<exists>t'. insertion_loop t l p r = Inr t' \<and> range_perm l r t t' \<and> sorted_on l r t'"
proof (induction t l p r rule: insertion_loop.induct)
  case (1 t l p r)
  show ?case
  proof (cases "p \<le> r")
    case True
    then have p: "p < length t" using 1(4) by simp
    note step = insert_step_sorted[of l p t]
    have s: "sorted_on l p (insert_step t l p)" "range_perm l p t (insert_step t l p)"
      using step 1(2,5) p by auto
    have len: "length (insert_step t l p) = length t" using s(2) by (rule range_perm_length)
    have "\<not> length t \<le> p" "l < p + 1" "p + 1 \<le> Suc r" "r < length (insert_step t l p)"
      "sorted_on l (p + 1 - 1) (insert_step t l p)"
      using p 1(2,4) True len s(1) by auto
    with 1(1)[OF True] obtain t' where
      t': "insertion_loop (insert_step t l p) l (p + 1) r = Inr t'"
        "range_perm l r (insert_step t l p) t'" "sorted_on l r t'" by blast
    have "range_perm l r t t'"
      using range_perm_mono[OF s(2) order_refl True] t'(2) by (rule range_perm_trans)
    with t' p True show ?thesis by (subst insertion_loop.simps) auto
  next
    case False
    then have "r = p - 1" using 1(3) by auto
    with False 1(5) show ?thesis by (subst insertion_loop.simps) auto
  qed
qed

lemma InsertionSort_ok:
  assumes "l \<le> r" and "r < length t"
  shows "\<exists>t'. InsertionSort t l r = Inr t' \<and> range_perm l r t t' \<and> sorted_on l r t'"
  unfolding InsertionSort_def
  by (rule insertion_loop_ok) (use assms sorted_on_single in auto)

section \<open>Partition\<close>

lemma scan_left_total: "r \<le> length t \<Longrightarrow> \<exists>l'. scan_left t l r p = Inr l'"
proof (induction t l r p rule: scan_left.induct)
  case (1 t l r p)
  then show ?case by (subst scan_left.simps) auto
qed

lemma scan_right_total: "r < length t \<Longrightarrow> \<exists>r'. scan_right t l r p = Inr r'"
proof (induction t l r p rule: scan_right.induct)
  case (1 t l r p)
  then show ?case by (subst scan_right.simps) auto
qed

lemma partition_loop_ok:
  "l \<le> r \<Longrightarrow> r < length t \<Longrightarrow>
     \<exists>t' s. partition_loop t l r p = Inr (t', s) \<and> range_perm l r t t' \<and> l \<le> s \<and> s \<le> r \<and>
       (\<forall>i. l \<le> i \<and> i < s \<longrightarrow> t' ! i < p) \<and> (\<forall>i. s < i \<and> i \<le> r \<longrightarrow> p \<le> t' ! i) \<and>
       (p \<le> t ! r \<or> s < r \<longrightarrow> p \<le> t' ! s) \<and> (s = l \<longrightarrow> t' = t)"
proof (induction t l r p rule: partition_loop.induct)
  case (1 t l r p)
  show ?case
  proof (cases "l < r")
    case lr: True
    obtain l1 where sl: "scan_left t l r p = Inr l1" using scan_left_total[of r t l p] 1(3) by auto
    obtain r1 where sr: "scan_right t l1 r p = Inr r1" using scan_right_total[of r t l1 p] 1(3) by auto
    note L = scan_left_spec[OF sl 1(2)]
    have R: "l1 \<le> r1 \<and> r1 \<le> r \<and> (\<forall>i. r1 < i \<and> i \<le> r \<longrightarrow> p \<le> t ! i) \<and> (l1 < r1 \<longrightarrow> t ! r1 < p)"
      using scan_right_spec[OF sr] L by blast
    show ?thesis
    proof (cases "l1 < r1")
      case swap: True
      have "l1 < length t" "r1 < length t" using swap R 1(3) by auto
      then obtain t1 where t1: "SwapElem t l1 r1 = Inr t1" "range_perm l1 r1 t t1"
        "t1 ! l1 = t ! r1" "t1 ! r1 = t ! l1"
        using SwapElem_ok[of l1 t r1 l1 r1] swap by auto
      have len: "length t1 = length t" using t1(2) by (rule range_perm_length)
      have "l1 \<le> r1" "r1 < length t1" using swap R 1(3) len by auto
      from 1(1)[OF lr sl sr swap t1(1) this] obtain t' s where
        t': "partition_loop t1 l1 r1 p = Inr (t', s)" "range_perm l1 r1 t1 t'" "l1 \<le> s" "s \<le> r1"
          "\<forall>i. l1 \<le> i \<and> i < s \<longrightarrow> t' ! i < p" "\<forall>i. s < i \<and> i \<le> r1 \<longrightarrow> p \<le> t' ! i"
          "p \<le> t1 ! r1 \<longrightarrow> p \<le> t' ! s" "s = l1 \<longrightarrow> t' = t1" by blast
      have "p \<le> t ! l1" using L R swap by auto
      then have ps: "p \<le> t' ! s" using t'(7) t1(4) by simp
      have "t ! r1 < p" using R swap by blast
      then have "s \<noteq> l1" using ps t'(8) t1(3) by auto
      have rp: "range_perm l1 r1 t t'" using t1(2) t'(2) by (rule range_perm_trans)
      have "range_perm l r t t'" using rp by (rule range_perm_mono) (use L R in auto)
      moreover have "\<forall>i. l \<le> i \<and> i < s \<longrightarrow> t' ! i < p"
      proof (intro allI impI)
        fix i assume i: "l \<le> i \<and> i < s"
        show "t' ! i < p"
        proof (cases "i < l1")
          case True
          then have "t' ! i = t ! i" using range_perm_outside[OF rp, of i] t'(4) R 1(3) i by auto
          then show ?thesis using L True i by auto
        qed (use t'(5) i in auto)
      qed
      moreover have "\<forall>i. s < i \<and> i \<le> r \<longrightarrow> p \<le> t' ! i"
      proof (intro allI impI)
        fix i assume i: "s < i \<and> i \<le> r"
        show "p \<le> t' ! i"
        proof (cases "r1 < i")
          case True
          then have "t' ! i = t ! i" using range_perm_outside[OF rp, of i] 1(3) i by auto
          then show ?thesis using R True i by auto
        qed (use t'(6) i in auto)
      qed
      moreover have "partition_loop t l r p = Inr (t', s)"
        using lr swap by (subst partition_loop.simps) (simp add: sl sr t1(1) t'(1))
      moreover have "l \<le> s" "s \<le> r" "s \<noteq> l" using L R t'(3,4) \<open>s \<noteq> l1\<close> by auto
      ultimately show ?thesis using ps by blast
    next
      case False
      then have "r1 = l1" using R by auto
      moreover have "partition_loop t l r p = Inr (t, l1)"
        using lr False by (subst partition_loop.simps) (simp add: sl sr)
      moreover have "p \<le> t ! r \<or> l1 < r \<longrightarrow> p \<le> t ! l1" using L by (metis le_neq_implies_less)
      ultimately show ?thesis using L R by (intro exI[of _ t] exI[of _ l1]) auto
    qed
  next
    case False
    then have "l = r" using 1(2) by simp
    moreover from False have "partition_loop t l r p = Inr (t, l)" by (subst partition_loop.simps) simp
    ultimately show ?thesis by (intro exI[of _ t] exI[of _ l]) auto
  qed
qed

text \<open>With a pivot taken from the range, everything from the split on is at least the pivot.\<close>

lemma Partition_ok:
  assumes "l \<le> k" and "k \<le> r" and "r < length t"
  shows "\<exists>t' s. Partition t l r (t ! k) = Inr (t', s) \<and> range_perm l r t t' \<and> l \<le> s \<and> s \<le> r \<and>
           (\<forall>i. l \<le> i \<and> i < s \<longrightarrow> t' ! i < t ! k) \<and> (\<forall>i. s \<le> i \<and> i \<le> r \<longrightarrow> t ! k \<le> t' ! i) \<and>
           (s = l \<longrightarrow> t' = t)"
proof -
  have "l \<le> r" using assms by simp
  from partition_loop_ok[OF this assms(3), of "t ! k"] obtain t' s where
    t': "Partition t l r (t ! k) = Inr (t', s)" "range_perm l r t t'" "l \<le> s" "s \<le> r"
      "\<forall>i. l \<le> i \<and> i < s \<longrightarrow> t' ! i < t ! k" "\<forall>i. s < i \<and> i \<le> r \<longrightarrow> t ! k \<le> t' ! i"
      "t ! k \<le> t ! r \<or> s < r \<longrightarrow> t ! k \<le> t' ! s" "s = l \<longrightarrow> t' = t"
    unfolding Partition_def by blast
  have "t ! k \<le> t' ! s"
  proof (rule ccontr)
    assume c: "\<not> t ! k \<le> t' ! s"
    then have s: "s = r" using t'(4,7) by auto
    then have all: "\<forall>i. l \<le> i \<and> i \<le> r \<longrightarrow> t' ! i < t ! k" using t'(5) c by (metis le_neq_implies_less not_le)
    have "range_perm l r t' t"
      using t'(2) range_perm_length[OF t'(2)] by (auto simp: range_perm_def)
    from range_perm_ball[OF this, of "\<lambda>x. x < t ! k"] all have "\<forall>i. l \<le> i \<and> i \<le> r \<longrightarrow> t ! i < t ! k"
      using assms(3) range_perm_length[OF t'(2)] by simp
    then show False using assms(1,2) by auto
  qed
  then have "\<forall>i. s \<le> i \<and> i \<le> r \<longrightarrow> t ! k \<le> t' ! i" using t'(6) by (metis le_neq_implies_less)
  with t' show ?thesis by blast
qed

section \<open>QuickSort with processes\<close>

record sort_env =
  rnd :: "nat \<Rightarrow> nat"
  fork_ret :: "nat \<Rightarrow> int"

text \<open>The shared table, the calls of \<open>random\<close> of this process, the \<open>fork\<close>s of all of them, and
  the children this process has not waited for.\<close>

record sort_state =
  tbl :: table
  nrand :: nat
  nfork :: nat
  nchild :: nat

abbreviation INSERTSORT_MAX :: nat where "INSERTSORT_MAX \<equiv> 32"
abbreviation FORKSORT_MIN :: nat where "FORKSORT_MIN \<equiv> 2 ^ 18"

text \<open>
  \<open>if (pid_x != -1) Waitpid(pid, NULL, 0)\<close>: the \<open>pid\<close> in scope is still \<open>- 1\<close> (the inner
  declaration shadows it), so any child is waited for; with no child \<open>Waitpid\<close> ends the
  process.
\<close>

definition wait_child :: "int \<Rightarrow> sort_state \<Rightarrow> sort_state run" where
  "wait_child pid_x s =
     (if pid_x \<noteq> - 1
      then if nchild s = 0 then Inl App_error else Inr (s\<lparr>nchild := nchild s - 1\<rparr>)
      else Inr s)"

text \<open>
  The parent of a successful \<open>fork\<close> goes on with the table its child leaves. The child must
  end with \<open>exit\<close> and have waited for its own children; other endings are \<open>Unmodelled\<close>.
\<close>

function QuickSort :: "sort_env \<Rightarrow> sort_state \<Rightarrow> nat \<Rightarrow> nat \<Rightarrow> (sort_state \<times> int) run" where
  "QuickSort e s left right =
     (let do_fork = FORKSORT_MIN < size_sub right left;
          pid = fork_ret e (nfork s) in
      if do_fork \<and> pid = - 1 then Inr (s\<lparr>nfork := nfork s + 1\<rparr>, pid)
      else
        let s0 = (if do_fork then s\<lparr>nfork := nfork s + 1, nchild := 0\<rparr> else s) in
        bind_run
          (if left < right then
             if size_sub right left \<le> INSERTSORT_MAX
             then bind_run (InsertionSort (tbl s0) left right) (\<lambda>t. Inr (s0\<lparr>tbl := t\<rparr>, False))
             else
               let pivot = left + rnd e (nrand s0) mod (size_sub right left + 1);
                   s1 = s0\<lparr>nrand := nrand s0 + 1\<rparr> in
               if length (tbl s1) \<le> pivot then Inl Out_of_bounds
               else
                 bind_run (Partition (tbl s1) left right (tbl s1 ! pivot)) (\<lambda>(t, split).
                 bind_run
                   (if left = split
                    then bind_run (SwapElem t left pivot) (\<lambda>t'. Inr (s1\<lparr>tbl := t'\<rparr>, split + 1, - 1))
                    else bind_run (QuickSort e (s1\<lparr>tbl := t\<rparr>) left (split - 1))
                           (\<lambda>(s2, pid_left). Inr (s2, split, pid_left)))
                   (\<lambda>(s2, split, pid_left).
                 bind_run (QuickSort e s2 split right) (\<lambda>(s3, pid_right).
                 bind_run (wait_child pid_left s3) (\<lambda>s4.
                 bind_run (wait_child pid_right s4) (\<lambda>s5. Inr (s5, do_fork))))))
           else Inr (s0, False))
          (\<lambda>(s', exited).
             if do_fork
             then if exited \<and> nchild s' = 0
                  then Inr (s\<lparr>tbl := tbl s', nfork := nfork s', nchild := nchild s + 1\<rparr>, pid)
                  else Inl Unmodelled
             else Inr (s', - 1)))"
  by pat_completeness auto
termination
proof (relation "measure (\<lambda>(e, s, left, right). right - left)", goal_cases)
  case (2 e s left right do_fork pid s0 pivot s1 tsplit t split)
  then have "Partition (tbl s1) left right (tbl s1 ! pivot) = Inr (t, split)" by simp
  from partition_loop_bounds[OF this[unfolded Partition_def]] 2 show ?case by auto
next
  case (3 e s left right do_fork pid s0 pivot s1 tsplit t split x s2 rest split' pid_left)
  then have "Partition (tbl s1) left right (tbl s1 ! pivot) = Inr (t, split)" by simp
  from partition_loop_bounds[OF this[unfolded Partition_def]] 3 show ?case
    by (auto simp: bind_run_Inr_iff split: if_splits)
qed simp

declare QuickSort.simps [simp del]

section \<open>Correctness of the sort\<close>

definition forks_ok :: "sort_env \<Rightarrow> bool" where
  "forks_ok e \<longleftrightarrow> (\<forall>k. 0 < fork_ret e k)"

definition qs_post :: "nat \<Rightarrow> nat \<Rightarrow> sort_state \<Rightarrow> sort_state \<Rightarrow> int \<Rightarrow> bool" where
  "qs_post l r s s' pid \<longleftrightarrow> range_perm l r (tbl s) (tbl s') \<and> sorted_on l r (tbl s') \<and>
     nchild s' = nchild s + (if pid \<noteq> - 1 then 1 else 0) \<and>
     (if FORKSORT_MIN < r - l then 0 < pid else pid = - 1)"

lemma sorted_join:
  assumes "l < m" and "sorted_on l (m - 1) t" and "sorted_on m r t"
    and "\<forall>i. l \<le> i \<and> i < m \<longrightarrow> t ! i \<le> p" and "\<forall>i. m \<le> i \<and> i \<le> r \<longrightarrow> p \<le> t ! i"
  shows "sorted_on l r t"
  unfolding sorted_on_def
proof (intro allI impI)
  fix i j assume ij: "l \<le> i \<and> i \<le> j \<and> j \<le> r"
  consider "j < m" | "i < m" "m \<le> j" | "m \<le> i" by linarith
  then show "t ! i \<le> t ! j"
  proof cases
    case 1
    then have "j \<le> m - 1" by simp
    with assms(2) ij show ?thesis by (auto simp: sorted_on_def)
  next
    case 2
    then have "t ! i \<le> p" "p \<le> t ! j" using assms(4,5) ij by auto
    then show ?thesis by simp
  next
    case 3
    with assms(3) ij show ?thesis by (auto simp: sorted_on_def)
  qed
qed

lemma wait_both:
  assumes "nchild s = n + (if a \<noteq> - 1 then 1 else 0) + (if b \<noteq> - 1 then 1 else 0)"
  obtains s' where "tbl s' = tbl s" "nchild s' = n"
    "\<And>f. bind_run (wait_child a s) (\<lambda>s4. bind_run (wait_child b s4) f) = f s'"
  using assms that[of "s\<lparr>nchild := n\<rparr>"]
  by (cases "a = - 1"; cases "b = - 1") (simp_all add: wait_child_def)

lemma QuickSort_post:
  assumes e: "forks_ok e"
  shows "l \<le> r \<Longrightarrow> r < length (tbl s) \<Longrightarrow> \<exists>s' pid. QuickSort e s l r = Inr (s', pid) \<and> qs_post l r s s' pid"
proof (induction "r - l" arbitrary: l r s rule: less_induct)
  case less
  let ?df = "FORKSORT_MIN < r - l" and ?pid = "fork_ret e (nfork s)"
  let ?s0 = "if ?df then s\<lparr>nfork := nfork s + 1, nchild := 0\<rparr> else s"
  have pid: "0 < ?pid" "?pid \<noteq> - 1" using e by (auto simp: forks_ok_def) (metis less_minus_one_simps(1) not_less_iff_gr_or_eq)
  have sub: "size_sub r l = r - l" using less.prems(1) by simp
  note unf = QuickSort.simps[of e s l r, unfolded sub Let_def]
  consider "l = r" | "l < r" "r - l \<le> INSERTSORT_MAX" | "l < r" "\<not> r - l \<le> INSERTSORT_MAX"
    using less.prems(1) by linarith
  then show ?case
  proof cases
    case 1
    have "QuickSort e s l r = Inr (s, - 1)" unfolding unf using 1 by simp
    with 1 show ?thesis by (simp add: qs_post_def sorted_on_single)
  next
    case 2
    from InsertionSort_ok[OF less.prems] obtain t where
      "InsertionSort (tbl s) l r = Inr t" "range_perm l r (tbl s) t" "sorted_on l r t" by blast
    moreover from this have "QuickSort e s l r = Inr (s\<lparr>tbl := t\<rparr>, - 1)" unfolding unf using 2 by simp
    ultimately show ?thesis using 2 by (simp add: qs_post_def)
  next
    case 3
    let ?k = "l + rnd e (nrand ?s0) mod (r - l + 1)" and ?s1 = "?s0\<lparr>nrand := nrand ?s0 + 1\<rparr>"
    have t0: "tbl ?s1 = tbl s" "tbl ?s0 = tbl s" by simp_all
    have "rnd e (nrand ?s0) mod (r - l + 1) < r - l + 1" by simp
    then have k: "l \<le> ?k" "?k \<le> r" using 3 by linarith+
    then have kl: "?k < length (tbl s)" using less.prems(2) by linarith
    define p where "p = tbl s ! ?k"
    from Partition_ok[OF k less.prems(2), folded p_def] obtain t sp where
      part: "Partition (tbl s) l r p = Inr (t, sp)" and rp: "range_perm l r (tbl s) t"
      and sp: "l \<le> sp" "sp \<le> r" and lo: "\<forall>i. l \<le> i \<and> i < sp \<longrightarrow> t ! i < p"
      and hi: "\<forall>i. sp \<le> i \<and> i \<le> r \<longrightarrow> p \<le> t ! i" and same: "sp = l \<longrightarrow> t = tbl s"
      by blast
    have len: "length t = length (tbl s)" using rp by (rule range_perm_length)
    define L where "L = (if l = sp
        then bind_run (SwapElem t l ?k) (\<lambda>t'. Inr (?s1\<lparr>tbl := t'\<rparr>, sp + 1, - 1))
        else bind_run (QuickSort e (?s1\<lparr>tbl := t\<rparr>) l (sp - 1)) (\<lambda>(s2, pid_left). Inr (s2, sp, pid_left)))"
    have "\<exists>s2 m a s3 b. L = Inr (s2, m, a) \<and> QuickSort e s2 m r = Inr (s3, b) \<and>
        range_perm l r (tbl s) (tbl s3) \<and> sorted_on l r (tbl s3) \<and>
        nchild s3 = nchild ?s0 + (if a \<noteq> - 1 then 1 else 0) + (if b \<noteq> - 1 then 1 else 0)"
    proof (cases "l = sp")
      case True
      have "l < length t" "?k < length t" using kl less.prems len by auto
      from SwapElem_ok[OF this order_refl k(1) less.prems(1) k(2)] obtain t' where
        sw: "SwapElem t l ?k = Inr t'" "range_perm l r t t'" "t' ! l = t ! ?k" by blast
      have len': "length t' = length t" using sw(2) by (rule range_perm_length)
      let ?s2 = "?s1\<lparr>tbl := t'\<rparr>"
      have "r - (l + 1) < r - l" "l + 1 \<le> r" "r < length (tbl ?s2)"
        using 3 less.prems(2) len len' by auto
      from less.hyps[OF this] obtain s3 b where
        q: "QuickSort e ?s2 (l + 1) r = Inr (s3, b)" "qs_post (l + 1) r ?s2 s3 b" by blast
      have r3: "range_perm (l + 1) r t' (tbl s3)" "sorted_on (l + 1) r (tbl s3)"
        using q(2) by (auto simp: qs_post_def)
      have "range_perm l r (tbl s) (tbl s3)"
        using range_perm_trans[OF range_perm_trans[OF rp sw(2)] range_perm_mono[OF r3(1)]] by simp
      moreover have "\<forall>i. l \<le> i \<and> i \<le> r \<longrightarrow> p \<le> t ! i" using hi True by auto
      then have "\<forall>i. l \<le> i \<and> i \<le> r \<longrightarrow> p \<le> t' ! i"
        using range_perm_ball[OF sw(2), of "\<lambda>x. p \<le> x"] less.prems(2) len by simp
      then have "\<forall>i. l + 1 \<le> i \<and> i \<le> r \<longrightarrow> p \<le> tbl s3 ! i"
        using range_perm_ball[OF r3(1), of "\<lambda>x. p \<le> x"] less.prems(2) len len' by simp
      moreover have pl: "tbl s3 ! l = p"
        using range_perm_outside[OF r3(1), of l] sw(3) same True \<open>l < length t\<close> len' by (simp add: p_def)
      moreover
      have "\<forall>i. l \<le> i \<and> i < l + 1 \<longrightarrow> tbl s3 ! i \<le> p"
      proof (intro allI impI)
        fix i assume "l \<le> i \<and> i < l + 1"
        then have "i = l" by linarith
        with pl show "tbl s3 ! i \<le> p" by (simp only: order_refl)
      qed
      ultimately have "sorted_on l r (tbl s3)"
      proof (intro sorted_join[of l "l + 1" "tbl s3" r p])
        show "sorted_on l (l + 1 - 1) (tbl s3)" by (simp add: sorted_on_single)
        show "sorted_on (l + 1) r (tbl s3)" by (rule r3(2))
      qed (rule less_add_one)
      moreover have "nchild s3 = nchild ?s0 + (if b \<noteq> - 1 then 1 else 0)"
        using q(2) by (simp add: qs_post_def)
      ultimately show ?thesis using q(1) sw(1) True \<open>range_perm l r (tbl s) (tbl s3)\<close>
        by (intro exI[of _ ?s2] exI[of _ "l + 1"] exI[of _ "- 1"] exI[of _ s3] exI[of _ b]) (simp add: L_def)
    next
      case False
      let ?s2 = "?s1\<lparr>tbl := t\<rparr>"
      have lsp: "l < sp" using False sp by simp
      have "sp - 1 - l < r - l" "l \<le> sp - 1" "sp - 1 < length (tbl ?s2)"
        using sp lsp less.prems(2) len by auto
      from less.hyps[OF this] obtain s2 a where
        q: "QuickSort e ?s2 l (sp - 1) = Inr (s2, a)" "qs_post l (sp - 1) ?s2 s2 a" by blast
      have r2: "range_perm l (sp - 1) t (tbl s2)" "sorted_on l (sp - 1) (tbl s2)"
        using q(2) by (auto simp: qs_post_def)
      have len2: "length (tbl s2) = length t" using r2(1) by (rule range_perm_length)
      have "r - sp < r - l" "sp \<le> r" "r < length (tbl s2)"
        using sp lsp less.prems(2) len len2 by auto
      from less.hyps[OF this] obtain s3 b where
        q': "QuickSort e s2 sp r = Inr (s3, b)" "qs_post sp r s2 s3 b" by blast
      have r3: "range_perm sp r (tbl s2) (tbl s3)" "sorted_on sp r (tbl s3)"
        using q'(2) by (auto simp: qs_post_def)
      have rps: "range_perm l r (tbl s) (tbl s3)"
        using range_perm_trans[OF range_perm_trans[OF rp range_perm_mono[OF r2(1)]] range_perm_mono[OF r3(1)]]
          sp lsp by simp
      have lo2: "\<forall>i. l \<le> i \<and> i \<le> sp - 1 \<longrightarrow> tbl s2 ! i < p"
      proof (rule range_perm_ball[OF r2(1)])
        show "sp - 1 < length t" using lsp sp less.prems(2) len by linarith
        have "i < sp" if "i \<le> sp - 1" for i using that lsp by linarith
        with lo show "\<forall>i. l \<le> i \<and> i \<le> sp - 1 \<longrightarrow> t ! i < p" by blast
      qed
      have lo3: "tbl s3 ! i = tbl s2 ! i" if "i < sp" for i
        using range_perm_outside[OF r3(1), of i] that sp less.prems(2) len len2 by simp
      have hi2: "\<forall>i. sp \<le> i \<and> i \<le> r \<longrightarrow> p \<le> tbl s2 ! i"
      proof (intro allI impI)
        fix i assume i: "sp \<le> i \<and> i \<le> r"
        then have "tbl s2 ! i = t ! i"
          using range_perm_outside[OF r2(1), of i] lsp less.prems(2) len by auto
        with hi i show "p \<le> tbl s2 ! i" by simp
      qed
      then have hi3: "\<forall>i. sp \<le> i \<and> i \<le> r \<longrightarrow> p \<le> tbl s3 ! i"
        using range_perm_ball[OF r3(1), of "\<lambda>x. p \<le> x"] less.prems(2) len len2 by simp
      have lo4: "\<forall>i. l \<le> i \<and> i < sp \<longrightarrow> tbl s3 ! i \<le> p"
      proof (intro allI impI)
        fix i assume i: "l \<le> i \<and> i < sp"
        then have "i \<le> sp - 1" by linarith
        then have "tbl s2 ! i < p" using lo2 i by blast
        with lo3[of i] i show "tbl s3 ! i \<le> p" by simp
      qed
      have so: "sorted_on l (sp - 1) (tbl s3)"
        unfolding sorted_on_def
      proof (intro allI impI)
        fix i j assume ij: "l \<le> i \<and> i \<le> j \<and> j \<le> sp - 1"
        then have "i < sp" "j < sp" using lsp by linarith+
        then have "tbl s3 ! i = tbl s2 ! i" "tbl s3 ! j = tbl s2 ! j" by (blast intro: lo3)+
        moreover have "tbl s2 ! i \<le> tbl s2 ! j" using r2(2) ij unfolding sorted_on_def by blast
        ultimately show "tbl s3 ! i \<le> tbl s3 ! j" by (simp only:)
      qed
      have "sorted_on l r (tbl s3)" by (rule sorted_join[OF lsp so r3(2) lo4 hi3])
      moreover have "nchild s3 = nchild ?s0 + (if a \<noteq> - 1 then 1 else 0) + (if b \<noteq> - 1 then 1 else 0)"
        using q(2) q'(2) by (simp add: qs_post_def)
      moreover have "L = Inr (s2, sp, a)" using q(1) False by (simp add: L_def)
      ultimately show ?thesis using q'(1) rps by blast
    qed
    then obtain s2 m a s3 b where L: "L = Inr (s2, m, a)" and q: "QuickSort e s2 m r = Inr (s3, b)"
      and fin: "range_perm l r (tbl s) (tbl s3)" "sorted_on l r (tbl s3)"
      and nc: "nchild s3 = nchild ?s0 + (if a \<noteq> - 1 then 1 else 0) + (if b \<noteq> - 1 then 1 else 0)" by blast
    obtain s5 where s5: "tbl s5 = tbl s3" "nchild s5 = nchild ?s0"
      "\<And>f. bind_run (wait_child a s3) (\<lambda>s4. bind_run (wait_child b s4) f) = (f s5 :: (sort_state \<times> bool) run)"
      using wait_both[OF nc] by blast
    show ?thesis
    proof (cases ?df)
      case True
      have "QuickSort e s l r =
          Inr (s\<lparr>tbl := tbl s5, nfork := nfork s5, nchild := nchild s + 1\<rparr>, ?pid)"
        using True 3 pid kl L q s5(2,3) part[unfolded p_def] unfolding unf t0 L_def[symmetric] by (simp add: L_def[symmetric])
      with True fin s5(1) pid show ?thesis by (simp add: qs_post_def)
    next
      case False
      have "QuickSort e s l r = Inr (s5, - 1)"
        using False 3 kl L q s5(2,3) part[unfolded p_def] unfolding unf t0 L_def[symmetric] by (simp add: L_def[symmetric])
      with False fin s5(1,2) show ?thesis by (simp add: qs_post_def)
    qed
  qed
qed

section \<open>The main program\<close>

record main_env = sort_env +
  getpagesize :: nat

abbreviation NELEMS :: nat where "NELEMS \<equiv> 2 ^ 26"
abbreviation LONG_MIN :: int where "LONG_MIN \<equiv> - (2 ^ 63)"

fun verify_sorted :: "int \<Rightarrow> table \<Rightarrow> unit run" where
  "verify_sorted prev [] = Inr ()"
| "verify_sorted prev (x # xs) = (if \<not> prev \<le> x then Inl Assert_fails else verify_sorted x xs)"

definition forksort_main :: "main_env \<Rightarrow> unit run" where
  "forksort_main e =
     (let size = NELEMS * 8 in
      if size AND (getpagesize e - 1) \<noteq> 0 then Inl Assert_fails
      else
        let table = map (\<lambda>i. int (rnd e i)) [0..<NELEMS];
            s = \<lparr>tbl = table, nrand = NELEMS, nfork = 0, nchild = 0\<rparr> in
        bind_run (QuickSort (sort_env.truncate e) s 0 (NELEMS - 1)) (\<lambda>(s1, pid).
        bind_run (if 0 < pid then wait_child pid s1 else Inr s1) (\<lambda>s2.
          verify_sorted LONG_MIN (tbl s2))))"

text \<open>What the range holds after a sort, in terms of the library's \<open>sort\<close>.\<close>

definition sort_range :: "nat \<Rightarrow> nat \<Rightarrow> table \<Rightarrow> table" where
  "sort_range l r t = take l t @ sort (take (Suc r - l) (drop l t)) @ drop (Suc r) t"

lemma range_perm_slice:
  assumes p: "range_perm l r t t'" and l: "l \<le> Suc r"
  shows "take l t' = take l t" and "drop (Suc r) t' = drop (Suc r) t"
    and "mset (take (Suc r - l) (drop l t')) = mset (take (Suc r - l) (drop l t))"
proof -
  note len = range_perm_length[OF p]
  show 1: "take l t' = take l t" and 2: "drop (Suc r) t' = drop (Suc r) t"
    using p len l by (auto intro!: nth_equalityI simp: range_perm_def)
  have s: "mset u = mset (take l u) + mset (take (Suc r - l) (drop l u)) + mset (drop (Suc r) u)" for u :: table
    using arg_cong[OF slice_split[of l r u], of mset] l by (simp add: add.assoc)
  have "mset t' = mset t" using p by (simp add: range_perm_def)
  then show "mset (take (Suc r - l) (drop l t')) = mset (take (Suc r - l) (drop l t))"
    unfolding s[of t'] s[of t] 1 2 by simp
qed

lemma sorted_slice:
  assumes "sorted_on l r t" and "r < length t"
  shows "sorted (take (Suc r - l) (drop l t))"
  unfolding sorted_iff_nth_mono using assms by (auto simp: sorted_on_def)

lemma sort_range_unique:
  assumes "range_perm l r t t'" and "sorted_on l r t'" and "l \<le> r" and "r < length t"
  shows "t' = sort_range l r t"
proof -
  have l: "l \<le> Suc r" using assms(3) by simp
  note sl = range_perm_slice[OF assms(1) l]
  have "sorted (take (Suc r - l) (drop l t'))"
    using sorted_slice[OF assms(2)] assms(4) range_perm_length[OF assms(1)] by simp
  with sl(3) have "take (Suc r - l) (drop l t') = sort (take (Suc r - l) (drop l t))"
    by (rule properties_for_sort[symmetric])
  then show ?thesis using slice_split[OF l, of t'] unfolding sort_range_def sl(1,2) by simp
qed

lemma sort_range_append:
  "ys \<noteq> [] \<Longrightarrow> length xs = l \<Longrightarrow> Suc r = l + length ys \<Longrightarrow> sort_range l r (xs @ ys @ zs) = xs @ sort ys @ zs"
  by (simp add: sort_range_def)

lemma sort_range_commute:
  assumes "l \<le> r" and "r < l'" and "l' \<le> r'" and "r' < length t"
  shows "sort_range l r (sort_range l' r' t) = sort_range l' r' (sort_range l r t)"
proof -
  define a b m d f where "a = take l t" and "b = take (Suc r - l) (drop l t)"
    and "m = take (l' - Suc r) (drop (Suc r) t)" and "d = take (Suc r' - l') (drop l' t)"
    and "f = drop (Suc r') t"
  have t: "t = a @ b @ m @ d @ f"
  proof -
    have "m @ drop l' t = drop (Suc r) t"
      using assms(2) unfolding m_def by (metis append_take_drop_id drop_drop le_add_diff_inverse2 Suc_leI)
    moreover have "d @ f = drop l' t"
      using assms(3) unfolding d_def f_def by (metis append_take_drop_id drop_drop le_add_diff_inverse2 le_SucI)
    moreover have "a @ b @ drop (Suc r) t = t"
      using slice_split[of l r t] assms(1) by (simp add: a_def b_def)
    ultimately show ?thesis by simp
  qed
  have len: "length a = l" "length b = Suc r - l" "length m = l' - Suc r" "length d = Suc r' - l'"
    using assms by (auto simp: a_def b_def m_def d_def)
  then have ne: "b \<noteq> []" "d \<noteq> []" using assms by auto
  have 1: "sort_range l' r' (a @ b' @ m @ d @ f) = a @ b' @ m @ sort d @ f" if "length b' = length b" for b'
    using sort_range_append[of d "a @ b' @ m" l' r' f] len ne that assms by simp
  have 2: "sort_range l r (a @ b @ m @ d' @ f) = a @ sort b @ m @ d' @ f" for d'
    using sort_range_append[of b a l r "m @ d' @ f"] len ne assms by simp
  show ?thesis unfolding t by (simp only: 1[OF refl] 1[of "sort b"] 2 length_sort)
qed

lemma verify_sorted_ok: "sorted (prev # xs) \<Longrightarrow> verify_sorted prev xs = Inr ()"
  by (induction xs arbitrary: prev) auto

lemma verify_unsorted: "y < x \<Longrightarrow> verify_sorted prev (x # y # xs) = Inl Assert_fails"
  by simp

section \<open>Properties\<close>

text \<open>C2: when every \<open>fork\<close> succeeds, \<open>QuickSort\<close> of a range inside the table returns, for
  every outcome of \<open>random\<close> and every number of processes, with exactly that range sorted
  and nothing else changed; it returns a process id exactly when it delegated the range to a
  child, and that child is the only one the caller has still to wait for.\<close>

theorem quicksort_sorts:
  assumes "forks_ok e" and "l \<le> r" and "r < length (tbl s)"
  shows "\<exists>s' pid. QuickSort e s l r = Inr (s', pid) \<and> tbl s' = sort_range l r (tbl s) \<and>
           (if FORKSORT_MIN < r - l then 0 < pid \<and> nchild s' = nchild s + 1
            else pid = - 1 \<and> nchild s' = nchild s)"
proof -
  from QuickSort_post[OF assms] obtain s' pid where
    q: "QuickSort e s l r = Inr (s', pid)" "qs_post l r s s' pid" by blast
  then have "tbl s' = sort_range l r (tbl s)"
    using sort_range_unique[of l r "tbl s" "tbl s'"] assms by (simp add: qs_post_def)
  with q show ?thesis by (auto simp: qs_post_def split: if_splits)
qed

definition demo_sort_env :: sort_env where
  "demo_sort_env = \<lparr>rnd = (\<lambda>k. 7 * k + 3), fork_ret = (\<lambda>k. int k + 100)\<rparr>"

lemma demo_forks: "forks_ok demo_sort_env"
  by (simp add: forks_ok_def demo_sort_env_def)

theorem quicksort_sorts_witness:
  "\<exists>s' pid. QuickSort demo_sort_env \<lparr>tbl = [5, 3, 9, 1, 4], nrand = 0, nfork = 0, nchild = 0\<rparr> 1 3 = Inr (s', pid) \<and>
     tbl s' = [5, 1, 3, 9, 4]"
  using quicksort_sorts[OF demo_forks, of 1 3 "\<lparr>tbl = [5, 3, 9, 1, 4], nrand = 0, nfork = 0, nchild = 0\<rparr>"]
  by (auto simp: sort_range_def)

text \<open>Two sorts of disjoint ranges give the same table in either order, whatever the
  states of their random generators: a child and the code its parent runs beside it cannot
  disturb each other.\<close>

theorem quicksort_commute:
  assumes "forks_ok e" and "l \<le> r" and "r < l'" and "l' \<le> r'" and "r' < length (tbl s)"
  shows "\<exists>a p b q a' p' b' q'. QuickSort e s l r = Inr (a, p) \<and> QuickSort e (x\<lparr>tbl := tbl a\<rparr>) l' r' = Inr (b, q) \<and>
           QuickSort e s l' r' = Inr (a', p') \<and> QuickSort e (y\<lparr>tbl := tbl a'\<rparr>) l r = Inr (b', q') \<and>
           tbl b = tbl b'"
proof -
  have qs: "\<exists>s' pid. QuickSort e u i j = Inr (s', pid) \<and> tbl s' = sort_range i j (tbl u) \<and>
      length (tbl s') = length (tbl u)"
    if "i \<le> j" "j < length (tbl u)" for u i j
    using QuickSort_post[OF assms(1) that] sort_range_unique[of i j "tbl u"] that range_perm_length[of i j "tbl u"]
    unfolding qs_post_def by blast
  obtain a p where a: "QuickSort e s l r = Inr (a, p)" "tbl a = sort_range l r (tbl s)"
    "length (tbl a) = length (tbl s)" using qs[of l r s] assms by auto
  obtain a' p' where a': "QuickSort e s l' r' = Inr (a', p')" "tbl a' = sort_range l' r' (tbl s)"
    "length (tbl a') = length (tbl s)" using qs[of l' r' s] assms by auto
  obtain b q where b: "QuickSort e (x\<lparr>tbl := tbl a\<rparr>) l' r' = Inr (b, q)" "tbl b = sort_range l' r' (tbl a)"
    using qs[of l' r' "x\<lparr>tbl := tbl a\<rparr>"] assms a(3) by auto
  obtain b' q' where b': "QuickSort e (y\<lparr>tbl := tbl a'\<rparr>) l r = Inr (b', q')" "tbl b' = sort_range l r (tbl a')"
    using qs[of l r "y\<lparr>tbl := tbl a'\<rparr>"] assms a'(3) by auto
  have "tbl b = tbl b'" unfolding b(2) b'(2) a(2) a'(2) using sort_range_commute[OF assms(2-5)] by simp
  with a(1) a'(1) b(1) b'(1) show ?thesis by blast
qed

theorem quicksort_commute_witness:
  "\<exists>a p b q. QuickSort demo_sort_env \<lparr>tbl = [2, 1, 4, 3], nrand = 0, nfork = 0, nchild = 0\<rparr> 0 1 = Inr (a, p) \<and>
     QuickSort demo_sort_env \<lparr>tbl = tbl a, nrand = 5, nfork = 0, nchild = 0\<rparr> 2 3 = Inr (b, q)"
  using quicksort_commute[OF demo_forks, of 0 1 2 3 "\<lparr>tbl = [2, 1, 4, 3], nrand = 0, nfork = 0, nchild = 0\<rparr>"
      "\<lparr>tbl = [], nrand = 5, nfork = 0, nchild = 0\<rparr>" "\<lparr>tbl = [], nrand = 5, nfork = 0, nchild = 0\<rparr>"] by auto

lemma truncate_forks:
  "forks_ok (sort_env.truncate e) \<longleftrightarrow> (\<forall>k. 0 < fork_ret e k)"
  by (simp add: forks_ok_def sort_env.truncate_def)

lemma page_assert: "k \<le> 29 \<Longrightarrow> (NELEMS * 8) AND (2 ^ k - 1) = (0 :: nat)"
proof -
  assume k: "k \<le> 29"
  have n: "NELEMS * 8 = (2 :: nat) ^ 29" by simp
  have "(2 :: nat) ^ k dvd 2 ^ 29" using k by (rule le_imp_power_dvd)
  then have "(2 :: nat) ^ 29 mod 2 ^ k = 0" by (simp only: dvd_eq_mod_eq_0)
  then have "(2 :: nat) ^ 29 AND mask k = 0" by (simp only: take_bit_eq_mask[symmetric] take_bit_eq_mod)
  then show ?thesis unfolding n mask_eq_exp_minus_1 .
qed

text \<open>With a page size that is a power of two of at most 512 MiB and when no \<open>fork\<close> fails,
  the program ends without a failed assertion, whatever numbers it is filled with.\<close>

theorem forksort_main_ok:
  assumes "\<forall>k. 0 < fork_ret e k" and "getpagesize e = 2 ^ k" and "k \<le> 29"
  shows "forksort_main e = Inr ()"
proof -
  define t where "t = map (\<lambda>i. int (rnd e i)) [0..<NELEMS]"
  let ?s = "\<lparr>tbl = t, nrand = NELEMS, nfork = 0, nchild = 0\<rparr>" and ?e = "sort_env.truncate e"
  have len: "length t = NELEMS" by (simp add: t_def)
  have e: "forks_ok ?e" using assms(1) by (simp add: truncate_forks)
  have "(0 :: nat) \<le> NELEMS - 1" and "NELEMS - 1 < length (tbl ?s)" by (simp_all add: len)
  from QuickSort_post[OF e this] obtain s1 pid where
    q: "QuickSort ?e ?s 0 (NELEMS - 1) = Inr (s1, pid)" and post: "qs_post 0 (NELEMS - 1) ?s s1 pid" by blast
  have pid: "0 < pid" "nchild s1 = 1" using post by (auto simp: qs_post_def split: if_splits)
  have so: "sorted_on 0 (NELEMS - 1) (tbl s1)" and ms: "mset (tbl s1) = mset t"
    using post by (simp_all add: qs_post_def range_perm_def)
  have "length (tbl s1) = length t" using ms by (metis size_mset)
  with ms len have rp: "mset (tbl s1) = mset t" "length (tbl s1) = NELEMS" by simp_all
  have "sorted (tbl s1)"
    unfolding sorted_iff_nth_mono using so rp(2) by (auto simp: sorted_on_def)
  moreover have "\<forall>x\<in>set t. 0 \<le> x" by (auto simp: t_def)
  then have "\<forall>x\<in>set (tbl s1). LONG_MIN \<le> x" using rp(1) by (metis mset_eq_setD order_trans zero_le_numeral neg_le_0_iff_le zero_le_power)
  ultimately have v: "verify_sorted LONG_MIN (tbl s1) = Inr ()" by (intro verify_sorted_ok) simp
  have "wait_child pid s1 = Inr (s1\<lparr>nchild := 0\<rparr>)" using pid by (simp add: wait_child_def)
  then show ?thesis
    using q pid(1) v page_assert[OF assms(3)] assms(2)
    unfolding forksort_main_def Let_def t_def[symmetric] by simp
qed

definition demo_main_env :: "(nat \<Rightarrow> int) \<Rightarrow> main_env" where
  "demo_main_env f = \<lparr>rnd = (\<lambda>k. 100 - k), fork_ret = f, getpagesize = 2 ^ 12\<rparr>"

theorem forksort_main_ok_witness: "forksort_main (demo_main_env (\<lambda>k. int k + 1)) = Inr ()"
  by (rule forksort_main_ok[of _ 12]) (simp_all add: demo_main_env_def)

lemma quicksort_fork_fails:
  "FORKSORT_MIN < size_sub r l \<Longrightarrow> fork_ret e (nfork s) = - 1 \<Longrightarrow>
     QuickSort e s l r = Inr (s\<lparr>nfork := nfork s + 1\<rparr>, - 1)"
  by (subst QuickSort.simps) simp

text \<open>A failing \<open>fork\<close> is not handled: \<open>QuickSort\<close> then returns without sorting the range,
  so when the first \<open>fork\<close> of the program fails and the table starts with a larger number
  before a smaller one, the final assertion fires.\<close>

theorem fork_failure:
  assumes "fork_ret e 0 = - 1" and "rnd e 1 < rnd e 0" and "getpagesize e = 2 ^ k" and "k \<le> 29"
  shows "forksort_main e = Inl Assert_fails"
proof -
  define t where "t = map (\<lambda>i. int (rnd e i)) [0..<NELEMS]"
  have "[0..<NELEMS] = 0 # [Suc 0..<NELEMS]" "[Suc 0..<NELEMS] = Suc 0 # [Suc (Suc 0)..<NELEMS]"
    by (rule upt_conv_Cons, simp)+
  then have t: "t = int (rnd e 0) # int (rnd e 1) # map (\<lambda>i. int (rnd e i)) [Suc (Suc 0)..<NELEMS]"
    by (simp only: t_def list.map One_nat_def)
  let ?s = "\<lparr>tbl = t, nrand = NELEMS, nfork = 0, nchild = 0\<rparr>" and ?e = "sort_env.truncate e"
  have "QuickSort ?e ?s 0 (NELEMS - 1) = Inr (?s\<lparr>nfork := 1\<rparr>, - 1)"
    using assms(1) by (subst quicksort_fork_fails) (simp_all add: sort_env.truncate_def)
  moreover have "verify_sorted LONG_MIN t = Inl Assert_fails"
    unfolding t using assms(2) by (intro verify_unsorted) simp
  ultimately show ?thesis
    using page_assert[OF assms(4)] assms(3)
    unfolding forksort_main_def Let_def t_def[symmetric] by simp
qed

theorem fork_failure_witness: "forksort_main (demo_main_env (\<lambda>k. - 1)) = Inl Assert_fails"
  by (rule fork_failure[of _ 12]) (simp_all add: demo_main_env_def)

end
