(* ===== verification/Hashdb.thy ===== *)
theory Hashdb
  imports Prelude
begin

text \<open>
  The key store of \<open>7/so21_lista_7/hashdb.c\<close>: a hash set of strings in a file that is mapped
  into memory, with bounded linear probing, growing by rehashing into a new file.

  A string is the list of its characters before the terminating zero. An entry of 48 bytes is
  the list of its characters before the first zero or all 48: \<open>strncpy\<close>, \<open>strncmp\<close> and
  \<open>strnlen\<close> with bound 48 see no more. \<open>jenkins_hash\<close> (with \<open>HASHINIT\<close>) is an argument of
  the operations. The file system is a map from names to inodes and the entries of each
  inode; mapping a file shares its inode, so a write to the mapping is a write to the file.
\<close>

section \<open>Probing\<close>

abbreviation ENT_LENGTH :: nat where "ENT_LENGTH \<equiv> 48"

datatype op_t = DB_QUERY | DB_INSERT

type_synonym entries = "string list"
type_synonym hash_fn = "string \<Rightarrow> u32"

definition chain_len :: "nat \<Rightarrow> nat" where
  "chain_len n = max (n div 2 ^ 14 - 1) 3"

text \<open>The sum is a \<open>uint32_t\<close> and wraps.\<close>

definition slot :: "hash_fn \<Rightarrow> nat \<Rightarrow> string \<Rightarrow> nat \<Rightarrow> nat" where
  "slot hash n str c = unat (hash (take ENT_LENGTH str) + word_of_nat c) mod n"

function db_probe ::
  "hash_fn \<Rightarrow> nat \<Rightarrow> entries \<Rightarrow> string \<Rightarrow> op_t \<Rightarrow> nat \<Rightarrow> (entries \<times> bool) run" where
  "db_probe hash n es str op c =
     (if c < chain_len n then
        let idx = slot hash n str c in
        if length es \<le> idx then Inl Out_of_bounds
        else if es ! idx = [] \<and> op = DB_INSERT then Inr (es[idx := take ENT_LENGTH str], True)
        else if take ENT_LENGTH str = es ! idx then Inr (es, True)
        else db_probe hash n es str op (c + 1)
      else Inr (es, False))"
  by pat_completeness auto
termination by (relation "measure (\<lambda>(hash, n, es, str, op, c). chain_len n - c)") auto

declare db_probe.simps [simp del]

definition db_action ::
  "hash_fn \<Rightarrow> nat \<Rightarrow> entries \<Rightarrow> string \<Rightarrow> op_t \<Rightarrow> (entries \<times> bool) run" where
  "db_action hash n es str op =
     (if str = [] then Inr (es, op = DB_INSERT)
      else if n = 0 then Inl Division_by_zero
      else db_probe hash n es str op 0)"

section \<open>Files and databases\<close>

record fs =
  names :: "string \<Rightarrow> nat option"
  data :: "nat \<Rightarrow> entries"
  next_ino :: nat

record db =
  db_entry :: nat
  db_size :: nat
  db_name :: string

text \<open>\<open>((x - 1) & x) == 0\<close>, the macro of \<open>sys/param.h\<close>.\<close>

definition powerof2 :: "nat \<Rightarrow> bool" where
  "powerof2 x \<longleftrightarrow> x = 0 \<or> (\<exists>k\<le>x. x = 2 ^ k)"

definition ftruncate :: "nat \<Rightarrow> entries \<Rightarrow> entries" where
  "ftruncate n es = take n (es @ replicate n [])"

text \<open>\<open>Open\<close> creates a missing file; with \<open>O_EXCL\<close> (for \<open>size > 0\<close>) it fails on an existing one.\<close>

definition db_open :: "fs \<Rightarrow> string \<Rightarrow> nat \<Rightarrow> (fs \<times> db) run" where
  "db_open s nm sz =
     (if \<not> powerof2 sz then Inl Assert_fails
      else if sz \<noteq> 0 \<and> names s nm \<noteq> None then Inl App_error
      else
        let (s1, ino) = (case names s nm of
               Some i \<Rightarrow> (s, i)
             | None \<Rightarrow> (s\<lparr>names := (names s)(nm \<mapsto> next_ino s), data := (data s)(next_ino s := []),
                           next_ino := next_ino s + 1\<rparr>, next_ino s));
            sz1 = (if sz = 0 then let n = length (data s1 ino) in if n = 0 then 1 else n else sz)
        in Inr (s1\<lparr>data := (data s1)(ino := ftruncate sz1 (data s1 ino))\<rparr>,
                \<lparr>db_entry = ino, db_size = sz1, db_name = nm\<rparr>))"

definition Unlink :: "fs \<Rightarrow> string \<Rightarrow> fs" where
  "Unlink s nm = s\<lparr>names := (names s)(nm := None)\<rparr>"

definition Rename :: "fs \<Rightarrow> string \<Rightarrow> string \<Rightarrow> fs" where
  "Rename s old new = s\<lparr>names := (names s)(new := names s old, old := None)\<rparr>"

text \<open>One operation on an open database: the mapping is the file.\<close>

definition db_do :: "hash_fn \<Rightarrow> fs \<Rightarrow> db \<Rightarrow> string \<Rightarrow> op_t \<Rightarrow> (fs \<times> bool) run" where
  "db_do hash s d str op =
     bind_run (db_action hash (db_size d) (data s (db_entry d)) str op) (\<lambda>(es, ok).
       Inr (s\<lparr>data := (data s)(db_entry d := es)\<rparr>, ok))"

fun db_copy :: "hash_fn \<Rightarrow> fs \<Rightarrow> db \<Rightarrow> string list \<Rightarrow> (fs \<times> bool) run" where
  "db_copy hash s new [] = Inr (s, True)"
| "db_copy hash s new (e # es) =
     bind_run (db_do hash s new e DB_INSERT) (\<lambda>(s1, ok).
       if ok then db_copy hash s1 new es else Inr (s1, False))"

definition db_rehash :: "hash_fn \<Rightarrow> fs \<Rightarrow> db \<Rightarrow> nat \<Rightarrow> (fs \<times> db \<times> bool) run" where
  "db_rehash hash s d new_size =
     (if \<not> powerof2 new_size then Inl Assert_fails
      else let nm = db_name d @ ''.rehash'' in
        bind_run (db_open s nm new_size) (\<lambda>(s1, new).
        bind_run (db_copy hash s1 new (take (db_size d) (data s1 (db_entry d)))) (\<lambda>(s2, ok).
          if \<not> ok then Inr (Unlink s2 nm, d, False)
          else Inr (Rename s2 (db_name new) (db_name d), d\<lparr>db_entry := db_entry new, db_size := db_size new\<rparr>, True))))"

text \<open>The inner \<open>do ... while\<close> and the outer \<open>while\<close> of \<open>db_insert\<close>.\<close>

fun grow :: "hash_fn \<Rightarrow> nat \<Rightarrow> fs \<Rightarrow> db \<Rightarrow> nat \<Rightarrow> (fs \<times> db) run" where
  "grow hash 0 s d sz = Inl Still_running"
| "grow hash (Suc fuel) s d sz =
     bind_run (db_rehash hash s d (sz * 2)) (\<lambda>(s1, d1, ok).
       if ok then Inr (s1, d1) else grow hash fuel s1 d1 (sz * 2))"

fun db_insert :: "hash_fn \<Rightarrow> nat \<Rightarrow> fs \<Rightarrow> db \<Rightarrow> string \<Rightarrow> (fs \<times> db) run" where
  "db_insert hash 0 s d str = Inl Still_running"
| "db_insert hash (Suc fuel) s d str =
     bind_run (db_do hash s d str DB_INSERT) (\<lambda>(s1, ok).
       if ok then Inr (s1, d)
       else bind_run (grow hash (Suc fuel) s1 d (db_size d)) (\<lambda>(s2, d2). db_insert hash fuel s2 d2 str))"

section \<open>Reading keys\<close>

abbreviation NUL :: char where "NUL \<equiv> CHR 0x00"
abbreviation NL :: char where "NL \<equiv> CHR 0x0A"
abbreviation CR :: char where "CR \<equiv> CHR 0x0D"

text \<open>\<open>strchr\<close> for a new line in the memory \<open>m\<close> from \<open>i\<close> on, and the string at \<open>i\<close>.\<close>

function strchr_nl :: "string \<Rightarrow> nat \<Rightarrow> nat option run" where
  "strchr_nl m i =
     (if length m \<le> i then Inl Out_of_bounds
      else if m ! i = NL then Inr (Some i)
      else if m ! i = NUL then Inr None
      else strchr_nl m (i + 1))"
  by pat_completeness auto
termination by (relation "measure (\<lambda>(m, i). length m - i)") auto

declare strchr_nl.simps [simp del]

definition c_string :: "string \<Rightarrow> nat \<Rightarrow> string" where
  "c_string m i = takeWhile (\<lambda>x. x \<noteq> NUL) (drop i m)"

text \<open>The state is the memory, the file system, the database and the lines written by \<open>puts\<close>; the
  result is the position of the next line or \<open>NULL\<close>. \<open>fuel\<close> bounds the loops of
  \<open>db_insert\<close>.\<close>

definition consume_line ::
  "hash_fn \<Rightarrow> nat \<Rightarrow> string \<Rightarrow> nat \<Rightarrow> fs \<Rightarrow> db \<Rightarrow> op_t \<Rightarrow> string list \<Rightarrow>
     (string \<times> fs \<times> db \<times> string list \<times> nat option) run" where
  "consume_line hash fuel m buf s d mode out =
     bind_run (strchr_nl m buf) (\<lambda>endp.
       let m1 = (case endp of
                   None \<Rightarrow> m
                 | Some e \<Rightarrow> (if buf < e \<and> m ! (e - 1) = CR then m[e - 1 := NUL] else m)[e := NUL]);
           next_line = map_option Suc endp in
       if m1 ! buf \<noteq> NUL then
         let str = c_string m1 buf in
         (case mode of
            DB_INSERT \<Rightarrow> bind_run (db_insert hash fuel s d str) (\<lambda>(s1, d1). Inr (m1, s1, d1, out, next_line))
          | DB_QUERY \<Rightarrow> bind_run (db_do hash s d str DB_QUERY) (\<lambda>(s1, found).
              Inr (m1, s1, d, out @ [if found then ''YES'' else ''NO''], next_line)))
       else Inr (m1, s, d, out, next_line))"

text \<open>\<open>while ((line = consume_line(line, &db, mode)) != NULL);\<close> each round moves right.\<close>

fun consume_all ::
  "hash_fn \<Rightarrow> nat \<Rightarrow> nat \<Rightarrow> string \<Rightarrow> nat \<Rightarrow> fs \<Rightarrow> db \<Rightarrow> op_t \<Rightarrow> string list \<Rightarrow>
     (fs \<times> db \<times> string list) run" where
  "consume_all hash fuel 0 m buf s d mode out = Inl Still_running"
| "consume_all hash fuel (Suc n) m buf s d mode out =
     bind_run (consume_line hash fuel m buf s d mode out) (\<lambda>(m1, s1, d1, out1, nxt).
       case nxt of None \<Rightarrow> Inr (s1, d1, out1) | Some b \<Rightarrow> consume_all hash fuel n m1 b s1 d1 mode out1)"

text \<open>The pages \<open>Mmap\<close> maps for a file: its bytes, then zeros to the end of the last page; an empty
  mapping is an error.\<close>

abbreviation PAGE :: nat where "PAGE \<equiv> 4096"

definition map_file :: "string \<Rightarrow> string run" where
  "map_file content =
     (if content = [] then Inl App_error
      else Inr (content @ replicate (if length content mod PAGE = 0 then 0 else PAGE - length content mod PAGE) NUL))"

text \<open>\<open>doit\<close> with a file as standard input; \<open>doit_tty\<close> with the buffers \<open>fgets\<close> reads from a terminal.\<close>

definition doit :: "hash_fn \<Rightarrow> nat \<Rightarrow> fs \<Rightarrow> string \<Rightarrow> op_t \<Rightarrow> string \<Rightarrow> (fs \<times> db \<times> string list) run" where
  "doit hash fuel s path mode content =
     bind_run (db_open s path 0) (\<lambda>(s1, d).
     bind_run (map_file content) (\<lambda>m. consume_all hash fuel (length m + 1) m 0 s1 d mode []))"

fun tty_lines ::
  "hash_fn \<Rightarrow> nat \<Rightarrow> string list \<Rightarrow> fs \<Rightarrow> db \<Rightarrow> op_t \<Rightarrow> string list \<Rightarrow> (fs \<times> db \<times> string list) run" where
  "tty_lines hash fuel [] s d mode out = Inr (s, d, out)"
| "tty_lines hash fuel (b # bs) s d mode out =
     bind_run (consume_line hash fuel (b @ [NUL]) 0 s d mode out) (\<lambda>(m1, s1, d1, out1, nxt).
       tty_lines hash fuel bs s1 d1 mode out1)"

definition doit_tty :: "hash_fn \<Rightarrow> nat \<Rightarrow> fs \<Rightarrow> string \<Rightarrow> op_t \<Rightarrow> string list \<Rightarrow> (fs \<times> db \<times> string list) run" where
  "doit_tty hash fuel s path mode bufs =
     bind_run (db_open s path 0) (\<lambda>(s1, d). tty_lines hash fuel bufs s1 d mode [])"

text \<open>The options \<open>getopt\<close> yields, and \<open>mode\<close>.\<close>

fun parse_mode :: "string \<Rightarrow> op_t option \<Rightarrow> op_t option run" where
  "parse_mode [] mode = Inr mode"
| "parse_mode (opt # opts) mode =
     (if opt = CHR ''i'' then parse_mode opts (Some DB_INSERT)
      else if opt = CHR ''q'' then parse_mode opts (Some DB_QUERY)
      else Inl App_error)"

definition hashdb_main ::
  "hash_fn \<Rightarrow> nat \<Rightarrow> fs \<Rightarrow> string \<Rightarrow> string list \<Rightarrow> string \<Rightarrow> (fs \<times> db \<times> string list) run" where
  "hashdb_main hash fuel s opts operands content =
     bind_run (parse_mode opts None) (\<lambda>mode.
       case (operands, mode) of
         (path # _, Some md) \<Rightarrow> doit hash fuel s path md content
       | _ \<Rightarrow> Inl App_error)"

section \<open>Lookup and insertion\<close>

definition stored :: "entries \<Rightarrow> string set" where
  "stored es = set es - {[]}"

text \<open>Every key stands at the end of a run of used slots of its own chain, once.\<close>

definition placed :: "hash_fn \<Rightarrow> entries \<Rightarrow> nat \<Rightarrow> bool" where
  "placed hash es i \<longleftrightarrow> (\<exists>c < chain_len (length es). slot hash (length es) (es ! i) c = i \<and>
     (\<forall>c'<c. es ! slot hash (length es) (es ! i) c' \<noteq> []))"

definition db_ok :: "hash_fn \<Rightarrow> entries \<Rightarrow> bool" where
  "db_ok hash es \<longleftrightarrow> es \<noteq> [] \<and> (\<forall>e\<in>set es. length e \<le> ENT_LENGTH) \<and>
     (\<forall>i<length es. es ! i \<noteq> [] \<longrightarrow> placed hash es i)"

lemma slot_less: "0 < n \<Longrightarrow> slot hash n str c < n"
  by (simp add: slot_def)

lemma slot_take [simp]: "slot hash n (take ENT_LENGTH str) c = slot hash n str c"
  by (simp add: slot_def)

lemma db_probe_query:
  assumes "es \<noteq> []"
  shows "db_probe hash (length es) es str DB_QUERY c = Inr (es,
     \<exists>d. c \<le> d \<and> d < chain_len (length es) \<and> es ! slot hash (length es) str d = take ENT_LENGTH str)"
  using assms
proof (induction hash "length es" es str DB_QUERY c rule: db_probe.induct)
  case (1 hash es str c)
  let ?n = "length es"
  have s: "slot hash ?n str d < ?n" for d using 1(2) slot_less[of ?n] by simp
  show ?case
  proof (cases "c < chain_len ?n")
    case True
    show ?thesis
    proof (cases "take ENT_LENGTH str = es ! slot hash ?n str c")
      case match: True
      with True s[of c] show ?thesis by (subst db_probe.simps) (auto simp: Let_def not_le)
    next
      case False
      have "(\<exists>d. c \<le> d \<and> d < chain_len ?n \<and> es ! slot hash ?n str d = take ENT_LENGTH str) \<longleftrightarrow>
          (\<exists>d. c + 1 \<le> d \<and> d < chain_len ?n \<and> es ! slot hash ?n str d = take ENT_LENGTH str)"
        using False by (metis Suc_eq_plus1 Suc_leD Suc_leI le_neq_implies_less)
      moreover have "db_probe hash ?n es str DB_QUERY c = db_probe hash ?n es str DB_QUERY (c + 1)"
        using True False s[of c] by (subst db_probe.simps) (simp add: Let_def not_le)
      ultimately show ?thesis using 1(1)[OF True refl] True False s[of c] 1(2) by (simp add: not_le)
    qed
  qed (subst db_probe.simps, simp)
qed

abbreviation free_or_key :: "hash_fn \<Rightarrow> entries \<Rightarrow> string \<Rightarrow> nat \<Rightarrow> bool" where
  "free_or_key hash es str d \<equiv> es ! slot hash (length es) str d = [] \<or>
     es ! slot hash (length es) str d = take ENT_LENGTH str"

lemma db_probe_insert_step:
  assumes "es \<noteq> []" and "c < chain_len (length es)"
  shows "db_probe hash (length es) es str DB_INSERT c =
    (if es ! slot hash (length es) str c = []
     then Inr (es[slot hash (length es) str c := take ENT_LENGTH str], True)
     else if es ! slot hash (length es) str c = take ENT_LENGTH str then Inr (es, True)
     else db_probe hash (length es) es str DB_INSERT (c + 1))"
  using assms slot_less[of "length es" hash str c] by (subst db_probe.simps) (auto simp: Let_def not_le)

lemma db_probe_insert_full:
  assumes "es \<noteq> []"
  shows "(\<And>d. c \<le> d \<Longrightarrow> d < chain_len (length es) \<Longrightarrow> \<not> free_or_key hash es str d) \<Longrightarrow>
           db_probe hash (length es) es str DB_INSERT c = Inr (es, False)"
proof (induction "chain_len (length es) - c" arbitrary: c rule: less_induct)
  case less
  show ?case
  proof (cases "c < chain_len (length es)")
    case True
    have "db_probe hash (length es) es str DB_INSERT (c + 1) = Inr (es, False)"
      using True by (intro less.hyps less.prems) auto
    with less.prems[OF order_refl True] show ?thesis
      by (simp add: db_probe_insert_step[OF assms True])
  qed (subst db_probe.simps, simp)
qed

lemma db_probe_insert_first:
  assumes "es \<noteq> []" and "free_or_key hash es str d" and "d < chain_len (length es)"
  shows "c \<le> d \<Longrightarrow> (\<And>c'. c \<le> c' \<Longrightarrow> c' < d \<Longrightarrow> \<not> free_or_key hash es str c') \<Longrightarrow>
    db_probe hash (length es) es str DB_INSERT c =
      (if es ! slot hash (length es) str d = []
       then Inr (es[slot hash (length es) str d := take ENT_LENGTH str], True) else Inr (es, True))"
proof (induction "d - c" arbitrary: c rule: less_induct)
  case less
  have c: "c < chain_len (length es)" using less.prems(1) assms(3) by simp
  show ?case
  proof (cases "c = d")
    case True
    show ?thesis unfolding db_probe_insert_step[OF assms(1) c] unfolding True using assms(2) by auto
  next
    case False
    then have "c < d" using less.prems(1) by simp
    then have "db_probe hash (length es) es str DB_INSERT (c + 1) =
      (if es ! slot hash (length es) str d = []
       then Inr (es[slot hash (length es) str d := take ENT_LENGTH str], True) else Inr (es, True))"
      by (intro less.hyps less.prems) auto
    with less.prems(2)[OF order_refl \<open>c < d\<close>] show ?thesis
      by (simp add: db_probe_insert_step[OF assms(1) c])
  qed
qed

lemma db_okD:
  assumes "db_ok hash es"
  shows "es \<noteq> []" and "i < length es \<Longrightarrow> length (es ! i) \<le> ENT_LENGTH"
    and "i < length es \<Longrightarrow> es ! i \<noteq> [] \<Longrightarrow> placed hash es i"
  using assms by (auto simp: db_ok_def)

lemma db_action_query:
  assumes ok: "db_ok hash es" and str: "str \<noteq> []"
  shows "db_action hash (length es) es str DB_QUERY = Inr (es, take ENT_LENGTH str \<in> stored es)"
proof -
  let ?n = "length es" and ?k = "take ENT_LENGTH str"
  have k: "?k \<noteq> []" using str by simp
  have "(\<exists>d < chain_len ?n. es ! slot hash ?n str d = ?k) \<longleftrightarrow> ?k \<in> stored es"
  proof
    assume "\<exists>d < chain_len ?n. es ! slot hash ?n str d = ?k"
    then show "?k \<in> stored es"
      using k db_okD(1)[OF ok] slot_less[of ?n hash str] by (metis Diff_iff length_greater_0_conv nth_mem singletonD stored_def)
  next
    assume "?k \<in> stored es"
    then obtain i where i: "i < ?n" "es ! i = ?k" by (auto simp: stored_def in_set_conv_nth)
    with db_okD(3)[OF ok, of i] k obtain c where "c < chain_len ?n" "slot hash ?n (es ! i) c = i"
      by (auto simp: placed_def)
    with i show "\<exists>d < chain_len ?n. es ! slot hash ?n str d = ?k" by auto
  qed
  with db_okD(1)[OF ok] str show ?thesis
    by (simp add: db_action_def db_probe_query)
qed

lemma placed_update:
  assumes "placed hash es i" and "k \<noteq> []" and "j \<noteq> i"
  shows "placed hash (es[j := k]) i"
proof -
  from assms(1) obtain c where c: "c < chain_len (length es)" "slot hash (length es) (es ! i) c = i"
    "\<forall>c'<c. es ! slot hash (length es) (es ! i) c' \<noteq> []"
    by (auto simp: placed_def)
  have "es[j := k] ! x \<noteq> []" if "es ! x \<noteq> []" for x
    using that assms(2) by (cases "j < length es"; cases "x = j") (simp_all add: list_update_beyond)
  with c assms(3) show ?thesis by (auto simp: placed_def intro!: exI[of _ c])
qed

text \<open>An insertion stores the key, or finds the whole chain used by other keys.\<close>

lemma db_action_insert:
  assumes ok: "db_ok hash es" and str: "str \<noteq> []"
  shows "\<exists>es' r. db_action hash (length es) es str DB_INSERT = Inr (es', r) \<and> length es' = length es \<and>
    (\<exists>j k. es' = es[j := k]) \<and>
    (if r then db_ok hash es' \<and> stored es' = insert (take ENT_LENGTH str) (stored es)
     else es' = es \<and> (\<forall>d < chain_len (length es). es ! slot hash (length es) str d \<noteq> []))"
proof -
  let ?n = "length es" and ?k = "take ENT_LENGTH str"
  have ne: "es \<noteq> []" using db_okD(1)[OF ok] .
  have act: "db_action hash ?n es str DB_INSERT = db_probe hash ?n es str DB_INSERT 0"
    using ne str by (simp add: db_action_def)
  have noop: "\<exists>j k. es = es[j := k]"
    by (rule exI[of _ ?n], rule exI[of _ "[]"]) (simp add: list_update_beyond)
  let ?P = "\<lambda>d. d < chain_len ?n \<and> free_or_key hash es str d"
  show ?thesis
  proof (cases "\<exists>d. ?P d")
    case False
    then have "db_probe hash ?n es str DB_INSERT 0 = Inr (es, False)"
      by (intro db_probe_insert_full[OF ne]) blast
    with False show ?thesis by (intro exI[of _ es] exI[of _ False]) (use noop in \<open>auto simp: act\<close>)
  next
    case True
    define d where "d = (LEAST d. ?P d)"
    have d: "?P d" unfolding d_def using True by (rule LeastI_ex)
    have low: "\<not> free_or_key hash es str c" if "c < d" for c
      using not_less_Least[of c ?P] that d unfolding d_def[symmetric] by (meson order_less_trans)
    let ?j = "slot hash ?n str d"
    have j: "?j < ?n" using ne slot_less[of ?n] by simp
    have res: "db_probe hash ?n es str DB_INSERT 0 =
        (if es ! ?j = [] then Inr (es[?j := ?k], True) else Inr (es, True))"
      by (rule db_probe_insert_first[OF ne]) (use d low in blast)+
    show ?thesis
    proof (cases "es ! ?j = []")
      case False
      then have "?k \<in> stored es" using d j nth_mem[OF j] by (auto simp: stored_def)
      then have "insert ?k (stored es) = stored es" by blast
      with False ok show ?thesis by (intro exI[of _ es] exI[of _ True]) (use noop in \<open>auto simp: act res\<close>)
    next
      case empty: True
      let ?es = "es[?j := ?k]"
      have k: "?k \<noteq> []" using str by simp
      have "stored ?es = insert ?k (stored es)"
      proof -
        have "e \<in> set ?es \<longleftrightarrow> e = ?k \<or> e \<in> set es" if "e \<noteq> []" for e
        proof
          assume "e = ?k \<or> e \<in> set es"
          then show "e \<in> set ?es"
          proof
            assume "e \<in> set es"
            then obtain i where i: "i < ?n" "es ! i = e" by (auto simp: in_set_conv_nth)
            then have "i \<noteq> ?j" using empty that by auto
            then have "?es ! i = e" using i by simp
            then show ?thesis using i(1) by (metis length_list_update nth_mem)
          qed (simp add: set_update_memI j)
        qed (use set_update_subset_insert in fastforce)
        with k show ?thesis by (auto simp: stored_def)
      qed
      moreover have "db_ok hash ?es" unfolding db_ok_def
      proof (intro conjI allI impI ballI)
        show "?es \<noteq> []" using ne by simp
        fix e assume "e \<in> set ?es"
        then have "e = ?k \<or> e \<in> set es" using set_update_subset_insert by fastforce
        then show "length e \<le> ENT_LENGTH" using ok by (auto simp: db_ok_def)
      next
        fix i assume i: "i < length ?es" "?es ! i \<noteq> []"
        show "placed hash ?es i"
        proof (cases "i = ?j")
          case True
          have "?es ! slot hash ?n str c \<noteq> []" if "c < d" for c
            using low[OF that] k j by (simp add: nth_list_update)
          with True d j show ?thesis by (auto simp: placed_def intro!: exI[of _ d])
        next
          case False
          with i have "placed hash es i" using db_okD(3)[OF ok, of i] by simp
          then show ?thesis using k False by (intro placed_update) auto
        qed
      qed
      ultimately show ?thesis using empty by (intro exI[of _ ?es] exI[of _ True]) (auto simp: act res)
    qed
  qed
qed

section \<open>When an insertion must succeed\<close>

definition used :: "entries \<Rightarrow> nat" where
  "used es = card {i. i < length es \<and> es ! i \<noteq> []}"

lemma used_le: "used es \<le> length es"
  unfolding used_def using card_mono[of "{..<length es}" "{i. i < length es \<and> es ! i \<noteq> []}"] by auto

lemma mod_inj_le:
  assumes "c \<le> c'" "c' < M" "(a + c) mod M = (a + c') mod (M :: nat)"
  shows "c = c'"
proof -
  have "M dvd (a + c') - (a + c)"
    using mod_eq_dvd_iff_nat[of "a + c" "a + c'" M] assms(1,3) by simp
  then have "M dvd c' - c" by simp
  with assms(1,2) show ?thesis using dvd_imp_le[of M "c' - c"] by linarith
qed

lemma mod_inj:
  assumes "c < M" "c' < M" "(a + c) mod M = (a + c') mod (M :: nat)"
  shows "c = c'"
  using assms mod_inj_le[of c c' M a] mod_inj_le[of c' c M a] by (metis nat_le_linear)

lemma slot_inj:
  assumes "c < n" "c' < n" "c < 2 ^ 32" "c' < 2 ^ 32" and n: "n = 2 ^ j"
    and eq: "slot hash n str c = slot hash n str c'"
  shows "c = c'"
proof -
  let ?h = "hash (take ENT_LENGTH str)"
  have u: "unat (?h + word_of_nat x) = (unat ?h + x) mod 2 ^ 32" if "x < 2 ^ 32" for x
    using that by (simp add: unat_word_ariths unat_of_nat mod_add_right_eq)
  show ?thesis
  proof (cases "j \<le> 32")
    case True
    then have d: "n dvd 2 ^ 32" unfolding n by (rule le_imp_power_dvd)
    have "slot hash n str x = (unat ?h + x) mod n" if "x < 2 ^ 32" for x
      using mod_mod_cancel[OF d, of "unat ?h + x"] by (simp only: slot_def u[OF that])
    with eq assms(1-4) show ?thesis by (auto intro: mod_inj)
  next
    case False
    then have "(2 :: nat) ^ 32 < n" unfolding n by (intro power_strict_increasing) auto
    then have "slot hash n str x = (unat ?h + x) mod 2 ^ 32" if "x < 2 ^ 32" for x
      using mod_less_divisor[of "2 ^ 32" "unat ?h + x"] by (simp only: slot_def u[OF that]) simp
    with eq assms(3,4) show ?thesis by (auto intro: mod_inj)
  qed
qed

lemma chain_full_used:
  assumes full: "\<forall>d < chain_len (length es). es ! slot hash (length es) str d \<noteq> []"
    and n: "length es = 2 ^ j" and l: "m \<le> chain_len (length es)" "m \<le> length es" "m \<le> 2 ^ 32"
  shows "m \<le> used es"
proof -
  let ?n = "length es"
  have "inj_on (slot hash ?n str) {..<m}"
  proof (rule inj_onI)
    fix x y assume xy: "x \<in> {..<m}" "y \<in> {..<m}" and eq: "slot hash ?n str x = slot hash ?n str y"
    then have "x < ?n" "y < ?n" "x < 2 ^ 32" "y < 2 ^ 32" using l(2,3) unfolding lessThan_iff by linarith+
    then show "x = y" using n eq by (rule slot_inj)
  qed
  then have "card (slot hash ?n str ` {..<m}) = m" by (simp add: card_image)
  moreover have "slot hash ?n str ` {..<m} \<subseteq> {i. i < ?n \<and> es ! i \<noteq> []}"
  proof
    fix i assume "i \<in> slot hash ?n str ` {..<m}"
    then obtain d where d: "d < m" "i = slot hash ?n str d" by auto
    have "0 < ?n" by (simp add: n)
    then have "i < ?n" unfolding d(2) by (rule slot_less)
    moreover have "es ! i \<noteq> []" using full d l(1) by auto
    ultimately show "i \<in> {i. i < ?n \<and> es ! i \<noteq> []}" by blast
  qed
  moreover have "finite {i. i < ?n \<and> es ! i \<noteq> []}" by simp
  ultimately show ?thesis unfolding used_def using card_mono by metis
qed

lemma used_filter: "used es = length (filter (\<lambda>e. e \<noteq> []) es)"
  by (simp add: used_def length_filter_conv_card)

lemma used_update: "used (es[j := k]) \<le> used es + 1"
proof -
  have "{i. i < length (es[j := k]) \<and> es[j := k] ! i \<noteq> []} \<subseteq> insert j {i. i < length es \<and> es ! i \<noteq> []}"
    by (auto simp: nth_list_update split: if_splits)
  from card_mono[OF _ this] have "used (es[j := k]) \<le> card (insert j {i. i < length es \<and> es ! i \<noteq> []})"
    by (simp add: used_def)
  also have "\<dots> \<le> used es + 1" by (simp add: used_def card_insert_if)
  finally show ?thesis .
qed

section \<open>Rehashing\<close>

text \<open>What is known of an open database: its file is the one the name refers to, and no file has the
  name the next rehash will use.\<close>

definition db_inv :: "hash_fn \<Rightarrow> fs \<Rightarrow> db \<Rightarrow> bool" where
  "db_inv hash s d \<longleftrightarrow> db_ok hash (data s (db_entry d)) \<and> length (data s (db_entry d)) = db_size d \<and>
     names s (db_name d) = Some (db_entry d) \<and> names s (db_name d @ ''.rehash'') = None \<and>
     db_entry d < next_ino s"

definition keys :: "fs \<Rightarrow> db \<Rightarrow> string set" where
  "keys s d = stored (data s (db_entry d))"

text \<open>A table of \<open>2 ^ j\<close> slots takes any \<open>room j\<close> keys, whatever the hash function.\<close>

definition room :: "nat \<Rightarrow> nat" where
  "room j = min (chain_len (2 ^ j)) (min (2 ^ j) (2 ^ 32))"

lemma room_le: "room j \<le> chain_len (2 ^ j)" "room j \<le> 2 ^ j" "room j \<le> 2 ^ 32"
  unfolding room_def by linarith+

lemma room_mono: "i \<le> j \<Longrightarrow> room i \<le> room j"
proof -
  assume "i \<le> j"
  then have p: "(2 :: nat) ^ i \<le> 2 ^ j" by (simp add: power_increasing)
  then have "(2 :: nat) ^ i div 2 ^ 14 \<le> 2 ^ j div 2 ^ 14" by (rule div_le_mono)
  then have "chain_len (2 ^ i) \<le> chain_len (2 ^ j)" unfolding chain_len_def by linarith
  with p show ?thesis unfolding room_def by linarith
qed

lemma room_enough:
  assumes "u \<le> 2 ^ i" and "i \<le> 29"
  shows "u + 1 \<le> room (i + 16)"
proof -
  have "(2 :: nat) ^ (i + 16) = 2 ^ (i + 2) * 2 ^ 14" by (simp add: power_add)
  then have "(2 :: nat) ^ (i + 16) div 2 ^ 14 = 2 ^ (i + 2)" by simp
  then have c: "chain_len (2 ^ (i + 16)) = max (2 ^ (i + 2) - 1) 3" by (simp only: chain_len_def)
  have p: "(1 :: nat) \<le> 2 ^ i" "(2 :: nat) ^ (i + 2) = 4 * 2 ^ i" "(2 :: nat) ^ (i + 16) = 65536 * 2 ^ i"
    by (simp_all add: power_add)
  have "(2 :: nat) ^ i \<le> 2 ^ 29" using assms(2) by (intro power_increasing) auto
  then have "u + 1 \<le> 2 ^ 32" using assms(1) by simp
  moreover have "u + 1 \<le> 4 * 2 ^ i - 1" "u + 1 \<le> 65536 * 2 ^ i" using assms(1) p(1) by linarith+
  moreover have "u + 1 \<le> chain_len (2 ^ (i + 16))" unfolding c p(2) using calculation(2) by linarith
  moreover have "u + 1 \<le> 2 ^ (i + 16)" unfolding p(3) using calculation(3) by linarith
  ultimately show ?thesis unfolding room_def by (intro min.boundedI)
qed

lemma db_do_insert:
  assumes ok: "db_ok hash (data s (db_entry d))" and sz: "db_size d = length (data s (db_entry d))"
    and str: "str \<noteq> []"
  shows "\<exists>es r. db_do hash s d str DB_INSERT = Inr (s\<lparr>data := (data s)(db_entry d := es)\<rparr>, r) \<and>
    length es = db_size d \<and> db_ok hash es \<and> used es \<le> used (data s (db_entry d)) + 1 \<and>
    (if r then stored es = insert (take ENT_LENGTH str) (stored (data s (db_entry d)))
     else es = data s (db_entry d)) \<and>
    (\<forall>j. db_size d = 2 ^ j \<and> used (data s (db_entry d)) < room j \<longrightarrow> r)"
proof -
  let ?es = "data s (db_entry d)"
  from db_action_insert[OF ok str] obtain es r where a:
    "db_action hash (length ?es) ?es str DB_INSERT = Inr (es, r)" "length es = length ?es"
    "\<exists>j k. es = ?es[j := k]"
    and r: "if r then db_ok hash es \<and> stored es = insert (take ENT_LENGTH str) (stored ?es)
      else es = ?es \<and> (\<forall>d < chain_len (length ?es). ?es ! slot hash (length ?es) str d \<noteq> [])" by blast
  have "r" if "db_size d = 2 ^ j" "used ?es < room j" for j
  proof (rule ccontr)
    assume "\<not> r"
    then have "\<forall>d < chain_len (length ?es). ?es ! slot hash (length ?es) str d \<noteq> []" using r by simp
    from chain_full_used[OF this, of j "room j"] that sz room_le[of j] show False by simp
  qed
  moreover have "db_ok hash es" using r ok by (auto split: if_splits)
  moreover have "used es \<le> used ?es + 1" using a(3) used_update by auto
  ultimately show ?thesis using a(1,2) r sz
    by (intro exI[of _ es] exI[of _ r]) (auto simp: db_do_def split: if_splits)
qed

lemma db_copy_ok:
  assumes "db_ok hash (data s (db_entry d))" and "db_size d = length (data s (db_entry d))"
    and "\<forall>e\<in>set olds. length e \<le> ENT_LENGTH"
  shows "\<exists>es r. db_copy hash s d olds = Inr (s\<lparr>data := (data s)(db_entry d := es)\<rparr>, r) \<and>
    length es = db_size d \<and> db_ok hash es \<and>
    used es \<le> used (data s (db_entry d)) + length (filter (\<lambda>e. e \<noteq> []) olds) \<and>
    (r \<longrightarrow> stored es = stored (data s (db_entry d)) \<union> (set olds - {[]})) \<and>
    (\<forall>j. db_size d = 2 ^ j \<and> used (data s (db_entry d)) + length (filter (\<lambda>e. e \<noteq> []) olds) \<le> room j \<longrightarrow> r)"
  using assms
proof (induction olds arbitrary: s)
  case Nil
  have "s\<lparr>data := data s\<rparr> = s" by simp
  then show ?case using Nil by (intro exI[of _ "data s (db_entry d)"] exI[of _ True]) simp
next
  case (Cons e olds)
  show ?case
  proof (cases "e = []")
    case True
    have "db_do hash s d e DB_INSERT = Inr (s, True)"
      using True by (simp add: db_do_def db_action_def)
    with Cons.IH[OF Cons.prems(1,2)] Cons.prems(3) True show ?thesis by simp
  next
    case False
    let ?es0 = "data s (db_entry d)"
    from db_do_insert[OF Cons.prems(1,2) False] obtain es r where
      1: "db_do hash s d e DB_INSERT = Inr (s\<lparr>data := (data s)(db_entry d := es)\<rparr>, r)"
        "length es = db_size d" "db_ok hash es" "used es \<le> used ?es0 + 1"
      and r: "if r then stored es = insert (take ENT_LENGTH e) (stored ?es0) else es = ?es0"
      and cap: "\<forall>j. db_size d = 2 ^ j \<and> used ?es0 < room j \<longrightarrow> r" by blast
    show ?thesis
    proof (cases r)
      case False
      then have "\<not> (db_size d = 2 ^ j \<and> used ?es0 + length (filter (\<lambda>e. e \<noteq> []) (e # olds)) \<le> room j)" for j
        using cap \<open>e \<noteq> []\<close> by fastforce
      moreover have "db_copy hash s d (e # olds) = Inr (s\<lparr>data := (data s)(db_entry d := es)\<rparr>, False)"
        using 1(1) False by (simp only: db_copy.simps bind_run.simps prod.case if_False)
      moreover have "used es \<le> used ?es0 + length (filter (\<lambda>e. e \<noteq> []) (e # olds))"
        using 1(4) \<open>e \<noteq> []\<close> by simp
      ultimately show ?thesis using 1(2,3) by blast
    next
      case True
      let ?s1 = "s\<lparr>data := (data s)(db_entry d := es)\<rparr>"
      have d1: "data ?s1 (db_entry d) = es" by simp
      have "db_ok hash (data ?s1 (db_entry d))" "db_size d = length (data ?s1 (db_entry d))"
        "\<forall>e\<in>set olds. length e \<le> ENT_LENGTH" using 1 Cons.prems(3) by simp_all
      from Cons.IH[OF this] obtain es2 r2 where
        2: "db_copy hash ?s1 d olds = Inr (?s1\<lparr>data := (data ?s1)(db_entry d := es2)\<rparr>, r2)"
          "length es2 = db_size d" "db_ok hash es2"
          "used es2 \<le> used es + length (filter (\<lambda>e. e \<noteq> []) olds)"
          "r2 \<longrightarrow> stored es2 = stored es \<union> (set olds - {[]})"
          "\<forall>j. db_size d = 2 ^ j \<and> used es + length (filter (\<lambda>e. e \<noteq> []) olds) \<le> room j \<longrightarrow> r2"
        unfolding d1 by blast
      have "take ENT_LENGTH e = e" using Cons.prems(3) by simp
      then have "stored es = insert e (stored ?es0)" using r True by simp
      have "?s1\<lparr>data := (data ?s1)(db_entry d := es2)\<rparr> = s\<lparr>data := (data s)(db_entry d := es2)\<rparr>"
        by simp
      then have copy: "db_copy hash s d (e # olds) = Inr (s\<lparr>data := (data s)(db_entry d := es2)\<rparr>, r2)"
        using 1(1) 2(1) True by (simp only: db_copy.simps bind_run.simps prod.case if_True)
      have "used es2 \<le> used ?es0 + length (filter (\<lambda>e. e \<noteq> []) (e # olds))"
        using 1(4) 2(4) \<open>e \<noteq> []\<close> by simp
      moreover have "r2 \<longrightarrow> stored es2 = stored ?es0 \<union> (set (e # olds) - {[]})"
        using 2(5) \<open>stored es = insert e (stored ?es0)\<close> \<open>e \<noteq> []\<close> by auto
      moreover have "r2" if "db_size d = 2 ^ j" "used ?es0 + length (filter (\<lambda>e. e \<noteq> []) (e # olds)) \<le> room j" for j
      proof -
        have "used es + length (filter (\<lambda>e. e \<noteq> []) olds) \<le> room j" using that(2) 1(4) \<open>e \<noteq> []\<close> by simp
        with 2(6) that(1) show ?thesis by blast
      qed
      ultimately show ?thesis using copy 2(2,3) by blast
    qed
  qed
qed

lemma db_ok_fresh: "0 < n \<Longrightarrow> db_ok hash (replicate n [])"
  by (auto simp: db_ok_def)

lemma used_fresh [simp]: "used (replicate n []) = 0" "stored (replicate n []) = {}"
  by (auto simp: used_def stored_def)

lemma powerof2_pow: "powerof2 (2 ^ j)"
  by (auto simp: powerof2_def intro!: exI[of _ j] less_imp_le[OF less_exp])

lemma db_rehash_ok:
  assumes inv: "db_inv hash s d"
  shows "\<exists>s' d' r. db_rehash hash s d (2 ^ j) = Inr (s', d', r) \<and> db_inv hash s' d' \<and> keys s' d' = keys s d \<and>
    db_name d' = db_name d \<and> used (data s' (db_entry d')) \<le> used (data s (db_entry d)) \<and>
    db_size d' = (if r then 2 ^ j else db_size d) \<and> (\<not> r \<longrightarrow> d' = d) \<and>
    (used (data s (db_entry d)) \<le> room j \<longrightarrow> r)"
proof -
  let ?nm = "db_name d @ ''.rehash''" and ?i = "next_ino s" and ?e = "db_entry d"
  have i: "?e \<noteq> ?i" "?e < ?i" using inv by (auto simp: db_inv_def)
  let ?s1 = "s\<lparr>names := (names s)(?nm \<mapsto> ?i), data := (data s)(?i := replicate (2 ^ j) []), next_ino := ?i + 1\<rparr>"
  let ?new = "\<lparr>db_entry = ?i, db_size = 2 ^ j, db_name = ?nm\<rparr>"
  have op: "db_open s ?nm (2 ^ j) = Inr (?s1, ?new)"
    using inv powerof2_pow[of j] by (simp add: db_open_def db_inv_def ftruncate_def Let_def)
  let ?olds = "take (db_size d) (data ?s1 ?e)"
  have olds: "?olds = data s ?e" using inv i by (simp add: db_inv_def)
  have "db_ok hash (data ?s1 (db_entry ?new))" "db_size ?new = length (data ?s1 (db_entry ?new))"
    "\<forall>e\<in>set ?olds. length e \<le> ENT_LENGTH"
    using inv unfolding olds by (auto simp: db_ok_fresh db_inv_def db_ok_def)
  from db_copy_ok[OF this] obtain es r where
    c: "db_copy hash ?s1 ?new ?olds = Inr (?s1\<lparr>data := (data ?s1)(?i := es)\<rparr>, r)"
      "length es = 2 ^ j" "db_ok hash es" "used es \<le> used (data s ?e)"
      "r \<longrightarrow> stored es = stored (data s ?e)"
      "\<forall>k. (2 :: nat) ^ j = 2 ^ k \<and> used (data s ?e) \<le> room k \<longrightarrow> r"
    unfolding olds by (auto simp: stored_def used_filter)
  let ?s2 = "?s1\<lparr>data := (data ?s1)(?i := es)\<rparr>"
  have reh: "db_rehash hash s d (2 ^ j) =
      (if \<not> r then Inr (Unlink ?s2 ?nm, d, False)
       else Inr (Rename ?s2 ?nm (db_name d), d\<lparr>db_entry := ?i, db_size := 2 ^ j\<rparr>, True))"
    using c(1) unfolding db_rehash_def Let_def op by (simp add: powerof2_pow)
  have ne: "db_name d \<noteq> ?nm" by simp
  show ?thesis
  proof (cases r)
    case True
    let ?s3 = "Rename ?s2 ?nm (db_name d)" and ?d3 = "d\<lparr>db_entry := ?i, db_size := 2 ^ j\<rparr>"
    have "db_inv hash ?s3 ?d3" using c(2,3) ne by (simp add: db_inv_def Rename_def)
    moreover have "keys ?s3 ?d3 = keys s d" "used (data ?s3 (db_entry ?d3)) \<le> used (data s ?e)"
      using c(4,5) True by (simp_all add: keys_def Rename_def)
    ultimately show ?thesis using True
      by (intro exI[of _ ?s3] exI[of _ ?d3] exI[of _ True]) (simp add: reh)
  next
    case False
    let ?s3 = "Unlink ?s2 ?nm"
    have "db_inv hash ?s3 d" "keys ?s3 d = keys s d" "data ?s3 ?e = data s ?e"
      using inv i by (simp_all add: db_inv_def keys_def Unlink_def)
    with False c(6) show ?thesis
      by (intro exI[of _ ?s3] exI[of _ d] exI[of _ False]) (simp add: reh)
  qed
qed

section \<open>Growing\<close>

lemma grow_ok:
  assumes "db_inv hash s d" and "used (data s (db_entry d)) \<le> room (i + t)" and "0 < t" and "t \<le> fuel"
  shows "\<exists>s' d' i'. grow hash fuel s d (2 ^ i) = Inr (s', d') \<and> i < i' \<and> i' \<le> i + t \<and> db_inv hash s' d' \<and>
    keys s' d' = keys s d \<and> db_name d' = db_name d \<and> db_size d' = 2 ^ i' \<and>
    used (data s' (db_entry d')) \<le> used (data s (db_entry d))"
  using assms
proof (induction fuel arbitrary: s d i t)
  case (Suc fuel)
  have sz: "(2 :: nat) ^ i * 2 = 2 ^ (i + 1)" by simp
  from db_rehash_ok[OF Suc.prems(1), of "i + 1"] obtain s1 d1 r where
    r: "db_rehash hash s d (2 ^ (i + 1)) = Inr (s1, d1, r)" "db_inv hash s1 d1" "keys s1 d1 = keys s d"
      "db_name d1 = db_name d" "used (data s1 (db_entry d1)) \<le> used (data s (db_entry d))"
      "db_size d1 = (if r then 2 ^ (i + 1) else db_size d)" "\<not> r \<longrightarrow> d1 = d"
      "used (data s (db_entry d)) \<le> room (i + 1) \<longrightarrow> r" by blast
  show ?case
  proof (cases r)
    case True
    then have "grow hash (Suc fuel) s d (2 ^ i) = Inr (s1, d1)"
      unfolding grow.simps sz r(1) by simp
    with r True Suc.prems(3) show ?thesis
      by (intro exI[of _ s1] exI[of _ d1] exI[of _ "i + 1"]) simp
  next
    case False
    then have "t \<noteq> 1" using r(8) Suc.prems(2) by auto
    then have t: "0 < t - 1" "t - 1 \<le> fuel" "i + 1 + (t - 1) = i + t" using Suc.prems(3,4) by auto
    have "used (data s1 (db_entry d1)) \<le> room (i + 1 + (t - 1))"
      unfolding t(3) using r(5) Suc.prems(2) by (rule order_trans)
    from Suc.IH[OF r(2) this t(1,2)] obtain s2 d2 i' where
      g: "grow hash fuel s1 d1 (2 ^ (i + 1)) = Inr (s2, d2)" "i + 1 < i'" "i' \<le> i + 1 + (t - 1)"
        "db_inv hash s2 d2" "keys s2 d2 = keys s1 d1" "db_name d2 = db_name d1" "db_size d2 = 2 ^ i'"
        "used (data s2 (db_entry d2)) \<le> used (data s1 (db_entry d1))" by blast
    have "grow hash (Suc fuel) s d (2 ^ i) = Inr (s2, d2)"
      unfolding grow.simps sz r(1) using False g(1) by simp
    with g r t(3) show ?thesis by (intro exI[of _ s2] exI[of _ d2] exI[of _ i']) simp
  qed
qed simp

lemma db_inv_write:
  assumes "db_inv hash s d" and "length es = db_size d" and "db_ok hash es"
  shows "db_inv hash (s\<lparr>data := (data s)(db_entry d := es)\<rparr>) d"
  using assms by (simp add: db_inv_def)

lemma db_insert_ok:
  assumes "db_inv hash s d" and "db_size d = 2 ^ i" and "used (data s (db_entry d)) + 1 \<le> room (i + t)"
    and "t < fuel" and "str \<noteq> []"
  shows "\<exists>s' d' i'. db_insert hash fuel s d str = Inr (s', d') \<and> db_inv hash s' d' \<and>
    db_name d' = db_name d \<and> keys s' d' = insert (take ENT_LENGTH str) (keys s d) \<and>
    db_size d' = 2 ^ i' \<and> i \<le> i' \<and> i' \<le> i + t \<and>
    used (data s' (db_entry d')) \<le> used (data s (db_entry d)) + 1"
  using assms
proof (induction fuel arbitrary: s d i t)
  case (Suc fuel)
  let ?es = "data s (db_entry d)"
  have ok: "db_ok hash ?es" "db_size d = length ?es" using Suc.prems(1) by (simp_all add: db_inv_def)
  from db_do_insert[OF ok Suc.prems(5)] obtain es r where
    a: "db_do hash s d str DB_INSERT = Inr (s\<lparr>data := (data s)(db_entry d := es)\<rparr>, r)"
      "length es = db_size d" "db_ok hash es" "used es \<le> used ?es + 1"
    and r: "if r then stored es = insert (take ENT_LENGTH str) (stored ?es) else es = ?es"
    and cap: "\<forall>j. db_size d = 2 ^ j \<and> used ?es < room j \<longrightarrow> r" by blast
  let ?s1 = "s\<lparr>data := (data s)(db_entry d := es)\<rparr>"
  have inv1: "db_inv hash ?s1 d" using Suc.prems(1) a(2,3) by (rule db_inv_write)
  show ?case
  proof (cases r)
    case True
    then have "db_insert hash (Suc fuel) s d str = Inr (?s1, d)" by (simp add: a(1))
    with True r inv1 a(4) Suc.prems(2) show ?thesis
      by (intro exI[of _ ?s1] exI[of _ d] exI[of _ i]) (simp add: keys_def)
  next
    case False
    then have es: "es = ?es" using r by simp
    have "t \<noteq> 0"
    proof
      assume "t = 0"
      then have "used ?es < room i" using Suc.prems(3) by simp
      with cap Suc.prems(2) False show False by blast
    qed
    then have t: "0 < t" "t \<le> Suc fuel" using Suc.prems(4) by auto
    have us: "used (data ?s1 (db_entry d)) = used ?es" by (simp add: es)
    have "used (data ?s1 (db_entry d)) \<le> room (i + t)" unfolding us using Suc.prems(3) by simp
    from grow_ok[OF inv1 this t] obtain s2 d2 i' where
      g: "grow hash (Suc fuel) ?s1 d (2 ^ i) = Inr (s2, d2)" "i < i'" "i' \<le> i + t" "db_inv hash s2 d2"
        "keys s2 d2 = keys ?s1 d" "db_name d2 = db_name d" "db_size d2 = 2 ^ i'"
        "used (data s2 (db_entry d2)) \<le> used (data ?s1 (db_entry d))" by blast
    have "i' + (i + t - i') = i + t" using g(3) by simp
    then have "used (data s2 (db_entry d2)) + 1 \<le> room (i' + (i + t - i'))"
      using g(8) us Suc.prems(3) by simp
    moreover have "i + t - i' < fuel" using g(2,3) Suc.prems(4) by linarith
    ultimately obtain s3 d3 k where
      3: "db_insert hash fuel s2 d2 str = Inr (s3, d3)" "db_inv hash s3 d3" "db_name d3 = db_name d2"
        "keys s3 d3 = insert (take ENT_LENGTH str) (keys s2 d2)" "db_size d3 = 2 ^ k" "i' \<le> k"
        "k \<le> i' + (i + t - i')" "used (data s3 (db_entry d3)) \<le> used (data s2 (db_entry d2)) + 1"
      using Suc.IH[OF g(4,7) _ _ Suc.prems(5)] by blast
    have "keys ?s1 d = keys s d" by (simp add: keys_def es)
    moreover have "db_insert hash (Suc fuel) s d str = Inr (s3, d3)"
      using False 3(1) g(1) by (simp add: a(1) Suc.prems(2) del: grow.simps)
    ultimately show ?thesis using 3 g(2,3,5,6,8) us
      by (intro exI[of _ s3] exI[of _ d3] exI[of _ k]) simp
  qed
qed simp

text \<open>17 rounds are always enough: 16 doublings give four times as long chains as there are slots now.\<close>

lemma db_insert_17:
  assumes "db_inv hash s d" and "db_size d = 2 ^ i" and "i \<le> 29" and "str \<noteq> []"
  shows "\<exists>s' d' i'. db_insert hash 17 s d str = Inr (s', d') \<and> db_inv hash s' d' \<and>
    db_name d' = db_name d \<and> keys s' d' = insert (take ENT_LENGTH str) (keys s d) \<and>
    db_size d' = 2 ^ i' \<and> i \<le> i' \<and> i' \<le> i + 16"
proof -
  have "used (data s (db_entry d)) \<le> 2 ^ i"
    using used_le[of "data s (db_entry d)"] assms(1,2) by (simp add: db_inv_def)
  then have "used (data s (db_entry d)) + 1 \<le> room (i + 16)" using assms(3) by (rule room_enough)
  from db_insert_ok[OF assms(1,2) this _ assms(4), of 17] show ?thesis by auto
qed

lemma db_query_keys:
  assumes "db_inv hash s d" and "str \<noteq> []"
  shows "db_do hash s d str DB_QUERY = Inr (s, take ENT_LENGTH str \<in> keys s d)"
proof -
  have "s\<lparr>data := (data s)(db_entry d := data s (db_entry d))\<rparr> = s" by simp
  with assms db_action_query[of hash "data s (db_entry d)" str] show ?thesis
    by (simp add: db_do_def db_inv_def keys_def)
qed

section \<open>The line reader\<close>

definition strip_cr :: "string \<Rightarrow> string" where
  "strip_cr l = (if l \<noteq> [] \<and> last l = CR then butlast l else l)"

function split_lines :: "string \<Rightarrow> string list" where
  "split_lines t =
     (if NL \<in> set t
      then strip_cr (takeWhile (\<lambda>x. x \<noteq> NL) t) # split_lines (tl (dropWhile (\<lambda>x. x \<noteq> NL) t))
      else [t])"
  by pat_completeness auto
termination
proof (relation "measure length", goal_cases)
  case (2 t)
  have "dropWhile (\<lambda>x. x \<noteq> NL) t \<noteq> []" using 2 by (simp add: dropWhile_eq_Nil_conv)
  moreover have "length (dropWhile (\<lambda>x. x \<noteq> NL) t) \<le> length t" by (rule length_dropWhile_le)
  ultimately show ?case by (cases "dropWhile (\<lambda>x. x \<noteq> NL) t") auto
qed simp

declare split_lines.simps [simp del]

lemma split_lines_NL: "NL \<notin> set l \<Longrightarrow> split_lines (l @ NL # t) = strip_cr l # split_lines t"
  by (subst split_lines.simps) (simp add: takeWhile_append dropWhile_append)

lemma split_lines_last: "NL \<notin> set l \<Longrightarrow> split_lines l = [l]"
  by (subst split_lines.simps) simp

definition do_key ::
  "hash_fn \<Rightarrow> nat \<Rightarrow> fs \<Rightarrow> db \<Rightarrow> op_t \<Rightarrow> string list \<Rightarrow> string \<Rightarrow> (fs \<times> db \<times> string list) run" where
  "do_key hash fuel s d mode out str =
     (if str = [] then Inr (s, d, out)
      else case mode of
             DB_INSERT \<Rightarrow> bind_run (db_insert hash fuel s d str) (\<lambda>(s1, d1). Inr (s1, d1, out))
           | DB_QUERY \<Rightarrow> bind_run (db_do hash s d str DB_QUERY) (\<lambda>(s1, found).
               Inr (s1, d, out @ [if found then ''YES'' else ''NO''])))"

fun do_keys ::
  "hash_fn \<Rightarrow> nat \<Rightarrow> fs \<Rightarrow> db \<Rightarrow> op_t \<Rightarrow> string list \<Rightarrow> string list \<Rightarrow> (fs \<times> db \<times> string list) run" where
  "do_keys hash fuel s d mode out [] = Inr (s, d, out)"
| "do_keys hash fuel s d mode out (k # ks) =
     bind_run (do_key hash fuel s d mode out k) (\<lambda>(s1, d1, out1). do_keys hash fuel s1 d1 mode out1 ks)"

lemma strchr_nl_skip:
  "NL \<notin> set l \<Longrightarrow> NUL \<notin> set l \<Longrightarrow> strchr_nl (pre @ l @ z) (length pre) = strchr_nl (pre @ l @ z) (length pre + length l)"
proof (induction l arbitrary: pre)
  case (Cons x l)
  have "strchr_nl (pre @ (x # l) @ z) (length pre) = strchr_nl (pre @ (x # l) @ z) (length pre + 1)"
    using Cons.prems by (subst strchr_nl.simps) (auto simp: nth_append)
  also have "\<dots> = strchr_nl ((pre @ [x]) @ l @ z) (length (pre @ [x]) + length l)"
    using Cons.IH[of "pre @ [x]"] Cons.prems by simp
  finally show ?case by simp
qed simp

lemma strchr_nl_found:
  assumes "NL \<notin> set l" and "NUL \<notin> set l"
  shows "strchr_nl (pre @ l @ NL # z) (length pre) = Inr (Some (length pre + length l))"
    and "strchr_nl (pre @ l @ NUL # z) (length pre) = Inr None"
    and "strchr_nl (pre @ l) (length pre) = Inl Out_of_bounds"
  using strchr_nl_skip[OF assms, of pre "NL # z"] strchr_nl_skip[OF assms, of pre "NUL # z"]
    strchr_nl_skip[OF assms, of pre "[]"]
  by (subst (asm) (4) strchr_nl.simps, subst (asm) (2) strchr_nl.simps; simp add: nth_append strchr_nl.simps)+

lemma c_string_at: "NUL \<notin> set k \<Longrightarrow> c_string (pre @ k @ NUL # z) (length pre) = k"
  by (simp add: c_string_def takeWhile_append)

lemma nth_at: "(pre @ k @ NUL # z) ! length pre \<noteq> NUL \<longleftrightarrow> k \<noteq> [] \<and> hd k \<noteq> NUL"
  by (cases k) (simp_all add: nth_append)

lemma strip_cr_NUL: "NUL \<notin> set l \<Longrightarrow> NUL \<notin> set (strip_cr l)"
  by (auto simp: strip_cr_def dest: in_set_butlastD)

lemma consume_line_key:
  assumes "strchr_nl m (length pre) = Inr endp" and "NUL \<notin> set k"
    and "(case endp of
            None \<Rightarrow> m
          | Some e \<Rightarrow> (if length pre < e \<and> m ! (e - 1) = CR then m[e - 1 := NUL] else m)[e := NUL]) =
         pre @ k @ NUL # z"
  shows "consume_line hash fuel m (length pre) s d mode out =
    bind_run (do_key hash fuel s d mode out k) (\<lambda>(s1, d1, out1).
      Inr (pre @ k @ NUL # z, s1, d1, out1, map_option Suc endp))"
proof -
  have "k \<noteq> [] \<Longrightarrow> hd k \<noteq> NUL" using assms(2) hd_in_set by metis
  then have nul: "(pre @ k @ NUL # z) ! length pre \<noteq> NUL \<longleftrightarrow> k \<noteq> []" unfolding nth_at by blast
  have bind_swap: "bind_run (bind_run r f) g = bind_run r (\<lambda>x. bind_run (f x) g)" for r :: "'x run" and f :: "'x \<Rightarrow> 'y run" and g :: "'y \<Rightarrow> 'z run"
    by (cases r) auto
  show ?thesis
    unfolding consume_line_def assms(1) bind_run.simps Let_def assms(3) nul c_string_at[OF assms(2)]
    by (auto simp: do_key_def bind_swap split: op_t.split prod.split intro!: arg_cong[of _ _ "bind_run _"] ext)
qed

text \<open>A line that ends with a new line: it is cut out of the buffer, without its carriage return.\<close>

lemma consume_line_NL:
  assumes "NL \<notin> set l" and "NUL \<notin> set l"
  shows "\<exists>pre'. length pre' = length pre + length l + 1 \<and>
    consume_line hash fuel (pre @ l @ NL # z) (length pre) s d mode out =
    bind_run (do_key hash fuel s d mode out (strip_cr l)) (\<lambda>(s1, d1, out1).
      Inr (pre' @ z, s1, d1, out1, Some (length pre')))"
proof (cases "l \<noteq> [] \<and> last l = CR")
  case True
  define k where "k = butlast l"
  have l: "l = k @ [CR]" using True append_butlast_last_id[of l] by (simp add: k_def)
  let ?pre = "pre @ k @ [NUL, NUL]" and ?e = "length pre + length l"
  have m: "(if length pre < ?e \<and> (pre @ l @ NL # z) ! (?e - 1) = CR
      then (pre @ l @ NL # z)[?e - 1 := NUL] else pre @ l @ NL # z)[?e := NUL] = pre @ k @ NUL # NUL # z"
    by (simp add: l nth_append list_update_append)
  have sk: "strip_cr l = k" using True by (simp add: strip_cr_def k_def)
  have "NUL \<notin> set k" using assms(2) by (simp add: l)
  from consume_line_key[OF strchr_nl_found(1)[OF assms] this, of pre z "NUL # z"] m
  show ?thesis by (intro exI[of _ ?pre]) (simp add: l sk[unfolded l])
next
  case False
  let ?pre = "pre @ l @ [NUL]" and ?e = "length pre + length l"
  have nc: "\<not> (length pre < ?e \<and> (pre @ l @ NL # z) ! (?e - 1) = CR)"
    using False by (cases l rule: rev_cases) (auto simp: nth_append)
  have m: "(pre @ l @ NL # z)[?e := NUL] = pre @ l @ NUL # z" by (simp add: list_update_append)
  have "(case Some ?e of
            None \<Rightarrow> pre @ l @ NL # z
          | Some e \<Rightarrow> (if length pre < e \<and> (pre @ l @ NL # z) ! (e - 1) = CR
                       then (pre @ l @ NL # z)[e - 1 := NUL] else pre @ l @ NL # z)[e := NUL]) =
         pre @ l @ NUL # z"
    by (simp only: option.case if_not_P[OF nc] m)
  note key = consume_line_key[OF strchr_nl_found(1)[OF assms] assms(2) this]
  have "strip_cr l = l" using False by (auto simp: strip_cr_def)
  with key show ?thesis by (intro exI[of _ ?pre]) simp
qed

lemma split_at_NL:
  assumes "NL \<in> set t"
  obtains l r where "t = l @ NL # r" "NL \<notin> set l"
  using assms split_list_first by metis

text \<open>The reader is a fold over the lines of the text, errors included.\<close>

lemma consume_all_lines:
  "NUL \<notin> set t \<Longrightarrow> length t < n \<Longrightarrow>
     consume_all hash fuel n (pre @ t @ NUL # z) (length pre) s d mode out =
     do_keys hash fuel s d mode out (split_lines t)"
proof (induction n arbitrary: t pre s d out)
  case (Suc n)
  show ?case
  proof (cases "NL \<in> set t")
    case True
    then obtain l r where t: "t = l @ NL # r" and nl: "NL \<notin> set l" by (rule split_at_NL)
    have nul: "NUL \<notin> set l" "NUL \<notin> set r" "length r < n" using Suc.prems by (auto simp: t)
    from consume_line_NL[OF nl nul(1), of pre hash fuel "r @ NUL # z" s d mode out] obtain pre' where
      c: "consume_line hash fuel (pre @ l @ NL # r @ NUL # z) (length pre) s d mode out =
        bind_run (do_key hash fuel s d mode out (strip_cr l)) (\<lambda>(s1, d1, out1).
          Inr (pre' @ r @ NUL # z, s1, d1, out1, Some (length pre')))" by blast
    show ?thesis
    proof (cases "do_key hash fuel s d mode out (strip_cr l)")
      case (Inr res)
      obtain s1 d1 o1 where "res = (s1, d1, o1)" by (cases res)
      with Inr c Suc.IH[OF nul(2,3)] show ?thesis by (simp add: t split_lines_NL[OF nl])
    qed (simp add: t c split_lines_NL[OF nl])
  next
    case False
    have "consume_line hash fuel (pre @ t @ NUL # z) (length pre) s d mode out =
        bind_run (do_key hash fuel s d mode out t) (\<lambda>(s1, d1, out1).
          Inr (pre @ t @ NUL # z, s1, d1, out1, None))"
      using consume_line_key[OF strchr_nl_found(2)[OF False Suc.prems(1)] Suc.prems(1), of pre z z] by simp
    then show ?thesis
      by (cases "do_key hash fuel s d mode out t") (auto simp: split_lines_last[OF False])
  qed
qed simp

text \<open>Without a zero after the text the search for the last new line leaves the mapping.\<close>

lemma consume_all_overrun:
  "NUL \<notin> set t \<Longrightarrow> length t < n \<Longrightarrow> (\<And>k out. \<exists>out'. do_key hash fuel s d mode out k = Inr (s, d, out')) \<Longrightarrow>
     consume_all hash fuel n (pre @ t) (length pre) s d mode out = Inl Out_of_bounds"
proof (induction n arbitrary: t pre out)
  case (Suc n)
  show ?case
  proof (cases "NL \<in> set t")
    case True
    then obtain l r where t: "t = l @ NL # r" and nl: "NL \<notin> set l" by (rule split_at_NL)
    have nul: "NUL \<notin> set l" "NUL \<notin> set r" "length r < n" using Suc.prems by (auto simp: t)
    from consume_line_NL[OF nl nul(1), of pre hash fuel r s d mode out] obtain pre' where
      c: "consume_line hash fuel (pre @ l @ NL # r) (length pre) s d mode out =
        bind_run (do_key hash fuel s d mode out (strip_cr l)) (\<lambda>(s1, d1, out1).
          Inr (pre' @ r, s1, d1, out1, Some (length pre')))" by blast
    obtain o1 where "do_key hash fuel s d mode out (strip_cr l) = Inr (s, d, o1)"
      using Suc.prems(3) by blast
    with c Suc.IH[OF nul(2,3) Suc.prems(3)] show ?thesis by (simp add: t)
  next
    case False
    then show ?thesis
      using strchr_nl_found(3)[OF False Suc.prems(1), of pre] by (simp add: consume_line_def)
  qed
qed simp

section \<open>Whole runs\<close>

lemma do_keys_query:
  assumes "db_inv hash s d"
  shows "do_keys hash fuel s d DB_QUERY out ks =
    Inr (s, d, out @ map (\<lambda>k. if take ENT_LENGTH k \<in> keys s d then ''YES'' else ''NO'') (filter (\<lambda>k. k \<noteq> []) ks))"
  by (induction ks arbitrary: out) (simp_all add: do_key_def db_query_keys[OF assms])

lemma do_keys_insert:
  assumes "db_inv hash s d" and "db_size d = 2 ^ i" and "i \<le> J"
    and "used (data s (db_entry d)) + length ks \<le> room J" and "J < fuel"
  shows "\<exists>s' d' i'. do_keys hash fuel s d DB_INSERT out ks = Inr (s', d', out) \<and> db_inv hash s' d' \<and>
    db_name d' = db_name d \<and> keys s' d' = keys s d \<union> take ENT_LENGTH ` (set ks - {[]}) \<and>
    db_size d' = 2 ^ i' \<and> i' \<le> J"
  using assms
proof (induction ks arbitrary: s d i)
  case (Cons k ks)
  show ?case
  proof (cases "k = []")
    case True
    with Cons.IH[OF Cons.prems(1-3)] Cons.prems(4,5) show ?thesis by (auto simp: do_key_def)
  next
    case False
    have "used (data s (db_entry d)) + 1 \<le> room (i + (J - i))" "J - i < fuel"
      using Cons.prems(3-5) by auto
    from db_insert_ok[OF Cons.prems(1,2) this False] obtain s1 d1 i1 where
      1: "db_insert hash fuel s d k = Inr (s1, d1)" "db_inv hash s1 d1" "db_name d1 = db_name d"
        "keys s1 d1 = insert (take ENT_LENGTH k) (keys s d)" "db_size d1 = 2 ^ i1" "i1 \<le> i + (J - i)"
        "used (data s1 (db_entry d1)) \<le> used (data s (db_entry d)) + 1" by blast
    have "i1 \<le> J" "used (data s1 (db_entry d1)) + length ks \<le> room J"
      using 1(6,7) Cons.prems(3,4) by auto
    from Cons.IH[OF 1(2,5) this Cons.prems(5)] obtain s2 d2 i2 where
      2: "do_keys hash fuel s1 d1 DB_INSERT out ks = Inr (s2, d2, out)" "db_inv hash s2 d2"
        "db_name d2 = db_name d1" "keys s2 d2 = keys s1 d1 \<union> take ENT_LENGTH ` (set ks - {[]})"
        "db_size d2 = 2 ^ i2" "i2 \<le> J" by blast
    have "do_keys hash fuel s d DB_INSERT out (k # ks) = Inr (s2, d2, out)"
      using False 1(1) 2(1) by (simp add: do_key_def)
    moreover have "keys s2 d2 = keys s d \<union> take ENT_LENGTH ` (set (k # ks) - {[]})"
      using 1(4) 2(4) False by auto
    ultimately show ?thesis using 1(3) 2(2,3,5,6) by auto
  qed
qed auto

lemma db_open_existing:
  assumes "db_inv hash s d"
  shows "db_open s (db_name d) 0 = Inr (s, d)"
proof -
  have "data s (db_entry d) \<noteq> []" "db_size d = length (data s (db_entry d))"
    using assms by (auto simp: db_inv_def db_ok_def)
  moreover have "ftruncate (length es) es = es" for es by (simp add: ftruncate_def)
  ultimately show ?thesis using assms
    by (simp add: db_open_def powerof2_def db_inv_def Let_def)
qed

lemma db_open_fresh:
  assumes "names s path = None" and "names s (path @ ''.rehash'') = None"
  shows "\<exists>s' d. db_open s path 0 = Inr (s', d) \<and> db_inv hash s' d \<and> db_name d = path \<and> db_size d = 1 \<and>
           keys s' d = {} \<and> used (data s' (db_entry d)) = 0"
  using assms by (simp add: db_open_def powerof2_def db_inv_def ftruncate_def db_ok_def keys_def stored_def used_def)

lemma map_file_text:
  assumes "length c mod PAGE \<noteq> 0"
  shows "\<exists>z. map_file c = Inr (c @ NUL # z)"
proof -
  have "c \<noteq> []" using assms by auto
  moreover have "PAGE - length c mod PAGE \<noteq> 0" by simp
  then obtain k where "PAGE - length c mod PAGE = Suc k" using not0_implies_Suc by blast
  ultimately show ?thesis using assms by (simp add: map_file_def del: mod_less_divisor)
qed

lemma doit_lines:
  assumes "db_open s path 0 = Inr (s1, d)" and "NUL \<notin> set c" and "length c mod PAGE \<noteq> 0"
  shows "doit hash fuel s path mode c = do_keys hash fuel s1 d mode [] (split_lines c)"
proof -
  obtain z where "map_file c = Inr (c @ NUL # z)" using map_file_text[OF assms(3)] by blast
  with assms(1) consume_all_lines[OF assms(2), of "length (c @ NUL # z) + 1" hash fuel "[]" z s1 d mode "[]"]
  show ?thesis by (simp add: doit_def)
qed

section \<open>Properties\<close>

text \<open>C8: inserting a key in a well-formed database whose size is a power of two up to
  \<open>2 ^ 29\<close> ends after at most 17 rounds of each loop, whatever the hash function: the key, cut
  to 48 characters, is stored in addition to the keys before, the database file stays well
  formed, and no temporary file is left.\<close>

theorem hashdb_insert_ok:
  assumes "db_inv hash s d" and "db_size d = 2 ^ i" and "i \<le> 29" and "str \<noteq> []"
  shows "\<exists>s' d' i'. db_insert hash 17 s d str = Inr (s', d') \<and> db_inv hash s' d' \<and>
    db_name d' = db_name d \<and> keys s' d' = insert (take ENT_LENGTH str) (keys s d) \<and>
    db_size d' = 2 ^ i' \<and> i \<le> i' \<and> i' \<le> i + 16"
  by (rule db_insert_17[OF assms])

definition demo_fs :: fs where
  "demo_fs = \<lparr>names = [''db'' \<mapsto> 0], data = (\<lambda>_. [[]]), next_ino = 1\<rparr>"

definition demo_db :: db where
  "demo_db = \<lparr>db_entry = 0, db_size = 1, db_name = ''db''\<rparr>"

lemma demo_db_inv: "db_inv hash demo_fs demo_db"
  by (simp add: db_inv_def demo_fs_def demo_db_def db_ok_def)

lemma demo_data: "data demo_fs (db_entry demo_db) = [[]]"
  by (simp add: demo_fs_def)

lemma demo_used: "used (data demo_fs (db_entry demo_db)) = 0"
  unfolding demo_data by (simp add: used_filter)

lemma demo_keys: "keys demo_fs demo_db = {}"
  unfolding keys_def demo_data by (simp add: stored_def)

theorem hashdb_insert_ok_witness:
  "\<exists>s' d'. db_insert (\<lambda>_. 7) 17 demo_fs demo_db ''key'' = Inr (s', d') \<and> ''key'' \<in> keys s' d'"
  using hashdb_insert_ok[OF demo_db_inv, of 0 "''key''" "\<lambda>_. 7"] by (auto simp: demo_db_def)

text \<open>A query of a well-formed database answers whether the key, cut to 48 characters,
  is stored, and changes nothing.\<close>

theorem hashdb_query_ok:
  assumes "db_inv hash s d" and "str \<noteq> []"
  shows "db_do hash s d str DB_QUERY = Inr (s, take ENT_LENGTH str \<in> keys s d)"
  by (rule db_query_keys[OF assms])

theorem hashdb_query_ok_witness: "db_do (\<lambda>_. 7) demo_fs demo_db ''key'' DB_QUERY = Inr (demo_fs, False)"
  using hashdb_query_ok[OF demo_db_inv, of "''key''" "\<lambda>_. 7"]
  by (simp add: keys_def stored_def demo_fs_def)

text \<open>A rehash to a power of two either moves every key to the new file, which takes
  the name of the old one, or fails and leaves the database as it was with the new file
  removed; it succeeds when there are at most \<open>room j\<close> keys, for any hash function.\<close>

theorem hashdb_rehash_ok:
  assumes "db_inv hash s d"
  shows "\<exists>s' d' r. db_rehash hash s d (2 ^ j) = Inr (s', d', r) \<and> db_inv hash s' d' \<and> keys s' d' = keys s d \<and>
    db_name d' = db_name d \<and> db_size d' = (if r then 2 ^ j else db_size d) \<and>
    (used (data s (db_entry d)) \<le> room j \<longrightarrow> r)"
  using db_rehash_ok[OF assms, of j] by blast

theorem hashdb_rehash_ok_witness:
  "\<exists>s' d' r. db_rehash (\<lambda>_. 7) demo_fs demo_db (2 ^ 4) = Inr (s', d', r) \<and> db_size d' = 16"
proof -
  obtain s' d' r where w: "db_rehash (\<lambda>_. 7) demo_fs demo_db (2 ^ 4) = Inr (s', d', r)"
    "db_size d' = (if r then 2 ^ 4 else db_size demo_db)"
    "used (data demo_fs (db_entry demo_db)) \<le> room 4 \<longrightarrow> r"
    using hashdb_rehash_ok[OF demo_db_inv, of "\<lambda>_. 7" 4] by blast
  then have "db_size d' = 16" by (simp add: demo_used)
  with w(1) show ?thesis by blast
qed

text \<open>Opening the file of a well-formed database again gives the same database.\<close>

theorem hashdb_reopen:
  assumes "db_inv hash s d"
  shows "db_open s (db_name d) 0 = Inr (s, d)"
  by (rule db_open_existing[OF assms])

theorem hashdb_reopen_witness: "db_open demo_fs ''db'' 0 = Inr (demo_fs, demo_db)"
  using hashdb_reopen[OF demo_db_inv] by (simp add: demo_db_def)

text \<open>C3: a run with \<open>-i\<close> that creates the database from one text, followed by a run with
  \<open>-q\<close> on another, answers for every non-empty line of the second text whether some line of
  the first agrees with it on 48 characters. Neither text contains a zero byte or fills its last
  page, and the first has at most \<open>2 ^ 29\<close> lines.\<close>

theorem hashdb_session:
  assumes "names s path = None" and "names s (path @ ''.rehash'') = None"
    and "NUL \<notin> set c" and "length c mod PAGE \<noteq> 0" and "length (split_lines c) \<le> 2 ^ 29"
    and "NUL \<notin> set q" and "length q mod PAGE \<noteq> 0"
  shows "\<exists>s1 d1. doit hash 46 s path DB_INSERT c = Inr (s1, d1, []) \<and>
    doit hash 46 s1 path DB_QUERY q = Inr (s1, d1,
      map (\<lambda>k. if take ENT_LENGTH k \<in> take ENT_LENGTH ` (set (split_lines c) - {[]}) then ''YES'' else ''NO'')
        (filter (\<lambda>k. k \<noteq> []) (split_lines q)))"
proof -
  obtain s0 d where o1: "db_open s path 0 = Inr (s0, d)" "db_inv hash s0 d" "db_name d = path"
    "db_size d = 2 ^ 0" "keys s0 d = {}" "used (data s0 (db_entry d)) = 0"
    using db_open_fresh[OF assms(1,2), of hash] by auto
  have "length (split_lines c) + 1 \<le> room (29 + 16)" using assms(5) by (rule room_enough) simp
  then have "used (data s0 (db_entry d)) + length (split_lines c) \<le> room 45" using o1(6) by simp
  from do_keys_insert[OF o1(2,4) _ this, of 46 "[]"] obtain s1 d1 where
    i: "do_keys hash 46 s0 d DB_INSERT [] (split_lines c) = Inr (s1, d1, [])" "db_inv hash s1 d1"
      "db_name d1 = path" "keys s1 d1 = take ENT_LENGTH ` (set (split_lines c) - {[]})"
    using o1(3,5) by auto
  have "db_open s1 path 0 = Inr (s1, d1)" using db_open_existing[OF i(2)] i(3) by simp
  then have "doit hash 46 s1 path DB_QUERY q = do_keys hash 46 s1 d1 DB_QUERY [] (split_lines q)"
    using assms(6,7) by (rule doit_lines)
  with doit_lines[OF o1(1) assms(3,4), of hash 46 DB_INSERT] i(1) do_keys_query[OF i(2), of 46 "[]"] i(4)
  show ?thesis by auto
qed

theorem hashdb_session_witness:
  "\<exists>s d. doit (\<lambda>_. 7) 46 demo_fs ''new'' DB_INSERT (''ab'' @ [CR, NL] @ ''cd'') = Inr (s, d, []) \<and>
     doit (\<lambda>_. 7) 46 s ''new'' DB_QUERY (''ab'' @ [NL, NL] @ ''x'') = Inr (s, d, [''YES'', ''NO''])"
proof -
  have c: "split_lines (''ab'' @ [CR, NL] @ ''cd'') = [''ab'', ''cd'']"
    using split_lines_NL[of "''ab'' @ [CR]" "''cd''"] split_lines_last[of "''cd''"] by (simp add: strip_cr_def)
  have q: "split_lines (''ab'' @ [NL, NL] @ ''x'') = [''ab'', [], ''x'']"
    using split_lines_NL[of "''ab''" "NL # ''x''"] split_lines_NL[of "[]" "''x''"] split_lines_last[of "''x''"]
    by (simp add: strip_cr_def)
  from hashdb_session[of demo_fs "''new''" "''ab'' @ [CR, NL] @ ''cd''" "''ab'' @ [NL, NL] @ ''x''" "\<lambda>_. 7"]
  show ?thesis unfolding c q by (simp add: demo_fs_def)
qed

text \<open>Reading a text in place is the same as splitting it at the new lines, dropping one
  carriage return before each, and running the operation on the non-empty lines in order: same
  result, same errors.\<close>

theorem hashdb_reader:
  assumes "db_open s path 0 = Inr (s1, d)" and "NUL \<notin> set c" and "length c mod PAGE \<noteq> 0"
  shows "doit hash fuel s path mode c = do_keys hash fuel s1 d mode [] (split_lines c)"
  by (rule doit_lines[OF assms])

theorem hashdb_reader_witness:
  "doit (\<lambda>_. 7) 17 demo_fs ''db'' DB_QUERY ''ab'' = Inr (demo_fs, demo_db, [''NO''])"
proof -
  have "db_open demo_fs ''db'' 0 = Inr (demo_fs, demo_db)"
    using db_open_existing[OF demo_db_inv] by (simp add: demo_db_def)
  then have "doit (\<lambda>_. 7) 17 demo_fs ''db'' DB_QUERY ''ab'' =
      do_keys (\<lambda>_. 7) 17 demo_fs demo_db DB_QUERY [] (split_lines ''ab'')"
    by (rule hashdb_reader) simp_all
  also have "split_lines ''ab'' = [''ab'']" by (simp add: split_lines_last)
  finally show ?thesis unfolding do_keys_query[OF demo_db_inv] demo_keys by simp
qed

text \<open>When the input file fills its last page exactly, the search for the end of the
  last line runs past the mapping.\<close>

theorem hashdb_overrun:
  assumes "db_inv hash s d" and "NUL \<notin> set c" and "c \<noteq> []" and "length c mod PAGE = 0"
  shows "doit hash fuel s (db_name d) DB_QUERY c = Inl Out_of_bounds"
proof -
  have k: "\<exists>out'. do_key hash fuel s d DB_QUERY out k = Inr (s, d, out')" for k out
    by (simp add: do_key_def db_query_keys[OF assms(1)])
  have "map_file c = Inr ([] @ c)" using assms(3,4) by (simp add: map_file_def)
  with consume_all_overrun[OF assms(2) _ k, of "length c + 1" "[]" "[]"] db_open_existing[OF assms(1)]
  show ?thesis by (simp add: doit_def)
qed

theorem hashdb_overrun_witness:
  "doit (\<lambda>_. 7) 17 demo_fs ''db'' DB_QUERY (replicate 4096 NL) = Inl Out_of_bounds"
  using hashdb_overrun[OF demo_db_inv, of "replicate 4096 NL" "\<lambda>_. 7" 17] by (simp add: demo_db_def)

end
