(* ===== verification/Coro.thy ===== *)
theory Coro
  imports Prelude
begin

text \<open>
  The coroutines of \<open>3/so21_lista_3/coro.c\<close>: three coroutines on a run queue pass
  characters along by \<open>setjmp\<close> and \<open>longjmp\<close>. A saved context is the place where its coroutine
  will go on together with the locals kept on its stack (\<open>frame\<close>); \<open>longjmp\<close> with 0 is
  seen as 1 by \<open>setjmp\<close>. The run queue is a list. The macro \<open>TAILQ_NEXT\<close> applied to an
  element that was just removed is a parameter \<open>nxt\<close> of the model: the code relies on the
  removed element keeping its link. The counters are natural numbers. What the coroutines
  report on standard error at their end is the list \<open>log\<close>; the tracing output is left out.
\<close>

section \<open>Characters (\<open>ctype.h\<close> in the C locale)\<close>

definition EOF :: int where
  "EOF = - 1"

definition NOTHING :: int where
  "NOTHING = - 2"

definition isspace :: "int \<Rightarrow> bool" where
  "isspace c \<longleftrightarrow> c = 32 \<or> 9 \<le> c \<and> c \<le> 13"

definition isupper :: "int \<Rightarrow> bool" where
  "isupper c \<longleftrightarrow> 65 \<le> c \<and> c \<le> 90"

definition islower :: "int \<Rightarrow> bool" where
  "islower c \<longleftrightarrow> 97 \<le> c \<and> c \<le> 122"

definition isalpha :: "int \<Rightarrow> bool" where
  "isalpha c \<longleftrightarrow> isupper c \<or> islower c"

section \<open>Saved contexts\<close>

text \<open>\<open>Enter f\<close> is the context made by \<open>coro_add\<close>; the others are the calls of
  \<open>coro_yield\<close> in the three bodies, with the locals that are live there.\<close>

datatype coro_fn = Func_1 | Func_2 | Func_3

datatype frame =
  Enter coro_fn
| In_1 nat i8 i8  (* words, prev_ch, ch *)
| In_2 nat        (* removed *)
| In_3 nat        (* printed *)

datatype outcome = Yields int frame | Returns nat

record world =
  stdin :: "i8 list"
  stdout :: "u8 list"
  log :: "(coro_fn \<times> nat) list"

section \<open>The three coroutines\<close>

fun func_1_loop :: "i8 list \<Rightarrow> nat \<Rightarrow> i8 \<Rightarrow> i8 \<Rightarrow> i8 list \<times> outcome" where
  "func_1_loop [] words prev_ch ch = ([], Returns (if isspace (sint ch) then words else words + 1))"
| "func_1_loop (c # cs) words prev_ch ch =
    (if isspace (sint c)
     then if isspace (sint prev_ch) then func_1_loop cs words prev_ch c
          else (cs, Yields (sint c) (In_1 (words + 1) prev_ch c))
     else (cs, Yields (sint c) (In_1 words prev_ch c)))"

definition func_1 :: "world \<Rightarrow> nat \<Rightarrow> i8 \<Rightarrow> i8 \<Rightarrow> world \<times> outcome" where
  "func_1 w words prev_ch ch =
    (let (rest, r) = func_1_loop (stdin w) words prev_ch ch in (w\<lparr>stdin := rest\<rparr>, r))"

definition func_2 :: "world \<Rightarrow> nat \<Rightarrow> int \<Rightarrow> world \<times> outcome" where
  "func_2 w removed ch =
    (w, if ch \<noteq> EOF
        then if \<not> isalpha ch then Yields NOTHING (In_2 (removed + 1)) else Yields ch (In_2 removed)
        else Returns removed)"

definition swap_case :: "int \<Rightarrow> int" where
  "swap_case ch = (if islower ch then ch - 32 else if isupper ch then ch + 32 else ch)"

definition func_3 :: "world \<Rightarrow> nat \<Rightarrow> int \<Rightarrow> world \<times> outcome" where
  "func_3 w printed ch =
    (if ch \<noteq> EOF
     then if ch \<noteq> NOTHING
          then (w\<lparr>stdout := stdout w @ [word_of_int (swap_case ch)]\<rparr>, Yields NOTHING (In_3 (printed + 1)))
          else (w, Yields NOTHING (In_3 printed))
     else (w, Returns printed))"

text \<open>Control arrives at a saved context with a value.\<close>

fun resume :: "frame \<Rightarrow> int \<Rightarrow> world \<Rightarrow> world \<times> outcome" where
  "resume (Enter Func_1) v w = func_1 w 0 32 0"
| "resume (Enter Func_2) v w = func_2 w 0 v"
| "resume (Enter Func_3) v w = func_3 w 0 v"
| "resume (In_1 words prev_ch ch) v w = func_1 w words ch ch"
| "resume (In_2 removed) v w = func_2 w removed v"
| "resume (In_3 printed) v w = func_3 w printed v"

section \<open>The run queue\<close>

record coros =
  runqueue :: "coro_fn list"
  running :: coro_fn
  co_ctx :: "coro_fn \<Rightarrow> frame"
  world_of :: world

fun tailq_next :: "coro_fn list \<Rightarrow> coro_fn \<Rightarrow> coro_fn option" where
  "tailq_next [] c = None"
| "tailq_next (x # xs) c = (if x = c then (case xs of [] \<Rightarrow> None | y # _ \<Rightarrow> Some y) else tailq_next xs c)"

definition longjmp_value :: "int \<Rightarrow> int" where
  "longjmp_value v = (if v = 0 then 1 else v)"

text \<open>Where control goes: to the running coroutine with a value, or back to \<open>coro_run\<close>.\<close>

datatype jump = To_coro coros int | To_dispatcher coros int

definition coro_switch :: "(coro_fn list \<Rightarrow> coro_fn \<Rightarrow> coro_fn option) \<Rightarrow> coros \<Rightarrow> int \<Rightarrow> jump" where
  "coro_switch nxt st v =
    (let curr = running st;
         q = (if v = EOF then remove1 curr (runqueue st) else runqueue st);
         st' = st\<lparr>runqueue := q\<rparr>
     in if v = EOF \<and> q = [] then To_dispatcher st' NOTHING
        else let next = (if v = EOF then nxt (runqueue st) curr else tailq_next q curr)
             in To_coro (st'\<lparr>running := (case next of Some c \<Rightarrow> c | None \<Rightarrow> hd q)\<rparr>) (longjmp_value v))"

definition coro_yield ::
  "(coro_fn list \<Rightarrow> coro_fn \<Rightarrow> coro_fn option) \<Rightarrow> coros \<Rightarrow> int \<Rightarrow> frame \<Rightarrow> jump" where
  "coro_yield nxt st v fr = coro_switch nxt (st\<lparr>co_ctx := (co_ctx st)(running st := fr)\<rparr>) v"

definition coro_add :: "coro_fn \<Rightarrow> coros \<Rightarrow> coros" where
  "coro_add co st = st\<lparr>co_ctx := (co_ctx st)(co := Enter co), runqueue := runqueue st @ [co]\<rparr>"

definition after_resume ::
  "(coro_fn list \<Rightarrow> coro_fn \<Rightarrow> coro_fn option) \<Rightarrow> coros \<Rightarrow> world \<times> outcome \<Rightarrow> jump" where
  "after_resume nxt st wr = (case wr of
     (w, Yields v fr) \<Rightarrow> coro_yield nxt (st\<lparr>world_of := w\<rparr>) v fr
   | (w, Returns n) \<Rightarrow> coro_switch nxt (st\<lparr>world_of := w\<lparr>log := log w @ [(running st, n)]\<rparr>\<rparr>) EOF)"

fun run_jump :: "(coro_fn list \<Rightarrow> coro_fn \<Rightarrow> coro_fn option) \<Rightarrow> nat \<Rightarrow> jump \<Rightarrow> (coros \<times> int) run" where
  "run_jump nxt fuel (To_dispatcher st v) = Inr (st, v)"
| "run_jump nxt 0 (To_coro st v) = Inl Still_running"
| "run_jump nxt (Suc fuel) (To_coro st v) =
    run_jump nxt fuel (after_resume nxt st (resume (co_ctx st (running st)) v (world_of st)))"

definition coro_run ::
  "(coro_fn list \<Rightarrow> coro_fn \<Rightarrow> coro_fn option) \<Rightarrow> nat \<Rightarrow> coros \<Rightarrow> int \<Rightarrow> (coros \<times> int) run" where
  "coro_run nxt fuel st v =
    (case runqueue st of
       [] \<Rightarrow> Inl Null_deref
     | c # _ \<Rightarrow> run_jump nxt fuel (To_coro (st\<lparr>running := c\<rparr>) (longjmp_value v)))"

definition coro_main :: "(coro_fn list \<Rightarrow> coro_fn \<Rightarrow> coro_fn option) \<Rightarrow> nat \<Rightarrow> i8 list \<Rightarrow> world run" where
  "coro_main nxt fuel input =
    (let st0 = \<lparr>runqueue = [], running = Func_1, co_ctx = Enter,
                world_of = \<lparr>stdin = input, stdout = [], log = []\<rparr>\<rparr>
     in bind_run (coro_run nxt fuel (coro_add Func_3 (coro_add Func_2 (coro_add Func_1 st0))) NOTHING)
          (\<lambda>(st, _). Inr (world_of st)))"

section \<open>What the pipeline computes\<close>

text \<open>The characters that the first coroutine passes on: a space is dropped at the beginning and
  after another space.\<close>

fun squeeze :: "i8 \<Rightarrow> i8 list \<Rightarrow> i8 list" where
  "squeeze prev [] = []"
| "squeeze prev (c # cs) =
    (if isspace (sint c) \<and> isspace (sint prev) then squeeze prev cs else c # squeeze c cs)"

text \<open>Words are counted at their last characters.\<close>

definition word_count :: "i8 list \<Rightarrow> nat" where
  "word_count cs = length (filter (\<lambda>i. \<not> isspace (sint (cs ! i)) \<and>
     (Suc i < length cs \<longrightarrow> isspace (sint (cs ! Suc i)))) [0..<length cs])"

definition letters :: "i8 list \<Rightarrow> i8 list" where
  "letters cs = filter (\<lambda>c. isalpha (sint c)) cs"

definition other_chars :: "i8 list \<Rightarrow> nat" where
  "other_chars cs = length (filter (\<lambda>c. \<not> isalpha (sint c)) cs)"

definition swap_byte :: "i8 \<Rightarrow> u8" where
  "swap_byte c = word_of_int (swap_case (sint c))"

lemma word_count_Nil [simp]: "word_count [] = 0"
  by (simp add: word_count_def)

lemma word_count_Cons:
  "word_count (c # cs) = (if \<not> isspace (sint c) \<and> (cs = [] \<or> isspace (sint (hd cs))) then 1 else 0) + word_count cs"
proof -
  have "[0..<length (c # cs)] = 0 # map Suc [0..<length cs]"
    by (simp add: map_Suc_upt upt_conv_Cons del: upt_Suc)
  then show ?thesis
    by (cases cs) (auto simp: word_count_def filter_map o_def simp del: upt_Suc)
qed

lemma squeeze_space: "isspace (sint a) = isspace (sint b) \<Longrightarrow> squeeze a cs = squeeze b cs"
  by (induction cs) simp_all

lemma squeeze_letters [simp]: "letters (squeeze prev cs) = letters cs"
  by (induction prev cs rule: squeeze.induct) (auto simp: letters_def isalpha_def isspace_def isupper_def islower_def)

lemma isalpha_not_special: "isalpha c \<Longrightarrow> c \<noteq> EOF \<and> c \<noteq> NOTHING \<and> c \<noteq> 0"
  by (auto simp: isalpha_def isupper_def islower_def EOF_def NOTHING_def)

lemma isalpha_special [simp]: "\<not> isalpha 1" "\<not> isalpha 0" "\<not> isalpha NOTHING"
  by (auto simp: isalpha_def isupper_def islower_def NOTHING_def)

lemma special_values [simp]: "NOTHING \<noteq> EOF" "EOF \<noteq> NOTHING" "1 \<noteq> EOF" "1 \<noteq> NOTHING"
  "longjmp_value EOF = EOF" "longjmp_value NOTHING = NOTHING"
  by (auto simp: NOTHING_def EOF_def longjmp_value_def)

lemma longjmp_value_EOF [simp]: "longjmp_value v = EOF \<longleftrightarrow> v = EOF"
  by (auto simp: longjmp_value_def EOF_def)

lemma isalpha_longjmp [simp]: "isalpha (longjmp_value v) = isalpha v"
  by (auto simp: longjmp_value_def)

section \<open>Rounds\<close>

text \<open>All three coroutines are alive, the first one runs, and the other two will go on with these
  counters.\<close>

definition ready :: "coros \<Rightarrow> nat \<Rightarrow> nat \<Rightarrow> bool" where
  "ready st r p \<longleftrightarrow> runqueue st = [Func_1, Func_2, Func_3] \<and> running st = Func_1 \<and>
     resume (co_ctx st Func_2) = resume (In_2 r) \<and> resume (co_ctx st Func_3) = resume (In_3 p)"

lemma round_trip:
  assumes "ready st r p" and "sint c \<noteq> EOF"
  obtains st' where "ready st' (r + (if isalpha (sint c) then 0 else 1)) (p + (if isalpha (sint c) then 1 else 0))"
    and "\<And>fuel. run_jump nxt (Suc (Suc (Suc fuel))) (coro_yield nxt (st\<lparr>world_of := w\<rparr>) (sint c) (In_1 words pc c)) =
      run_jump nxt fuel (after_resume nxt st'
        (func_1 (w\<lparr>stdout := stdout w @ map swap_byte (letters [c])\<rparr>) words c c))"
proof (cases "isalpha (sint c)")
  case True
  define st' where "st' = \<lparr>runqueue = [Func_1, Func_2, Func_3], running = Func_1,
    co_ctx = (co_ctx st)(Func_1 := In_1 words pc c, Func_2 := In_2 r, Func_3 := In_3 (p + 1)),
    world_of = w\<lparr>stdout := stdout w @ [swap_byte c]\<rparr>\<rparr>"
  have "ready st' r (p + 1)" using assms(1) by (simp add: ready_def st'_def)
  moreover from True isalpha_not_special[OF True] assms
  have "run_jump nxt (Suc (Suc (Suc fuel))) (coro_yield nxt (st\<lparr>world_of := w\<rparr>) (sint c) (In_1 words pc c)) =
      run_jump nxt fuel (after_resume nxt st' (func_1 (w\<lparr>stdout := stdout w @ [swap_byte c]\<rparr>) words c c))" for fuel
    by (cases st) (simp add: ready_def coro_yield_def coro_switch_def after_resume_def func_2_def func_3_def
        longjmp_value_def st'_def swap_byte_def)
  ultimately show ?thesis using that True by (simp add: letters_def)
next
  case False
  define st' where "st' = \<lparr>runqueue = [Func_1, Func_2, Func_3], running = Func_1,
    co_ctx = (co_ctx st)(Func_1 := In_1 words pc c, Func_2 := In_2 (r + 1), Func_3 := In_3 p),
    world_of = w\<rparr>"
  have "ready st' (r + 1) p" using assms(1) by (simp add: ready_def st'_def)
  moreover from False assms
  have "run_jump nxt (Suc (Suc (Suc fuel))) (coro_yield nxt (st\<lparr>world_of := w\<rparr>) (sint c) (In_1 words pc c)) =
      run_jump nxt fuel (after_resume nxt st' (func_1 w words c c))" for fuel
    by (cases st) (simp add: ready_def coro_yield_def coro_switch_def after_resume_def func_2_def func_3_def st'_def)
  ultimately show ?thesis using that False by (simp add: letters_def)
qed

lemma run_end:
  assumes "ready st r p" and "nxt [Func_1, Func_2, Func_3] Func_1 = Some Func_2"
    and "nxt [Func_2, Func_3] Func_2 = Some Func_3"
  shows "\<exists>st'. run_jump nxt (Suc (Suc fuel)) (coro_switch nxt (st\<lparr>world_of := w\<rparr>) EOF) = Inr (st', NOTHING) \<and>
    world_of st' = w\<lparr>log := log w @ [(Func_2, r), (Func_3, p)]\<rparr>"
proof -
  let ?st = "\<lparr>runqueue = [Func_2, Func_3], running = Func_2, co_ctx = co_ctx st, world_of = w\<rparr>"
  let ?st2 = "\<lparr>runqueue = [Func_3], running = Func_3, co_ctx = co_ctx st,
    world_of = w\<lparr>log := log w @ [(Func_2, r)]\<rparr>\<rparr>"
  have 1: "coro_switch nxt (st\<lparr>world_of := w\<rparr>) EOF = To_coro ?st EOF"
    using assms by (cases st) (simp add: ready_def coro_switch_def)
  have 2: "after_resume nxt ?st (resume (co_ctx ?st (running ?st)) EOF (world_of ?st)) = To_coro ?st2 EOF"
    using assms by (simp add: ready_def coro_switch_def after_resume_def func_2_def)
  have 3: "\<exists>st'. after_resume nxt ?st2 (resume (co_ctx ?st2 (running ?st2)) EOF (world_of ?st2)) = To_dispatcher st' NOTHING \<and>
      world_of st' = w\<lparr>log := log w @ [(Func_2, r), (Func_3, p)]\<rparr>"
    using assms by (simp add: ready_def coro_switch_def after_resume_def func_3_def)
  from 3 obtain st' where st': "after_resume nxt ?st2 (resume (co_ctx ?st2 (running ?st2)) EOF (world_of ?st2)) = To_dispatcher st' NOTHING"
    "world_of st' = w\<lparr>log := log w @ [(Func_2, r), (Func_3, p)]\<rparr>" by blast
  have "run_jump nxt (Suc (Suc fuel)) (coro_switch nxt (st\<lparr>world_of := w\<rparr>) EOF) = run_jump nxt (Suc fuel) (To_coro ?st2 EOF)"
    by (simp only: 1 run_jump.simps(3)[of nxt "Suc fuel" ?st EOF] 2)
  also have "\<dots> = Inr (st', NOTHING)"
    by (simp only: run_jump.simps(3)[of nxt fuel ?st2 EOF] st'(1) run_jump.simps(1))
  finally show ?thesis using st'(2) by blast
qed

lemma func_1_end:
  assumes "ready st r p" and "nxt [Func_1, Func_2, Func_3] Func_1 = Some Func_2"
    and "nxt [Func_2, Func_3] Func_2 = Some Func_3" and "stdin w = []"
  shows "\<exists>st'. run_jump nxt (Suc (Suc fuel)) (after_resume nxt st (func_1 w n pc ch)) = Inr (st', NOTHING) \<and>
    world_of st' = w\<lparr>log := log w @ [(Func_1, n + (if isspace (sint ch) then 0 else 1)), (Func_2, r), (Func_3, p)]\<rparr>"
proof -
  let ?n = "n + (if isspace (sint ch) then 0 else 1)"
  have "after_resume nxt st (func_1 w n pc ch) = coro_switch nxt (st\<lparr>world_of := w\<lparr>log := log w @ [(Func_1, ?n)]\<rparr>\<rparr>) EOF"
    using assms(1,4) by (cases w) (simp add: func_1_def after_resume_def ready_def)
  with run_end[OF assms(1-3), of fuel "w\<lparr>log := log w @ [(Func_1, ?n)]\<rparr>"] show ?thesis by simp
qed

lemma func_1_loop_ch: "cs \<noteq> [] \<Longrightarrow> func_1_loop cs words pc a = func_1_loop cs words pc b"
  by (cases cs) simp_all

lemma isspace_EOF [simp]: "\<not> isspace EOF"
  by (simp add: isspace_def EOF_def)

lemma letters_simps [simp]: "letters [] = []"
  "letters (c # cs) = (if isalpha (sint c) then c # letters cs else letters cs)"
  "other_chars [] = 0"
  "other_chars (c # cs) = (if isalpha (sint c) then other_chars cs else Suc (other_chars cs))"
  by (simp_all add: letters_def other_chars_def)

text \<open>From a state that is ready, input without a byte that reads as \<open>EOF\<close> is passed on.\<close>

lemma run_prefix:
  assumes "ready st r p" and "\<forall>c\<in>set cs. sint c \<noteq> EOF" and "isspace (sint pc) = isspace (sint ch)"
    and "stdin w = cs @ rest"
  shows "\<exists>k st' pc' ch' n. k \<le> 3 * length cs \<and> ready st' (r + other_chars (squeeze ch cs)) (p + length (letters cs)) \<and>
    isspace (sint pc') = isspace (sint ch') \<and>
    n + (if isspace (sint ch') then 0 else 1) = words + word_count (ch # cs) \<and>
    (\<forall>fuel. run_jump nxt (k + fuel) (after_resume nxt st (func_1 w words pc ch)) =
       run_jump nxt fuel (after_resume nxt st'
         (func_1 (w\<lparr>stdin := rest, stdout := stdout w @ map swap_byte (letters cs)\<rparr>) n pc' ch')))"
  using assms
proof (induction cs arbitrary: st r p pc ch w words)
  case Nil
  have "w\<lparr>stdin := rest\<rparr> = w" using Nil.prems(4) by simp
  then show ?case using Nil.prems(1,3)
    by - (rule exI[of _ 0], rule exI[of _ st], rule exI[of _ pc], rule exI[of _ ch], rule exI[of _ words],
      simp add: word_count_Cons)
next
  case (Cons c cs)
  show ?case
  proof (cases "isspace (sint c) \<and> isspace (sint pc)")
    case True
    have f: "func_1 w words pc ch = func_1 (w\<lparr>stdin := cs @ rest\<rparr>) words pc c"
      using True Cons.prems(4) by (simp add: func_1_def)
    have "\<not> isalpha (sint c)" using True by (auto simp: isspace_def isalpha_def isupper_def islower_def)
    then have l: "letters (c # cs) = letters cs" by simp
    have s: "squeeze ch (c # cs) = squeeze c cs"
      using True Cons.prems(3) squeeze_space[of ch c cs] by simp
    have w: "word_count (ch # c # cs) = word_count (c # cs)"
      using True Cons.prems(3) by (simp add: word_count_Cons)
    have "w\<lparr>stdin := cs @ rest, stdin := rest, stdout := stdout (w\<lparr>stdin := cs @ rest\<rparr>) @ map swap_byte (letters cs)\<rparr> =
        w\<lparr>stdin := rest, stdout := stdout w @ map swap_byte (letters cs)\<rparr>" by simp
    note IH = Cons.IH[OF Cons.prems(1), of pc c "w\<lparr>stdin := cs @ rest\<rparr>" words, unfolded this]
    have "\<forall>c\<in>set cs. sint c \<noteq> EOF" "isspace (sint pc) = isspace (sint c)"
      "stdin (w\<lparr>stdin := cs @ rest\<rparr>) = cs @ rest" using True Cons.prems(2) by auto
    from IH[OF this] have "\<exists>k st' pc' ch' n. k \<le> 3 * length cs \<and> ready st' (r + other_chars (squeeze c cs)) (p + length (letters cs)) \<and>
      isspace (sint pc') = isspace (sint ch') \<and>
      n + (if isspace (sint ch') then 0 else 1) = words + word_count (c # cs) \<and>
      (\<forall>fuel. run_jump nxt (k + fuel) (after_resume nxt st (func_1 w words pc ch)) =
        run_jump nxt fuel (after_resume nxt st'
          (func_1 (w\<lparr>stdin := rest, stdout := stdout w @ map swap_byte (letters cs)\<rparr>) n pc' ch')))"
      unfolding f .
    then show ?thesis unfolding l s w by (elim exE conjE) (intro exI conjI, rule le_trans, assumption, simp, assumption+)
  next
    case False
    let ?n = "if isspace (sint c) then words + 1 else words"
    let ?w = "w\<lparr>stdin := cs @ rest, stdout := stdout w @ map swap_byte (letters [c])\<rparr>"
    have 1: "func_1 w words pc ch = (w\<lparr>stdin := cs @ rest\<rparr>, Yields (sint c) (In_1 ?n pc c))"
      using False Cons.prems(4) by (simp add: func_1_def)
    have c: "sint c \<noteq> EOF" using Cons.prems(2) by simp
    obtain st' where st': "ready st' (r + (if isalpha (sint c) then 0 else 1)) (p + (if isalpha (sint c) then 1 else 0))"
      "\<And>f. run_jump nxt (Suc (Suc (Suc f))) (after_resume nxt st (func_1 w words pc ch)) =
         run_jump nxt f (after_resume nxt st' (func_1 ?w ?n c c))"
      using round_trip[OF Cons.prems(1) c, of nxt "w\<lparr>stdin := cs @ rest\<rparr>" ?n pc]
      unfolding 1 by (auto simp: after_resume_def)
    have l: "?w\<lparr>stdin := rest, stdout := stdout ?w @ map swap_byte (letters cs)\<rparr> =
        w\<lparr>stdin := rest, stdout := stdout w @ map swap_byte (letters (c # cs))\<rparr>" by simp
    have p: "\<forall>c\<in>set cs. sint c \<noteq> EOF" "stdin ?w = cs @ rest" using Cons.prems(2) by auto
    from Cons.IH[OF st'(1) p(1) refl p(2), of c ?n, unfolded l] obtain k st2 pc' ch' n where
      2: "k \<le> 3 * length cs" "isspace (sint pc') = isspace (sint ch')"
        "ready st2 (r + (if isalpha (sint c) then 0 else 1) + other_chars (squeeze c cs))
          (p + (if isalpha (sint c) then 1 else 0) + length (letters cs))"
        "n + (if isspace (sint ch') then 0 else 1) = ?n + word_count (c # cs)"
        "\<And>fuel. run_jump nxt (k + fuel) (after_resume nxt st' (func_1 ?w ?n c c)) = run_jump nxt fuel
          (after_resume nxt st2 (func_1 (w\<lparr>stdin := rest, stdout := stdout w @ map swap_byte (letters (c # cs))\<rparr>) n pc' ch'))"
      by blast
    have w: "word_count (ch # c # cs) + words = ?n + word_count (c # cs)" "squeeze ch (c # cs) = c # squeeze c cs"
      using False Cons.prems(3) by (auto simp: word_count_Cons)
    show ?thesis
    proof (intro exI conjI allI)
      show "Suc (Suc (Suc k)) \<le> 3 * length (c # cs)" using 2(1) by simp
      show "ready st2 (r + other_chars (squeeze ch (c # cs))) (p + length (letters (c # cs)))"
        using 2(3) unfolding w(2) by (simp split: if_splits)
      show "n + (if isspace (sint ch') then 0 else 1) = words + word_count (ch # c # cs)"
        using 2(4) w(1) by simp
      show "run_jump nxt (Suc (Suc (Suc k)) + fuel) (after_resume nxt st (func_1 w words pc ch)) = run_jump nxt fuel
          (after_resume nxt st2 (func_1 (w\<lparr>stdin := rest, stdout := stdout w @ map swap_byte (letters (c # cs))\<rparr>) n pc' ch'))"
        for fuel using st'(2) 2(5) by simp
    qed (rule 2(2))
  qed
qed

text \<open>The macro \<open>TAILQ_NEXT\<close> of an element just removed: the two uses the program makes of it.\<close>

definition keeps_link :: "(coro_fn list \<Rightarrow> coro_fn \<Rightarrow> coro_fn option) \<Rightarrow> bool" where
  "keeps_link nxt \<longleftrightarrow> (\<forall>q c. c \<in> set q \<longrightarrow> nxt q c = tailq_next q c)"

definition start_state :: "i8 list \<Rightarrow> coros" where
  "start_state input = \<lparr>runqueue = [Func_1, Func_2, Func_3], running = Func_1, co_ctx = Enter,
     world_of = \<lparr>stdin = input, stdout = [], log = []\<rparr>\<rparr>"

lemma enter_start: "resume (Enter Func_2) = resume (In_2 0)" "resume (Enter Func_3) = resume (In_3 0)"
  by (intro ext; simp)+

lemma coro_main_start:
  "coro_main nxt (Suc fuel) input =
     bind_run (run_jump nxt fuel (after_resume nxt (start_state input) (func_1 (world_of (start_state input)) 0 32 0)))
       (\<lambda>(st, _). Inr (world_of st))"
proof -
  have "(\<lambda>c. Enter c)(Func_1 := Enter Func_1, Func_2 := Enter Func_2, Func_3 := Enter Func_3) = Enter" by auto
  then show ?thesis by (simp add: coro_main_def coro_add_def coro_run_def start_state_def Let_def fun_upd_idem)
qed

lemma ready_start: "ready (start_state input) 0 0"
  by (simp add: ready_def start_state_def enter_start)

text \<open>Both ends of a run: the end of the input, and a byte that reads as \<open>EOF\<close>.\<close>

lemma coro_main_end:
  assumes "keeps_link nxt" and "\<forall>c\<in>set cs. sint c \<noteq> EOF" and "3 * length cs + 4 \<le> fuel"
  shows "coro_main nxt fuel cs = Inr \<lparr>stdin = [], stdout = map swap_byte (letters cs),
    log = [(Func_1, if cs = [] then 1 else word_count cs), (Func_2, other_chars (squeeze 32 cs)),
      (Func_3, length (letters cs))]\<rparr>"
proof -
  have n: "nxt [Func_1, Func_2, Func_3] Func_1 = Some Func_2" "nxt [Func_2, Func_3] Func_2 = Some Func_3"
    using assms(1) by (simp_all add: keeps_link_def)
  let ?w = "\<lparr>stdin = cs @ [], stdout = [], log = []\<rparr>"
  have "\<exists>f. fuel = Suc f" using assms(3) by (cases fuel) auto
  then obtain f where f: "fuel = Suc f" by blast
  show ?thesis
  proof (cases cs)
    case Nil
    have "f = Suc (Suc (f - 2))" using assms(3) f by simp
    with func_1_end[OF ready_start[of cs] n, of "world_of (start_state cs)" "f - 2" 0 32 0]
    show ?thesis unfolding f coro_main_start by (auto simp: start_state_def isspace_def Nil)
  next
    case (Cons c cs')
    have w: "word_count (32 # cs) = word_count cs" by (simp add: word_count_Cons isspace_def)
    have w0: "stdin ?w = cs @ []" and w1: "func_1 ?w 0 32 0 = func_1 ?w 0 32 32"
      and w2: "?w\<lparr>stdin := [], stdout := stdout ?w @ map swap_byte (letters cs)\<rparr> =
        \<lparr>stdin = [], stdout = map swap_byte (letters cs), log = []\<rparr>"
      by (simp_all add: Cons func_1_def)
    from run_prefix[of "start_state cs" 0 0 cs 32 32 ?w "[]" 0 nxt, OF ready_start assms(2) refl w0,
        unfolded w w2 add_0, folded w1] obtain k st' pc' ch' n' where
      k: "k \<le> 3 * length cs" "ready st' (other_chars (squeeze 32 cs)) (length (letters cs))"
        "isspace (sint pc') = isspace (sint ch')" "n' + (if isspace (sint ch') then 0 else 1) = word_count cs"
        "\<forall>f. run_jump nxt (k + f) (after_resume nxt (start_state cs) (func_1 ?w 0 32 0)) =
           run_jump nxt f (after_resume nxt st'
             (func_1 \<lparr>stdin = [], stdout = map swap_byte (letters cs), log = []\<rparr> n' pc' ch'))"
      by blast
    have f': "f = k + Suc (Suc (f - k - 2))" using assms(3) f k(1) by simp
    have "world_of (start_state cs) = ?w" by (simp add: start_state_def)
    with func_1_end[OF k(2) n, of "\<lparr>stdin = [], stdout = map swap_byte (letters cs), log = []\<rparr>" "f - k - 2" n' pc' ch']
    show ?thesis unfolding f coro_main_start using spec[OF k(5), of "Suc (Suc (f - k - 2))", folded f'] k(4) Cons
      by auto
  qed
qed

lemma coro_main_EOF_byte:
  assumes "keeps_link nxt" and "\<forall>c\<in>set cs. sint c \<noteq> EOF" and "sint b = EOF" and "3 * length cs + 4 \<le> fuel"
  shows "coro_main nxt fuel (cs @ b # rest) = Inr \<lparr>stdin = rest, stdout = map swap_byte (letters cs),
    log = [(Func_2, other_chars (squeeze 32 cs)), (Func_3, length (letters cs))]\<rparr>"
proof -
  have n: "nxt [Func_1, Func_2, Func_3] Func_1 = Some Func_2" "nxt [Func_2, Func_3] Func_2 = Some Func_3"
    using assms(1) by (simp_all add: keeps_link_def)
  have "\<exists>f. fuel = Suc f" using assms(4) by (cases fuel) auto
  then obtain f where f: "fuel = Suc f" by blast
  let ?in = "cs @ b # rest"
  let ?w = "\<lparr>stdin = ?in, stdout = [], log = []\<rparr>"
  let ?w' = "\<lparr>stdin = b # rest, stdout = map swap_byte (letters cs), log = []\<rparr>"
  have w0: "stdin ?w = cs @ b # rest" and w1: "func_1 ?w 0 32 0 = func_1 ?w 0 32 32"
    and w2: "?w\<lparr>stdin := b # rest, stdout := stdout ?w @ map swap_byte (letters cs)\<rparr> = ?w'"
    using func_1_loop_ch[of ?in 0 32 0 32] by (simp_all add: func_1_def)
  from run_prefix[of "start_state ?in" 0 0 cs 32 32 ?w "b # rest" 0 nxt, OF ready_start assms(2) refl w0,
      unfolded w2 add_0, folded w1] obtain k st' pc' ch' n' where
    k: "k \<le> 3 * length cs" "ready st' (other_chars (squeeze 32 cs)) (length (letters cs))"
      "isspace (sint pc') = isspace (sint ch')"
      "\<forall>f. run_jump nxt (k + f) (after_resume nxt (start_state ?in) (func_1 ?w 0 32 0)) =
         run_jump nxt f (after_resume nxt st' (func_1 ?w' n' pc' ch'))"
    by blast
  have f': "f = k + Suc (Suc (f - k - 2))" using assms(4) f k(1) by simp
  let ?st = "st'\<lparr>co_ctx := (co_ctx st')(Func_1 := In_1 n' pc' b)\<rparr>"
  have 1: "after_resume nxt st' (func_1 ?w' n' pc' ch') = coro_switch nxt (?st\<lparr>world_of := ?w'\<lparr>stdin := rest\<rparr>\<rparr>) EOF"
    using assms(3) k(2) by (cases st') (simp add: func_1_def after_resume_def coro_yield_def ready_def)
  have "ready ?st (other_chars (squeeze 32 cs)) (length (letters cs))" using k(2) by (simp add: ready_def)
  from run_end[OF this n, of "f - k - 2" "?w'\<lparr>stdin := rest\<rparr>"] 1
  have "\<exists>s. run_jump nxt (Suc (Suc (f - k - 2))) (after_resume nxt st' (func_1 ?w' n' pc' ch')) = Inr (s, NOTHING) \<and>
      world_of s = ?w'\<lparr>stdin := rest, log := [(Func_2, other_chars (squeeze 32 cs)), (Func_3, length (letters cs))]\<rparr>"
    by simp
  moreover have "world_of (start_state ?in) = ?w" by (simp add: start_state_def)
  ultimately show ?thesis unfolding f coro_main_start using spec[OF k(4), of "Suc (Suc (f - k - 2))", folded f'] by auto
qed

section \<open>Properties\<close>

text \<open>C9: on an input without the byte \<open>0xFF\<close> the program ends and writes the letters of the
  input with their case swapped; it reports the number of words (one when the input is empty),
  the number of other characters once repeated spaces are dropped, and the number of letters.\<close>

theorem coro_ok:
  assumes "keeps_link nxt" and "\<forall>c\<in>set input. c \<noteq> 255" and "3 * length input + 4 \<le> fuel"
  shows "coro_main nxt fuel input = Inr \<lparr>stdin = [], stdout = map swap_byte (letters input),
    log = [(Func_1, if input = [] then 1 else word_count input), (Func_2, other_chars (squeeze 32 input)),
      (Func_3, length (letters input))]\<rparr>"
proof (rule coro_main_end[OF assms(1) _ assms(3)])
  show "\<forall>c\<in>set input. sint c \<noteq> EOF"
  proof
    fix c assume "c \<in> set input"
    then have "c \<noteq> 255" using assms(2) by blast
    moreover have "sint c = EOF \<Longrightarrow> c = 255"
    proof -
      assume "sint c = EOF"
      then have "c = - 1" using signed_word_eqI[of c "- 1"] by (simp add: EOF_def)
      then show "c = 255" by simp
    qed
    ultimately show "sint c \<noteq> EOF" by blast
  qed
qed

lemma keeps_link_tailq: "keeps_link tailq_next"
  by (simp add: keeps_link_def)

theorem coro_ok_witness:
  "coro_main tailq_next 19 [72, 105, 32, 32, 120] = Inr \<lparr>stdin = [], stdout = [104, 73, 88],
     log = [(Func_1, 2), (Func_2, 1), (Func_3, 3)]\<rparr>"
  using coro_ok[OF keeps_link_tailq, of "[72, 105, 32, 32, 120]" 19]
  by (simp add: word_count_Cons swap_byte_def swap_case_def isalpha_def isupper_def islower_def isspace_def)

text \<open>A byte \<open>0xFF\<close> reads as \<open>EOF\<close>: the program ends there, the rest of the input is
  not read, and the first coroutine never reports its words.\<close>

theorem coro_eof_byte:
  assumes "keeps_link nxt" and "\<forall>c\<in>set pre. sint c \<noteq> EOF" and "3 * length pre + 4 \<le> fuel"
  shows "coro_main nxt fuel (pre @ 255 # rest) = Inr \<lparr>stdin = rest, stdout = map swap_byte (letters pre),
    log = [(Func_2, other_chars (squeeze 32 pre)), (Func_3, length (letters pre))]\<rparr>"
  by (rule coro_main_EOF_byte[OF assms(1,2) _ assms(3)]) (simp add: EOF_def)

theorem coro_eof_byte_witness:
  "coro_main tailq_next 19 ([72] @ 255 # [105]) = Inr \<lparr>stdin = [105], stdout = [104],
     log = [(Func_2, 0), (Func_3, 1)]\<rparr>"
  using coro_eof_byte[OF keeps_link_tailq, of "[72]" 19 "[105]"]
  by (simp add: swap_byte_def swap_case_def isalpha_def isupper_def islower_def isspace_def EOF_def)

end
