(* ===== verification/Fdtable.thy ===== *)
theory Fdtable
  imports Prelude
begin

text \<open>
  Descriptor tables, shared by the programs that open, close and pass on file descriptors: a list that holds, for every
  descriptor, what it refers to. A new descriptor is the lowest one that is free. The entries are
  the parameter \<open>'e\<close>: the ends of pipes for the prime sieve, open files for the programs over
  the kernel model.
\<close>

type_synonym 'e fdtab = "'e option list"

definition entry :: "'e fdtab \<Rightarrow> nat \<Rightarrow> 'e option" where
  "entry tab i = (if i < length tab then tab ! i else None)"

fun lowest_free :: "'e fdtab \<Rightarrow> nat" where
  "lowest_free [] = 0"
| "lowest_free (None # tab) = 0"
| "lowest_free (Some e # tab) = Suc (lowest_free tab)"

definition open_fd :: "'e fdtab \<Rightarrow> 'e \<Rightarrow> nat \<times> 'e fdtab" where
  "open_fd tab e = (let i = lowest_free tab in
     (i, if i < length tab then tab[i := Some e] else tab @ [Some e]))"

text \<open>The wrapper \<open>Close\<close> ends the process when the descriptor is not open.\<close>

definition close_fd :: "'e fdtab \<Rightarrow> nat \<Rightarrow> 'e fdtab run" where
  "close_fd tab i = (if entry tab i = None then Inl App_error else Inr (tab[i := None]))"

section \<open>What the operations do to the entries\<close>

lemma entry_lowest_free: "entry tab (lowest_free tab) = None" "lowest_free tab \<le> length tab"
  by (induction tab rule: lowest_free.induct) (auto simp: entry_def split: if_splits)

lemma entry_Cons [simp]: "entry (e # tab) 0 = e" "entry (e # tab) (Suc i) = entry tab i"
  by (simp_all add: entry_def)

lemma lowest_free_used: "i < lowest_free tab \<Longrightarrow> entry tab i \<noteq> None"
proof (induction tab arbitrary: i rule: lowest_free.induct)
  case (3 e tab)
  then show ?case by (cases i) simp_all
qed simp_all

lemma lowest_free_eq: "entry tab n = None \<Longrightarrow> \<forall>i<n. entry tab i \<noteq> None \<Longrightarrow> lowest_free tab = n"
  by (metis entry_lowest_free(1) lowest_free_used nat_neq_iff)

lemma open_fd_lowest: "open_fd tab e = (i, tab') \<Longrightarrow> i = lowest_free tab"
  by (auto simp: open_fd_def Let_def)

lemma open_fd_entry:
  assumes "open_fd tab e = (i, tab')"
  shows "entry tab i = None" "entry tab' = (entry tab)(i := Some e)"
  using assms entry_lowest_free[of tab]
  by (auto simp: open_fd_def entry_def Let_def nth_append fun_eq_iff split: if_splits)

lemma close_fd_entry:
  assumes "entry tab i \<noteq> None"
  obtains tab' where "close_fd tab i = Inr tab'" "entry tab' = (entry tab)(i := None)"
proof
  show "close_fd tab i = Inr (tab[i := None])" using assms by (simp add: close_fd_def)
  show "entry (tab[i := None]) = (entry tab)(i := None)" by (auto simp: entry_def fun_eq_iff)
qed

end
