(* ===== verification/Ctext.thy ===== *)
theory Ctext
  imports Prelude
begin

text \<open>
  What the programs use of the C library to read numbers from text and to write them, in the C locale: \<open>atoi\<close>, \<open>strtol\<close> in base 10, and \<open>fgets\<close>.
\<close>

text \<open>The library's \<open>atoi\<close>: white space, a sign, digits; what follows is ignored.\<close>

definition is_space :: "char \<Rightarrow> bool" where
  "is_space c \<longleftrightarrow> c \<in> {CHR '' '', CHR 0x09, CHR 0x0A, CHR 0x0B, CHR 0x0C, CHR 0x0D}"

definition is_digit :: "char \<Rightarrow> bool" where
  "is_digit c \<longleftrightarrow> 48 \<le> (of_char c :: nat) \<and> (of_char c :: nat) \<le> 57"

fun digits_value :: "string \<Rightarrow> int \<Rightarrow> int" where
  "digits_value [] v = v"
| "digits_value (c # cs) v = (if is_digit c then digits_value cs (10 * v + (of_char c - 48)) else v)"

definition atoi :: "string \<Rightarrow> int" where
  "atoi s =
    (case dropWhile is_space s of
       [] \<Rightarrow> 0
     | c # cs \<Rightarrow> if c = CHR ''-'' then - digits_value cs 0
                 else if c = CHR ''+'' then digits_value cs 0 else digits_value (c # cs) 0)"

text \<open>\<open>strtol\<close> stays in the range of a \<open>long\<close>; a C function that returns it as an \<open>int\<close> keeps its low 32 bits.\<close>

definition strtol :: "string \<Rightarrow> int" where
  "strtol s = max (- (2 ^ 63)) (min (2 ^ 63 - 1) (atoi s))"

definition to_int32 :: "int \<Rightarrow> int" where
  "to_int32 v = sint (word_of_int v :: 32 word)"

lemma to_int32_id: "- (2 ^ 31) \<le> v \<Longrightarrow> v < 2 ^ 31 \<Longrightarrow> to_int32 v = v"
  by (simp add: to_int32_def signed_of_int signed_take_bit_int_eq_self)

text \<open>\<open>fgets\<close> with a buffer of \<open>n + 1\<close> bytes: at most \<open>n\<close> characters, up to the end of the line; \<open>None\<close> at the end of the input.\<close>

fun fgets_chars :: "nat \<Rightarrow> string \<Rightarrow> string \<times> string" where
  "fgets_chars 0 cs = ([], cs)"
| "fgets_chars (Suc n) [] = ([], [])"
| "fgets_chars (Suc n) (c # cs) =
    (if c = CHR 0x0A then ([c], cs) else let (l, rest) = fgets_chars n cs in (c # l, rest))"

definition fgets :: "nat \<Rightarrow> string \<Rightarrow> (string \<times> string) option" where
  "fgets n input = (if input = [] then None else Some (fgets_chars n input))"

lemma fgets_chars_split: "fgets_chars n cs = (l, rest) \<Longrightarrow> cs = l @ rest \<and> length l \<le> n"
  by (induction n cs arbitrary: l rest rule: fgets_chars.induct) (auto split: if_splits prod.splits)

text \<open>The decimal digits of a number that is not negative, as \<open>printf\<close> writes them.\<close>

fun digits :: "nat \<Rightarrow> string" where
  "digits n = (if n < 10 then [char_of (48 + n)] else digits (n div 10) @ [char_of (48 + n mod 10)])"

declare digits.simps [simp del]

end
