(* ===== verification/Stdio.thy ===== *)
theory Stdio
  imports Prelude
begin

text \<open>
  The buffer of an output stream of the C library, for the programs in which it matters when text leaves the process
  (\<open>prime.c\<close> forks with text in the buffer, \<open>writeperf.c\<close> chooses the buffering): what a call writes, what stays in the
  buffer, and what a copy of the process made by \<open>fork\<close> therefore still has to write. A stream that is fully buffered is written in blocks of its size; one that is
  buffered by lines is written up to the last newline as well. The library may cut the same bytes into other calls of \<open>write\<close>.
\<close>

section \<open>A stream\<close>

datatype buffering = Unbuffered | Line_buffered nat | Fully_buffered nat

text \<open>The part of the text that is written in blocks of \<open>n\<close>, so that what stays fits.\<close>

definition whole_blocks :: "nat \<Rightarrow> string \<Rightarrow> nat" where
  "whole_blocks n s = (if length s \<le> n then 0 else n * ((length s - 1) div n))"

text \<open>The part up to the last newline.\<close>

definition whole_lines :: "string \<Rightarrow> nat" where
  "whole_lines s = length (dropWhile (\<lambda>c. c \<noteq> CHR 0x0A) (rev s))"

definition leave :: "buffering \<Rightarrow> string \<Rightarrow> nat" where
  "leave mode s = (case mode of
     Unbuffered \<Rightarrow> length s
   | Line_buffered n \<Rightarrow> whole_lines s + whole_blocks n (drop (whole_lines s) s)
   | Fully_buffered n \<Rightarrow> whole_blocks n s)"

text \<open>Text is put into a stream: what is written, and what is in the buffer afterwards.\<close>

definition fput :: "buffering \<Rightarrow> string \<Rightarrow> string \<Rightarrow> string \<times> string" where
  "fput mode buf s = (let s = buf @ s in (take (leave mode s) s, drop (leave mode s) s))"

text \<open>A write of nothing is not a call.\<close>

definition calls_of :: "string \<Rightarrow> string list" where
  "calls_of s = (if s = [] then [] else [s])"

lemma concat_calls_of [simp]: "concat (calls_of s) = s"
  by (simp add: calls_of_def)

lemma calls_of_Nil [simp]: "calls_of [] = []"
  by (simp add: calls_of_def)

section \<open>Nothing is lost, the buffer is large enough\<close>

lemma fput_all: "fput mode buf s = (w, buf') \<Longrightarrow> w @ buf' = buf @ s"
  by (auto simp: fput_def Let_def simp del: take_append drop_append)

lemma fput_unbuffered [simp]: "fput Unbuffered buf s = (buf @ s, [])"
  by (simp add: fput_def leave_def)

lemma whole_lines_newline [simp]: "whole_lines (s @ [CHR 0x0A]) = Suc (length s)"
  by (simp add: whole_lines_def)

lemma fput_line [simp]: "fput (Line_buffered n) buf (s @ [CHR 0x0A]) = (buf @ s @ [CHR 0x0A], [])"
proof -
  have "whole_lines (buf @ s @ [CHR 0x0A]) = Suc (length (buf @ s))"
    using whole_lines_newline[of "buf @ s"] by simp
  then show ?thesis by (simp add: fput_def leave_def whole_blocks_def)
qed

lemma fput_fits: "length (buf @ s) \<le> n \<Longrightarrow> fput (Fully_buffered n) buf s = ([], buf @ s)"
  by (simp add: fput_def leave_def whole_blocks_def)

lemma whole_blocks_rest:
  assumes "0 < n"
  shows "length (drop (whole_blocks n s) s) \<le> n"
proof (cases "length s \<le> n")
  case False
  have "length s - 1 < n + n * ((length s - 1) div n)" using assms by (rule dividend_less_times_div)
  then show ?thesis using False by (simp add: whole_blocks_def)
qed (simp add: whole_blocks_def)

lemma leave_rest:
  assumes "mode = Line_buffered n \<or> mode = Fully_buffered n" and "0 < n"
  shows "length (drop (leave mode s) s) \<le> n"
proof -
  have "drop (whole_lines s + whole_blocks n (drop (whole_lines s) s)) s =
      drop (whole_blocks n (drop (whole_lines s) s)) (drop (whole_lines s) s)"
    by (simp only: drop_drop add.commute)
  with assms(1) show ?thesis unfolding leave_def using whole_blocks_rest[OF assms(2)] by (elim disjE) (simp_all only: buffering.case)
qed

lemma fput_bound:
  assumes "fput mode buf s = (w, buf')" and "mode = Line_buffered n \<or> mode = Fully_buffered n" and "0 < n"
  shows "length buf' \<le> n"
  using assms(1) leave_rest[OF assms(2,3), of "buf @ s"] by (simp only: fput_def Let_def prod.inject)

section \<open>Several processes\<close>

text \<open>The orders in which the calls of several processes can come to one file: those of each process keep their order.\<close>

fun interleavings :: "'a list list \<Rightarrow> 'a list set" where
  "interleavings [] = {[]}"
| "interleavings (xs # xss) = (\<Union>ys\<in>interleavings xss. shuffles xs ys)"

lemma interleavings_silent: "\<forall>xs\<in>set xss. xs = [] \<Longrightarrow> interleavings xss = {[]}"
  by (induction xss) auto

lemma interleavings_one: "\<forall>xs\<in>set xss. xs = [] \<Longrightarrow> interleavings (xs # xss) = {xs}"
  by (simp add: interleavings_silent)

end
