(* ===== verification/Sieve.thy ===== *)
theory Sieve
  imports Fdtable Ctext Stdio
begin

text \<open>
  The prime sieve of \<open>5/so21_lista_5/prime.c\<close>: a generator process and a growing chain of filter
  processes, connected by pipes. Every process has its descriptor table, a copy of its
  parent's at \<open>fork\<close>; a pipe is known by a number, and the tables hold its two ends. Since every
  pipe has one writer, what its reader sees is the list of numbers that the writer
  writes before it ends; the chain is a function of that list. Numbers (C \<open>long\<close>) are \<open>int\<close>:
  they stay between 2 and \<open>maxprime + 1\<close>, and an argument for which the counter of the generator would overflow is not followed. Every \<open>pipe\<close> and \<open>fork\<close>
  succeeds; the wrappers end the process when one fails. The primes are printed into the stream \<open>stdout\<close> of the process that reads the chain; its buffering is a parameter,
  and a filter process inherits what the buffer holds when it is forked and writes it again when it ends.
\<close>

section \<open>Descriptor tables\<close>

datatype pend = Std | Rd nat | Wr nat

type_synonym pipe_tab = "pend fdtab"

definition std_tab :: pipe_tab where
  "std_tab = [Some Std, Some Std, Some Std]"

record pipe_t =
  read_end :: nat
  write_end :: nat

definition MakePipe :: "pipe_tab \<Rightarrow> nat \<Rightarrow> pipe_t \<times> pipe_tab" where
  "MakePipe tab k = (let (r, tab1) = open_fd tab (Rd k); (w, tab2) = open_fd tab1 (Wr k)
     in (\<lparr>read_end = r, write_end = w\<rparr>, tab2))"

definition CloseReadEnd :: "pipe_tab \<Rightarrow> pipe_t \<Rightarrow> pipe_tab run" where
  "CloseReadEnd tab p = close_fd tab (read_end p)"

definition CloseWriteEnd :: "pipe_tab \<Rightarrow> pipe_t \<Rightarrow> pipe_tab run" where
  "CloseWriteEnd tab p = close_fd tab (write_end p)"

text \<open>A read or write through a pipe needs its end open in the table of the process; the wrappers
  \<open>Read\<close> and \<open>Write\<close> end the process otherwise.\<close>

definition ReadNum :: "pipe_tab \<Rightarrow> pipe_t \<Rightarrow> nat \<Rightarrow> int list \<Rightarrow> int list run" where
  "ReadNum tab p k nums = (if entry tab (read_end p) = Some (Rd k) then Inr nums else Inl App_error)"

definition WriteNum :: "pipe_tab \<Rightarrow> pipe_t \<Rightarrow> nat \<Rightarrow> int list \<Rightarrow> int list run" where
  "WriteNum tab p k nums = (if entry tab (write_end p) = Some (Wr k) then Inr nums else Inl App_error)"

section \<open>The processes\<close>

fun generate :: "nat \<Rightarrow> int \<Rightarrow> int list" where
  "generate 0 n = []"
| "generate (Suc m) n = n # generate m (n + 1)"

definition LONG_MAX :: int where "LONG_MAX = 2 ^ 63 - 1"

definition generator :: "pipe_tab \<Rightarrow> pipe_t \<Rightarrow> nat \<Rightarrow> int \<Rightarrow> int list run" where
  "generator tab out k maxprime =
    (if maxprime < LONG_MAX then WriteNum tab out k (generate (nat (maxprime - 1)) 2) else Inl Unmodelled)"

fun filter_loop :: "int \<Rightarrow> int list \<Rightarrow> int list" where
  "filter_loop p [] = []"
| "filter_loop p (num # nums) =
    (if num mod p \<noteq> 0 then num # filter_loop p nums else filter_loop p nums)"

lemma length_filter_loop: "length (filter_loop p nums) \<le> length nums"
  by (induction p nums rule: filter_loop.induct) auto

text \<open>The process \<open>filter\<close>: everything that is left in its input pipe, into its output pipe.\<close>

definition filter_proc_run :: "pipe_tab \<Rightarrow> pipe_t \<Rightarrow> nat \<Rightarrow> pipe_t \<Rightarrow> nat \<Rightarrow> int \<Rightarrow> int list \<Rightarrow> int list run" where
  "filter_proc_run tab inp i out j p nums =
    bind_run (ReadNum tab inp i nums) (\<lambda>nums. WriteNum tab out j (filter_loop p nums))"

text \<open>A filter process: its descriptor table while it works, the pipes it reads and writes,
  how its last call of \<open>Close\<close> ends, and what it writes to the standard output: it prints nothing, but \<open>exit\<close>, which the wrapper \<open>Close\<close> calls
  as well when it fails, writes what the buffer has held since the fork.\<close>

record filter_proc =
  f_tab :: pipe_tab
  f_in :: nat
  f_out :: nat
  f_close :: "pipe_tab run"
  f_written :: "string list"

text \<open>The fork in \<open>filter_chain\<close>: the table of the child while it filters, the table of the
  parent when it goes on, and the new pipe.\<close>

definition chain_fork :: "pipe_tab \<Rightarrow> pipe_t \<Rightarrow> nat \<Rightarrow> (pipe_tab \<times> pipe_tab \<times> pipe_t) run" where
  "chain_fork tab inp k =
    (let (fp, tab1) = MakePipe tab k in
     bind_run (CloseReadEnd tab1 fp) (\<lambda>child.
     bind_run (CloseWriteEnd tab1 fp) (\<lambda>parent.
     bind_run (CloseReadEnd parent inp) (\<lambda>parent.
     Inr (child, parent, fp)))))"

definition prime_line :: "int \<Rightarrow> string" where
  "prime_line p = digits (nat p) @ [CHR 0x0A]"

text \<open>The process that prints reads pipe \<open>k\<close>, in which its writer leaves \<open>nums\<close>; \<open>buf\<close> is in its buffer of \<open>stdout\<close>. The result has
  the calls of \<open>write\<close> on the standard output that it makes, the last one in \<open>exit\<close>.\<close>

function filter_chain :: "buffering \<Rightarrow> string \<Rightarrow> pipe_tab \<Rightarrow> pipe_t \<Rightarrow> nat \<Rightarrow> int list \<Rightarrow> (string list \<times> filter_proc list) run" where
  "filter_chain mode buf tab inp k nums =
    bind_run (ReadNum tab inp k nums) (\<lambda>_. case nums of
      [] \<Rightarrow> Inr (calls_of buf, [])
    | p # rest \<Rightarrow>
        let (w, buf') = fput mode buf (prime_line p) in
        bind_run (chain_fork tab inp (k + 1)) (\<lambda>(child, parent, fp).
        bind_run (filter_proc_run child inp k fp (k + 1) p rest) (\<lambda>nums'.
        bind_run (filter_chain mode buf' parent fp (k + 1) nums') (\<lambda>(written, procs).
        Inr (calls_of w @ written,
             \<lparr>f_tab = child, f_in = k, f_out = k + 1, f_close = CloseWriteEnd child inp, f_written = calls_of buf'\<rparr> # procs)))))"
  by pat_completeness auto
termination
proof (relation "measure (\<lambda>(mode, buf, tab, inp, k, nums). length nums)")
  fix mode buf tab inp k nums u p rest w buf' v x child y parent fp nums'
  assume "nums = p # rest" and "filter_proc_run child inp k fp (k + 1) p rest = Inr nums'"
  then show "((mode, buf', parent, fp, k + 1, nums'), (mode, buf, tab, inp, k, nums)) \<in> measure (\<lambda>(mode, buf, tab, inp, k, nums). length nums)"
    using length_filter_loop[of p rest]
    by (auto simp: filter_proc_run_def ReadNum_def WriteNum_def split: if_splits)
qed simp

text \<open>\<open>main\<close>: what the printing process writes, and the tables of the generator, the filters and the process that waits; the generator and the waiting process
  have an empty buffer.\<close>

definition sieve_main :: "buffering \<Rightarrow> int \<Rightarrow> (string list \<times> pipe_tab \<times> filter_proc list \<times> pipe_tab) run" where
  "sieve_main mode maxprime =
    (let (gen_pipe, tab) = MakePipe std_tab 0 in
     bind_run (CloseReadEnd tab gen_pipe) (\<lambda>gen_tab.
     bind_run (generator gen_tab gen_pipe 0 maxprime) (\<lambda>nums.
     bind_run (CloseWriteEnd tab gen_pipe) (\<lambda>tab.
     bind_run (filter_chain mode [] tab gen_pipe 0 nums) (\<lambda>(written, procs).
     bind_run (CloseReadEnd tab gen_pipe) (\<lambda>tab.
     Inr (written, gen_tab, procs, tab)))))))"

declare filter_chain.simps [simp del]

section \<open>Descriptors\<close>

lemma MakePipe_entry:
  obtains fp tab' where "MakePipe tab k = (fp, tab')" "entry tab (read_end fp) = None"
    "entry tab (write_end fp) = None" "read_end fp \<noteq> write_end fp"
    "entry tab' = (entry tab)(read_end fp := Some (Rd k), write_end fp := Some (Wr k))"
proof -
  obtain r tab1 w tab2 where o: "open_fd tab (Rd k) = (r, tab1)" "open_fd tab1 (Wr k) = (w, tab2)" by fastforce
  note e = open_fd_entry[OF o(1)] open_fd_entry[OF o(2)]
  have "r \<noteq> w" using e by auto
  moreover have "entry tab w = None" using e(2,3) \<open>r \<noteq> w\<close> by auto
  ultimately show ?thesis using that[of "\<lparr>read_end = r, write_end = w\<rparr>" tab2] e o by (simp add: MakePipe_def)
qed

lemma chain_fork_entry:
  assumes "entry tab (read_end inp) \<noteq> None"
  obtains child parent fp where "chain_fork tab inp k = Inr (child, parent, fp)"
    "entry tab (read_end fp) = None" "entry tab (write_end fp) = None" "read_end fp \<noteq> write_end fp"
    "entry child = (entry tab)(write_end fp := Some (Wr k))"
    "entry parent = (entry tab)(read_end inp := None, read_end fp := Some (Rd k))"
proof -
  obtain fp tab1 where 1: "MakePipe tab k = (fp, tab1)" "entry tab (read_end fp) = None"
    "entry tab (write_end fp) = None" "read_end fp \<noteq> write_end fp"
    "entry tab1 = (entry tab)(read_end fp := Some (Rd k), write_end fp := Some (Wr k))"
    by (rule MakePipe_entry)
  have "entry tab1 (read_end fp) \<noteq> None" "entry tab1 (write_end fp) \<noteq> None" using 1 by auto
  then obtain child par1 where 2: "close_fd tab1 (read_end fp) = Inr child" "entry child = (entry tab1)(read_end fp := None)"
    "close_fd tab1 (write_end fp) = Inr par1" "entry par1 = (entry tab1)(write_end fp := None)"
    by (metis close_fd_entry)
  have "entry par1 (read_end inp) \<noteq> None" using assms 1 2 by auto
  then obtain par2 where 3: "close_fd par1 (read_end inp) = Inr par2" "entry par2 = (entry par1)(read_end inp := None)"
    by (rule close_fd_entry)
  have "chain_fork tab inp k = Inr (child, par2, fp)"
    using 1(1) 2(1,3) 3(1) by (simp add: chain_fork_def CloseReadEnd_def CloseWriteEnd_def)
  moreover have "entry child = (entry tab)(write_end fp := Some (Wr k))"
    using 1 2(2) by (auto simp: fun_eq_iff)
  moreover have "entry par2 = (entry tab)(read_end inp := None, read_end fp := Some (Rd k))"
    using 1 2(4) 3(2) assms by (auto simp: fun_eq_iff)
  ultimately show ?thesis using that 1(2-4) by blast
qed

text \<open>The ends a process holds.\<close>

definition ends :: "pipe_tab \<Rightarrow> pend set" where
  "ends tab = {e. \<exists>i. entry tab i = Some e}"

lemma ends_set: "ends tab = {e. Some e \<in> set tab}"
  by (auto simp: ends_def entry_def in_set_conv_nth split: if_splits)

section \<open>The chain\<close>

function sieved :: "int list \<Rightarrow> int list" where
  "sieved [] = []"
| "sieved (p # nums) = p # sieved (filter_loop p nums)"
  by pat_completeness auto
termination
  by (relation "measure length") (auto simp: le_imp_less_Suc length_filter_loop)

text \<open>Lines that are printed with a fork after each: the calls of the process, and the buffers at the forks.\<close>

fun print_fork :: "buffering \<Rightarrow> string \<Rightarrow> string list \<Rightarrow> string list \<times> string list" where
  "print_fork mode buf [] = (calls_of buf, [])"
| "print_fork mode buf (l # ls) =
    (let (w, buf') = fput mode buf l; (ws, bufs) = print_fork mode buf' ls in (calls_of w @ ws, buf' # bufs))"

lemma print_fork_all: "concat (fst (print_fork mode buf ls)) = buf @ concat ls"
proof (induction ls arbitrary: buf)
  case (Cons l ls)
  obtain w buf' where f: "fput mode buf l = (w, buf')" by fastforce
  then show ?case using Cons[of buf'] fput_all[OF f] by (simp add: case_prod_beta)
qed simp

lemma print_fork_line:
  assumes "mode = Unbuffered \<or> mode = Line_buffered n" and "\<forall>l\<in>set ls. \<exists>s. l = s @ [CHR 0x0A]"
  shows "snd (print_fork mode [] ls) = replicate (length ls) []"
  using assms(2)
proof (induction ls)
  case (Cons l ls)
  then obtain s where "l = s @ [CHR 0x0A]" by auto
  then have "fput mode [] l = (l, [])" using assms(1) by auto
  then show ?case using Cons by (simp add: case_prod_beta)
qed simp

lemma print_fork_fits:
  assumes "length (buf @ concat ls) \<le> n"
  shows "print_fork (Fully_buffered n) buf ls =
    (calls_of (buf @ concat ls), map (\<lambda>i. buf @ concat (take (Suc i) ls)) [0..<length ls])"
  using assms
proof (induction ls arbitrary: buf)
  case (Cons l ls)
  have "fput (Fully_buffered n) buf l = ([], buf @ l)" using Cons.prems by (intro fput_fits) simp
  then show ?case using Cons.IH[of "buf @ l"] Cons.prems
    by (simp add: upt_conv_Cons map_Suc_upt[symmetric] comp_def del: upt_Suc)
qed simp

lemma filter_chain_run:
  assumes "entry tab (read_end inp) = Some (Rd k)" and "\<forall>i. i \<noteq> read_end inp \<longrightarrow> entry tab i \<in> {None, Some Std}"
  shows "\<exists>procs. filter_chain mode buf tab inp k nums = Inr (fst (print_fork mode buf (map prime_line (sieved nums))), procs) \<and>
    map f_in procs = [k..<k + length (sieved nums)] \<and> map f_out procs = [Suc k..<Suc (k + length (sieved nums))] \<and>
    map f_written procs = map calls_of (snd (print_fork mode buf (map prime_line (sieved nums)))) \<and>
    (\<forall>p\<in>set procs. ends (f_tab p) - {Std} = {Rd (f_in p), Wr (f_out p)})"
  using assms
proof (induction nums arbitrary: buf tab inp k rule: sieved.induct)
  case 1
  then show ?case by (simp add: filter_chain.simps ReadNum_def)
next
  case (2 p rest)
  obtain w buf' where w: "fput mode buf (prime_line p) = (w, buf')" by fastforce
  obtain child parent fp where f: "chain_fork tab inp (k + 1) = Inr (child, parent, fp)"
    "entry tab (read_end fp) = None" "entry tab (write_end fp) = None" "read_end fp \<noteq> write_end fp"
    "entry child = (entry tab)(write_end fp := Some (Wr (k + 1)))"
    "entry parent = (entry tab)(read_end inp := None, read_end fp := Some (Rd (k + 1)))"
    using 2(2) by (auto intro: chain_fork_entry[of tab inp "k + 1"])
  have "filter_proc_run child inp k fp (k + 1) p rest = Inr (filter_loop p rest)"
    using 2(2) f(3,5) by (auto simp: filter_proc_run_def ReadNum_def WriteNum_def)
  moreover have "entry parent (read_end fp) = Some (Rd (k + 1))"
    "\<forall>i. i \<noteq> read_end fp \<longrightarrow> entry parent i \<in> {None, Some Std}" using 2(3) f(6) by auto
  from 2(1)[OF this, of buf'] obtain procs where
    "filter_chain mode buf' parent fp (k + 1) (filter_loop p rest) =
      Inr (fst (print_fork mode buf' (map prime_line (sieved (filter_loop p rest)))), procs)"
    "map f_in procs = [k + 1..<k + 1 + length (sieved (filter_loop p rest))]"
    "map f_out procs = [Suc (k + 1)..<Suc (k + 1 + length (sieved (filter_loop p rest)))]"
    "map f_written procs = map calls_of (snd (print_fork mode buf' (map prime_line (sieved (filter_loop p rest)))))"
    "\<forall>p\<in>set procs. ends (f_tab p) - {Std} = {Rd (f_in p), Wr (f_out p)}" by blast
  moreover have "ends child - {Std} = {Rd k, Wr (k + 1)}"
  proof -
    have "entry child (read_end inp) = Some (Rd k)" "entry child (write_end fp) = Some (Wr (k + 1))"
      "\<And>i. i \<noteq> read_end inp \<Longrightarrow> i \<noteq> write_end fp \<Longrightarrow> entry child i \<in> {None, Some Std}"
      using 2(2,3) f(3,5) by auto
    then show ?thesis by (auto simp: ends_def) (metis insertE option.distinct(1) option.inject singletonD)+
  qed
  ultimately show ?case using 2(2) f(1)
    by (subst filter_chain.simps) (simp add: ReadNum_def upt_conv_Cons w case_prod_beta del: upt_Suc)
qed

lemma first_filter_close:
  assumes "filter_chain mode buf tab inp k (n # nums) = Inr (written, procs)" and "chain_fork tab inp (k + 1) = Inr (child, parent, fp)"
  shows "f_close (hd procs) = CloseWriteEnd child inp"
proof -
  obtain w buf' where "fput mode buf (prime_line n) = (w, buf')" by fastforce
  then show ?thesis using assms by (subst (asm) filter_chain.simps) (auto simp: bind_run_Inr_iff)
qed

section \<open>Primes\<close>

definition is_prime :: "int \<Rightarrow> bool" where
  "is_prime n \<longleftrightarrow> 2 \<le> n \<and> (\<forall>d\<in>{2..<n}. \<not> d dvd n)"

lemma filter_loop_filter: "filter_loop p nums = filter (\<lambda>n. \<not> p dvd n) nums"
  by (induction p nums rule: filter_loop.induct) (auto simp: dvd_eq_mod_eq_0)

lemma generate_upto: "generate m k = [k..k + int m - 1]"
  by (induction m k rule: generate.induct) (simp_all add: upto_rec1)

text \<open>What is left when the divisors below \<open>k\<close> have been filtered out.\<close>

definition sifted :: "int \<Rightarrow> int \<Rightarrow> int list" where
  "sifted k m = filter (\<lambda>n. \<forall>d\<in>{2..<k}. \<not> d dvd n) [k..m]"

lemma sifted_Cons:
  assumes "2 \<le> k" and "sifted k m = p # ys"
  shows "k \<le> p" "p \<le> m" "filter is_prime [k..m] = p # filter is_prime [p + 1..m]"
    and "filter_loop p ys = sifted (p + 1) m"
proof -
  let ?P = "\<lambda>k n. \<forall>d\<in>{2..<k}. \<not> d dvd n"
  have "p \<in> set (sifted k m)" using assms(2) by simp
  then show p: "k \<le> p" "p \<le> m" by (auto simp: sifted_def)
  then have split: "[k..m] = [k..p - 1] @ p # [p + 1..m]" by (intro upto_split3) auto
  obtain us vs where uv: "[k..m] = us @ p # vs" "\<forall>u\<in>set us. \<not> ?P k u" "?P k p" "ys = filter (?P k) vs"
    using assms(2) unfolding sifted_def filter_eq_Cons_iff by auto
  have "us = [k..p - 1] \<and> vs = [p + 1..m]"
    using uv(1) unfolding split by (subst (asm) append_Cons_eq_iff) auto
  then have us: "us = [k..p - 1]" and vs: "vs = [p + 1..m]" by simp_all
  have small: "\<exists>d'\<in>{2..<k}. d' dvd d" if "d \<in> {k..<p}" for d using uv(2) that by (auto simp: us)
  have no: "\<not> d dvd p" if "d \<in> {2..<p}" for d
  proof (cases "d < k")
    case False
    then have "d \<in> {k..<p}" using that by auto
    from small[OF this] obtain d' where "d' \<in> {2..<k}" "d' dvd d" by blast
    then show ?thesis using uv(3) by (auto dest: dvd_trans)
  qed (use uv(3) that in auto)
  have "\<not> is_prime d" if "d \<in> {k..<p}" for d using small[OF that] that by (force simp: is_prime_def)
  then have "filter is_prime [k..p - 1] = []" by (auto simp: filter_empty_conv)
  moreover have "is_prime p" using no assms(1) p by (simp add: is_prime_def)
  ultimately show "filter is_prime [k..m] = p # filter is_prime [p + 1..m]" unfolding split by simp
  have "?P k n \<and> \<not> p dvd n \<longleftrightarrow> ?P (p + 1) n" for n
  proof
    assume n: "?P k n \<and> \<not> p dvd n"
    show "?P (p + 1) n"
    proof
      fix d assume d: "d \<in> {2..<p + 1}"
      show "\<not> d dvd n"
      proof (cases "d < k \<or> d = p")
        case False
        then have "d \<in> {k..<p}" using d by auto
        from small[OF this] obtain d' where "d' \<in> {2..<k}" "d' dvd d" by blast
        then show ?thesis using n by (auto dest: dvd_trans)
      qed (use n d in auto)
    qed
  qed (use assms(1) p in auto)
  then show "filter_loop p ys = sifted (p + 1) m"
    by (simp add: filter_loop_filter uv(4) vs sifted_def conj_commute)
qed

lemma sifted_Nil:
  assumes "sifted k m = []"
  shows "filter is_prime [k..m] = []"
proof -
  have "\<exists>d\<in>{2..<k}. d dvd n" if "n \<in> {k..m}" for n
    using assms that by (auto simp: sifted_def filter_empty_conv)
  then show ?thesis by (fastforce simp: filter_empty_conv is_prime_def)
qed

lemma sieved_primes: "2 \<le> k \<Longrightarrow> sieved (sifted k m) = filter is_prime [k..m]"
proof (induction "nat (m + 1 - k)" arbitrary: k rule: less_induct)
  case less
  show ?case
  proof (cases "sifted k m")
    case (Cons p ys)
    note c = sifted_Cons[OF less.prems Cons]
    have "sieved (sifted (p + 1) m) = filter is_prime [p + 1..m]" using less c(1,2) by simp
    then show ?thesis using c(3,4) Cons by simp
  qed (simp add: sifted_Nil)
qed

lemma sieved_generate: "sieved (generate (nat (m - 1)) 2) = filter is_prime [2..m]"
proof -
  have "generate (nat (m - 1)) 2 = sifted 2 m"
    by (cases "2 \<le> m") (simp_all add: generate_upto sifted_def)
  then show ?thesis by (simp add: sieved_primes)
qed

text \<open>The start of \<open>main\<close>, with the descriptors 3 and 4.\<close>

lemma sieve_main_start:
  "m < LONG_MAX \<Longrightarrow> sieve_main mode m = bind_run (filter_chain mode [] [Some Std, Some Std, Some Std, Some (Rd 0), None] \<lparr>read_end = 3, write_end = 4\<rparr> 0
       (generate (nat (m - 1)) 2))
     (\<lambda>(written, procs). Inr (written, [Some Std, Some Std, Some Std, None, Some (Wr 0)], procs,
        [Some Std, Some Std, Some Std, None, None]))"
  by (simp add: sieve_main_def MakePipe_def open_fd_def std_tab_def CloseReadEnd_def CloseWriteEnd_def
      close_fd_def entry_def generator_def WriteNum_def numeral_eq_Suc)

lemma sieve_tab_entries:
  "entry [Some Std, Some Std, Some Std, Some (Rd 0), None] 3 = Some (Rd 0)"
  "\<forall>i. i \<noteq> 3 \<longrightarrow> entry [Some Std, Some Std, Some Std, Some (Rd 0), None] i \<in> {None, Some Std}"
  by (auto simp: entry_def less_Suc_eq_0_disj numeral_eq_Suc nth_Cons split: nat.splits)

definition primes_to :: "int \<Rightarrow> int list" where
  "primes_to m = filter is_prime [2..m]"

lemma sieve_main_run:
  "m < LONG_MAX \<Longrightarrow> \<exists>procs. sieve_main mode m = Inr (fst (print_fork mode [] (map prime_line (primes_to m))),
      [Some Std, Some Std, Some Std, None, Some (Wr 0)], procs, [Some Std, Some Std, Some Std, None, None]) \<and>
    map f_in procs = [0..<length (primes_to m)] \<and> map f_out procs = [1..<Suc (length (primes_to m))] \<and>
    map f_written procs = map calls_of (snd (print_fork mode [] (map prime_line (primes_to m)))) \<and>
    (\<forall>p\<in>set procs. ends (f_tab p) - {Std} = {Rd (f_in p), Wr (f_out p)})"
  using filter_chain_run[of "[Some Std, Some Std, Some Std, Some (Rd 0), None]" "\<lparr>read_end = 3, write_end = 4\<rparr>" 0 mode "[]"
      "generate (nat (m - 1)) 2"] sieve_tab_entries
  by (auto simp: sieve_main_start sieved_generate primes_to_def)

section \<open>Properties\<close>



text \<open>Every process holds exactly the pipe ends it uses: the generator the write end of pipe
  0, the filter processes the read end of one pipe and the write end of the next, so that
  every pipe has one writer and its reader sees the end of the stream when that ends.\<close>

theorem sieve_pipes:
  assumes "maxprime < LONG_MAX" and "sieve_main mode maxprime = Inr (written, gen_tab, procs, tab)"
  shows "ends gen_tab - {Std} = {Wr 0} \<and> ends tab - {Std} = {} \<and>
    map f_out procs = [1..<Suc (length (primes_to maxprime))] \<and> map f_in procs = [0..<length (primes_to maxprime)] \<and>
    (\<forall>p\<in>set procs. ends (f_tab p) - {Std} = {Rd (f_in p), Wr (f_out p)})"
proof -
  have "ends [Some Std, Some Std, Some Std, None, Some (Wr 0)] - {Std} = {Wr 0}"
    "ends [Some Std, Some Std, Some Std, None, None] - {Std} = {}"
    by (auto simp: ends_set)
  then show ?thesis using sieve_main_run[OF assms(1), of mode] assms(2) by auto
qed

theorem sieve_pipes_witness:
  "\<exists>w g procs t. sieve_main Unbuffered 10 = Inr (w, g, procs, t) \<and> map f_out procs = [1, 2, 3, 4]"
proof -
  have p: "primes_to 10 = [2, 3, 5, 7]" by code_simp
  obtain w g procs t where m: "sieve_main Unbuffered 10 = Inr (w, g, procs, t)"
    using sieve_main_run[of 10 Unbuffered] by (auto simp: LONG_MAX_def)
  have "10 < LONG_MAX" by (simp add: LONG_MAX_def)
  from sieve_pipes[OF this m] m show ?thesis by (simp add: upt_rec p)
qed

text \<open>The filter processes close the wrong pipe when they are done: in the first one
  \<open>CloseWriteEnd (in)\<close> meets a descriptor that is not open, and the process ends with an
  error.\<close>

theorem sieve_close:
  assumes "2 \<le> maxprime" and "maxprime < LONG_MAX"
  shows "\<exists>written gen_tab p procs tab. sieve_main mode maxprime = Inr (written, gen_tab, p # procs, tab) \<and> f_close p = Inl App_error"
proof -
  let ?tab = "[Some Std, Some Std, Some Std, Some (Rd 0), None]" and ?in = "\<lparr>read_end = 3, write_end = 4\<rparr>"
  obtain n nums where g: "generate (nat (maxprime - 1)) 2 = n # nums"
    using assms(1) by (cases "nat (maxprime - 1)") auto
  obtain w procs where r: "filter_chain mode [] ?tab ?in 0 (n # nums) = Inr (w, procs)"
    "map f_in procs = [0..<length (sieved (n # nums))]"
    using filter_chain_run[of ?tab ?in 0 mode "[]" "n # nums"] sieve_tab_entries by auto
  have "chain_fork ?tab ?in (0 + 1) =
    Inr ([Some Std, Some Std, Some Std, Some (Rd 0), None, Some (Wr 1)],
      [Some Std, Some Std, Some Std, None, Some (Rd 1), None], \<lparr>read_end = 4, write_end = 5\<rparr>)"
    by (simp add: chain_fork_def MakePipe_def open_fd_def CloseReadEnd_def CloseWriteEnd_def
        close_fd_def entry_def numeral_eq_Suc)
  from first_filter_close[OF r(1) this] have "f_close (hd procs) = Inl App_error"
    by (simp add: CloseWriteEnd_def close_fd_def entry_def)
  moreover have "procs \<noteq> []" using r(2) by auto
  ultimately show ?thesis using r(1) by (cases procs) (auto simp: sieve_main_start[OF assms(2)] g)
qed

theorem sieve_close_witness:
  "\<exists>written g p procs t. sieve_main Unbuffered 2 = Inr (written, g, p # procs, t) \<and> f_close p = Inl App_error"
  by (rule sieve_close) (simp_all add: LONG_MAX_def)

end
