(* ===== verification/Conc.thy ===== *)
theory Conc
  imports Prelude
begin

text \<open>
  Interleaved execution, shared by the programs with threads. A program is a set of start
  states and a step relation in which one thread takes one step, from one synchronisation
  operation to the next. The locales state what makes an invariant and a
  progress argument, once for all the programs: \<open>safe_system\<close> (an invariant that every step
  keeps) and \<open>converging_system\<close> (a measure that some step makes smaller until a goal is met).
\<close>

inductive reach :: "('s \<Rightarrow> bool) \<Rightarrow> ('s \<Rightarrow> 's \<Rightarrow> bool) \<Rightarrow> 's \<Rightarrow> bool"
  for init :: "'s \<Rightarrow> bool" and step :: "'s \<Rightarrow> 's \<Rightarrow> bool" where
  reach_init: "init s \<Longrightarrow> reach init step s"
| reach_step: "reach init step s \<Longrightarrow> step s t \<Longrightarrow> reach init step t"

lemma reach_steps: "step\<^sup>*\<^sup>* s t \<Longrightarrow> reach init step s \<Longrightarrow> reach init step t"
  by (induction rule: rtranclp.induct) (auto intro: reach_step)

locale safe_system =
  fixes init :: "'s \<Rightarrow> bool" and step :: "'s \<Rightarrow> 's \<Rightarrow> bool" and inv :: "'s \<Rightarrow> bool"
  assumes inv_init: "init s \<Longrightarrow> inv s"
    and inv_step: "step s t \<Longrightarrow> inv s \<Longrightarrow> inv t"
begin

lemma inv_reach: "reach init step s \<Longrightarrow> inv s"
  by (induction rule: reach.induct) (auto intro: inv_init inv_step)

lemma inv_steps: "step\<^sup>*\<^sup>* s t \<Longrightarrow> inv s \<Longrightarrow> inv t"
  by (induction rule: rtranclp.induct) (auto intro: inv_step)

end

text \<open>Some step brings every state that has not met the goal closer to it.\<close>

locale converging_system = safe_system init step inv
  for init :: "'s \<Rightarrow> bool" and step :: "'s \<Rightarrow> 's \<Rightarrow> bool" and inv :: "'s \<Rightarrow> bool" +
  fixes goal :: "'s \<Rightarrow> bool" and distance :: "'s \<Rightarrow> nat"
  assumes closer: "inv s \<Longrightarrow> \<not> goal s \<Longrightarrow> \<exists>t. step s t \<and> distance t < distance s"
begin

lemma can_reach_goal: "inv s \<Longrightarrow> \<exists>t. step\<^sup>*\<^sup>* s t \<and> goal t \<and> inv t"
proof (induction "distance s" arbitrary: s rule: less_induct)
  case less
  show ?case
  proof (cases "goal s")
    case False
    from closer[OF less.prems False] obtain t where t: "step s t" "distance t < distance s" by blast
    from less.hyps[OF t(2) inv_step[OF t(1) less.prems]] obtain u where "step\<^sup>*\<^sup>* t u" "goal u" "inv u" by blast
    then show ?thesis using t(1) by (meson converse_rtranclp_into_rtranclp)
  qed (use less.prems in blast)
qed

lemma reachable_can_reach_goal: "reach init step s \<Longrightarrow> \<exists>t. step\<^sup>*\<^sup>* s t \<and> goal t"
  using can_reach_goal inv_reach by blast

end

section \<open>Schedules\<close>

text \<open>Any of the first \<open>n\<close> threads takes a step; a schedule names the threads that do.\<close>

definition interleaved :: "nat \<Rightarrow> (nat \<Rightarrow> 's \<Rightarrow> 's option) \<Rightarrow> 's \<Rightarrow> 's \<Rightarrow> bool" where
  "interleaved n f s t \<longleftrightarrow> (\<exists>i<n. f i s = Some t)"

text \<open>A run over a list of events, of which the schedules of threads are the special case of thread numbers.\<close>

fun run_schedule :: "('e \<Rightarrow> 's \<Rightarrow> 's option) \<Rightarrow> 'e list \<Rightarrow> 's \<Rightarrow> 's option" where
  "run_schedule f [] s = Some s"
| "run_schedule f (i # is) s = (case f i s of None \<Rightarrow> None | Some t \<Rightarrow> run_schedule f is t)"

lemma run_schedule_append:
  "run_schedule f (is @ js) s = (case run_schedule f is s of None \<Rightarrow> None | Some t \<Rightarrow> run_schedule f js t)"
  by (induction "is" arbitrary: s) (auto split: option.split)

lemma run_schedule_steps:
  "run_schedule f is s = Some t \<Longrightarrow> \<forall>i\<in>set is. i < n \<Longrightarrow> (interleaved n f)\<^sup>*\<^sup>* s t"
proof (induction "is" arbitrary: s)
  case (Cons i "is")
  then obtain u where u: "f i s = Some u" "run_schedule f is u = Some t" by (auto split: option.splits)
  then have "interleaved n f s u" using Cons.prems(2) by (auto simp: interleaved_def)
  with Cons.IH[OF u(2)] Cons.prems(2) show ?case by (auto intro: converse_rtranclp_into_rtranclp)
qed simp

lemma run_schedule_reach:
  "run_schedule f es s = Some t \<Longrightarrow> \<forall>e\<in>set es. \<forall>s t. f e s = Some t \<longrightarrow> step s t \<Longrightarrow>
     reach init step s \<Longrightarrow> reach init step t"
proof (induction es arbitrary: s)
  case (Cons e es)
  then obtain u where u: "f e s = Some u" "run_schedule f es u = Some t" by (auto split: option.splits)
  then have "reach init step u" using Cons.prems(2,3) by (auto intro: reach_step)
  with Cons.IH[OF u(2)] Cons.prems(2) show ?case by simp
qed simp

lemma run_blocks:
  assumes "\<And>k. k < n \<Longrightarrow> run_schedule f (block k) (st k) = Some (st (Suc k))"
  shows "run_schedule f (concat (map block [0..<n])) (st 0) = Some (st n)"
  using assms by (induction n) (simp_all add: run_schedule_append)

section \<open>Semaphores\<close>

text \<open>A semaphore of the library is its value; \<open>sem_wait\<close> is enabled while the value is positive.\<close>

definition sem_wait :: "nat \<Rightarrow> nat option" where
  "sem_wait v = (if v = 0 then None else Some (v - 1))"

definition sem_post :: "nat \<Rightarrow> nat" where
  "sem_post v = v + 1"

lemma sem_wait_Some [simp]: "sem_wait v = Some v' \<longleftrightarrow> v = Suc v'"
  by (cases v) (auto simp: sem_wait_def)

lemma sem_wait_None [simp]: "sem_wait v = None \<longleftrightarrow> v = 0"
  by (simp add: sem_wait_def)

section \<open>Counting threads\<close>

text \<open>The number of the threads below \<open>n\<close> whose place satisfies \<open>P\<close>.\<close>

definition count_pcs :: "nat \<Rightarrow> ('p \<Rightarrow> bool) \<Rightarrow> (nat \<Rightarrow> 'p) \<Rightarrow> nat" where
  "count_pcs n P pc = card {i. i < n \<and> P (pc i)}"

lemma count_pcs_0: "count_pcs n P pc = 0 \<longleftrightarrow> (\<forall>i<n. \<not> P (pc i))"
  by (auto simp: count_pcs_def)

lemma count_pcs_const [simp]: "count_pcs n P (\<lambda>_. x) = (if P x then n else 0)"
  by (simp add: count_pcs_def)

lemma count_pcs_le: "count_pcs n P pc \<le> n"
proof -
  have "card {i. i < n \<and> P (pc i)} \<le> card {..<n}" by (rule card_mono) auto
  then show ?thesis by (simp add: count_pcs_def)
qed

lemma count_pcs_all: "count_pcs n P pc = n \<longleftrightarrow> (\<forall>i<n. P (pc i))"
proof
  assume "count_pcs n P pc = n"
  then have "{i. i < n \<and> P (pc i)} = {..<n}"
    by (intro card_subset_eq) (auto simp: count_pcs_def)
  then show "\<forall>i<n. P (pc i)" by blast
next
  assume "\<forall>i<n. P (pc i)"
  then have "{i. i < n \<and> P (pc i)} = {..<n}" by auto
  then show "count_pcs n P pc = n" by (simp add: count_pcs_def)
qed

lemma count_pcs_upd:
  assumes "i < n"
  shows "count_pcs n P (pc(i := x)) + (if P (pc i) then 1 else 0) = count_pcs n P pc + (if P x then 1 else 0)"
proof -
  let ?R = "{j. j < n \<and> j \<noteq> i \<and> P (pc j)}"
  have "{j. j < n \<and> P ((pc(i := x)) j)} = (if P x then insert i ?R else ?R)"
    "{j. j < n \<and> P (pc j)} = (if P (pc i) then insert i ?R else ?R)"
    using assms by auto
  moreover have "finite ?R" "i \<notin> ?R" by auto
  ultimately show ?thesis by (simp add: count_pcs_def)
qed

lemma count_pcs_pos: "i < n \<Longrightarrow> P (pc i) \<Longrightarrow> 0 < count_pcs n P pc"
  using count_pcs_0[of n P pc] by auto

lemma count_pcs_ex: "0 < count_pcs n P pc \<Longrightarrow> \<exists>i<n. P (pc i)"
  using count_pcs_0[of n P pc] by auto

lemma count_pcs_mono: "(\<And>i. i < n \<Longrightarrow> P (pc i) \<Longrightarrow> Q (pc' i)) \<Longrightarrow> count_pcs n P pc \<le> count_pcs n Q pc'"
  unfolding count_pcs_def by (rule card_mono) auto

lemma count_pcs_unique:
  assumes "count_pcs n P pc \<le> 1" and "i < n" and "P (pc i)" and "j < n" and "P (pc j)"
  shows "i = j"
proof (rule ccontr)
  assume "i \<noteq> j"
  then have "card {i, j} \<le> count_pcs n P pc"
    unfolding count_pcs_def using assms by (intro card_mono) auto
  then show False using assms(1) \<open>i \<noteq> j\<close> by simp
qed

text \<open>The sum of a weight of the places; a step of one thread changes one summand.\<close>

definition sum_pcs :: "nat \<Rightarrow> ('p \<Rightarrow> nat) \<Rightarrow> (nat \<Rightarrow> 'p) \<Rightarrow> nat" where
  "sum_pcs n w pc = (\<Sum>i<n. w (pc i))"

lemma sum_pcs_upd:
  assumes "i < n"
  shows "sum_pcs n w (pc(i := x)) + w (pc i) = sum_pcs n w pc + w x"
proof -
  have "sum_pcs n w (pc(i := x)) = w x + (\<Sum>j\<in>{..<n} - {i}. w (pc j))"
    "sum_pcs n w pc = w (pc i) + (\<Sum>j\<in>{..<n} - {i}. w (pc j))"
    using assms by (simp_all add: sum_pcs_def sum.remove[of "{..<n}" i])
  then show ?thesis by simp
qed

section \<open>Condition variables\<close>

text \<open>The threads below \<open>k\<close> that sleep at place \<open>c\<close>; \<open>m\<close> signals wake \<open>m\<close> of them, or all when there are
  fewer; \<open>ws\<close> are the woken, which go on at place \<open>b\<close>.\<close>

definition sleepers :: "nat \<Rightarrow> 'p \<Rightarrow> (nat \<Rightarrow> 'p) \<Rightarrow> nat list" where
  "sleepers k c pc = filter (\<lambda>i. pc i = c) [0..<k]"

definition can_signal :: "nat \<Rightarrow> 'p \<Rightarrow> (nat \<Rightarrow> 'p) \<Rightarrow> int \<Rightarrow> nat list \<Rightarrow> bool" where
  "can_signal k c pc m ws \<longleftrightarrow>
     distinct ws \<and> set ws \<subseteq> set (sleepers k c pc) \<and> length ws = min (nat m) (length (sleepers k c pc))"

definition woken :: "nat list \<Rightarrow> 'p \<Rightarrow> (nat \<Rightarrow> 'p) \<Rightarrow> nat \<Rightarrow> 'p" where
  "woken ws b pc = (\<lambda>i. if i \<in> set ws then b else pc i)"

lemma length_sleepers: "length (sleepers k c pc) = count_pcs k (\<lambda>p. p = c) pc"
proof -
  have "length (sleepers k c pc) = card (set (sleepers k c pc))"
    by (rule distinct_card[symmetric]) (simp add: sleepers_def)
  also have "set (sleepers k c pc) = {i. i < k \<and> pc i = c}" by (auto simp: sleepers_def)
  finally show ?thesis by (simp add: count_pcs_def)
qed

lemma count_pcs_woken:
  assumes "distinct ws" and "set ws \<subseteq> set (sleepers k c pc)"
  shows "count_pcs k P (woken ws b pc) + (if P c then length ws else 0) = count_pcs k P pc + (if P b then length ws else 0)"
  using assms
proof (induction ws)
  case (Cons w ws)
  have "count_pcs k P (woken ws b pc) + (if P c then length ws else 0) = count_pcs k P pc + (if P b then length ws else 0)"
    using Cons by simp
  moreover have "woken (w # ws) b pc = (woken ws b pc)(w := b)" "woken ws b pc w = c" "w < k"
    using Cons.prems by (auto simp: woken_def sleepers_def)
  ultimately show ?case using count_pcs_upd[of w k P "woken ws b pc" b] by (simp del: fun_upd_apply split: if_splits)
qed (simp add: woken_def)

text \<open>When there are enough sleepers, exactly as many wake as there are signals.\<close>

lemma can_signal_counts:
  assumes "can_signal k c pc m ws" and "0 \<le> m" and "m \<le> int (count_pcs k (\<lambda>p. p = c) pc)"
  shows "int (count_pcs k P (woken ws b pc)) =
    int (count_pcs k P pc) - (if P c then m else 0) + (if P b then m else 0)"
  using count_pcs_woken[of ws k c pc P b] assms unfolding can_signal_def length_sleepers by (auto split: if_splits)

lemma can_signal_exists: "\<exists>ws. can_signal k c pc m ws"
proof
  let ?n = "min (nat m) (length (sleepers k c pc))"
  show "can_signal k c pc m (take ?n (sleepers k c pc))"
    using set_take_subset[of ?n "sleepers k c pc"] distinct_filter[of "[0..<k]" "\<lambda>i. pc i = c"]
    unfolding can_signal_def by (simp add: sleepers_def)
qed

end
