(* ===== verification/Philosophers.thy ===== *)
theory Philosophers
  imports Conc
begin

text \<open>
  The dining philosophers of \<open>13/so21_lista_13/philosophers.c\<close>: \<open>n\<close> threads (\<open>N\<close> in the code),
  one semaphore per fork and the semaphore \<open>footman\<close> that lets \<open>n - 1\<close> of them sit down. A step
  is one semaphore operation of one philosopher; a philosopher is where its program
  stands. The footman is given back before the forks are.
\<close>

section \<open>The program\<close>

text \<open>The places of \<open>philosopher\<close>: before each semaphore operation. \<open>Eating\<close> is before the first
  \<open>Sem_post\<close>, with both forks taken.\<close>

datatype phil = Thinking | Want_right | Want_left | Eating | Put_right | Put_left

record table =
  phils :: "nat \<Rightarrow> phil"
  forks :: "nat \<Rightarrow> nat"
  footman :: nat

definition right_fork :: "nat \<Rightarrow> nat" where
  "right_fork i = i"

definition left_fork :: "nat \<Rightarrow> nat \<Rightarrow> nat" where
  "left_fork n i = (if right_fork i = 0 then n - 1 else right_fork i - 1)"

definition phil_step_of :: "nat \<Rightarrow> nat \<Rightarrow> table \<Rightarrow> table option" where
  "phil_step_of n i s =
    (let take = (\<lambda>f next. map_option (\<lambda>v. s\<lparr>forks := (forks s)(f := v), phils := (phils s)(i := next)\<rparr>)
                   (sem_wait (forks s f)));
         put = (\<lambda>f next. Some (s\<lparr>forks := (forks s)(f := sem_post (forks s f)), phils := (phils s)(i := next)\<rparr>))
     in case phils s i of
       Thinking \<Rightarrow> map_option (\<lambda>v. s\<lparr>footman := v, phils := (phils s)(i := Want_right)\<rparr>) (sem_wait (footman s))
     | Want_right \<Rightarrow> take (right_fork i) Want_left
     | Want_left \<Rightarrow> take (left_fork n i) Eating
     | Eating \<Rightarrow> Some (s\<lparr>footman := sem_post (footman s), phils := (phils s)(i := Put_right)\<rparr>)
     | Put_right \<Rightarrow> put (right_fork i) Put_left
     | Put_left \<Rightarrow> put (left_fork n i) Thinking)"

definition phil_init :: "nat \<Rightarrow> table" where
  "phil_init n = \<lparr>phils = (\<lambda>_. Thinking), forks = (\<lambda>_. 1), footman = n - 1\<rparr>"

definition phil_step :: "nat \<Rightarrow> table \<Rightarrow> table \<Rightarrow> bool" where
  "phil_step n = interleaved n (phil_step_of n)"

abbreviation phil_reach :: "nat \<Rightarrow> table \<Rightarrow> bool" where
  "phil_reach n \<equiv> reach (\<lambda>s. s = phil_init n) (phil_step n)"

section \<open>Who holds what\<close>

fun seated :: "phil \<Rightarrow> bool" where
  "seated Want_right = True"
| "seated Want_left = True"
| "seated Eating = True"
| "seated _ = False"

fun holds_right :: "phil \<Rightarrow> bool" where
  "holds_right Want_left = True"
| "holds_right Eating = True"
| "holds_right Put_right = True"
| "holds_right _ = False"

fun holds_left :: "phil \<Rightarrow> bool" where
  "holds_left Eating = True"
| "holds_left Put_right = True"
| "holds_left Put_left = True"
| "holds_left _ = False"

text \<open>The philosopher whose left fork this is.\<close>

definition left_user :: "nat \<Rightarrow> nat \<Rightarrow> nat" where
  "left_user n f = (if f = n - 1 then 0 else f + 1)"

definition fork_ok :: "nat \<Rightarrow> table \<Rightarrow> nat \<Rightarrow> bool" where
  "fork_ok n s f \<longleftrightarrow> forks s f + (if holds_right (phils s f) then 1 else 0) +
     (if holds_left (phils s (left_user n f)) then 1 else 0) = 1"

definition phil_inv :: "nat \<Rightarrow> table \<Rightarrow> bool" where
  "phil_inv n s \<longleftrightarrow> footman s + count_pcs n seated (phils s) = n - 1 \<and>
     (\<forall>f<n. fork_ok n s f)"

lemma left_fork_bound: "i < n \<Longrightarrow> left_fork n i < n"
  by (auto simp: left_fork_def right_fork_def)

lemma left_user_left_fork: "i < n \<Longrightarrow> left_user n (left_fork n i) = i"
  by (auto simp: left_user_def left_fork_def right_fork_def)

lemma left_user_bound: "f < n \<Longrightarrow> left_user n f < n"
  by (auto simp: left_user_def)

lemma left_fork_left_user: "f < n \<Longrightarrow> left_fork n (left_user n f) = f"
  by (auto simp: left_user_def left_fork_def right_fork_def)

lemma left_user_iff: "f < n \<Longrightarrow> i < n \<Longrightarrow> left_user n f = i \<longleftrightarrow> f = left_fork n i"
  by (metis left_user_left_fork left_fork_left_user)

lemma phil_inv_init: "2 \<le> n \<Longrightarrow> phil_inv n (phil_init n)"
  by (simp add: phil_inv_def phil_init_def fork_ok_def)

text \<open>What a step does to the places, the forks and the footman.\<close>

lemma phil_step_of_cases:
  assumes "phil_step_of n i s = Some t"
  obtains (sit) v where "phils s i = Thinking" "footman s = Suc v"
      "t = s\<lparr>footman := v, phils := (phils s)(i := Want_right)\<rparr>"
  | (take_right) v where "phils s i = Want_right" "forks s i = Suc v"
      "t = s\<lparr>forks := (forks s)(i := v), phils := (phils s)(i := Want_left)\<rparr>"
  | (take_left) v where "phils s i = Want_left" "forks s (left_fork n i) = Suc v"
      "t = s\<lparr>forks := (forks s)(left_fork n i := v), phils := (phils s)(i := Eating)\<rparr>"
  | (stand) "phils s i = Eating" "t = s\<lparr>footman := Suc (footman s), phils := (phils s)(i := Put_right)\<rparr>"
  | (put_right) "phils s i = Put_right"
      "t = s\<lparr>forks := (forks s)(i := Suc (forks s i)), phils := (phils s)(i := Put_left)\<rparr>"
  | (put_left) "phils s i = Put_left"
      "t = s\<lparr>forks := (forks s)(left_fork n i := Suc (forks s (left_fork n i))), phils := (phils s)(i := Thinking)\<rparr>"
  using assms by (auto simp: phil_step_of_def Let_def right_fork_def sem_post_def split: phil.splits)

lemma phil_inv_step:
  assumes "phil_step n s t" and "phil_inv n s" and "2 \<le> n"
  shows "phil_inv n t"
proof -
  obtain i where i: "i < n" "phil_step_of n i s = Some t" using assms(1) by (auto simp: phil_step_def interleaved_def)
  note c = count_pcs_upd[OF i(1), of seated "phils s"]
  have "left_fork n i \<noteq> i" using assms(3) i(1) by (auto simp: left_fork_def right_fork_def)
  then have l: "left_user n i \<noteq> i" "i \<noteq> left_fork n i" "left_user n (left_fork n i) = i"
    using left_user_iff[OF i(1) i(1)] left_user_left_fork[OF i(1)] by auto
  have "footman t + count_pcs n seated (phils t) = n - 1"
    using i(2)
  proof (cases rule: phil_step_of_cases)
    case sit
    then show ?thesis using assms(2) c[of Want_right] by (auto simp: phil_inv_def)
  next
    case take_right
    then show ?thesis using assms(2) c[of Want_left] by (auto simp: phil_inv_def)
  next
    case take_left
    then show ?thesis using assms(2) c[of Eating] by (auto simp: phil_inv_def)
  next
    case stand
    then show ?thesis using assms(2) c[of Put_right] by (auto simp: phil_inv_def)
  next
    case put_right
    then show ?thesis using assms(2) c[of Put_left] by (auto simp: phil_inv_def)
  next
    case put_left
    then show ?thesis using assms(2) c[of Thinking] by (auto simp: phil_inv_def)
  qed
  moreover have "fork_ok n t f" if f: "f < n" for f
  proof -
    have l': "left_user n f = i \<longleftrightarrow> f = left_fork n i" using left_user_iff[OF f i(1)] .
    have "fork_ok n s f" using f assms(2) by (simp add: phil_inv_def)
    with i(2) show ?thesis
      by (cases rule: phil_step_of_cases; cases "f = i"; cases "f = left_fork n i")
        (use l l' in \<open>auto simp: fork_ok_def split: if_splits\<close>)
  qed
  ultimately show ?thesis by (simp add: phil_inv_def)
qed

section \<open>Everyone can get up\<close>

fun steps_left :: "phil \<Rightarrow> nat" where
  "steps_left Thinking = 0"
| "steps_left Want_right = 5"
| "steps_left Want_left = 4"
| "steps_left Eating = 3"
| "steps_left Put_right = 2"
| "steps_left Put_left = 1"

definition all_think :: "nat \<Rightarrow> table \<Rightarrow> bool" where
  "all_think n s \<longleftrightarrow> (\<forall>i<n. phils s i = Thinking)"

lemma left_user_mod: "f < n \<Longrightarrow> left_user n f = (f + 1) mod n"
  by (auto simp: left_user_def mod_Suc)

lemma all_think_around:
  assumes "t < n" and "phils s t = Thinking"
    and "\<And>f. f < n \<Longrightarrow> phils s f = Thinking \<Longrightarrow> phils s (left_user n f) = Thinking"
  shows "all_think n s"
proof -
  have a: "phils s ((t + k) mod n) = Thinking" for k
  proof (induction k)
    case (Suc k)
    have "(t + k) mod n < n" using assms(1) by simp
    from assms(3)[OF this Suc] show ?case using left_user_mod[OF \<open>(t + k) mod n < n\<close>] by (simp add: mod_Suc_eq)
  qed (use assms(1,2) in simp)
  have "(t + (j + n - t)) mod n = j" if "j < n" for j using that assms(1) by simp
  then show ?thesis unfolding all_think_def using a by metis
qed

lemma some_step_closer:
  assumes "phil_inv n s" and "i < n" and "phil_step_of n i s = Some t" and "phils s i \<noteq> Thinking"
  shows "\<exists>t. phil_step n s t \<and> sum_pcs n steps_left (phils t) < sum_pcs n steps_left (phils s)"
proof (rule exI, rule conjI)
  show "phil_step n s t" using assms(2,3) by (auto simp: phil_step_def interleaved_def)
  note c = sum_pcs_upd[OF assms(2), of steps_left "phils s"]
  from assms(3) show "sum_pcs n steps_left (phils t) < sum_pcs n steps_left (phils s)"
    using c[of Want_left] c[of Eating] c[of Put_right] c[of Put_left] c[of Thinking] assms(4)
    by (cases rule: phil_step_of_cases) auto
qed

lemma fork_free:
  assumes "phil_inv n s" and "f < n" and "\<not> holds_right (phils s f)" and "\<not> holds_left (phils s (left_user n f))"
  shows "forks s f = 1"
  using assms by (auto simp: phil_inv_def fork_ok_def)

lemma phil_closer:
  assumes inv: "phil_inv n s" and "2 \<le> n" and "\<not> all_think n s"
  shows "\<exists>t. phil_step n s t \<and> sum_pcs n steps_left (phils t) < sum_pcs n steps_left (phils s)"
proof -
  consider (busy) i where "i < n" "phils s i \<in> {Eating, Put_right, Put_left}"
    | (right) i where "i < n" "phils s i = Want_right" "\<forall>j<n. phils s j \<notin> {Eating, Put_right, Put_left}"
    | (left) "\<forall>j<n. phils s j \<in> {Thinking, Want_left}"
    by (metis insert_iff phil.exhaust)
  then show ?thesis
  proof cases
    case busy
    then have "\<exists>t. phil_step_of n i s = Some t" by (auto simp: phil_step_of_def)
    with busy some_step_closer[OF inv busy(1)] show ?thesis by auto
  next
    case right
    have "\<not> holds_left (phils s (left_user n i))"
      using right(3) left_user_bound[OF right(1)] by (cases "phils s (left_user n i)") auto
    then have "forks s i = 1" using fork_free[OF inv right(1)] right(2) by simp
    then have "\<exists>t. phil_step_of n i s = Some t" using right(2) by (simp add: phil_step_of_def right_fork_def)
    with right some_step_closer[OF inv right(1)] show ?thesis by auto
  next
    case left
    have "count_pcs n seated (phils s) \<noteq> n" using inv assms(2) by (auto simp: phil_inv_def)
    then obtain j where j: "j < n" "\<not> seated (phils s j)" by (auto simp: count_pcs_all)
    then have "phils s j = Thinking" using left by fastforce
    then obtain f where f: "f < n" "phils s f = Thinking" "phils s (left_user n f) \<noteq> Thinking"
      using all_think_around[of j n s] j(1) assms(3) by blast
    let ?i = "left_user n f"
    have i: "?i < n" "phils s ?i = Want_left" using left f(3) left_user_bound[OF f(1)] by auto
    have "forks s f = 1" using fork_free[OF inv f(1)] f(2) i(2) by simp
    then have "\<exists>t. phil_step_of n ?i s = Some t"
      using i(2) left_fork_left_user[OF f(1)] by (simp add: phil_step_of_def)
    with i some_step_closer[OF inv i(1)] show ?thesis by auto
  qed
qed

text \<open>The interface of converging systems, for at least two philosophers. With fewer the invariant is
  empty.\<close>

interpretation phil_system: converging_system "\<lambda>s. s = phil_init n \<and> 2 \<le> n" "phil_step n" "\<lambda>s. phil_inv n s \<and> 2 \<le> n"
    "all_think n" "\<lambda>s. sum_pcs n steps_left (phils s)"
  by unfold_locales (auto intro: phil_inv_init phil_inv_step phil_closer)

lemma eat_from_thinking:
  assumes "phil_inv n s" and "2 \<le> n" and "all_think n s" and "i < n"
  shows "\<exists>t. (phil_step n)\<^sup>*\<^sup>* s t \<and> phils t i = Eating"
proof -
  have "seated (phils s j) = False" if "j < n" for j using assms(3) that by (simp add: all_think_def)
  then have "count_pcs n seated (phils s) = 0" by (simp add: count_pcs_0)
  then obtain v where v: "footman s = Suc v" using assms(1,2) by (cases "footman s") (auto simp: phil_inv_def)
  have fk: "forks s f = 1" if "f < n" for f
    using fork_free[OF assms(1) that] assms(3) left_user_bound[OF that] that by (simp add: all_think_def)
  have ne: "left_fork n i \<noteq> i" using assms(2,4) by (auto simp: left_fork_def right_fork_def)
  let ?s1 = "s\<lparr>footman := v, phils := (phils s)(i := Want_right)\<rparr>"
  let ?s2 = "?s1\<lparr>forks := (forks ?s1)(i := 0), phils := (phils ?s1)(i := Want_left)\<rparr>"
  let ?s3 = "?s2\<lparr>forks := (forks ?s2)(left_fork n i := 0), phils := (phils ?s2)(i := Eating)\<rparr>"
  have "phil_step n s ?s1" "phil_step n ?s1 ?s2" "phil_step n ?s2 ?s3"
    using assms(3,4) v fk[OF assms(4)] fk[OF left_fork_bound[OF assms(4)]] ne
    by (auto simp: phil_step_def interleaved_def phil_step_of_def all_think_def right_fork_def intro!: exI[of _ i])
  then have "(phil_step n)\<^sup>*\<^sup>* s ?s3" by (meson converse_rtranclp_into_rtranclp rtranclp.rtrancl_refl)
  then show ?thesis by (intro exI[of _ ?s3]) simp
qed

section \<open>Properties\<close>

text \<open>C11: from every reachable state there is a way on in which any chosen philosopher eats; in
  particular there is no deadlock.\<close>

theorem phil_can_eat:
  assumes "2 \<le> n" and "phil_reach n s" and "i < n"
  shows "\<exists>t. (phil_step n)\<^sup>*\<^sup>* s t \<and> phils t i = Eating"
proof -
  have "reach (\<lambda>s. s = phil_init n \<and> 2 \<le> n) (phil_step n) s" using assms(1,2) by simp
  from phil_system.inv_reach[OF this] obtain u where u: "(phil_step n)\<^sup>*\<^sup>* s u" "all_think n u"
    and "phil_inv n u"
    using phil_system.can_reach_goal by blast
  from eat_from_thinking[OF this(3) assms(1) u(2) assms(3)] u(1) show ?thesis
    by (meson rtranclp_trans)
qed

theorem phil_can_eat_witness: "\<exists>t. (phil_step 50)\<^sup>*\<^sup>* (phil_init 50) t \<and> phils t 49 = Eating"
  by (rule phil_can_eat) (auto intro: reach_init)

text \<open>Two philosophers who eat at the same time use different forks.\<close>

theorem phil_mutex:
  assumes "2 \<le> n" and "phil_reach n s" and "i < n" and "j < n" and "i \<noteq> j"
    and "phils s i = Eating" and "phils s j = Eating"
  shows "{right_fork i, left_fork n i} \<inter> {right_fork j, left_fork n j} = {}"
proof -
  have "reach (\<lambda>s. s = phil_init n \<and> 2 \<le> n) (phil_step n) s" using assms(1,2) by simp
  from phil_system.inv_reach[OF this] have inv: "phil_inv n s" by simp
  have "left_fork n k \<noteq> l" if "k < n" "l < n" "phils s k = Eating" "phils s l = Eating" for k l
  proof
    assume "left_fork n k = l"
    then have "left_user n l = k" using left_user_left_fork[OF that(1)] by simp
    with inv that show False by (auto simp: phil_inv_def fork_ok_def)
  qed
  moreover have "left_fork n i \<noteq> left_fork n j" using left_user_left_fork assms(3-5) by metis
  ultimately show ?thesis using assms(3-7) by (auto simp: right_fork_def)
qed

theorem phil_mutex_witness: "{right_fork 0, left_fork 4 0} \<inter> {right_fork 2, left_fork 4 2} = {}"
proof -
  obtain s where s: "run_schedule (phil_step_of 4) [0, 0, 0, 2, 2, 2] (phil_init 4) = Some s"
    "phils s 0 = Eating" "phils s 2 = Eating"
    by (simp add: phil_init_def phil_step_of_def right_fork_def left_fork_def sem_wait_def Let_def)
  have "phil_reach 4 s"
    using run_schedule_steps[OF s(1), of 4] by (auto simp: phil_step_def intro: reach_steps reach_init)
  from phil_mutex[OF _ this _ _ _ s(2,3)] show ?thesis by simp
qed

end
