(* ===== verification/Savages.thy ===== *)
theory Savages
  imports Conc
begin

text \<open>
  The dining savages of \<open>13/so21_lista_13/savages.c\<close>: \<open>n\<close> savages and a cook who fills the pot
  with \<open>m\<close> meals (\<open>N\<close> and \<open>M\<close> in the code). The processes share \<open>meals\<close> and the semaphores
  \<open>mutex\<close>, \<open>empty\<close> and \<open>full\<close>. A step is one semaphore operation or one access to \<open>meals\<close>; the
  numbers of the letters \<open>E\<close> and \<open>C\<close> written so far are \<open>eaten\<close> and \<open>cooked\<close>.
\<close>

section \<open>The program\<close>

datatype savage = S_start | S_check | S_wake | S_full | S_take | S_done
datatype cook = C_empty | C_cook | C_full

record pot =
  meals :: int
  mutex :: nat
  empty :: nat
  full :: nat
  savages :: "nat \<Rightarrow> savage"
  cook_pc :: cook
  eaten :: nat
  cooked :: nat

definition savage_step :: "nat \<Rightarrow> pot \<Rightarrow> pot option" where
  "savage_step i s =
    (let goto = (\<lambda>pc s. s\<lparr>savages := (savages s)(i := pc)\<rparr>) in
     case savages s i of
       S_start \<Rightarrow> map_option (\<lambda>v. goto S_check (s\<lparr>mutex := v\<rparr>)) (sem_wait (mutex s))
     | S_check \<Rightarrow> Some (goto (if meals s = 0 then S_wake else S_take) s)
     | S_wake \<Rightarrow> Some (goto S_full (s\<lparr>empty := sem_post (empty s)\<rparr>))
     | S_full \<Rightarrow> map_option (\<lambda>v. goto S_take (s\<lparr>full := v\<rparr>)) (sem_wait (full s))
     | S_take \<Rightarrow> Some (goto S_done (s\<lparr>eaten := eaten s + 1, meals := meals s - 1\<rparr>))
     | S_done \<Rightarrow> Some (goto S_start (s\<lparr>mutex := sem_post (mutex s)\<rparr>)))"

definition cook_step :: "nat \<Rightarrow> pot \<Rightarrow> pot option" where
  "cook_step m s =
    (case cook_pc s of
       C_empty \<Rightarrow> map_option (\<lambda>v. s\<lparr>empty := v, cook_pc := C_cook\<rparr>) (sem_wait (empty s))
     | C_cook \<Rightarrow> Some (s\<lparr>cooked := cooked s + 1, meals := int m, cook_pc := C_full\<rparr>)
     | C_full \<Rightarrow> Some (s\<lparr>full := sem_post (full s), cook_pc := C_empty\<rparr>))"

text \<open>The parent process, which forks the savages, becomes the cook.\<close>

definition savages_main :: pot where
  "savages_main = \<lparr>meals = 0, mutex = 1, empty = 0, full = 0, savages = (\<lambda>_. S_start), cook_pc = C_empty,
     eaten = 0, cooked = 0\<rparr>"

definition village_step :: "nat \<Rightarrow> nat \<Rightarrow> pot \<Rightarrow> pot \<Rightarrow> bool" where
  "village_step n m = interleaved (Suc n) (\<lambda>i. if i = n then cook_step m else savage_step i)"

abbreviation village_reach :: "nat \<Rightarrow> nat \<Rightarrow> pot \<Rightarrow> bool" where
  "village_reach n m \<equiv> reach (\<lambda>s. s = savages_main) (village_step n m)"

section \<open>The invariant\<close>

text \<open>Nobody has rung and the cook sleeps.\<close>

definition quiet :: "pot \<Rightarrow> bool" where
  "quiet s \<longleftrightarrow> empty s = 0 \<and> full s = 0 \<and> cook_pc s = C_empty"

text \<open>The cook at work for a savage who waits.\<close>

definition serving :: "nat \<Rightarrow> pot \<Rightarrow> bool" where
  "serving m s \<longleftrightarrow>
     empty s = 1 \<and> full s = 0 \<and> cook_pc s = C_empty \<and> meals s = 0 \<or>
     empty s = 0 \<and> full s = 0 \<and> cook_pc s = C_cook \<and> meals s = 0 \<or>
     empty s = 0 \<and> full s = 0 \<and> cook_pc s = C_full \<and> meals s = int m \<or>
     empty s = 0 \<and> full s = 1 \<and> cook_pc s = C_empty \<and> meals s = int m"

definition at_pot :: "nat \<Rightarrow> pot \<Rightarrow> nat \<Rightarrow> bool" where
  "at_pot m s i \<longleftrightarrow> (case savages s i of
     S_start \<Rightarrow> False
   | S_check \<Rightarrow> quiet s
   | S_wake \<Rightarrow> quiet s \<and> meals s = 0
   | S_full \<Rightarrow> serving m s
   | S_take \<Rightarrow> quiet s \<and> 0 < meals s
   | S_done \<Rightarrow> quiet s)"

definition pot_inv :: "nat \<Rightarrow> nat \<Rightarrow> pot \<Rightarrow> bool" where
  "pot_inv n m s \<longleftrightarrow> 0 \<le> meals s \<and> meals s \<le> int m \<and> int (eaten s) + meals s = int m * int (cooked s) \<and>
     (mutex s = 1 \<and> (\<forall>j<n. savages s j = S_start) \<and> quiet s \<or>
      mutex s = 0 \<and> (\<exists>i<n. at_pot m s i \<and> (\<forall>j<n. j \<noteq> i \<longrightarrow> savages s j = S_start)))"

lemma pot_inv_init: "pot_inv n m savages_main"
  by (simp add: pot_inv_def savages_main_def quiet_def)

lemma village_step_cases:
  assumes "village_step n m s t"
  obtains (cook) "cook_step m s = Some t" | (savage) i where "i < n" "savage_step i s = Some t"
  using assms by (auto simp: village_step_def interleaved_def less_Suc_eq split: if_splits)

lemma savage_step_cases:
  assumes "savage_step i s = Some t"
  obtains (start) v where "savages s i = S_start" "mutex s = Suc v" "t = s\<lparr>mutex := v, savages := (savages s)(i := S_check)\<rparr>"
  | (empty) "savages s i = S_check" "meals s = 0" "t = s\<lparr>savages := (savages s)(i := S_wake)\<rparr>"
  | (enough) "savages s i = S_check" "meals s \<noteq> 0" "t = s\<lparr>savages := (savages s)(i := S_take)\<rparr>"
  | (wake) "savages s i = S_wake" "t = s\<lparr>empty := Suc (empty s), savages := (savages s)(i := S_full)\<rparr>"
  | (full) v where "savages s i = S_full" "full s = Suc v" "t = s\<lparr>full := v, savages := (savages s)(i := S_take)\<rparr>"
  | (take) "savages s i = S_take" "t = s\<lparr>eaten := Suc (eaten s), meals := meals s - 1, savages := (savages s)(i := S_done)\<rparr>"
  | (leave) "savages s i = S_done" "t = s\<lparr>mutex := Suc (mutex s), savages := (savages s)(i := S_start)\<rparr>"
  using assms by (auto simp: savage_step_def Let_def sem_post_def split: savage.splits if_splits)

lemma pot_invE:
  assumes "pot_inv n m s"
  obtains (free) "mutex s = 1" "\<forall>j<n. savages s j = S_start" "quiet s"
  | (taken) i where "mutex s = 0" "i < n" "at_pot m s i" "\<forall>j<n. j \<noteq> i \<longrightarrow> savages s j = S_start"
  using assms unfolding pot_inv_def by blast

lemma pot_inv_cook:
  assumes "cook_step m s = Some t" and "pot_inv n m s"
  shows "pot_inv n m t"
  using assms(2)
proof (cases rule: pot_invE)
  case free
  then show ?thesis using assms(1) by (simp add: cook_step_def quiet_def)
next
  case (taken i)
  have "savages s i = S_full"
    using assms(1) taken(3) by (cases "savages s i") (auto simp: at_pot_def cook_step_def quiet_def)
  then have "serving m s" using taken(3) by (simp add: at_pot_def)
  have m: "0 \<le> meals s" "meals s \<le> int m" "int (eaten s) + meals s = int m * int (cooked s)"
    using assms(2) by (simp_all add: pot_inv_def)
  from \<open>serving m s\<close> have "serving m t \<and> savages t = savages s \<and> mutex t = mutex s \<and> 0 \<le> meals t \<and> meals t \<le> int m \<and>
      int (eaten t) + meals t = int m * int (cooked t)"
    unfolding serving_def using assms(1) m
    by (elim disjE) (clarsimp simp: cook_step_def sem_post_def distrib_left)+
  then show ?thesis using taken(1,2,4) \<open>savages s i = S_full\<close> unfolding pot_inv_def by (auto simp: at_pot_def)
qed

lemma pot_inv_savage:
  assumes "savage_step k s = Some t" and "k < n" and "pot_inv n m s" and "0 < m"
  shows "pot_inv n m t"
  using assms(3)
proof (cases rule: pot_invE)
  case free
  then show ?thesis using assms by (auto simp: savage_step_def pot_inv_def at_pot_def quiet_def split: if_splits)
next
  case (taken i)
  show ?thesis
  proof (cases "k = i")
    case False
    then have "savages s k = S_start" using taken(4) assms(2) by simp
    then show ?thesis using assms(1) taken(1) by (simp add: savage_step_def)
  next
    case True
    have m: "0 \<le> meals s" "meals s \<le> int m" "int (eaten s) + meals s = int m * int (cooked s)"
      using assms(3) by (simp_all add: pot_inv_def)
    have "mutex t = 1 \<and> savages t i = S_start \<and> quiet t \<or> mutex t = 0 \<and> at_pot m t i"
      using assms(1,4) taken(1,3) m unfolding True
      by (cases rule: savage_step_cases) (auto simp: at_pot_def quiet_def serving_def)
    moreover have "\<forall>j. j \<noteq> i \<longrightarrow> savages t j = savages s j"
      using assms(1) unfolding True by (cases rule: savage_step_cases) auto
    moreover have "0 \<le> meals t \<and> meals t \<le> int m \<and> int (eaten t) + meals t = int m * int (cooked t)"
      using assms(1) taken(3) m unfolding True by (cases rule: savage_step_cases) (auto simp: at_pot_def)
    ultimately show ?thesis using taken(2,4) unfolding pot_inv_def by metis
  qed
qed

lemma pot_inv_step: "village_step n m s t \<Longrightarrow> pot_inv n m s \<Longrightarrow> 0 < m \<Longrightarrow> pot_inv n m t"
  by (erule village_step_cases) (auto intro: pot_inv_cook pot_inv_savage)

section \<open>Everyone can leave the pot\<close>

fun savage_left :: "savage \<Rightarrow> nat" where
  "savage_left S_start = 0"
| "savage_left S_check = 9"
| "savage_left S_wake = 8"
| "savage_left S_full = 3"
| "savage_left S_take = 2"
| "savage_left S_done = 1"

fun cook_left :: "cook \<Rightarrow> nat" where
  "cook_left C_empty = 0"
| "cook_left C_cook = 3"
| "cook_left C_full = 2"

definition village_left :: "nat \<Rightarrow> pot \<Rightarrow> nat" where
  "village_left n s = sum_pcs n savage_left (savages s) + 4 * empty s + cook_left (cook_pc s)"

definition pot_free :: "nat \<Rightarrow> pot \<Rightarrow> bool" where
  "pot_free n s \<longleftrightarrow> (\<forall>i<n. savages s i = S_start)"

lemma village_closer:
  assumes "pot_inv n m s" and "\<not> pot_free n s"
  shows "\<exists>t. village_step n m s t \<and> village_left n t < village_left n s"
  using assms(1)
proof (cases rule: pot_invE)
  case free
  then show ?thesis using assms(2) by (simp add: pot_free_def)
next
  case (taken i)
  note c = sum_pcs_upd[OF taken(2), of savage_left "savages s"]
  have sav: "savage_step i s = Some t \<Longrightarrow> village_step n m s t" for t
    using taken(2) by (auto simp: village_step_def interleaved_def intro!: exI[of _ i])
  have cook: "cook_step m s = Some t \<Longrightarrow> village_step n m s t" for t
    by (auto simp: village_step_def interleaved_def intro!: exI[of _ n])
  show ?thesis
  proof (cases "savages s i = S_full \<and> full s = 0")
    case True
    then obtain t where t: "cook_step m s = Some t" and "savages t = savages s" "village_left n t < village_left n s"
      using taken(3) by (auto simp: at_pot_def serving_def cook_step_def village_left_def)
    then show ?thesis using cook[OF t] by blast
  next
    case False
    have "savages s i \<noteq> S_start" using taken(3) by (auto simp: at_pot_def)
    with False obtain t where t: "savage_step i s = Some t"
      by (cases "savages s i"; cases "full s") (auto simp: savage_step_def)
    from t have "village_left n t < village_left n s"
      using \<open>savages s i \<noteq> S_start\<close> c[of S_wake] c[of S_take] c[of S_full] c[of S_done] c[of S_start]
      by (cases rule: savage_step_cases) (auto simp: village_left_def)
    then show ?thesis using sav[OF t] by blast
  qed
qed

interpretation village: converging_system "\<lambda>s. s = savages_main \<and> 0 < m" "village_step n m"
    "\<lambda>s. pot_inv n m s \<and> 0 < m" "pot_free n" "village_left n"
  by unfold_locales (auto intro: pot_inv_init pot_inv_step village_closer)

text \<open>A savage alone at the pot eats: at once when there are meals, after ringing for the cook when
  there are none.\<close>

definition meal_schedule :: "nat \<Rightarrow> nat \<Rightarrow> bool \<Rightarrow> nat list" where
  "meal_schedule n i some = (if some then [i, i, i] else [i, i, i, n, n, n, i, i])"

lemma eat_from_free:
  assumes "pot_inv n m s" and "pot_free n s" and "0 < m" and "i < n"
  shows "\<exists>t. (village_step n m)\<^sup>*\<^sup>* s t \<and> savages t i = S_done \<and> eaten t = eaten s + 1"
proof -
  have q: "mutex s = 1" "quiet s" "savages s i = S_start"
    using assms(1,2,4) by (auto simp: pot_inv_def pot_free_def at_pot_def)
  obtain t where t: "run_schedule (\<lambda>i. if i = n then cook_step m else savage_step i) (meal_schedule n i (meals s \<noteq> 0)) s = Some t"
    "savages t i = S_done" "eaten t = eaten s + 1"
    using q assms(3,4)
    by (cases "meals s = 0") (auto simp: meal_schedule_def savage_step_def cook_step_def quiet_def sem_wait_def sem_post_def Let_def)
  have "\<forall>j\<in>set (meal_schedule n i (meals s \<noteq> 0)). j < Suc n"
    using assms(4) by (auto simp: meal_schedule_def)
  from run_schedule_steps[OF t(1) this] t(2,3) show ?thesis by (auto simp: village_step_def)
qed

section \<open>Properties\<close>

text \<open>C13: in every reachable state the number of meals is between 0 and \<open>m\<close>, the meals
  cooked are those eaten and those left, the cook fills the pot only when it is empty, at
  most one savage is at the pot, and from the moment the cook has been woken to the end of his work no savage looks at the meals or takes one: all of
  them wait, for the mutex or for the cook.\<close>

theorem savages_ok:
  assumes "0 < m" and "village_reach n m s"
  shows "0 \<le> meals s \<and> meals s \<le> int m \<and> int (eaten s) + meals s = int m * int (cooked s) \<and>
    (cook_pc s = C_cook \<longrightarrow> meals s = 0) \<and>
    (\<forall>i<n. \<forall>j<n. savages s i \<noteq> S_start \<longrightarrow> savages s j \<noteq> S_start \<longrightarrow> i = j) \<and>
    (cook_pc s \<noteq> C_empty \<longrightarrow> (\<forall>i<n. savages s i \<in> {S_start, S_full}))"
proof -
  have "reach (\<lambda>s. s = savages_main \<and> 0 < m) (village_step n m) s" using assms by simp
  from village.inv_reach[OF this] have inv: "pot_inv n m s" by simp
  from inv have "(cook_pc s = C_cook \<longrightarrow> meals s = 0) \<and>
    (\<forall>i<n. \<forall>j<n. savages s i \<noteq> S_start \<longrightarrow> savages s j \<noteq> S_start \<longrightarrow> i = j) \<and>
    (cook_pc s \<noteq> C_empty \<longrightarrow> (\<forall>i<n. savages s i \<in> {S_start, S_full}))"
  proof (cases rule: pot_invE)
    case free
    then show ?thesis by (auto simp: quiet_def)
  next
    case (taken i)
    have "cook_pc s = C_cook \<longrightarrow> meals s = 0"
      using taken(3) by (cases "savages s i") (auto simp: at_pot_def quiet_def serving_def)
    moreover have "cook_pc s \<noteq> C_empty \<longrightarrow> savages s i = S_full"
      using taken(3) by (cases "savages s i") (auto simp: at_pot_def quiet_def)
    ultimately show ?thesis using taken(4) by (metis insertCI)
  qed
  with inv show ?thesis by (simp add: pot_inv_def)
qed

text \<open>A savage has found the pot empty and rung, and the cook has woken up.\<close>

lemma cooking_reach:
  "\<exists>s. village_reach 100 100 s \<and> cook_pc s = C_cook \<and> savages s 7 = S_full"
proof -
  let ?f = "\<lambda>i. if i = 100 then cook_step 100 else savage_step i"
  obtain s where s: "run_schedule ?f [7, 7, 7, 100] savages_main = Some s" "cook_pc s = C_cook" "savages s 7 = S_full"
    by (simp add: savages_main_def savage_step_def cook_step_def sem_wait_def sem_post_def)
  have "(village_step 100 100)\<^sup>*\<^sup>* savages_main s"
    unfolding village_step_def by (rule run_schedule_steps[OF s(1)]) simp
  then have "village_reach 100 100 s" by (rule reach_steps) (simp add: reach_init)
  then show ?thesis using s(2,3) by blast
qed

theorem savages_ok_witness:
  "\<exists>s :: pot. cook_pc s = C_cook \<and> savages s 7 = S_full \<and> meals s = 0 \<and> (\<forall>i<100. savages s i \<in> {S_start, S_full})"
proof -
  obtain s where s: "village_reach 100 100 s" "cook_pc s = C_cook" "savages s 7 = S_full" using cooking_reach by blast
  from savages_ok[OF _ s(1)] s(2,3) have "meals s = 0 \<and> (\<forall>i<100. savages s i \<in> {S_start, S_full})" by simp
  then show ?thesis using s(2,3) by blast
qed

text \<open>From every reachable state there is a way on in which any chosen savage gets one
  more meal; there is no deadlock.\<close>

theorem savages_can_eat:
  assumes "0 < m" and "village_reach n m s" and "i < n"
  shows "\<exists>t. (village_step n m)\<^sup>*\<^sup>* s t \<and> savages t i = S_done"
proof -
  have "reach (\<lambda>s. s = savages_main \<and> 0 < m) (village_step n m) s" using assms(1,2) by simp
  from village.inv_reach[OF this] obtain u where u: "(village_step n m)\<^sup>*\<^sup>* s u" "pot_free n u" "pot_inv n m u"
    using village.can_reach_goal by blast
  from eat_from_free[OF u(3,2) assms(1,3)] u(1) show ?thesis by (meson rtranclp_trans)
qed

theorem savages_can_eat_witness: "\<exists>t. (village_step 100 100)\<^sup>*\<^sup>* savages_main t \<and> savages t 7 = S_done"
  by (rule savages_can_eat) (auto intro: reach_init)

end
