(* ===== verification/Barrier.thy ===== *)
theory Barrier
  imports Conc
begin

text \<open>
  The barrier of \<open>13/so21_lista_13/barrier.c\<close> for \<open>n\<close> processes, used by \<open>p\<close> horses (\<open>N\<close> and \<open>P\<close> in
  the code). A step is one semaphore operation, or one access to \<open>waiting\<close> with the test that
  follows it; all accesses to \<open>waiting\<close> but the last test of \<open>barrier_wait\<close> are made under
  \<open>mutex\<close>. A horse runs in rounds that end with \<open>barrier_wait\<close>; \<open>rounds\<close> counts those it has
  completed and \<open>arrived\<close> all the arrivals at the barrier.
\<close>

section \<open>The program\<close>

text \<open>The places of \<open>barrier_wait\<close>, in the order of the code. \<open>Outside\<close> is before the first
  \<open>sem_wait\<close>.\<close>

datatype place =
  Outside | Arrive | Close_2 | Open_1 | Unlock_1 | Wait_1 | Pass_1
| Lock_2 | Leave | Close_1 | Open_2 | Unlock_2 | Wait_2 | Pass_2
| Lock_3 | Again | Unlock_3 | Test_3 | Post_3 | Wait_3 | Pass_3

record barrier_t =
  turnsnile :: nat
  turnsnile2 :: nat
  mutex :: nat
  waiting :: int
  place_of :: "nat \<Rightarrow> place"
  rounds :: "nat \<Rightarrow> nat"
  arrived :: nat

definition barrier_init :: "int \<Rightarrow> barrier_t run" where
  "barrier_init n = (if n < 1 then Inl App_error
     else Inr \<lparr>turnsnile = 0, turnsnile2 = 1, mutex = 1, waiting = 0, place_of = (\<lambda>_. Outside),
       rounds = (\<lambda>_. 0), arrived = 0\<rparr>)"

text \<open>The next step of process \<open>i\<close> in \<open>barrier_wait\<close>, with the size \<open>n\<close> of the barrier.\<close>

definition goto :: "nat \<Rightarrow> place \<Rightarrow> barrier_t \<Rightarrow> barrier_t" where
  "goto i q b = b\<lparr>place_of := (place_of b)(i := q)\<rparr>"

definition barrier_wait :: "int \<Rightarrow> nat \<Rightarrow> barrier_t \<Rightarrow> barrier_t option" where
  "barrier_wait n i b =
    (let lock = (\<lambda>q. map_option (\<lambda>v. goto i q (b\<lparr>mutex := v\<rparr>)) (sem_wait (mutex b)));
         unlock = (\<lambda>q. Some (goto i q (b\<lparr>mutex := sem_post (mutex b)\<rparr>)));
         wait1 = (\<lambda>q. map_option (\<lambda>v. goto i q (b\<lparr>turnsnile := v\<rparr>)) (sem_wait (turnsnile b)));
         post1 = (\<lambda>q. Some (goto i q (b\<lparr>turnsnile := sem_post (turnsnile b)\<rparr>)));
         wait2 = (\<lambda>q. map_option (\<lambda>v. goto i q (b\<lparr>turnsnile2 := v\<rparr>)) (sem_wait (turnsnile2 b)));
         post2 = (\<lambda>q. Some (goto i q (b\<lparr>turnsnile2 := sem_post (turnsnile2 b)\<rparr>)))
     in case place_of b i of
       Outside \<Rightarrow> lock Arrive
     | Arrive \<Rightarrow> Some (goto i (if waiting b + 1 = n then Close_2 else Unlock_1)
                    (b\<lparr>waiting := waiting b + 1, arrived := arrived b + 1\<rparr>))
     | Close_2 \<Rightarrow> wait2 Open_1
     | Open_1 \<Rightarrow> post1 Unlock_1
     | Unlock_1 \<Rightarrow> unlock Wait_1
     | Wait_1 \<Rightarrow> wait1 Pass_1
     | Pass_1 \<Rightarrow> post1 Lock_2
     | Lock_2 \<Rightarrow> lock Leave
     | Leave \<Rightarrow> Some (goto i (if waiting b - 1 = 0 then Close_1 else Unlock_2) (b\<lparr>waiting := waiting b - 1\<rparr>))
     | Close_1 \<Rightarrow> wait1 Open_2
     | Open_2 \<Rightarrow> post2 Unlock_2
     | Unlock_2 \<Rightarrow> unlock Wait_2
     | Wait_2 \<Rightarrow> wait2 Pass_2
     | Pass_2 \<Rightarrow> post2 Lock_3
     | Lock_3 \<Rightarrow> lock Again
     | Again \<Rightarrow> Some (goto i Unlock_3 (b\<lparr>waiting := waiting b + 1\<rparr>))
     | Unlock_3 \<Rightarrow> unlock Test_3
     | Test_3 \<Rightarrow> Some (goto i (if waiting b = n then Post_3 else Wait_3) b)
     | Post_3 \<Rightarrow> post1 Wait_3
     | Wait_3 \<Rightarrow> wait1 Pass_3
     | Pass_3 \<Rightarrow> map_option (\<lambda>b. b\<lparr>rounds := (rounds b)(i := rounds b i + 1)\<rparr>) (post1 Outside))"

definition horses_step :: "nat \<Rightarrow> int \<Rightarrow> barrier_t \<Rightarrow> barrier_t \<Rightarrow> bool" where
  "horses_step p n = interleaved p (barrier_wait n)"

abbreviation horses_reach :: "nat \<Rightarrow> int \<Rightarrow> barrier_t \<Rightarrow> bool" where
  "horses_reach p n \<equiv> reach (\<lambda>b. barrier_init n = Inr b) (horses_step p n)"

section \<open>The first round\<close>

definition before_turnstile :: "place \<Rightarrow> bool" where
  "before_turnstile q \<longleftrightarrow> q \<in> {Outside, Arrive, Unlock_1, Wait_1}"

text \<open>Until \<open>n\<close> processes have arrived the turnstile is shut and nobody is past it.\<close>

definition first_inv :: "int \<Rightarrow> barrier_t \<Rightarrow> bool" where
  "first_inv n b \<longleftrightarrow> (int (arrived b) < n \<longrightarrow> turnsnile b = 0 \<and> waiting b = int (arrived b) \<and>
     (\<forall>i. before_turnstile (place_of b i) \<and> rounds b i = 0))"

lemma first_inv_step:
  assumes "horses_step p n b c" and "first_inv n b"
  shows "first_inv n c"
proof (cases "int (arrived c) < n")
  case True
  obtain i where i: "i < p" "barrier_wait n i b = Some c" using assms(1) by (auto simp: horses_step_def interleaved_def)
  have "arrived b \<le> arrived c"
    using i(2) by (cases "place_of b i") (auto simp: barrier_wait_def goto_def Let_def)
  then have b: "turnsnile b = 0" "waiting b = int (arrived b)" "before_turnstile (place_of b j)" "rounds b j = 0" for j
    using True assms(2) by (auto simp: first_inv_def)
  have "place_of b i = Outside \<or> place_of b i = Arrive \<or> place_of b i = Unlock_1 \<or> place_of b i = Wait_1"
    using b(3)[of i] by (simp add: before_turnstile_def)
  moreover have "before_turnstile Arrive" "before_turnstile Unlock_1" "before_turnstile Wait_1"
    by (simp_all add: before_turnstile_def)
  ultimately show ?thesis using i(2) True b
    by (elim disjE) (auto simp: first_inv_def barrier_wait_def goto_def Let_def split: if_splits)
qed (simp add: first_inv_def)

interpretation first_round: safe_system "\<lambda>b. barrier_init n = Inr b" "horses_step p n" "first_inv n"
proof unfold_locales
  show "first_inv n s" if "barrier_init n = Inr s" for s
    using that by (auto simp: barrier_init_def first_inv_def before_turnstile_def split: if_splits)
qed (rule first_inv_step)

section \<open>After the first round\<close>

text \<open>The states of a run in which processes \<open>0\<close> to \<open>n - 1\<close> go through \<open>barrier_wait\<close> block by block:
  the first \<open>k\<close> of them stand at \<open>q\<close>, the others at \<open>q'\<close>.\<close>

definition split_at :: "nat \<Rightarrow> nat \<Rightarrow> place \<Rightarrow> place \<Rightarrow> nat \<Rightarrow> place" where
  "split_at n k q q' = (\<lambda>i. if i < k then q else if i < n then q' else Outside)"

definition bar :: "nat \<Rightarrow> nat \<Rightarrow> nat \<Rightarrow> int \<Rightarrow> (nat \<Rightarrow> place) \<Rightarrow> (nat \<Rightarrow> nat) \<Rightarrow> nat \<Rightarrow> barrier_t" where
  "bar t1 t2 m w pl r a = \<lparr>turnsnile = t1, turnsnile2 = t2, mutex = m, waiting = w, place_of = pl, rounds = r, arrived = a\<rparr>"

lemma split_at_upd [simp]: "k < n \<Longrightarrow> (split_at n k q q')(k := q) = split_at n (Suc k) q q'"
  by (auto simp: split_at_def fun_eq_iff less_Suc_eq)

lemma split_at_k [simp]: "k < n \<Longrightarrow> split_at n k q q' k = q'"
  by (simp add: split_at_def)

lemma split_at_full: "split_at n n q q' = split_at n 0 q'' q"
  by (auto simp: split_at_def fun_eq_iff)

lemmas bar_simps = bar_def barrier_wait_def goto_def Let_def sem_wait_def sem_post_def

text \<open>The blocks: all arrive; all pass the first turnstile and leave; all pass the second turnstile and
  arrive again; all pass the first turnstile again.\<close>

definition arrived_bar :: "nat \<Rightarrow> nat \<Rightarrow> barrier_t" where
  "arrived_bar n k = (if k = n then bar 1 0 1 (int n) else bar 0 1 1 (int k)) (split_at n k Wait_1 Outside) (\<lambda>_. 0) k"

definition left_bar :: "nat \<Rightarrow> nat \<Rightarrow> barrier_t" where
  "left_bar n k = (if k = n then bar 0 1 1 0 else bar 1 0 1 (int (n - k))) (split_at n k Wait_2 Wait_1) (\<lambda>_. 0) n"

definition again_bar :: "nat \<Rightarrow> nat \<Rightarrow> barrier_t" where
  "again_bar n k = (if k = n then bar 1 1 1 (int n) else bar 0 1 1 (int k)) (split_at n k Wait_3 Wait_2) (\<lambda>_. 0) n"

definition done_bar :: "nat \<Rightarrow> nat \<Rightarrow> barrier_t" where
  "done_bar n k = bar 1 1 1 (int n) (split_at n k Outside Wait_3) (\<lambda>i. if i < k then 1 else 0) n"

definition first_round_schedule :: "nat \<Rightarrow> nat list" where
  "first_round_schedule n =
     concat (map (\<lambda>k. if Suc k = n then [k, k, k, k, k] else [k, k, k]) [0..<n]) @
     concat (map (\<lambda>k. if Suc k = n then [k, k, k, k, k, k, k] else [k, k, k, k, k]) [0..<n]) @
     concat (map (\<lambda>k. if Suc k = n then [k, k, k, k, k, k, k] else [k, k, k, k, k, k]) [0..<n]) @
     concat (map (\<lambda>k. [k, k]) [0..<n])"

lemma first_round_run:
  assumes "0 < n"
  shows "run_schedule (barrier_wait (int n)) (first_round_schedule n) (arrived_bar n 0) = Some (done_bar n n)"
proof -
  have 1: "run_schedule (barrier_wait (int n)) (if Suc k = n then [k, k, k, k, k] else [k, k, k]) (arrived_bar n k) =
      Some (arrived_bar n (Suc k))" if "k < n" for k
    using that by (auto simp: arrived_bar_def bar_simps)
  have 2: "run_schedule (barrier_wait (int n)) (if Suc k = n then [k, k, k, k, k, k, k] else [k, k, k, k, k]) (left_bar n k) =
      Some (left_bar n (Suc k))" if "k < n" for k
    using that by (auto simp: left_bar_def bar_simps)
  have 3: "run_schedule (barrier_wait (int n)) (if Suc k = n then [k, k, k, k, k, k, k] else [k, k, k, k, k, k]) (again_bar n k) =
      Some (again_bar n (Suc k))" if "k < n" for k
    using that by (auto simp: again_bar_def bar_simps)
  have 4: "run_schedule (barrier_wait (int n)) [k, k] (done_bar n k) = Some (done_bar n (Suc k))" if "k < n" for k
    using that by (auto simp: done_bar_def bar_simps fun_eq_iff less_Suc_eq)
  have "arrived_bar n n = left_bar n 0" "left_bar n n = again_bar n 0" "again_bar n n = done_bar n 0"
    using assms by (simp_all add: arrived_bar_def left_bar_def again_bar_def done_bar_def
        split_at_full[of n Wait_1 _ Wait_2] split_at_full[of n Wait_2 _ Wait_3] split_at_full[of n Wait_3 _ Outside])
  then show ?thesis
    using run_blocks[of n "barrier_wait (int n)" _ "arrived_bar n", OF 1] run_blocks[of n "barrier_wait (int n)" _ "left_bar n", OF 2]
      run_blocks[of n "barrier_wait (int n)" _ "again_bar n", OF 3] run_blocks[of n "barrier_wait (int n)" _ "done_bar n", OF 4]
    by (simp add: first_round_schedule_def run_schedule_append)
qed

text \<open>From then on one process goes through the barrier alone, as often as it likes.\<close>

definition lone_round :: "nat \<Rightarrow> nat list" where
  "lone_round i = replicate 16 i"

lemma lone_round_run:
  assumes "place_of (bar 1 1 1 w pl r a) i = Outside" and "int n \<le> w" and "0 < n"
  shows "run_schedule (barrier_wait (int n)) (lone_round i) (bar 1 1 1 w pl r a) =
    Some (bar 1 1 1 (w + 1) pl (r(i := r i + 1)) (a + 1))"
  using assms by (simp add: lone_round_def bar_simps numeral_eq_Suc fun_upd_idem)

lemma lone_rounds_run:
  assumes "pl i = Outside" and "int n \<le> w" and "0 < n"
  shows "run_schedule (barrier_wait (int n)) (concat (replicate k (lone_round i))) (bar 1 1 1 w pl r a) =
    Some (bar 1 1 1 (w + int k) pl (r(i := r i + k)) (a + k))"
  using assms(2)
proof (induction k arbitrary: w r a)
  case (Suc k)
  have 1: "run_schedule (barrier_wait (int n)) (lone_round i) (bar 1 1 1 w pl r a) =
      Some (bar 1 1 1 (w + 1) pl (r(i := r i + 1)) (a + 1))"
    using lone_round_run[of w pl r a i n] assms(1,3) Suc.prems by (simp add: bar_def)
  have "w + 1 + int k = w + int (Suc k)" "(r(i := r i + 1))(i := (r(i := r i + 1)) i + k) = r(i := r i + Suc k)"
    "a + 1 + k = a + Suc k" by simp_all
  with Suc.IH[of "w + 1" "r(i := r i + 1)" "a + 1"] Suc.prems
  show ?case by (simp only: replicate_Suc concat.simps run_schedule_append 1 option.case)
qed simp

section \<open>The race\<close>

text \<open>\<open>main\<close> keeps a hundred horses running until ten of them have been replaced; \<open>rnd\<close> are the values of \<open>rand()\<close>. \<open>iter\<close> is the loop
  variable, \<open>reaped\<close> the horses whose end \<open>Wait\<close> has reported.\<close>

datatype race_pc = Forking | Waiting_for_end | Returned

record race =
  track :: barrier_t
  forked :: nat
  ended :: "nat \<Rightarrow> bool"
  reaped :: "nat list"
  horses :: int
  iter :: int
  main_at :: race_pc

definition horse_laps :: "(nat \<Rightarrow> nat) \<Rightarrow> nat \<Rightarrow> nat" where
  "horse_laps rnd i = rnd i mod 100 + 100"

definition horse :: "(nat \<Rightarrow> nat) \<Rightarrow> nat \<Rightarrow> race \<Rightarrow> race option" where
  "horse rnd i s =
    (if place_of (track s) i = Outside \<and> \<not> rounds (track s) i < horse_laps rnd i then Some (s\<lparr>ended := (ended s)(i := True)\<rparr>)
     else map_option (\<lambda>b. s\<lparr>track := b\<rparr>) (barrier_wait 50 i (track s)))"

definition race_main :: "race run" where
  "race_main = bind_run (barrier_init 50) (\<lambda>b.
     Inr \<lparr>track = b, forked = 0, ended = (\<lambda>_. False), reaped = [], horses = 0, iter = 0, main_at = Forking\<rparr>)"

inductive race_step :: "(nat \<Rightarrow> nat) \<Rightarrow> race \<Rightarrow> race \<Rightarrow> bool" for rnd :: "nat \<Rightarrow> nat" where
  Fork: "main_at s = Forking \<Longrightarrow>
    race_step rnd s (s\<lparr>forked := forked s + 1, horses := horses s + 1,
      main_at := if horses s + 1 < 100 then Forking else Waiting_for_end\<rparr>)"
| Wait: "main_at s = Waiting_for_end \<Longrightarrow> i < forked s \<Longrightarrow> ended s i \<Longrightarrow> i \<notin> set (reaped s) \<Longrightarrow>
    race_step rnd s (s\<lparr>reaped := reaped s @ [i], horses := horses s - 1, iter := iter s + 1,
      main_at := if iter s + 1 < 10 then Forking else Returned\<rparr>)"
| Horse: "i < forked s \<Longrightarrow> \<not> ended s i \<Longrightarrow> horse rnd i s = Some t \<Longrightarrow> race_step rnd s t"

abbreviation race_reach :: "(nat \<Rightarrow> nat) \<Rightarrow> race \<Rightarrow> bool" where
  "race_reach rnd \<equiv> reach (\<lambda>s. race_main = Inr s) (race_step rnd)"

definition laps_ok :: "(nat \<Rightarrow> nat) \<Rightarrow> race \<Rightarrow> nat \<Rightarrow> bool" where
  "laps_ok rnd s i \<longleftrightarrow>
     (if place_of (track s) i = Outside then rounds (track s) i \<le> horse_laps rnd i else rounds (track s) i < horse_laps rnd i) \<and>
     (ended s i \<longrightarrow> rounds (track s) i = horse_laps rnd i)"

definition race_inv :: "(nat \<Rightarrow> nat) \<Rightarrow> race \<Rightarrow> bool" where
  "race_inv rnd s \<longleftrightarrow>
     horses_reach 109 50 (track s) \<and> (\<forall>i. laps_ok rnd s i) \<and>
     int (forked s) = iter s + horses s \<and> iter s = int (length (reaped s)) \<and> distinct (reaped s) \<and> (\<forall>i\<in>set (reaped s). ended s i) \<and>
     (case main_at s of
        Forking \<Rightarrow> horses s < 100 \<and> iter s < 10
      | Waiting_for_end \<Rightarrow> horses s = 100 \<and> iter s < 10
      | Returned \<Rightarrow> horses s = 99 \<and> iter s = 10)"

text \<open>A step of one horse in the barrier does not move the others, and completes a round exactly when it comes back to the outside.\<close>

lemma barrier_wait_moves:
  assumes "barrier_wait n i b = Some c"
  shows "j \<noteq> i \<Longrightarrow> place_of c j = place_of b j \<and> rounds c j = rounds b j"
    and "rounds c i = rounds b i + (if place_of c i = Outside then 1 else 0)"
proof -
  have "(j \<noteq> i \<longrightarrow> place_of c j = place_of b j \<and> rounds c j = rounds b j) \<and>
    rounds c i = rounds b i + (if place_of c i = Outside then 1 else 0)" for j
    using assms by (cases "place_of b i") (auto simp: barrier_wait_def goto_def Let_def split: if_splits)
  then show "j \<noteq> i \<Longrightarrow> place_of c j = place_of b j \<and> rounds c j = rounds b j"
    "rounds c i = rounds b i + (if place_of c i = Outside then 1 else 0)" by blast+
qed

lemma laps_ok_horse:
  assumes "horse rnd i s = Some t" and "\<forall>j. laps_ok rnd s j" and "\<not> ended s i"
  shows "laps_ok rnd t j"
proof (cases "place_of (track s) i = Outside \<and> \<not> rounds (track s) i < horse_laps rnd i")
  case True
  then have t: "t = s\<lparr>ended := (ended s)(i := True)\<rparr>" using assms(1) by (simp add: horse_def)
  have "laps_ok rnd s i" "laps_ok rnd s j" using assms(2) by simp_all
  then show ?thesis using True unfolding t laps_ok_def by auto
next
  case False
  then obtain b where b: "barrier_wait 50 i (track s) = Some b" "t = s\<lparr>track := b\<rparr>" using assms(1) by (auto simp: horse_def)
  note m = barrier_wait_moves[OF b(1)]
  have j: "laps_ok rnd s i" "laps_ok rnd s j" using assms(2) by simp_all
  show ?thesis
  proof (cases "j = i")
    case True
    have "rounds (track s) i < horse_laps rnd i" using j(1) False unfolding laps_ok_def by (auto split: if_splits)
    then show ?thesis using m(2) assms(3) True b(2) unfolding laps_ok_def by auto
  next
    case False
    then show ?thesis using m(1)[OF False] j(2) b(2) unfolding laps_ok_def by simp
  qed
qed

lemma race_inv_step: "race_step rnd s t \<Longrightarrow> race_inv rnd s \<Longrightarrow> race_inv rnd t"
proof (induction rule: race_step.induct)
  case (Horse i s t)
  have l: "\<forall>j. laps_ok rnd t j" using laps_ok_horse[OF Horse.hyps(3) _ Horse.hyps(2)] Horse.prems by (simp add: race_inv_def)
  have "i < 109" using Horse.hyps(1) Horse.prems by (auto simp: race_inv_def split: race_pc.splits)
  then have "horses_reach 109 50 b" if "barrier_wait 50 i (track s) = Some b" for b
    using that Horse.prems reach_step[of _ "horses_step 109 50" "track s" b] by (auto simp: race_inv_def horses_step_def interleaved_def)
  then have "horses_reach 109 50 (track t)"
    using Horse.hyps(3) Horse.prems by (auto simp: horse_def race_inv_def split: if_splits)
  moreover have "forked t = forked s" "iter t = iter s" "horses t = horses s" "reaped t = reaped s" "main_at t = main_at s"
    "\<forall>j. ended s j \<longrightarrow> ended t j" using Horse.hyps(3) by (auto simp: horse_def split: if_splits)
  ultimately show ?case using l Horse.prems by (cases "main_at s") (simp_all add: race_inv_def)
qed (auto simp: race_inv_def laps_ok_def)

lemma race_inv_start: "race_main = Inr s \<Longrightarrow> race_inv rnd s"
  by (auto simp: race_main_def barrier_init_def race_inv_def laps_ok_def horse_laps_def intro!: reach_init)

interpretation race: safe_system "\<lambda>s. race_main = Inr s" "race_step rnd" "race_inv rnd"
  by unfold_locales (rule race_inv_start, assumption, rule race_inv_step)

section \<open>Properties\<close>

text \<open>C14: whatever the number of processes, nobody completes its first
  \<open>barrier_wait\<close>, or only passes the first turnstile, before \<open>n\<close> processes have arrived.\<close>

theorem barrier_first:
  assumes "horses_reach p n b" and "\<not> before_turnstile (place_of b i) \<or> 0 < rounds b i"
  shows "n \<le> int (arrived b)"
proof -
  have "first_inv n b" by (rule first_round.inv_reach[OF assms(1)])
  then show ?thesis using assms(2) by (auto simp: first_inv_def)
qed

theorem barrier_first_witness: "1 \<le> int (arrived (done_bar 1 1))"
proof (rule barrier_first)
  have init: "barrier_init 1 = Inr (arrived_bar 1 0)"
    by (simp add: barrier_init_def arrived_bar_def bar_def split_at_def)
  have "\<forall>j\<in>set (first_round_schedule 1). j < 1" by (auto simp: first_round_schedule_def)
  from run_schedule_steps[OF first_round_run[of 1] this]
  show "horses_reach 1 1 (done_bar 1 1)"
    by (auto simp: horses_step_def init intro: reach_steps reach_init)
  show "\<not> before_turnstile (place_of (done_bar 1 1) 0) \<or> 0 < rounds (done_bar 1 1) 0"
    by (simp add: done_bar_def bar_def)
qed

text \<open>C15: the barrier works once. When \<open>n\<close> processes have been through it, there is a run in
  which one of them goes through it any number of times while the others do not move.\<close>

theorem barrier_broken:
  assumes "0 < n" and "n \<le> p" and "i < n"
  shows "\<exists>b c. horses_reach p (int n) b \<and> (\<forall>j<n. place_of b j = Outside \<and> rounds b j = 1) \<and>
    run_schedule (barrier_wait (int n)) (concat (replicate k (lone_round i))) b = Some c \<and>
    place_of c i = Outside \<and> rounds c i = 1 + k \<and> (\<forall>j<n. j \<noteq> i \<longrightarrow> rounds c j = 1)"
proof (intro exI conjI)
  have init: "barrier_init (int n) = Inr (arrived_bar n 0)"
    using assms(1) by (simp add: barrier_init_def arrived_bar_def bar_def split_at_def)
  have "\<forall>j\<in>set (first_round_schedule n). j < p" using assms(2) by (auto simp: first_round_schedule_def split: if_splits)
  from run_schedule_steps[OF first_round_run[OF assms(1)] this]
  show "horses_reach p (int n) (done_bar n n)"
    by (auto simp: horses_step_def init intro: reach_steps reach_init)
  let ?pl = "split_at n n Outside Wait_3" and ?r = "\<lambda>j. if j < n then 1 else 0 :: nat"
  have "?pl i = Outside" using assms(3) by (simp add: split_at_def)
  from lone_rounds_run[of ?pl i n "int n" k ?r n, OF this order_refl assms(1)]
  show "run_schedule (barrier_wait (int n)) (concat (replicate k (lone_round i))) (done_bar n n) =
      Some (bar 1 1 1 (int n + int k) ?pl (?r(i := ?r i + k)) (n + k))"
    by (simp add: done_bar_def)
qed (use assms(3) in \<open>auto simp: done_bar_def bar_def split_at_def\<close>)

theorem barrier_broken_witness:
  "\<exists>b c. horses_reach 100 50 b \<and> run_schedule (barrier_wait 50) (concat (replicate 9 (lone_round 3))) b = Some c \<and>
     rounds c 3 = 10 \<and> rounds c 4 = 1"
  using barrier_broken[of 50 100 3 9] by force

text \<open>In the race no more than a hundred horses are unreaped and 109 are ever started; a horse that has ended ran the number of laps
  it drew, between 100 and 199, and none of them was completed before fifty horses had arrived at the barrier; when \<open>main\<close> returns it has reaped
  ten horses, and the other 99 are still waited for by nobody.\<close>

theorem race_ok:
  assumes "race_reach rnd s"
  shows "horses s \<le> 100 \<and> forked s \<le> 109 \<and> int (forked s) = int (length (reaped s)) + horses s \<and>
    (\<forall>i. ended s i \<longrightarrow> rounds (track s) i = horse_laps rnd i) \<and>
    (\<forall>i. 0 < rounds (track s) i \<longrightarrow> 50 \<le> arrived (track s)) \<and>
    (main_at s = Returned \<longrightarrow> length (reaped s) = 10 \<and> forked s = 109)"
proof -
  have inv: "race_inv rnd s" by (rule race.inv_reach[OF assms])
  then have "\<forall>i. 0 < rounds (track s) i \<longrightarrow> 50 \<le> arrived (track s)"
    using first_round.inv_reach[of 50 109 "track s"] by (auto simp: race_inv_def first_inv_def)
  then show ?thesis using inv by (auto simp: race_inv_def laps_ok_def split: race_pc.splits)
qed

definition forked_race :: "nat \<Rightarrow> race" where
  "forked_race k = \<lparr>track = arrived_bar 50 0, forked = k, ended = (\<lambda>_. False), reaped = [], horses = int k, iter = 0,
     main_at = if k < 100 then Forking else Waiting_for_end\<rparr>"

lemma forked_race_reach: "k \<le> 100 \<Longrightarrow> race_reach rnd (forked_race k)"
proof (induction k)
  case 0
  have "barrier_init 50 = Inr (arrived_bar 50 0)" by (simp add: barrier_init_def arrived_bar_def bar_def split_at_def)
  then show ?case by (intro reach_init) (simp add: race_main_def forked_race_def)
next
  case (Suc k)
  have "race_step rnd (forked_race k) (forked_race (Suc k))"
    using race_step.Fork[of "forked_race k" rnd] Suc.prems by (simp add: forked_race_def add.commute)
  then show ?case using Suc by (intro reach_step[OF Suc.IH]) simp_all
qed

theorem race_ok_witness: "horses (forked_race 100) \<le> 100 \<and> forked (forked_race 100) = 100"
  using race_ok[OF forked_race_reach[of 100]] by (simp add: forked_race_def)

end
