(* ===== verification/Semaphore.thy ===== *)
theory Semaphore
  imports Conc
begin

text \<open>
  The counting semaphore of \<open>13/sem.c\<close>, built from a mutex and a condition variable, used by
  \<open>n\<close> threads that call \<open>wait\<close> and \<open>post\<close> as they like. A step is one call of the thread
  library or one access to \<open>value\<close>. A thread that sleeps on the condition variable is
  woken by a signal or, as the library allows, for no reason; it then locks the mutex
  again and repeats the test. The \<open>int\<close> of the code that holds the value is unbounded here, as if fewer than 2147483648 calls of \<open>post\<close> were ahead of those of \<open>wait\<close>. The abstract semaphore is the pair of the numbers of completed
  decrements and increments.
\<close>

section \<open>The program\<close>

datatype splace =
  Idle | W_lock | W_test | W_sleep | W_take | W_unlock | P_lock | P_inc | P_signal | P_unlock

record sem_t =
  sem_value :: int
  owner :: "nat option"
  pl :: "nat \<Rightarrow> splace"
  taken :: nat
  posted :: nat

definition init_sem :: "int \<Rightarrow> sem_t run" where
  "init_sem val = (if val < 0 then Inl App_error
     else Inr \<lparr>sem_value = val, owner = None, pl = (\<lambda>_. Idle), taken = 0, posted = 0\<rparr>)"

abbreviation at :: "nat \<Rightarrow> splace \<Rightarrow> sem_t \<Rightarrow> sem_t" where
  "at i q s \<equiv> s\<lparr>pl := (pl s)(i := q)\<rparr>"

inductive sem_step :: "nat \<Rightarrow> sem_t \<Rightarrow> sem_t \<Rightarrow> bool" for n where
  call_wait: "i < n \<Longrightarrow> pl s i = Idle \<Longrightarrow> sem_step n s (at i W_lock s)"
| wait_lock: "i < n \<Longrightarrow> pl s i = W_lock \<Longrightarrow> owner s = None \<Longrightarrow> sem_step n s (at i W_test (s\<lparr>owner := Some i\<rparr>))"
| wait_sleep: "i < n \<Longrightarrow> pl s i = W_test \<Longrightarrow> sem_value s = 0 \<Longrightarrow> sem_step n s (at i W_sleep (s\<lparr>owner := None\<rparr>))"
| wait_leave: "i < n \<Longrightarrow> pl s i = W_test \<Longrightarrow> sem_value s \<noteq> 0 \<Longrightarrow> sem_step n s (at i W_take s)"
| wake_up: "i < n \<Longrightarrow> pl s i = W_sleep \<Longrightarrow> sem_step n s (at i W_lock s)"
| wait_take: "i < n \<Longrightarrow> pl s i = W_take \<Longrightarrow>
    sem_step n s (at i W_unlock (s\<lparr>sem_value := sem_value s - 1, taken := taken s + 1\<rparr>))"
| wait_unlock: "i < n \<Longrightarrow> pl s i = W_unlock \<Longrightarrow> sem_step n s (at i Idle (s\<lparr>owner := None\<rparr>))"
| call_post: "i < n \<Longrightarrow> pl s i = Idle \<Longrightarrow> sem_step n s (at i P_lock s)"
| post_lock: "i < n \<Longrightarrow> pl s i = P_lock \<Longrightarrow> owner s = None \<Longrightarrow> sem_step n s (at i P_inc (s\<lparr>owner := Some i\<rparr>))"
| post_inc: "i < n \<Longrightarrow> pl s i = P_inc \<Longrightarrow>
    sem_step n s (at i P_signal (s\<lparr>sem_value := sem_value s + 1, posted := posted s + 1\<rparr>))"
| post_signal: "i < n \<Longrightarrow> pl s i = P_signal \<Longrightarrow> j < n \<Longrightarrow> pl s j = W_sleep \<Longrightarrow>
    sem_step n s (at i P_unlock (at j W_lock s))"
| post_nobody: "i < n \<Longrightarrow> pl s i = P_signal \<Longrightarrow> \<forall>j<n. pl s j \<noteq> W_sleep \<Longrightarrow> sem_step n s (at i P_unlock s)"
| post_unlock: "i < n \<Longrightarrow> pl s i = P_unlock \<Longrightarrow> sem_step n s (at i Idle (s\<lparr>owner := None\<rparr>))"

inductive_cases sem_stepE: "sem_step n s t"

abbreviation sem_reach :: "nat \<Rightarrow> int \<Rightarrow> sem_t \<Rightarrow> bool" where
  "sem_reach n val \<equiv> reach (\<lambda>s. init_sem val = Inr s) (sem_step n)"

section \<open>Mutual exclusion and the value\<close>

definition inside :: "splace \<Rightarrow> bool" where
  "inside q \<longleftrightarrow> q \<in> {W_test, W_take, W_unlock, P_inc, P_signal, P_unlock}"

lemma inside_simps [simp]:
  "inside W_test" "inside W_take" "inside W_unlock" "inside P_inc" "inside P_signal" "inside P_unlock"
  "\<not> inside Idle" "\<not> inside W_lock" "\<not> inside W_sleep" "\<not> inside P_lock"
  by (simp_all add: inside_def)

text \<open>A thread that will look at the value again, or a signal that has still to be sent.\<close>

definition trying :: "splace \<Rightarrow> bool" where
  "trying q \<longleftrightarrow> q \<in> {W_lock, W_test, W_take, P_signal}"

lemma trying_simps [simp]:
  "trying W_lock" "trying W_test" "trying W_take" "trying P_signal"
  "\<not> trying Idle" "\<not> trying W_sleep" "\<not> trying W_unlock" "\<not> trying P_lock" "\<not> trying P_inc" "\<not> trying P_unlock"
  by (simp_all add: trying_def)

definition sem_safe :: "nat \<Rightarrow> int \<Rightarrow> sem_t \<Rightarrow> bool" where
  "sem_safe n val s \<longleftrightarrow> 0 \<le> sem_value s \<and> sem_value s + int (taken s) = val + int (posted s) \<and>
     (\<forall>i<n. inside (pl s i) \<longleftrightarrow> owner s = Some i) \<and>
     (\<forall>i<n. owner s = Some i \<and> pl s i = W_take \<longrightarrow> 0 < sem_value s)"

definition sem_awake :: "nat \<Rightarrow> sem_t \<Rightarrow> bool" where
  "sem_awake n s \<longleftrightarrow> (\<forall>i<n. pl s i \<noteq> W_sleep) \<or> sem_value s \<le> int (count_pcs n trying (pl s))"

lemma sem_safe_step:
  assumes "sem_step n s t" and "sem_safe n val s"
  shows "sem_safe n val t"
proof -
  have o: "inside (pl s i) \<longleftrightarrow> owner s = Some i" if "i < n" for i using assms(2) that by (simp add: sem_safe_def)
  have v: "0 < sem_value s" if "i < n" "pl s i = W_take" for i
    using assms(2) that o[OF that(1)] by (simp add: sem_safe_def)
  from assms(1) show ?thesis
  proof (cases rule: sem_step.cases)
    case (call_wait i)
    then show ?thesis using assms(2) o[of i] by (auto simp: sem_safe_def)
  next
    case (wait_lock i)
    then show ?thesis using assms(2) o[of i] by (auto simp: sem_safe_def)
  next
    case (wait_sleep i)
    then show ?thesis using assms(2) o[of i] by (auto simp: sem_safe_def)
  next
    case (wait_leave i)
    then show ?thesis using assms(2) o[of i] by (auto simp: sem_safe_def)
  next
    case (wake_up i)
    then show ?thesis using assms(2) o[of i] by (auto simp: sem_safe_def)
  next
    case (wait_take i)
    then show ?thesis using assms(2) o[of i] v[of i] by (auto simp: sem_safe_def)
  next
    case (wait_unlock i)
    then show ?thesis using assms(2) o[of i] by (auto simp: sem_safe_def)
  next
    case (call_post i)
    then show ?thesis using assms(2) o[of i] by (auto simp: sem_safe_def)
  next
    case (post_lock i)
    then show ?thesis using assms(2) o[of i] by (auto simp: sem_safe_def)
  next
    case (post_inc i)
    then show ?thesis using assms(2) o[of i] by (auto simp: sem_safe_def)
  next
    case (post_signal i j)
    then show ?thesis using assms(2) o[of i] by (auto simp: sem_safe_def)
  next
    case (post_nobody i)
    then show ?thesis using assms(2) o[of i] by (auto simp: sem_safe_def)
  next
    case (post_unlock i)
    then show ?thesis using assms(2) o[of i] by (auto simp: sem_safe_def)
  qed
qed

lemma sem_awake_step:
  assumes "sem_step n s t" and "sem_awake n s"
  shows "sem_awake n t"
proof -
  note c = count_pcs_upd[of _ n trying "pl s"]
  from assms(1) show ?thesis
  proof (cases rule: sem_step.cases)
    case (call_wait i)
    then show ?thesis using assms(2) c[of i W_lock] by (auto simp: sem_awake_def)
  next
    case (wait_lock i)
    then show ?thesis using assms(2) c[of i W_test] by (auto simp: sem_awake_def)
  next
    case (wait_sleep i)
    then show ?thesis using assms(2) c[of i W_sleep] by (auto simp: sem_awake_def)
  next
    case (wait_leave i)
    then show ?thesis using assms(2) c[of i W_take] by (auto simp: sem_awake_def)
  next
    case (wake_up i)
    then show ?thesis using assms(2) c[of i W_lock] by (auto simp: sem_awake_def)
  next
    case (wait_take i)
    then show ?thesis using assms(2) c[of i W_unlock] by (auto simp: sem_awake_def)
  next
    case (wait_unlock i)
    then show ?thesis using assms(2) c[of i Idle] by (auto simp: sem_awake_def)
  next
    case (call_post i)
    then show ?thesis using assms(2) c[of i P_lock] by (auto simp: sem_awake_def)
  next
    case (post_lock i)
    then show ?thesis using assms(2) c[of i P_inc] by (auto simp: sem_awake_def)
  next
    case (post_inc i)
    then show ?thesis using assms(2) c[of i P_signal] by (auto simp: sem_awake_def)
  next
    case (post_signal i j)
    then have "i \<noteq> j" by auto
    then have "count_pcs n trying ((pl s)(j := W_lock, i := P_unlock)) = count_pcs n trying (pl s)"
      using c[of j W_lock] count_pcs_upd[of i n trying "(pl s)(j := W_lock)" P_unlock] post_signal by simp
    then show ?thesis using assms(2) post_signal by (auto simp: sem_awake_def)
  next
    case (post_nobody i)
    then show ?thesis using assms(2) c[of i P_unlock] by (auto simp: sem_awake_def)
  next
    case (post_unlock i)
    then show ?thesis using assms(2) c[of i Idle] by (auto simp: sem_awake_def)
  qed
qed

interpretation semaphore: safe_system "\<lambda>s. init_sem val = Inr s" "sem_step n" "\<lambda>s. sem_safe n val s \<and> sem_awake n s"
proof unfold_locales
  show "sem_safe n val s \<and> sem_awake n s" if "init_sem val = Inr s" for s
    using that by (auto simp: init_sem_def sem_safe_def sem_awake_def split: if_splits)
qed (auto intro: sem_safe_step sem_awake_step)

section \<open>The abstract semaphore\<close>

text \<open>Its value and the two operations; a wait needs a positive value.\<close>

datatype sem_event = Tau | Wait_done | Post_done

fun abstract_step :: "int \<Rightarrow> sem_event \<Rightarrow> int option" where
  "abstract_step v Tau = Some v"
| "abstract_step v Wait_done = (if 0 < v then Some (v - 1) else None)"
| "abstract_step v Post_done = Some (v + 1)"

text \<open>What a concrete step is for the abstract semaphore.\<close>

definition event_of :: "sem_t \<Rightarrow> sem_t \<Rightarrow> sem_event" where
  "event_of s t = (if taken t = taken s + 1 then Wait_done else if posted t = posted s + 1 then Post_done else Tau)"

section \<open>Properties\<close>

text \<open>C12: the program implements a counting semaphore: every step of a reachable state is a step of
  the abstract semaphore on the value, which is not negative, or leaves it alone.\<close>

theorem sem_refines:
  assumes "sem_reach n val s" and "sem_step n s t"
  shows "0 \<le> sem_value s \<and> abstract_step (sem_value s) (event_of s t) = Some (sem_value t)"
proof -
  have safe: "sem_safe n val s" using semaphore.inv_reach[OF assms(1)] by blast
  then have "i < n \<Longrightarrow> pl s i = W_take \<Longrightarrow> 0 < sem_value s" for i
    unfolding sem_safe_def by (metis inside_simps(2))
  with assms(2) safe show ?thesis by (cases rule: sem_step.cases) (auto simp: event_of_def sem_safe_def)
qed

definition demo_sem :: sem_t where
  "demo_sem = \<lparr>sem_value = 1, owner = None, pl = (\<lambda>_. Idle), taken = 0, posted = 0\<rparr>"

theorem sem_refines_witness:
  "abstract_step (sem_value demo_sem) (event_of demo_sem (at 0 W_lock demo_sem)) = Some 1"
proof -
  have r: "sem_reach 2 1 demo_sem" by (rule reach_init) (simp add: init_sem_def demo_sem_def)
  have "sem_step 2 demo_sem (at 0 W_lock demo_sem)" by (rule call_wait) (simp_all add: demo_sem_def)
  from sem_refines[OF r this] show ?thesis by (simp add: demo_sem_def)
qed

text \<open>No wake-up is lost: while a thread sleeps and the value is positive, some thread is
  about to look at the value or to send a signal.\<close>

theorem sem_no_lost_wakeup:
  assumes "sem_reach n val s" and "i < n" and "pl s i = W_sleep" and "0 < sem_value s"
  shows "\<exists>j<n. pl s j \<in> {W_lock, W_test, W_take, P_signal}"
proof -
  have "sem_awake n s" using semaphore.inv_reach[OF assms(1)] by blast
  then have "0 < count_pcs n trying (pl s)" using assms(2-4) by (auto simp: sem_awake_def)
  then show ?thesis using count_pcs_ex[of n trying "pl s"] by (auto simp: trying_def)
qed

text \<open>A thread sleeps, and another has just incremented the value.\<close>

theorem sem_no_lost_wakeup_witness:
  "\<exists>s. sem_reach 2 0 s \<and> pl s 0 = W_sleep \<and> sem_value s = 1 \<and> (\<exists>j<2. pl s j \<in> {W_lock, W_test, W_take, P_signal})"
proof -
  define s0 where "s0 = \<lparr>sem_value = 0, owner = None, pl = (\<lambda>_. Idle), taken = 0, posted = 0\<rparr>"
  have "sem_reach 2 0 s0" by (rule reach_init) (simp add: init_sem_def s0_def)
  then have "sem_reach 2 0 (at 0 W_lock s0)"
    by (rule reach_step) (rule call_wait, simp_all add: s0_def)
  then have "sem_reach 2 0 (at 0 W_test (at 0 W_lock s0\<lparr>owner := Some 0\<rparr>))"
    by (rule reach_step) (rule wait_lock, simp_all add: s0_def)
  then have "sem_reach 2 0 (at 0 W_sleep (at 0 W_test (at 0 W_lock s0\<lparr>owner := Some 0\<rparr>)\<lparr>owner := None\<rparr>))"
    (is "sem_reach 2 0 ?s") by (rule reach_step) (rule wait_sleep, simp_all add: s0_def)
  then have "sem_reach 2 0 (at 1 P_lock ?s)"
    by (rule reach_step) (rule call_post, simp_all add: s0_def)
  then have "sem_reach 2 0 (at 1 P_inc (at 1 P_lock ?s\<lparr>owner := Some 1\<rparr>))" (is "sem_reach 2 0 ?t")
    by (rule reach_step) (rule post_lock, simp_all add: s0_def)
  then have r: "sem_reach 2 0 (at 1 P_signal (?t\<lparr>sem_value := sem_value ?t + 1, posted := posted ?t + 1\<rparr>))" (is "sem_reach 2 0 ?u")
    by (rule reach_step) (rule post_inc, simp_all add: s0_def)
  have u: "pl ?u 0 = W_sleep" "sem_value ?u = 1" by (simp_all add: s0_def)
  from sem_no_lost_wakeup[OF r _ u(1)] u(2) have "\<exists>j<2. pl ?u j \<in> {W_lock, W_test, W_take, P_signal}" by simp
  with r u show ?thesis by blast
qed

end
