(* ===== verification/Ramen.thy ===== *)
theory Ramen
  imports Conc
begin

text \<open>
  The ramen bar of \<open>14/so21_lista_14/ramen.c\<close>: \<open>k\<close> customers (\<open>THREADS\<close>) and \<open>max_seats\<close> seats.
  Everything a customer does to the bar is done under the mutex, so that an event is one
  critical section: an arrival in \<open>ramen_wait\<close> up to its return or to the wait for \<open>queue\<close>,
  the return from that wait, and \<open>ramen_finish\<close> with the threads that its signals wake. The
  library also allows a waiting thread to wake up for no reason.
\<close>

section \<open>The program\<close>

datatype customer = Hungry | Queued | Woken | At_table

record ramen_t =
  waiting :: int
  eating :: int
  must_wait :: bool
  max_seats :: int
  customers :: "nat \<Rightarrow> customer"

definition ramen_init :: "int \<Rightarrow> ramen_t" where
  "ramen_init seats = \<lparr>waiting = 0, eating = 0, must_wait = False, max_seats = seats, customers = (\<lambda>_. Hungry)\<rparr>"

definition ramen_wait :: "nat \<Rightarrow> ramen_t \<Rightarrow> ramen_t" where
  "ramen_wait i r =
    (if must_wait r then r\<lparr>waiting := waiting r + 1, customers := (customers r)(i := Queued)\<rparr>
     else r\<lparr>eating := eating r + 1, must_wait := (eating r + 1 = max_seats r), customers := (customers r)(i := At_table)\<rparr>)"

text \<open>\<open>m\<close> signals wake \<open>m\<close> of the waiting threads, or all of them when there are fewer.\<close>

abbreviation queued :: "nat \<Rightarrow> ramen_t \<Rightarrow> nat list" where
  "queued k r \<equiv> sleepers k Queued (customers r)"

definition can_wake :: "nat \<Rightarrow> ramen_t \<Rightarrow> int \<Rightarrow> nat list \<Rightarrow> bool" where
  "can_wake k r m ws \<longleftrightarrow> can_signal k Queued (customers r) m ws"

definition wake :: "nat list \<Rightarrow> ramen_t \<Rightarrow> ramen_t" where
  "wake ws r = r\<lparr>customers := woken ws Woken (customers r)\<rparr>"

definition ramen_finish :: "nat \<Rightarrow> nat \<Rightarrow> nat list \<Rightarrow> ramen_t \<Rightarrow> ramen_t option" where
  "ramen_finish k i ws r =
    (let r = r\<lparr>eating := eating r - 1, customers := (customers r)(i := Hungry)\<rparr> in
     if eating r = 0
     then let n = (if waiting r > max_seats r then max_seats r else waiting r);
              r = r\<lparr>waiting := 0, eating := n, must_wait := (n = max_seats r)\<rparr>
          in if can_wake k r n ws then Some (wake ws r) else None
     else if ws = [] then Some r else None)"

datatype event = Arrive nat | Return nat | Finish nat "nat list" | Spurious nat

fun ramen_do :: "nat \<Rightarrow> event \<Rightarrow> ramen_t \<Rightarrow> ramen_t option" where
  "ramen_do k (Arrive i) r = (if i < k \<and> customers r i = Hungry then Some (ramen_wait i r) else None)"
| "ramen_do k (Return i) r =
    (if i < k \<and> customers r i = Woken then Some (r\<lparr>customers := (customers r)(i := At_table)\<rparr>) else None)"
| "ramen_do k (Finish i ws) r = (if i < k \<and> customers r i = At_table then ramen_finish k i ws r else None)"
| "ramen_do k (Spurious i) r = (if i < k \<and> customers r i = Queued then Some (wake [i] r) else None)"

fun spurious :: "event \<Rightarrow> bool" where
  "spurious (Spurious i) = True"
| "spurious _ = False"

definition ramen_step :: "nat \<Rightarrow> bool \<Rightarrow> ramen_t \<Rightarrow> ramen_t \<Rightarrow> bool" where
  "ramen_step k sp r t \<longleftrightarrow> (\<exists>e. (spurious e \<longrightarrow> sp) \<and> ramen_do k e r = Some t)"

abbreviation ramen_reach :: "nat \<Rightarrow> bool \<Rightarrow> int \<Rightarrow> ramen_t \<Rightarrow> bool" where
  "ramen_reach k sp seats \<equiv> reach (\<lambda>r. r = ramen_init seats) (ramen_step k sp)"

abbreviation ramen_run :: "nat \<Rightarrow> event list \<Rightarrow> ramen_t \<Rightarrow> ramen_t option" where
  "ramen_run k \<equiv> run_schedule (ramen_do k)"

lemma ramen_run_reach:
  "ramen_run k es r = Some t \<Longrightarrow> (\<forall>e\<in>set es. spurious e \<longrightarrow> sp) \<Longrightarrow> ramen_reach k sp seats r \<Longrightarrow> ramen_reach k sp seats t"
  by (rule run_schedule_reach) (auto simp: ramen_step_def)

section \<open>The seats\<close>

definition seated :: "customer \<Rightarrow> bool" where
  "seated c \<longleftrightarrow> c = At_table \<or> c = Woken"

lemma seated_simps [simp]: "seated At_table" "seated Woken" "\<not> seated Hungry" "\<not> seated Queued"
  by (simp_all add: seated_def)

definition ramen_inv :: "nat \<Rightarrow> int \<Rightarrow> ramen_t \<Rightarrow> bool" where
  "ramen_inv k seats r \<longleftrightarrow> max_seats r = seats \<and> 0 < seats \<and> eating r = int (count_pcs k seated (customers r)) \<and>
     0 \<le> waiting r \<and> waiting r \<le> int (length (queued k r)) \<and>
     eating r \<le> seats \<and> (eating r = seats \<longrightarrow> must_wait r)"

lemma can_wake_cong: "customers r = customers r' \<Longrightarrow> can_wake k r m ws = can_wake k r' m ws"
  by (simp add: can_wake_def)

lemma ramen_inv_wake:
  assumes "ramen_inv k seats (r\<lparr>eating := 0, must_wait := True\<rparr>)" and "can_wake k r m ws"
    and m: "m = (if waiting r > seats then seats else waiting r)"
    and r: "r' = r\<lparr>waiting := 0, eating := m, must_wait := (m = seats)\<rparr>"
  shows "ramen_inv k seats (wake ws r')"
proof -
  have z: "max_seats r = seats" "0 < seats" "count_pcs k seated (customers r) = 0" "0 \<le> waiting r"
    "waiting r \<le> int (count_pcs k (\<lambda>c. c = Queued) (customers r))"
    using assms(1) by (simp_all add: ramen_inv_def length_sleepers)
  have "can_signal k Queued (customers r) m ws" "0 \<le> m" "m \<le> int (count_pcs k (\<lambda>c. c = Queued) (customers r))"
    using assms(2) z(2,4,5) by (auto simp: can_wake_def m)
  from can_signal_counts[OF this, of seated Woken] have "int (count_pcs k seated (customers (wake ws r'))) = m"
    using z(3) by (simp add: wake_def r)
  then show ?thesis using z(1,2,4) by (auto simp: ramen_inv_def wake_def r m split: if_splits)
qed

lemma ramen_inv_step:
  assumes "ramen_step k False r t" and "ramen_inv k seats r"
  shows "ramen_inv k seats t"
proof -
  obtain e where e: "\<not> spurious e" "ramen_do k e r = Some t" using assms(1) by (auto simp: ramen_step_def)
  have inv: "max_seats r = seats" "0 < seats" "eating r = int (count_pcs k seated (customers r))" "0 \<le> waiting r"
    "waiting r \<le> int (count_pcs k (\<lambda>c. c = Queued) (customers r))" "eating r \<le> seats" "eating r = seats \<longrightarrow> must_wait r"
    using assms(2) by (simp_all add: ramen_inv_def length_sleepers)
  show ?thesis
  proof (cases e)
    case (Arrive i)
    then have i: "i < k" "customers r i = Hungry" "t = ramen_wait i r" using e(2) by (auto split: if_splits)
    note c = count_pcs_upd[OF i(1), of _ "customers r"]
    show ?thesis
      using inv i c[of seated Queued] c[of "\<lambda>c. c = Queued" Queued] c[of seated At_table] c[of "\<lambda>c. c = Queued" At_table]
      by (auto simp: ramen_inv_def length_sleepers ramen_wait_def)
  next
    case (Return i)
    then have i: "i < k" "customers r i = Woken" "t = r\<lparr>customers := (customers r)(i := At_table)\<rparr>"
      using e(2) by (auto split: if_splits)
    note c = count_pcs_upd[OF i(1), of _ "customers r"]
    show ?thesis using inv i c[of seated At_table] c[of "\<lambda>c. c = Queued" At_table]
      by (auto simp: ramen_inv_def length_sleepers)
  next
    case (Finish i ws)
    then have i: "i < k" "customers r i = At_table" "ramen_finish k i ws r = Some t" using e(2) by (auto split: if_splits)
    let ?r = "r\<lparr>eating := eating r - 1, customers := (customers r)(i := Hungry)\<rparr>"
    note c = count_pcs_upd[OF i(1), of _ "customers r"]
    have h: "count_pcs k seated (customers ?r) + 1 = count_pcs k seated (customers r)"
      "count_pcs k (\<lambda>c. c = Queued) (customers ?r) = count_pcs k (\<lambda>c. c = Queued) (customers r)"
      using i(2) c[of seated Hungry] c[of "\<lambda>c. c = Queued" Hungry] by simp_all
    show ?thesis
    proof (cases "eating r = 1")
      case True
      let ?m = "if waiting r > seats then seats else waiting r"
      have 1: "can_wake k (?r\<lparr>waiting := 0, eating := ?m, must_wait := (?m = seats)\<rparr>) ?m ws"
        and 2: "t = wake ws (?r\<lparr>waiting := 0, eating := ?m, must_wait := (?m = seats)\<rparr>)"
        using i(3) inv(1) True by (auto simp: ramen_finish_def Let_def split: if_splits)
      have 3: "ramen_inv k seats (?r\<lparr>eating := 0, must_wait := True\<rparr>)"
        using inv h True unfolding ramen_inv_def length_sleepers by simp
      have "can_wake k ?r ?m ws" using 1 by (rule can_wake_cong[THEN iffD1, rotated]) simp
      show ?thesis unfolding 2 by (rule ramen_inv_wake[OF 3 \<open>can_wake k ?r ?m ws\<close>]) simp_all
    next
      case False
      then have "t = ?r" using i(3) by (auto simp: ramen_finish_def Let_def split: if_splits)
      then show ?thesis using inv h by (simp add: ramen_inv_def length_sleepers)
    qed
  qed (use e in simp)
qed

interpretation ramen: safe_system "\<lambda>r. r = ramen_init seats \<and> 0 < seats" "ramen_step k False" "ramen_inv k seats"
proof unfold_locales
  show "ramen_inv k seats r" if "r = ramen_init seats \<and> 0 < seats" for r
    using that by (simp add: ramen_inv_def ramen_init_def)
qed (rule ramen_inv_step)

section \<open>Properties\<close>

text \<open>C16: as long as no thread wakes up without a signal, the customers at the table or on their
  way to it are those counted by \<open>eating\<close>, and never more than the seats.\<close>

theorem ramen_seats:
  assumes "0 < seats" and "ramen_reach k False seats r"
  shows "eating r = int (count_pcs k seated (customers r)) \<and> int (count_pcs k seated (customers r)) \<le> seats"
proof -
  have "reach (\<lambda>r. r = ramen_init seats \<and> 0 < seats) (ramen_step k False) r" using assms by simp
  from ramen.inv_reach[OF this] show ?thesis by (simp add: ramen_inv_def)
qed

theorem ramen_seats_witness:
  "int (count_pcs 10 seated ((customers (ramen_init 5))(3 := At_table))) \<le> 5"
proof -
  have "ramen_reach 10 False 5 (ramen_wait 3 (ramen_init 5))"
    by (rule ramen_run_reach[of 10 "[Arrive 3]", OF _ _ reach_init]) (simp_all add: ramen_init_def)
  from ramen_seats[OF _ this] show ?thesis by (simp add: ramen_wait_def ramen_init_def)
qed

text \<open>The bar goes on: a customer who finds it full is not alone, as somebody sits at the table or has been woken.\<close>

definition ramen_busy :: "nat \<Rightarrow> ramen_t \<Rightarrow> bool" where
  "ramen_busy k r \<longleftrightarrow> (eating r = 0 \<longrightarrow> \<not> must_wait r) \<and> (\<exists>i<k. customers r i \<noteq> Queued)"

definition can_sit_down :: "nat \<Rightarrow> ramen_t \<Rightarrow> bool" where
  "can_sit_down k r \<longleftrightarrow> (\<exists>i<k. customers r i = Woken \<or> customers r i = Hungry \<and> \<not> must_wait r)"

lemma ramen_busy_step:
  assumes "ramen_step k False r t" and "ramen_inv k seats r" and "ramen_busy k r"
  shows "ramen_busy k t"
proof -
  obtain e where e: "\<not> spurious e" "ramen_do k e r = Some t" using assms(1) by (auto simp: ramen_step_def)
  have inv: "0 < seats" "max_seats r = seats" "eating r = int (count_pcs k seated (customers r))" using assms(2) by (simp_all add: ramen_inv_def)
  show ?thesis
  proof (cases e)
    case (Arrive i)
    then have i: "i < k" "customers r i = Hungry" "t = ramen_wait i r" using e(2) by (auto split: if_splits)
    show ?thesis
    proof (cases "must_wait r")
      case True
      then have "0 < count_pcs k seated (customers r)" using assms(3) inv(3) by (auto simp: ramen_busy_def)
      then obtain j where "j < k" "seated (customers r j)" using count_pcs_ex by blast
      then have "j < k \<and> customers t j \<noteq> Queued" using i True by (auto simp: ramen_wait_def)
      moreover have "eating t = eating r" "eating r \<noteq> 0" using i True assms(3) by (auto simp: ramen_wait_def ramen_busy_def)
      ultimately show ?thesis by (auto simp: ramen_busy_def)
    next
      case False
      then show ?thesis using i inv by (auto simp: ramen_busy_def ramen_wait_def intro!: exI[of _ i])
    qed
  next
    case (Finish i ws)
    then have i: "i < k" "customers r i = At_table" "ramen_finish k i ws r = Some t" using e(2) by (auto split: if_splits)
    then have "customers t i = Hungry \<or> customers t i = Woken" "eating t = 0 \<longrightarrow> \<not> must_wait t"
      using inv assms(3) by (auto simp: ramen_finish_def Let_def wake_def woken_def ramen_busy_def split: if_splits)
    then show ?thesis using i(1) by (auto simp: ramen_busy_def intro!: exI[of _ i])
  next
    case (Return i)
    then show ?thesis using e(2) assms(3) by (auto simp: ramen_busy_def intro!: exI[of _ i] split: if_splits)
  qed (use e in simp)
qed

lemma ramen_eater:
  assumes "ramen_inv k seats r" and "ramen_busy k r" and "\<not> can_sit_down k r"
  shows "\<exists>j<k. customers r j = At_table"
proof -
  have none: "customers r i \<noteq> Woken" if "i < k" for i using assms(3) that by (auto simp: can_sit_down_def)
  obtain i where i: "i < k" "customers r i \<noteq> Queued" using assms(2) by (auto simp: ramen_busy_def)
  show ?thesis
  proof (cases "customers r i = At_table")
    case False
    then have "must_wait r" using i none assms(3) by (cases "customers r i") (auto simp: can_sit_down_def)
    then have "0 < count_pcs k seated (customers r)" using assms(1,2) by (auto simp: ramen_busy_def ramen_inv_def)
    then obtain j where "j < k" "seated (customers r j)" using count_pcs_ex by blast
    then show ?thesis using none by (auto simp: seated_def)
  qed (use i in blast)
qed

lemma ramen_closer:
  assumes "ramen_inv k seats r" and "ramen_busy k r" and "\<not> can_sit_down k r"
  shows "\<exists>t. ramen_step k False r t \<and> count_pcs k (\<lambda>c. c = At_table) (customers t) < count_pcs k (\<lambda>c. c = At_table) (customers r)"
proof -
  obtain j where j: "j < k" "customers r j = At_table" using ramen_eater[OF assms] by blast
  let ?r = "r\<lparr>eating := eating r - 1, customers := (customers r)(j := Hungry)\<rparr>"
  let ?n = "if waiting r > max_seats r then max_seats r else waiting r"
  obtain ws where ws: "can_wake k ?r ?n ws" using can_signal_exists[of k Queued "customers ?r" ?n] unfolding can_wake_def by blast
  have c: "count_pcs k (\<lambda>c. c = At_table) ((customers r)(j := Hungry)) + 1 = count_pcs k (\<lambda>c. c = At_table) (customers r)"
    using count_pcs_upd[OF j(1), of "\<lambda>c. c = At_table" "customers r" Hungry] j(2) by simp
  show ?thesis
  proof (cases "eating r = 1")
    case True
    let ?t = "wake ws (?r\<lparr>waiting := 0, eating := ?n, must_wait := (?n = max_seats r)\<rparr>)"
    have "can_signal k Queued ((customers r)(j := Hungry)) ?n ws" using ws by (simp add: can_wake_def)
    then have "ramen_do k (Finish j ws) r = Some ?t" using j True
      by (simp add: ramen_finish_def Let_def can_wake_def split: if_splits)
    then have "ramen_step k False r ?t" unfolding ramen_step_def by (intro exI[of _ "Finish j ws"]) simp
    moreover have "count_pcs k (\<lambda>c. c = At_table) (customers ?t) = count_pcs k (\<lambda>c. c = At_table) ((customers r)(j := Hungry))"
      using count_pcs_woken[of ws k Queued "(customers r)(j := Hungry)" "\<lambda>c. c = At_table" Woken] ws
      by (simp add: wake_def can_wake_def can_signal_def)
    ultimately show ?thesis using c by (intro exI[of _ ?t]) simp
  next
    case False
    then have "ramen_do k (Finish j []) r = Some ?r" using j by (simp add: ramen_finish_def)
    then have "ramen_step k False r ?r" unfolding ramen_step_def by (intro exI[of _ "Finish j []"]) simp
    then show ?thesis using c by (intro exI[of _ ?r]) simp
  qed
qed

interpretation ramen_live: converging_system "\<lambda>r. r = ramen_init seats \<and> 0 < seats \<and> 0 < k" "ramen_step k False"
    "\<lambda>r. ramen_inv k seats r \<and> ramen_busy k r" "can_sit_down k" "\<lambda>r. count_pcs k (\<lambda>c. c = At_table) (customers r)"
proof unfold_locales
  show "ramen_inv k seats r \<and> ramen_busy k r" if "r = ramen_init seats \<and> 0 < seats \<and> 0 < k" for r
    using that ramen.inv_init[of r seats k] by (auto simp: ramen_busy_def ramen_init_def)
  show "ramen_inv k seats t \<and> ramen_busy k t" if "ramen_step k False r t" "ramen_inv k seats r \<and> ramen_busy k r" for r t
    using that ramen_inv_step ramen_busy_step by blast
qed (use ramen_closer in blast)

lemma can_sit_down_step:
  assumes "can_sit_down k r"
  shows "\<exists>t i. ramen_step k False r t \<and> i < k \<and> customers r i \<noteq> At_table \<and> customers t i = At_table"
proof -
  obtain i where i: "i < k" "customers r i = Woken \<or> customers r i = Hungry \<and> \<not> must_wait r" using assms by (auto simp: can_sit_down_def)
  then have "\<exists>e t. \<not> spurious e \<and> ramen_do k e r = Some t \<and> customers t i = At_table"
    by (intro exI[of _ "if customers r i = Woken then Return i else Arrive i"]) (auto simp: ramen_wait_def)
  then show ?thesis using i by (auto simp: ramen_step_def intro!: exI[of _ i])
qed

text \<open>
  C40: the bar never stops: from every state reachable without spurious wake-ups there is a way on in which some customer sits down at the table. (Which one is another
  matter: some can be forgotten.)
\<close>

theorem ramen_goes_on:
  assumes "0 < seats" and "0 < k" and "ramen_reach k False seats r"
  shows "\<exists>t u i. (ramen_step k False)\<^sup>*\<^sup>* r t \<and> ramen_step k False t u \<and> i < k \<and> customers t i \<noteq> At_table \<and> customers u i = At_table"
proof -
  have "reach (\<lambda>r. r = ramen_init seats \<and> 0 < seats \<and> 0 < k) (ramen_step k False) r" using assms by simp
  then obtain t where "(ramen_step k False)\<^sup>*\<^sup>* r t" "can_sit_down k t" using ramen_live.reachable_can_reach_goal by blast
  with can_sit_down_step show ?thesis by blast
qed

theorem ramen_goes_on_witness: "\<exists>t u i. (ramen_step 10 False)\<^sup>*\<^sup>* (ramen_init 5) t \<and> ramen_step 10 False t u \<and> i < 10 \<and> customers u i = At_table"
proof -
  have "ramen_reach 10 False 5 (ramen_init 5)" by (rule reach_init) (rule refl)
  from ramen_goes_on[OF _ _ this] show ?thesis by auto
qed

text \<open>The condition is not tested again after a wait: with the numbers of the program, one
  thread that wakes up without a signal gives six customers at five seats.\<close>

theorem ramen_spurious:
  "\<exists>r. ramen_reach 10 True 5 r \<and> count_pcs 10 (\<lambda>c. c = At_table) (customers r) = 6"
proof -
  let ?run = "[Arrive 0, Arrive 1, Arrive 2, Arrive 3, Arrive 4, Arrive 5, Spurious 5, Return 5]"
  obtain r where r: "ramen_run 10 ?run (ramen_init 5) = Some r" "filter (\<lambda>i. customers r i = At_table) [0..<10] = [0..<6]"
    by (simp add: ramen_init_def ramen_wait_def wake_def woken_def upt_rec numeral_eq_Suc)
  have "{i. i < 10 \<and> customers r i = At_table} = set (filter (\<lambda>i. customers r i = At_table) [0..<10])" by auto
  then have "count_pcs 10 (\<lambda>c. c = At_table) (customers r) = 6" unfolding count_pcs_def r(2) by simp
  moreover have "ramen_reach 10 True 5 r" by (rule ramen_run_reach[OF r(1)]) (auto intro: reach_init)
  ultimately show ?thesis by blast
qed

text \<open>When more customers wait than there are seats, those not woken are forgotten: with the
  numbers of the program there is a run, without spurious wake-ups, to a state in which
  nobody eats, nobody is counted as waiting, and four customers sleep in front of the empty bar.\<close>

theorem ramen_forgotten:
  "\<exists>r. ramen_reach 10 False 5 r \<and> eating r = 0 \<and> waiting r = 0 \<and> queued 10 r = [0, 1, 2, 3]"
proof -
  let ?run = "map Arrive [4, 0, 1, 2, 3, 5, 6, 7, 8, 9] @
    [Finish 0 [], Arrive 0, Finish 1 [], Arrive 1, Finish 2 [], Arrive 2, Finish 3 [], Arrive 3, Finish 4 [5, 6, 7, 8, 9]] @
    map Return [5, 6, 7, 8, 9] @ map (\<lambda>i. Finish i []) [5, 6, 7, 8, 9]"
  have "case ramen_run 10 ?run (ramen_init 5) of None \<Rightarrow> False
    | Some r \<Rightarrow> eating r = 0 \<and> waiting r = 0 \<and> queued 10 r = [0, 1, 2, 3]" by code_simp
  then obtain r where r: "ramen_run 10 ?run (ramen_init 5) = Some r" "eating r = 0" "waiting r = 0" "queued 10 r = [0, 1, 2, 3]"
    by (auto split: option.splits)
  have "ramen_reach 10 False 5 r" by (rule ramen_run_reach[OF r(1)]) (auto intro: reach_init)
  then show ?thesis using r(2-4) by blast
qed

end
