(* ===== verification/Queens.thy ===== *)
theory Queens
  imports Prelude "HOL-Library.Multiset"
begin

text \<open>
  The queens of \<open>1/het.c\<close>: \<open>ndselect\<close> forks one process for each of its values, so that a
  program that calls it in every row is a tree of processes; the parents only wait. The model
  collects the leaves, each with its own copy of the board. A leaf checks its board and writes
  it to the common file under a lock, so that the file holds whole boards, in an
  order that depends on the scheduler; the theory \<open>Boardlock\<close> has the writes and the lock.
\<close>

section \<open>The program\<close>

type_synonym board = "int list"

definition conflict :: "int \<Rightarrow> int \<Rightarrow> int \<Rightarrow> int \<Rightarrow> bool" where
  "conflict x1 y1 x2 y2 \<longleftrightarrow> x1 = x2 \<or> y1 = y2 \<or> x1 + y1 = x2 + y2 \<or> x1 - y1 = x2 - y2"

text \<open>The values that \<open>ndselect\<close> returns, one in each child.\<close>

definition ndselect :: "nat \<Rightarrow> int list" where
  "ndselect n = map int [0..<n]"

text \<open>The leaves below a process that has filled the rows before \<open>i\<close>; \<open>r\<close> rows are left.\<close>

fun place_queens :: "nat \<Rightarrow> nat \<Rightarrow> nat \<Rightarrow> board \<Rightarrow> board list" where
  "place_queens sz 0 i board = [board]"
| "place_queens sz (Suc r) i board =
    concat (map (\<lambda>k. place_queens sz r (Suc i) (board[i := k])) (ndselect sz))"

definition check_board :: "nat \<Rightarrow> board \<Rightarrow> bool" where
  "check_board sz board \<longleftrightarrow> list_all (\<lambda>i. list_all (\<lambda>j.
     i = j \<or> \<not> conflict (int i) (board ! i) (int j) (board ! j)) [0..<sz]) [0..<sz]"

definition print_line_sep :: "nat \<Rightarrow> string" where
  "print_line_sep sz = concat (replicate sz ''+---'') @ ''+'' @ [CHR 0x0A]"

definition print_row :: "nat \<Rightarrow> int \<Rightarrow> string" where
  "print_row sz q =
    concat (map (\<lambda>j. ''|'' @ (if q = int j then '' Q '' else ''   '')) [0..<sz]) @ ''|'' @ [CHR 0x0A]"

definition print_board :: "nat \<Rightarrow> board \<Rightarrow> string" where
  "print_board sz board =
    concat (map (\<lambda>i. print_line_sep sz @ print_row sz (board ! i)) [0..<sz]) @
    print_line_sep sz @ [CHR 0x0A]"

text \<open>The boards written by the leaves, and a file that they can leave behind.\<close>

definition het_boards :: "int \<Rightarrow> board list run" where
  "het_boards sz = (if sz < 4 \<or> sz > 9 then Inl App_error
     else let n = nat sz in Inr (filter (check_board n) (place_queens n n 0 (replicate n (- 1)))))"

definition het_file :: "int \<Rightarrow> string \<Rightarrow> bool" where
  "het_file sz file \<longleftrightarrow> (\<exists>boards order. het_boards sz = Inr boards \<and> mset order = mset boards \<and>
     file = concat (map (print_board (nat sz)) order))"

section \<open>All boards\<close>

definition on_board :: "nat \<Rightarrow> board \<Rightarrow> bool" where
  "on_board n b \<longleftrightarrow> length b = n \<and> set b \<subseteq> {0..<int n}"

lemma ndselect_set: "set (ndselect n) = {0..<int n}" "distinct (ndselect n)"
proof -
  have "x \<in> int ` {0..<n}" if "0 \<le> x" "x < int n" for x using that by (intro image_eqI[of _ _ "nat x"]) auto
  then show "set (ndselect n) = {0..<int n}" by (auto simp: ndselect_def)
qed (simp add: ndselect_def distinct_map inj_on_def)

lemma place_queens_set:
  assumes "length board = i + r"
  shows "set (place_queens n r i board) = {take i board @ cs |cs. length cs = r \<and> set cs \<subseteq> {0..<int n}}"
  using assms
proof (induction r arbitrary: i board)
  case (Suc r)
  have "take (Suc i) (board[i := k]) = take i board @ [k]" for k
    using Suc.prems by (simp add: take_Suc_conv_app_nth)
  then have "set (place_queens n (Suc r) i board) =
      (\<Union>k\<in>{0..<int n}. {take i board @ k # cs |cs. length cs = r \<and> set cs \<subseteq> {0..<int n}})"
    using Suc.IH[of "board[i := _]" "Suc i"] Suc.prems by (simp add: ndselect_set)
  also have "\<dots> = {take i board @ cs |cs. length cs = Suc r \<and> set cs \<subseteq> {0..<int n}}"
    by (auto simp: length_Suc_conv)
  finally show ?case .
qed auto

lemma distinct_concat_map:
  assumes "distinct xs" and "\<And>x. x \<in> set xs \<Longrightarrow> distinct (f x)"
    and "\<And>x y. x \<in> set xs \<Longrightarrow> y \<in> set xs \<Longrightarrow> x \<noteq> y \<Longrightarrow> set (f x) \<inter> set (f y) = {}"
  shows "distinct (concat (map f xs))"
  using assms by (induction xs) fastforce+

lemma place_queens_distinct:
  assumes "length board = i + r"
  shows "distinct (place_queens n r i board)"
  using assms
proof (induction r arbitrary: i board)
  case (Suc r)
  have t: "take (Suc i) (board[i := k]) = take i board @ [k]" for k
    using Suc.prems by (simp add: take_Suc_conv_app_nth)
  have "set (place_queens n r (Suc i) (board[i := k])) \<inter> set (place_queens n r (Suc i) (board[i := k'])) = {}"
    if "k \<noteq> k'" for k k'
    using that Suc.prems by (auto simp: place_queens_set t)
  then show ?case using Suc by (auto intro!: distinct_concat_map simp: ndselect_set)
qed simp

section \<open>Printing\<close>

lemma print_row_inj:
  assumes "print_row n q = print_row n q'" and "0 \<le> q" and "q < int n"
  shows "q = q'"
proof -
  let ?cell = "\<lambda>q j. ''|'' @ (if q = int j then '' Q '' else ''   '')"
  have "map (?cell q) [0..<n] = map (?cell q') [0..<n]"
    by (rule concat_injective) (use assms(1) in \<open>auto simp: print_row_def zip_map_map zip_same_conv_map\<close>)
  moreover have "nat q \<in> set [0..<n]" using assms(2,3) by auto
  ultimately have "?cell q (nat q) = ?cell q' (nat q)" unfolding map_eq_conv by (rule bspec)
  then show ?thesis using assms(2) by (simp split: if_splits)
qed

lemma length_print_row: "length (print_row n q) = 4 * n + 2"
proof -
  have "length (concat (map (\<lambda>j. ''|'' @ (if q = int j then '' Q '' else ''   '')) js)) = 4 * length js" for js
    by (induction js) auto
  then show ?thesis by (simp add: print_row_def)
qed

lemma print_board_inj:
  assumes "print_board n b = print_board n b'" and "on_board n b" and "on_board n b'"
  shows "b = b'"
proof (rule nth_equalityI)
  have "map (\<lambda>i. print_line_sep n @ print_row n (b ! i)) [0..<n] = map (\<lambda>i. print_line_sep n @ print_row n (b' ! i)) [0..<n]"
    by (rule concat_injective)
      (use assms(1) in \<open>auto simp: print_board_def zip_map_map zip_same_conv_map length_print_row\<close>)
  then have rows: "print_row n (b ! i) = print_row n (b' ! i)" if "i < n" for i
    using that unfolding map_eq_conv by simp
  show "length b = length b'" using assms(2,3) by (simp add: on_board_def)
  show "b ! i = b' ! i" if "i < length b" for i
  proof -
    have "i < n" using that assms(2) by (simp add: on_board_def)
    have "b ! i \<in> {0..<int n}" using assms(2) nth_mem[OF that] unfolding on_board_def by blast
    with print_row_inj[OF rows[OF \<open>i < n\<close>]] show ?thesis by simp
  qed
qed

section \<open>Properties\<close>

text \<open>Queens on all rows that do not attack each other.\<close>

definition solution :: "nat \<Rightarrow> board \<Rightarrow> bool" where
  "solution n b \<longleftrightarrow> on_board n b \<and> distinct b \<and>
     (\<forall>i<n. \<forall>j<n. i \<noteq> j \<longrightarrow> \<bar>int i - int j\<bar> \<noteq> \<bar>b ! i - b ! j\<bar>)"

lemma check_board_solution:
  assumes "on_board n b"
  shows "check_board n b \<longleftrightarrow> solution n b"
proof -
  have c: "conflict (int i) x (int j) y \<longleftrightarrow> x = y \<or> \<bar>int i - int j\<bar> = \<bar>x - y\<bar>" if "i \<noteq> j" for i j x y
    using that by (auto simp: conflict_def)
  have "check_board n b \<longleftrightarrow> (\<forall>i<n. \<forall>j<n. i \<noteq> j \<longrightarrow> \<not> conflict (int i) (b ! i) (int j) (b ! j))"
    unfolding check_board_def list_all_iff set_upt atLeastLessThan_iff by (meson le0 atLeastLessThan_iff)
  also have "\<dots> \<longleftrightarrow> solution n b"
    using assms c by (auto simp: solution_def on_board_def distinct_conv_nth)
  finally show ?thesis .
qed

text \<open>C24: for every size the program accepts, the leaves write each solution of the queens problem
  exactly once, and nothing else.\<close>

theorem queens_ok:
  assumes "4 \<le> sz" and "sz \<le> 9"
  shows "\<exists>boards. het_boards sz = Inr boards \<and> distinct boards \<and> set boards = {b. solution (nat sz) b}"
proof -
  let ?n = "nat sz"
  let ?bs = "place_queens ?n ?n 0 (replicate ?n (- 1))"
  have "set ?bs = {b. length b = ?n \<and> set b \<subseteq> {0..<int ?n}}" using place_queens_set[of "replicate ?n (- 1)" 0 ?n ?n] by simp
  then have "set ?bs = {b. on_board ?n b}" unfolding on_board_def .
  then have "set (filter (check_board ?n) ?bs) = {b. solution ?n b}"
    using check_board_solution by (auto simp: solution_def)
  moreover have "distinct ?bs" by (rule place_queens_distinct) simp
  ultimately show ?thesis using assms by (simp add: het_boards_def Let_def)
qed

theorem queens_ok_witness: "\<exists>boards. het_boards 5 = Inr boards \<and> [0, 2, 4, 1, 3] \<in> set boards"
proof -
  have "check_board 5 [0, 2, 4, 1, 3]" by code_simp
  then have "solution 5 [0, 2, 4, 1, 3]" by (subst check_board_solution[symmetric]) (auto simp: on_board_def)
  with queens_ok[of 5] show ?thesis by auto
qed

text \<open>The printed boards can be told apart: the text of a board determines it.\<close>

theorem queens_print:
  assumes "on_board n b" and "on_board n b'" and "print_board n b = print_board n b'"
  shows "b = b'"
  by (rule print_board_inj[OF assms(3,1,2)])

theorem queens_print_witness: "print_board 4 [1, 3, 0, 2] \<noteq> print_board 4 [2, 0, 3, 1]"
  using queens_print[of 4 "[1, 3, 0, 2]" "[2, 0, 3, 1]"] by (auto simp: on_board_def)

end
