(* ===== verification/Writeperf.thy ===== *)
theory Writeperf
  imports Stdio
begin

text \<open>
  The write benchmark of \<open>6/so21_lista_6/writeperf.c\<close>: triangles of stars written with \<open>write\<close>,
  with \<open>fwrite\<close> under one of three kinds of buffering, or with \<open>writev\<close> in batches. The
  standard output is the list of the texts that the calls of \<open>write\<close> and \<open>writev\<close> have written. What the system provides is a parameter: the largest
  number of bytes that one call takes (the program does not look at the results of its own calls, while the C library goes on with the rest),
  the size of the batches, the size of a page, the size the library gives the buffer of a stream that is set up without a buffer, and which
  sizes \<open>malloc\<close> grants. Errors of a write (a full disk, a closed pipe) are not modelled.
\<close>

record host =
  call_limit :: nat
  iov_max :: nat
  page_size :: nat
  buffer_size :: "nat \<Rightarrow> nat"
  malloc_ok :: "nat \<Rightarrow> bool"
  is_tty :: bool

section \<open>The program\<close>

text \<open>The options as \<open>getopt\<close> delivers them, with the value of \<open>atoi\<close>.\<close>

datatype option_arg = Opt_l int | Opt_t int | Opt_s | Opt_other

record settings =
  line_length :: int
  times :: int
  dosync :: bool

fun parse_options :: "option_arg list \<Rightarrow> settings \<Rightarrow> settings run" where
  "parse_options [] c = Inr c"
| "parse_options (Opt_l n # opts) c = parse_options opts (c\<lparr>line_length := n\<rparr>)"
| "parse_options (Opt_t n # opts) c = parse_options opts (c\<lparr>times := n\<rparr>)"
| "parse_options (Opt_s # opts) c = parse_options opts (c\<lparr>dosync := True\<rparr>)"
| "parse_options (Opt_other # opts) c = Inl App_error"

text \<open>\<open>malloc (length + 1)\<close> and \<open>memset\<close>: the sum overflows for the largest \<open>int\<close> and becomes a size that no \<open>malloc\<close> grants; its result is not
  looked at.\<close>

definition INT_MAX :: int where "INT_MAX = 2 ^ 31 - 1"

definition star_line :: "nat \<Rightarrow> string" where
  "star_line len = replicate len (CHR ''*'') @ [CHR 0x0A]"

definition alloc_line :: "host \<Rightarrow> int \<Rightarrow> string run" where
  "alloc_line h len =
    (if len + 1 \<le> INT_MAX \<and> malloc_ok h (nat (len + 1)) then Inr (star_line (nat len)) else Inl Null_deref)"

text \<open>The arguments \<open>line + k\<close> and \<open>length + 1 - k\<close> of every call.\<close>

definition line_from :: "string \<Rightarrow> nat \<Rightarrow> nat \<Rightarrow> string" where
  "line_from line len k = take (len + 1 - k) (drop k line)"

text \<open>The two loops around every way of writing; \<open>body\<close> is what is done with one text.\<close>

function for_k :: "(string \<Rightarrow> 's \<Rightarrow> 's) \<Rightarrow> string \<Rightarrow> nat \<Rightarrow> nat \<Rightarrow> 's \<Rightarrow> 's" where
  "for_k body line len k s = (if k < len then for_k body line len (k + 1) (body (line_from line len k) s) else s)"
  by pat_completeness auto
termination by (relation "measure (\<lambda>(body, line, len, k, s). len - k)") auto

declare for_k.simps [simp del]

fun for_j :: "(string \<Rightarrow> 's \<Rightarrow> 's) \<Rightarrow> string \<Rightarrow> nat \<Rightarrow> nat \<Rightarrow> 's \<Rightarrow> 's" where
  "for_j body line len 0 s = s"
| "for_j body line len (Suc j) s = for_j body line len j (for_k body line len 0 s)"

text \<open>\<open>write\<close>: one call takes no more than its limit.\<close>

definition write_call :: "host \<Rightarrow> string \<Rightarrow> string list \<Rightarrow> string list" where
  "write_call h bs out = out @ [take (call_limit h) bs]"

text \<open>\<open>fwrite\<close>: into the stream. The library repeats a call until all of its bytes are written.\<close>

definition stream_mode :: "host \<Rightarrow> string \<Rightarrow> nat \<Rightarrow> buffering" where
  "stream_mode h choice len =
    (if choice = ''fwrite-line'' then Line_buffered (buffer_size h (len + 1))
     else if choice = ''fwrite-full'' then Fully_buffered (buffer_size h (page_size h)) else Unbuffered)"

function write_rest :: "nat \<Rightarrow> string \<Rightarrow> string list" where
  "write_rest n bs = (if bs = [] \<or> n = 0 then [] else take n bs # write_rest n (drop n bs))"
  by pat_completeness auto
termination by (relation "measure (\<lambda>(n, bs). length bs)") auto

declare write_rest.simps [simp del]

definition fwrite_step :: "host \<Rightarrow> buffering \<Rightarrow> string \<Rightarrow> string list \<times> string \<Rightarrow> string list \<times> string" where
  "fwrite_step h mode bs s =
    (case s of (out, buf) \<Rightarrow> let (w, buf) = fput mode buf bs in (out @ write_rest (call_limit h) w, buf))"

definition fflush :: "host \<Rightarrow> string list \<times> string \<Rightarrow> string list" where
  "fflush h s = (case s of (out, buf) \<Rightarrow> out @ write_rest (call_limit h) buf)"

text \<open>\<open>writev\<close>: the array is given to the system when its \<open>n\<close> entries are filled; a call is the list of its
  entries.\<close>

definition writev_step :: "nat \<Rightarrow> string \<Rightarrow> string list \<times> string list list \<Rightarrow> string list \<times> string list list" where
  "writev_step n bs s =
    (case s of (iov, calls) \<Rightarrow>
      let iov = iov @ [bs] in if length iov = n then ([], calls @ [iov]) else (iov, calls))"

definition writev_calls :: "nat \<Rightarrow> string \<Rightarrow> nat \<Rightarrow> nat \<Rightarrow> string list list" where
  "writev_calls n line len reps =
    (let (iov, calls) = for_j (writev_step n) line len reps ([], []) in if iov = [] then calls else calls @ [iov])"

definition writev_out :: "host \<Rightarrow> string list list \<Rightarrow> string list" where
  "writev_out h calls = map (\<lambda>iov. take (call_limit h) (concat iov)) calls"

text \<open>\<open>main\<close>: what has been written, and whether the file is synchronised at the end.\<close>

definition writeperf_main :: "host \<Rightarrow> option_arg list \<Rightarrow> string list \<Rightarrow> (string list \<times> bool) run" where
  "writeperf_main h opts args =
    bind_run (parse_options opts \<lparr>line_length = - 1, times = - 1, dosync = False\<rparr>) (\<lambda>c.
      case args of
        [] \<Rightarrow> Inl App_error
      | choice # _ \<Rightarrow>
          if line_length c \<le> 0 \<or> times c \<le> 0 then Inl App_error
          else bind_run (alloc_line h (line_length c)) (\<lambda>line.
            let len = nat (line_length c); reps = nat (times c);
                out1 = (if choice = ''write'' then for_j (write_call h) line len reps [] else []);
                out2 = (if take 6 choice = ''fwrite''
                        then fflush h (for_j (fwrite_step h (stream_mode h choice len)) line len reps ([], [])) else []);
                out3 = (if choice = ''writev'' then writev_out h (writev_calls (iov_max h) line len reps) else [])
            in Inr (out1 @ out2 @ out3, dosync c \<and> \<not> is_tty h)))"

section \<open>The loops\<close>

definition triangle :: "nat \<Rightarrow> string list" where
  "triangle len = map (\<lambda>k. replicate (len - k) (CHR ''*'') @ [CHR 0x0A]) [0..<len]"

definition triangles :: "nat \<Rightarrow> nat \<Rightarrow> string list" where
  "triangles len reps = concat (replicate reps (triangle len))"

lemma line_from: "k \<le> len \<Longrightarrow> line_from (star_line len) len k = replicate (len - k) (CHR ''*'') @ [CHR 0x0A]"
  by (simp add: line_from_def star_line_def)

lemma triangle_drop: "k < len \<Longrightarrow> drop k (triangle len) = line_from (star_line len) len k # drop (k + 1) (triangle len)"
  using Cons_nth_drop_Suc[of k "triangle len"] by (simp add: line_from) (simp add: triangle_def)

lemma for_k_fold: "k \<le> len \<Longrightarrow> for_k body (star_line len) len k s = fold body (drop k (triangle len)) s"
proof (induction body "star_line len" len k s rule: for_k.induct)
  case (1 body len k s)
  show ?case
  proof (cases "k < len")
    case True
    note triangle_drop[OF True]
    then show ?thesis using 1 True by (subst for_k.simps) simp
  next
    case False
    then show ?thesis using 1 by (subst for_k.simps) (simp add: triangle_def)
  qed
qed

lemma for_j_fold: "for_j body (star_line len) len j s = fold body (triangles len j) s"
  by (induction j arbitrary: s) (simp_all add: for_k_fold triangles_def)

lemma triangle_length: "bs \<in> set (triangle len) \<Longrightarrow> length bs \<le> len + 1"
  by (auto simp: triangle_def)

lemma triangles_length: "bs \<in> set (triangles len reps) \<Longrightarrow> length bs \<le> len + 1"
  by (auto simp: triangles_def dest: triangle_length)

section \<open>The ways of writing\<close>

lemma concat_write_rest: "0 < n \<Longrightarrow> concat (write_rest n bs) = bs"
  by (induction n bs rule: write_rest.induct) (subst write_rest.simps, simp)

lemma fwrite_fold:
  assumes "0 < call_limit h"
  shows "concat (fflush h (fold (fwrite_step h mode) texts (out, buf))) = concat out @ buf @ concat texts"
proof (induction texts arbitrary: out buf)
  case Nil
  then show ?case using assms by (simp add: fflush_def concat_write_rest)
next
  case (Cons bs texts)
  obtain w buf' where f: "fput mode buf bs = (w, buf')" by fastforce
  from fput_all[OF f] have "w @ buf' @ ts = buf @ bs @ ts" for ts by (metis append_assoc)
  then show ?case using Cons[of "out @ write_rest (call_limit h) w" buf'] f assms
    by (simp add: fwrite_step_def concat_write_rest)
qed

text \<open>The calls of \<open>writev\<close> are full but the last.\<close>

lemma writev_fold:
  assumes "fold (writev_step n) texts (iov, calls) = (iov', calls')"
  shows "concat calls' @ iov' = concat calls @ iov @ texts"
  using assms
proof (induction texts arbitrary: iov calls)
  case (Cons bs texts)
  show ?case
  proof (cases "length (iov @ [bs]) = n")
    case True
    then show ?thesis using Cons.prems Cons.IH[of "[]" "calls @ [iov @ [bs]]"] by (simp add: writev_step_def)
  next
    case False
    then show ?thesis using Cons.prems Cons.IH[of "iov @ [bs]" calls] by (simp add: writev_step_def)
  qed
qed simp

lemma writev_fold_full:
  assumes "fold (writev_step n) texts (iov, calls) = (iov', calls')" and "0 < n" and "length iov < n"
    and "\<forall>c\<in>set calls. length c = n"
  shows "length iov' < n \<and> (\<forall>c\<in>set calls'. length c = n)"
  using assms
proof (induction texts arbitrary: iov calls)
  case (Cons bs texts)
  show ?case
  proof (cases "length (iov @ [bs]) = n")
    case True
    then show ?thesis using Cons.prems by (intro Cons.IH[of "[]" "calls @ [iov @ [bs]]"]) (auto simp: writev_step_def)
  next
    case False
    then show ?thesis using Cons.prems by (intro Cons.IH[of "iov @ [bs]" calls]) (auto simp: writev_step_def)
  qed
qed simp

lemma writev_calls_all: "concat (writev_calls n (star_line len) len reps) = triangles len reps"
proof -
  obtain iov calls where 1: "fold (writev_step n) (triangles len reps) ([], []) = (iov, calls)" by fastforce
  from writev_fold[OF 1] show ?thesis by (cases iov) (simp_all add: writev_calls_def for_j_fold 1)
qed

lemma writev_calls_full:
  assumes "0 < n" and "call \<in> set (writev_calls n (star_line len) len reps)"
  shows "0 < length call \<and> length call \<le> n"
proof -
  obtain iov calls where 1: "fold (writev_step n) (triangles len reps) ([], []) = (iov, calls)" by fastforce
  from writev_fold_full[OF 1 assms(1)] assms show ?thesis
    by (auto simp: writev_calls_def for_j_fold 1 split: if_splits)
qed

lemma concat_map_concat: "concat (map concat xss) = concat (concat xss)"
  by (induction xss) simp_all

lemma length_concat_bound: "\<forall>x\<in>set xs. length x \<le> m \<Longrightarrow> length (concat xs) \<le> length xs * m"
  by (induction xs) auto

lemma writev_out_all:
  assumes "0 < iov_max h" and "iov_max h * (len + 1) \<le> call_limit h"
  shows "concat (writev_out h (writev_calls (iov_max h) (star_line len) len reps)) = concat (triangles len reps)"
proof -
  let ?calls = "writev_calls (iov_max h) (star_line len) len reps"
  have "take (call_limit h) (concat call) = concat call" if c: "call \<in> set ?calls" for call
  proof -
    have "\<forall>bs\<in>set call. length bs \<le> len + 1"
      using c writev_calls_all[of "iov_max h" len reps] by (metis triangles_length UN_I set_concat)
    then have "length (concat call) \<le> length call * (len + 1)" by (rule length_concat_bound)
    also have "\<dots> \<le> iov_max h * (len + 1)" using writev_calls_full[OF assms(1) c] by (intro mult_right_mono) auto
    finally show ?thesis using assms(2) by simp
  qed
  then have "writev_out h ?calls = map concat ?calls" by (simp add: writev_out_def)
  also have "concat \<dots> = concat (concat ?calls)" by (rule concat_map_concat)
  finally show ?thesis by (simp add: writev_calls_all)
qed

section \<open>Properties\<close>

definition both_options :: "int \<Rightarrow> int \<Rightarrow> option_arg list" where
  "both_options len reps = [Opt_l len, Opt_t reps]"

text \<open>The bytes that the three ways of writing leave in the file.\<close>

definition written_by :: "host \<Rightarrow> string \<Rightarrow> nat \<Rightarrow> nat \<Rightarrow> string list" where
  "written_by h choice len reps =
    (if choice = ''write'' then map (take (call_limit h)) (triangles len reps)
     else if choice = ''writev'' then writev_out h (writev_calls (iov_max h) (star_line len) len reps)
     else fflush h (fold (fwrite_step h (stream_mode h choice len)) (triangles len reps) ([], [])))"

lemma write_fold_take: "fold (write_call h) bss out = out @ map (take (call_limit h)) bss"
  by (induction bss arbitrary: out) (simp_all add: write_call_def)

lemma writeperf_main_run:
  assumes "0 < len" and "0 < reps" and "int len < INT_MAX" and "malloc_ok h (len + 1)"
    and "choice \<in> {''write'', ''fwrite'', ''fwrite-line'', ''fwrite-full'', ''writev''}"
  shows "writeperf_main h (both_options (int len) (int reps)) [choice] = Inr (written_by h choice len reps, False)"
proof -
  have "alloc_line h (int len) = Inr (star_line len)" using assms(3,4) by (simp add: alloc_line_def nat_add_distrib)
  then have "writeperf_main h (both_options (int len) (int reps)) [choice] = Inr
     ((if choice = ''write'' then fold (write_call h) (triangles len reps) [] else []) @
      (if take 6 choice = ''fwrite'' then fflush h (fold (fwrite_step h (stream_mode h choice len)) (triangles len reps) ([], [])) else []) @
      (if choice = ''writev'' then writev_out h (writev_calls (iov_max h) (star_line len) len reps) else []), False)"
    using assms(1,2) by (simp add: writeperf_main_def both_options_def Let_def for_j_fold)
  also have "\<dots> = Inr (written_by h choice len reps, False)"
    using assms(5) unfolding written_by_def by (elim insertE emptyE) (simp_all add: write_fold_take)
  finally show ?thesis .
qed

text \<open>C25: all the ways of writing give the same bytes: as many triangles of lines of stars, each
  line shorter by one, as the option \<open>-t\<close> says. It holds for every buffer and every page size, when \<open>malloc\<close> grants the line and \<open>length + 1\<close> is
  an \<open>int\<close>; \<open>write\<close> needs that one call takes a line, \<open>writev\<close> that it takes a batch, for their results are not looked at, while the C library writes the
  rest of a call that is cut short.\<close>

theorem writeperf_same:
  assumes "0 < len" and "0 < reps" and "int len < INT_MAX" and "int reps \<le> INT_MAX" and "malloc_ok h (len + 1)"
    and "0 < iov_max h" and "0 < call_limit h"
    and "choice = ''write'' \<longrightarrow> len + 1 \<le> call_limit h" and "choice = ''writev'' \<longrightarrow> iov_max h * (len + 1) \<le> call_limit h"
    and "choice \<in> {''write'', ''fwrite'', ''fwrite-line'', ''fwrite-full'', ''writev''}"
  shows "\<exists>out. writeperf_main h (both_options (int len) (int reps)) [choice] = Inr (out, False) \<and> concat out = concat (triangles len reps)"
proof -
  have "concat (written_by h choice len reps) = concat (triangles len reps)"
  proof (cases "choice = ''write''")
    case True
    then have "map (take (call_limit h)) (triangles len reps) = triangles len reps"
      using assms(8) by (intro map_idI) (auto dest: triangles_length)
    then show ?thesis using True by (simp add: written_by_def)
  next
    case False
    then show ?thesis using assms by (simp add: written_by_def writev_out_all fwrite_fold)
  qed
  then show ?thesis using writeperf_main_run[OF assms(1-3,5,10)] by blast
qed

text \<open>Linux: calls of at most 2147479552 bytes, batches of 1024.\<close>

definition linux_host :: host where
  "linux_host = \<lparr>call_limit = 2147479552, iov_max = 1024, page_size = 4096, buffer_size = (\<lambda>n. 4096),
     malloc_ok = (\<lambda>n. n < 2 ^ 40), is_tty = True\<rparr>"

theorem writeperf_same_witness:
  "\<exists>out. writeperf_main linux_host (both_options (int 2) (int 2)) [''writev''] = Inr (out, False) \<and>
     concat out = ''**'' @ [CHR 0x0A] @ ''*'' @ [CHR 0x0A] @ ''**'' @ [CHR 0x0A] @ ''*'' @ [CHR 0x0A]"
proof -
  have "concat (triangles 2 2) = ''**'' @ [CHR 0x0A] @ ''*'' @ [CHR 0x0A] @ ''**'' @ [CHR 0x0A] @ ''*'' @ [CHR 0x0A]" by code_simp
  then show ?thesis using writeperf_same[of 2 2 linux_host "''writev''"] by (simp add: linux_host_def INT_MAX_def)
qed

text \<open>A call of \<open>writev\<close> that takes fewer bytes than the batch holds is not noticed: the rest is
  missing in the file and the program ends as if nothing had happened.\<close>

lemma shorter_calls:
  "\<exists>c\<in>set cs. m < length (concat c) \<Longrightarrow> length (concat (map (\<lambda>c. take m (concat c)) cs)) < length (concat (concat cs))"
proof (induction cs)
  case (Cons c cs)
  have le: "length (concat (map (\<lambda>c. take m (concat c)) cs)) \<le> length (concat (concat cs))" by (induction cs) auto
  show ?case
  proof (cases "m < length (concat c)")
    case True
    then show ?thesis using le by simp
  next
    case False
    then show ?thesis using Cons by simp
  qed
qed simp

theorem writeperf_short:
  assumes "0 < len" and "0 < reps" and "int len < INT_MAX" and "malloc_ok h (len + 1)"
    and "call \<in> set (writev_calls (iov_max h) (star_line len) len reps)" and "call_limit h < length (concat call)"
  shows "\<exists>out. writeperf_main h (both_options (int len) (int reps)) [''writev''] = Inr (out, False) \<and>
    length (concat out) < length (concat (triangles len reps))"
proof -
  have "length (concat (written_by h ''writev'' len reps)) < length (concat (triangles len reps))"
    using shorter_calls[of "writev_calls (iov_max h) (star_line len) len reps" "call_limit h"] assms(5,6) writev_calls_all[of "iov_max h" len reps]
    by (auto simp: written_by_def writev_out_def)
  then show ?thesis using writeperf_main_run[OF assms(1-4), of "''writev''"] by simp
qed

theorem writeperf_short_witness:
  "\<exists>out. writeperf_main (linux_host\<lparr>call_limit := 1\<rparr>) (both_options (int 1) (int 1)) [''writev''] = Inr (out, False) \<and> length (concat out) < 2"
proof -
  have "writev_calls 1024 (star_line 1) 1 1 = [[''*'' @ [CHR 0x0A]]]" by code_simp
  then have "[''*'' @ [CHR 0x0A]] \<in> set (writev_calls (iov_max (linux_host\<lparr>call_limit := 1\<rparr>)) (star_line 1) 1 1)" by (simp add: linux_host_def)
  moreover have "length (concat (triangles 1 1)) = 2" by code_simp
  ultimately show ?thesis using writeperf_short[of 1 1 "linux_host\<lparr>call_limit := 1\<rparr>" "[''*'' @ [CHR 0x0A]]"]
    by (simp add: linux_host_def INT_MAX_def)
qed

text \<open>The largest length ends the program: \<open>length + 1\<close> overflows.\<close>

lemma writeperf_overflow: "0 < reps \<Longrightarrow> writeperf_main h (both_options INT_MAX (int reps)) [choice] = Inl Null_deref"
  by (simp add: writeperf_main_def both_options_def alloc_line_def INT_MAX_def)

text \<open>\<open>writev\<close> is never given more entries than it takes, nor an empty array: every call but the last
  has \<open>iov_max\<close> entries, and the last one between 1 and \<open>iov_max\<close>.\<close>

theorem writev_batches:
  assumes "0 < n" and "call \<in> set (writev_calls n (star_line len) len reps)"
  shows "0 < length call \<and> length call \<le> n"
  using assms by (rule writev_calls_full)

theorem writev_batches_witness: "0 < length [''*'' @ [CHR 0x0A], ''*'' @ [CHR 0x0A]]"
proof -
  have "writev_calls 2 (star_line 1) 1 3 = [[''*'' @ [CHR 0x0A], ''*'' @ [CHR 0x0A]], [''*'' @ [CHR 0x0A]]]"
    by code_simp
  with writev_batches[of 2 "[''*'' @ [CHR 0x0A], ''*'' @ [CHR 0x0A]]" 1 3] show ?thesis by simp
qed

end
