(* ===== verification/Echo.thy ===== *)
theory Echo
  imports Conc
begin

text \<open>
  The client table of \<open>9/so21_lista_9/echoserver-fork.c\<close>: a page shared between the server and
  one process per connection. The server adds a client before it forks, the child fills in
  its process id and counts the bytes it echoes, and the handler of \<open>SIGCHLD\<close> removes the
  clients whose processes have died and adds up their bytes. The signal is blocked from
  \<open>addclient\<close> to the end of the loop body, so that an accepted connection is one event. A process id is a
  positive number that no child of the server has. \<open>total\<close> counts all the bytes that were ever echoed; sockets
  and host names are left out. The number of entries of the table is \<open>m\<close> (\<open>MAXCLIENTS\<close>).
\<close>

section \<open>The table\<close>

record client_t =
  pid :: int
  bytes :: nat

fun find_from :: "client_t list \<Rightarrow> int \<Rightarrow> nat \<Rightarrow> nat option" where
  "find_from [] p i = None"
| "find_from (c # cs) p i = (if pid c = p then Some i else find_from cs p (i + 1))"

definition findclient :: "client_t list \<Rightarrow> int \<Rightarrow> nat option" where
  "findclient cs p = find_from cs p 0"

datatype kid = Starting "nat option" | Serving nat | Zombie "nat option"

record server =
  clients :: "client_t list"
  nclients :: int
  nread :: nat
  kids :: "int \<Rightarrow> kid option"
  total :: nat

definition addclient :: "server \<Rightarrow> server \<times> nat option" where
  "addclient s = (case findclient (clients s) 0 of
     None \<Rightarrow> (s, None)
   | Some j \<Rightarrow> (s\<lparr>clients := (clients s)[j := \<lparr>pid = - 1, bytes = 0\<rparr>], nclients := nclients s + 1\<rparr>, Some j))"

definition delclient :: "int \<Rightarrow> server \<Rightarrow> server run" where
  "delclient p s = (case findclient (clients s) p of
     None \<Rightarrow> Inl Assert_fails
   | Some j \<Rightarrow> Inr (s\<lparr>nread := nread s + bytes (clients s ! j),
       clients := (clients s)[j := (clients s ! j)\<lparr>pid := 0\<rparr>], nclients := nclients s - 1\<rparr>))"

section \<open>The processes\<close>

text \<open>What can happen: a connection is accepted and \<open>fork\<close> returns a process id; a child writes its process id into its
  entry (or dies when it has none); a child echoes a line; a child ends; the handler reaps a
  child. \<open>None\<close>: the event is not possible.\<close>

datatype event = Accept int | Child_start int | Echo int nat | Exit int | Reap int

definition main_loop :: "int \<Rightarrow> server \<Rightarrow> server" where
  "main_loop p s = (let (s, c) = addclient s in s\<lparr>kids := (kids s)(p \<mapsto> Starting c)\<rparr>)"

definition child_start :: "int \<Rightarrow> nat option \<Rightarrow> server \<Rightarrow> server" where
  "child_start p c s = (case c of
     None \<Rightarrow> s\<lparr>kids := (kids s)(p \<mapsto> Zombie None)\<rparr>
   | Some j \<Rightarrow> s\<lparr>clients := (clients s)[j := (clients s ! j)\<lparr>pid := p\<rparr>], kids := (kids s)(p \<mapsto> Serving j)\<rparr>)"

definition echo :: "nat \<Rightarrow> nat \<Rightarrow> server \<Rightarrow> server" where
  "echo j n s = s\<lparr>clients := (clients s)[j := (clients s ! j)\<lparr>bytes := bytes (clients s ! j) + n\<rparr>], total := total s + n\<rparr>"

text \<open>The number that the handler of \<open>SIGINT\<close> prints before it ends the server: it waits, in \<open>sigsuspend\<close>, until
  the handler of \<open>SIGCHLD\<close> has removed every client.\<close>

definition sigint_handler :: "server \<Rightarrow> nat option" where
  "sigint_handler s = (if nclients s \<noteq> 0 then None else Some (nread s))"

definition sigchld_handler :: "int \<Rightarrow> server \<Rightarrow> server run" where
  "sigchld_handler p s = delclient p (s\<lparr>kids := (kids s)(p := None)\<rparr>)"

fun server_do :: "event \<Rightarrow> server \<Rightarrow> server run option" where
  "server_do (Accept p) s = (if 0 < p \<and> kids s p = None then Some (Inr (main_loop p s)) else None)"
| "server_do (Child_start p) s = (case kids s p of Some (Starting c) \<Rightarrow> Some (Inr (child_start p c s)) | _ \<Rightarrow> None)"
| "server_do (Echo p n) s = (case kids s p of Some (Serving j) \<Rightarrow> Some (Inr (echo j n s)) | _ \<Rightarrow> None)"
| "server_do (Exit p) s = (case kids s p of Some (Serving j) \<Rightarrow> Some (Inr (s\<lparr>kids := (kids s)(p \<mapsto> Zombie (Some j))\<rparr>)) | _ \<Rightarrow> None)"
| "server_do (Reap p) s = (case kids s p of Some (Zombie c) \<Rightarrow> Some (sigchld_handler p s) | _ \<Rightarrow> None)"

definition server_init :: "nat \<Rightarrow> server" where
  "server_init m = \<lparr>clients = replicate m \<lparr>pid = 0, bytes = 0\<rparr>, nclients = 0, nread = 0, kids = (\<lambda>_. None), total = 0\<rparr>"

text \<open>Steps that accept a connection only while the table has a free entry.\<close>

definition server_step :: "server \<Rightarrow> server \<Rightarrow> bool" where
  "server_step s t \<longleftrightarrow> (\<exists>e. server_do e s = Some (Inr t) \<and>
     (case e of Accept p \<Rightarrow> findclient (clients s) 0 \<noteq> None | _ \<Rightarrow> True))"

abbreviation server_reach :: "nat \<Rightarrow> server \<Rightarrow> bool" where
  "server_reach m \<equiv> reach (\<lambda>s. s = server_init m) server_step"

section \<open>Searching and counting\<close>

lemma find_from_Some:
  "find_from cs p i = Some j \<Longrightarrow> i \<le> j \<and> j - i < length cs \<and> pid (cs ! (j - i)) = p"
proof (induction cs p i rule: find_from.induct)
  case (2 c cs p i)
  show ?case
  proof (cases "pid c = p")
    case False
    then have "Suc i \<le> j \<and> j - Suc i < length cs \<and> pid (cs ! (j - Suc i)) = p" using 2 by simp
    then show ?thesis using nth_Cons_pos[of "j - i" c cs] by auto
  qed (use 2 in auto)
qed simp

lemma find_from_None: "find_from cs p i = None \<longleftrightarrow> (\<forall>c\<in>set cs. pid c \<noteq> p)"
  by (induction cs p i rule: find_from.induct) auto

lemma findclient_Some: "findclient cs p = Some j \<Longrightarrow> j < length cs \<and> pid (cs ! j) = p"
  using find_from_Some[of cs p 0 j] by (simp add: findclient_def)

lemma findclient_None: "findclient cs p = None \<longleftrightarrow> (\<forall>c\<in>set cs. pid c \<noteq> p)"
  by (simp add: findclient_def find_from_None)

definition used_entries :: "client_t list \<Rightarrow> nat" where
  "used_entries cs = sum_list (map (\<lambda>c. if pid c = 0 then 0 else 1) cs)"

definition used_bytes :: "client_t list \<Rightarrow> nat" where
  "used_bytes cs = sum_list (map (\<lambda>c. if pid c = 0 then 0 else bytes c) cs)"

lemma sum_list_map_update:
  "j < length xs \<Longrightarrow> sum_list (map w (xs[j := x])) + w (xs ! j) = sum_list (map w xs) + (w x :: nat)"
  by (induction xs arbitrary: j) (auto split: nat.splits simp: nth_Cons' less_Suc_eq_0_disj)

lemma sum_list_less:
  fixes f g :: "'a \<Rightarrow> nat"
  assumes "\<forall>x\<in>set xs. f x \<le> g x" and "y \<in> set xs" and "f y < g y"
  shows "sum_list (map f xs) < sum_list (map g xs)"
proof -
  obtain ys zs where xs: "xs = ys @ y # zs" using assms(2) by (auto dest: split_list)
  have "sum_list (map f ys) \<le> sum_list (map g ys)" "sum_list (map f zs) \<le> sum_list (map g zs)"
    using assms(1) unfolding xs by (intro sum_list_mono, simp)+
  then show ?thesis using assms(3) by (simp add: xs)
qed

lemma used_entries_update:
  "j < length cs \<Longrightarrow> used_entries (cs[j := c]) + (if pid (cs ! j) = 0 then 0 else 1) = used_entries cs + (if pid c = 0 then 0 else 1)"
  unfolding used_entries_def by (rule sum_list_map_update)

lemma used_bytes_update:
  "j < length cs \<Longrightarrow> used_bytes (cs[j := c]) + (if pid (cs ! j) = 0 then 0 else bytes (cs ! j)) = used_bytes cs + (if pid c = 0 then 0 else bytes c)"
  unfolding used_bytes_def by (rule sum_list_map_update)

section \<open>The invariant\<close>

fun entry_of :: "kid \<Rightarrow> nat option" where
  "entry_of (Starting c) = c"
| "entry_of (Serving j) = Some j"
| "entry_of (Zombie c) = c"

fun pid_in_entry :: "int \<Rightarrow> kid \<Rightarrow> int" where
  "pid_in_entry p (Starting c) = - 1"
| "pid_in_entry p _ = p"

definition kid_ok :: "client_t list \<Rightarrow> int \<Rightarrow> kid \<Rightarrow> bool" where
  "kid_ok cs p k \<longleftrightarrow> 0 < p \<and> (\<exists>j<length cs. entry_of k = Some j \<and> pid (cs ! j) = pid_in_entry p k)"

text \<open>The children and the entries in use correspond to each other.\<close>

definition table_ok :: "client_t list \<Rightarrow> (int \<Rightarrow> kid option) \<Rightarrow> bool" where
  "table_ok cs ks \<longleftrightarrow>
     (\<forall>p k. ks p = Some k \<longrightarrow> kid_ok cs p k) \<and>
     (\<forall>p q k l. ks p = Some k \<longrightarrow> ks q = Some l \<longrightarrow> entry_of k = entry_of l \<longrightarrow> p = q) \<and>
     (\<forall>j<length cs. pid (cs ! j) \<noteq> 0 \<longrightarrow> (\<exists>p k. ks p = Some k \<and> entry_of k = Some j))"

definition server_inv :: "nat \<Rightarrow> server \<Rightarrow> bool" where
  "server_inv m s \<longleftrightarrow> length (clients s) = m \<and> table_ok (clients s) (kids s) \<and>
     nclients s = int (used_entries (clients s)) \<and> total s = nread s + used_bytes (clients s)"

lemma kid_okD: "table_ok cs ks \<Longrightarrow> ks p = Some k \<Longrightarrow>
    0 < p \<and> (\<exists>j. entry_of k = Some j \<and> j < length cs \<and> pid (cs ! j) = pid_in_entry p k)"
  unfolding table_ok_def kid_ok_def by blast

lemma same_entry: "table_ok cs ks \<Longrightarrow> ks p = Some k \<Longrightarrow> ks q = Some l \<Longrightarrow> entry_of k = entry_of l \<Longrightarrow> p = q"
  unfolding table_ok_def by blast

lemma entry_used: "table_ok cs ks \<Longrightarrow> j < length cs \<Longrightarrow> pid (cs ! j) \<noteq> 0 \<Longrightarrow> \<exists>p k. ks p = Some k \<and> entry_of k = Some j"
  unfolding table_ok_def by blast

lemma pid_in_entry_nonzero: "0 < p \<Longrightarrow> pid_in_entry p k \<noteq> 0"
  by (cases k) auto

text \<open>A child gets an entry, or goes on with the one it has.\<close>

lemma table_ok_update:
  assumes ok: "table_ok cs ks" and j: "j < length cs"
    and own: "(case ks p of None \<Rightarrow> pid (cs ! j) = 0 | Some k \<Rightarrow> entry_of k = Some j)"
    and new: "0 < p" "entry_of k' = Some j" "pid c = pid_in_entry p k'"
  shows "table_ok (cs[j := c]) (ks(p \<mapsto> k'))"
proof -
  have other: "entry_of l \<noteq> Some j" if "ks q = Some l" "q \<noteq> p" for q l
  proof
    assume e: "entry_of l = Some j"
    then have "pid (cs ! j) \<noteq> 0" using kid_okD[OF ok that(1)] pid_in_entry_nonzero by auto
    then obtain k where "ks p = Some k" "entry_of k = Some j" using own by (cases "ks p") auto
    then show False using same_entry[OF ok that(1), of p k] e that(2) by simp
  qed
  have 1: "kid_ok (cs[j := c]) q l" if "(ks(p \<mapsto> k')) q = Some l" for q l
  proof (cases "q = p")
    case True
    then show ?thesis using that new j by (auto simp: kid_ok_def)
  next
    case False
    then show ?thesis using that kid_okD[OF ok, of q l] other[of q l] by (auto simp: kid_ok_def nth_list_update)
  qed
  have 2: "q = r" if "(ks(p \<mapsto> k')) q = Some l" "(ks(p \<mapsto> k')) r = Some n" "entry_of l = entry_of n" for q r l n
    using that new(2) other[of q l] other[of r n] same_entry[OF ok, of q l r n] by (auto split: if_splits)
  have 3: "\<exists>q l. (ks(p \<mapsto> k')) q = Some l \<and> entry_of l = Some i" if i: "i < length cs" and u: "pid (cs[j := c] ! i) \<noteq> 0" for i
  proof (cases "i = j")
    case True
    then show ?thesis using new(2) by auto
  next
    case False
    then obtain q l where q: "ks q = Some l" "entry_of l = Some i" using entry_used[OF ok i] u by auto
    then have "q \<noteq> p" using own False by (auto split: option.splits)
    then show ?thesis using q by auto
  qed
  show ?thesis unfolding table_ok_def length_list_update by (intro conjI allI impI) (fact 1 | fact 2 | fact 3)+
qed

text \<open>A child is reaped: the handler finds its entry.\<close>

lemma find_own_entry:
  assumes "table_ok cs ks" and "ks p = Some (Zombie c)"
  shows "\<exists>j<length cs. c = Some j \<and> findclient cs p = Some j \<and> pid (cs ! j) = p"
proof -
  obtain j where j: "c = Some j" "j < length cs" "pid (cs ! j) = p" "0 < p"
    using kid_okD[OF assms] by auto
  then obtain i where i: "findclient cs p = Some i" by (metis findclient_None not_None_eq nth_mem)
  have i': "i < length cs" "pid (cs ! i) = p" using findclient_Some[OF i] by simp_all
  then obtain q l where q: "ks q = Some l" "entry_of l = Some i" using entry_used[OF assms(1)] j(4) by (metis less_irrefl)
  then have "pid_in_entry q l = p" using kid_okD[OF assms(1) q(1)] i'(2) by auto
  then have "q = p" using j(4) by (cases l) auto
  then show ?thesis using q assms(2) j i by auto
qed

lemma table_ok_reap:
  assumes ok: "table_ok cs ks" and "ks p = Some (Zombie (Some j))" and "pid c = 0"
  shows "table_ok (cs[j := c]) (ks(p := None))"
proof -
  have other: "entry_of l \<noteq> Some j" if "ks q = Some l" "q \<noteq> p" for q l
    using same_entry[OF ok that(1) assms(2)] that(2) by auto
  have "kid_ok (cs[j := c]) q l" if "ks q = Some l" "q \<noteq> p" for q l
    using kid_okD[OF ok that(1)] other[OF that] by (auto simp: kid_ok_def nth_list_update)
  moreover have "\<exists>q l. (ks(p := None)) q = Some l \<and> entry_of l = Some i" if i: "i < length cs" and u: "pid (cs[j := c] ! i) \<noteq> 0" for i
  proof -
    have "i \<noteq> j" using i u assms(3) by (auto simp: nth_list_update split: if_splits)
    then obtain q l where "ks q = Some l" "entry_of l = Some i" using entry_used[OF ok i] u by auto
    moreover from this have "q \<noteq> p" using assms(2) \<open>i \<noteq> j\<close> by auto
    ultimately show ?thesis by (intro exI[of _ q] exI[of _ l]) simp
  qed
  ultimately show ?thesis using same_entry[OF ok] unfolding table_ok_def by (auto split: if_splits)
qed

lemma accept_inv:
  assumes inv: "server_inv m s" and "0 < p" and "kids s p = None" and "findclient (clients s) 0 \<noteq> None"
  shows "server_inv m (main_loop p s)"
proof -
  obtain j where f: "findclient (clients s) 0 = Some j" using assms(4) by blast
  then have j: "j < length (clients s)" "pid (clients s ! j) = 0" using findclient_Some by auto
  let ?c = "\<lparr>pid = - 1, bytes = 0\<rparr>"
  have "table_ok ((clients s)[j := ?c]) ((kids s)(p \<mapsto> Starting (Some j)))"
    using inv assms(2,3) j by (intro table_ok_update) (auto simp: server_inv_def)
  then show ?thesis
    using inv used_entries_update[OF j(1), of ?c] used_bytes_update[OF j(1), of ?c] j(2)
    by (simp add: server_inv_def main_loop_def addclient_def f)
qed

lemma child_inv:
  assumes inv: "server_inv m s" and k: "kids s p = Some k" "entry_of k = Some j"
    and k': "entry_of k' = Some j" "pid c = pid_in_entry p k'" and t: "clients t = (clients s)[j := c]"
      "kids t = (kids s)(p \<mapsto> k')" "nclients t = nclients s" "nread t = nread s"
      "total t + bytes (clients s ! j) = total s + bytes c"
  shows "server_inv m t"
proof -
  have ok: "table_ok (clients s) (kids s)" using inv by (simp add: server_inv_def)
  from kid_okD[OF ok k(1)] k(2) have j: "j < length (clients s)" "0 < p" "pid (clients s ! j) \<noteq> 0"
    using pid_in_entry_nonzero by auto
  have "table_ok ((clients s)[j := c]) ((kids s)(p \<mapsto> k'))"
    using ok j k k' by (intro table_ok_update) auto
  then show ?thesis
    using inv used_entries_update[OF j(1), of c] used_bytes_update[OF j(1), of c] j k' t
      pid_in_entry_nonzero[OF j(2), of k']
    by (simp add: server_inv_def)
qed

lemma reap_inv:
  assumes inv: "server_inv m s" and k: "kids s p = Some (Zombie c)"
  shows "\<exists>t. sigchld_handler p s = Inr t \<and> server_inv m t"
proof -
  have ok: "table_ok (clients s) (kids s)" using inv by (simp add: server_inv_def)
  obtain j where j: "j < length (clients s)" "c = Some j" "findclient (clients s) p = Some j" "pid (clients s ! j) = p"
    using find_own_entry[OF ok k] by blast
  have "0 < p" using kid_okD[OF ok k] by simp
  let ?c = "(clients s ! j)\<lparr>pid := 0\<rparr>"
  have "table_ok ((clients s)[j := ?c]) ((kids s)(p := None))"
    using ok k j(2) by (intro table_ok_reap) auto
  then show ?thesis
    using inv used_entries_update[OF j(1), of ?c] used_bytes_update[OF j(1), of ?c] j \<open>0 < p\<close>
    by (auto simp: server_inv_def sigchld_handler_def delclient_def)
qed

lemma server_do_inv:
  assumes inv: "server_inv m s" and e: "server_do e s = Some r"
    and room: "case e of Accept p \<Rightarrow> findclient (clients s) 0 \<noteq> None | _ \<Rightarrow> True"
  shows "\<exists>t. r = Inr t \<and> server_inv m t"
proof (cases e)
  case (Accept p)
  then show ?thesis using e room accept_inv[OF inv, of p] by (auto split: if_splits)
next
  case (Child_start p)
  then obtain c where c: "kids s p = Some (Starting c)" "r = Inr (child_start p c s)"
    using e by (auto split: option.splits kid.splits)
  from inv c(1) obtain j where j: "c = Some j" using kid_okD[of "clients s" "kids s" p] by (auto simp: server_inv_def)
  have "server_inv m (child_start p c s)"
    by (rule child_inv[OF inv c(1), of j "Serving j" "(clients s ! j)\<lparr>pid := p\<rparr>"]) (simp_all add: child_start_def j)
  then show ?thesis using c(2) by simp
next
  case (Echo p n)
  then obtain j where j: "kids s p = Some (Serving j)" "r = Inr (echo j n s)"
    using e by (auto split: option.splits kid.splits)
  have "pid (clients s ! j) = p" using inv kid_okD[of "clients s" "kids s" p] j(1) by (auto simp: server_inv_def)
  then have "server_inv m (echo j n s)"
    by (intro child_inv[OF inv j(1), of j "Serving j" "(clients s ! j)\<lparr>bytes := bytes (clients s ! j) + n\<rparr>"])
      (simp_all add: echo_def fun_upd_idem j)
  then show ?thesis using j(2) by simp
next
  case (Exit p)
  then obtain j where j: "kids s p = Some (Serving j)" "r = Inr (s\<lparr>kids := (kids s)(p \<mapsto> Zombie (Some j))\<rparr>)"
    using e by (auto split: option.splits kid.splits)
  have "pid (clients s ! j) = p" using inv kid_okD[of "clients s" "kids s" p] j(1) by (auto simp: server_inv_def)
  then have "server_inv m (s\<lparr>kids := (kids s)(p \<mapsto> Zombie (Some j))\<rparr>)"
    by (intro child_inv[OF inv j(1), of j "Zombie (Some j)" "clients s ! j"]) simp_all
  then show ?thesis using j(2) by simp
next
  case (Reap p)
  then show ?thesis using e reap_inv[OF inv, of p] by (auto split: option.splits kid.splits)
qed

interpretation echo_server: safe_system "\<lambda>s. s = server_init m" server_step "server_inv m"
proof unfold_locales
  show "server_inv m s" if "s = server_init m" for s
    using that by (simp add: server_inv_def table_ok_def server_init_def used_entries_def used_bytes_def)
  show "server_inv m t" if st: "server_step s t" and inv: "server_inv m s" for s t
  proof -
    obtain e where "server_do e s = Some (Inr t)" "case e of Accept p \<Rightarrow> findclient (clients s) 0 \<noteq> None | _ \<Rightarrow> True"
      using st unfolding server_step_def by blast
    from server_do_inv[OF inv this] show ?thesis by simp
  qed
qed

lemma used_none: "used_entries cs = 0 \<Longrightarrow> used_bytes cs = 0"
  by (auto simp: used_entries_def used_bytes_def split: if_splits)

section \<open>What the events change\<close>

fun alive :: "kid \<Rightarrow> bool" where
  "alive (Zombie c) = False"
| "alive _ = True"

lemma server_do_kids:
  assumes "server_inv n s" and "server_do e s = Some (Inr t)"
  shows "total t = total s + (case e of Echo p b \<Rightarrow> b | _ \<Rightarrow> 0)"
    and "e = Accept p \<Longrightarrow> kids s p = None \<and> (\<exists>c. kids t = (kids s)(p \<mapsto> Starting c))"
    and "e = Child_start p \<Longrightarrow> \<exists>c j. kids s p = Some (Starting c) \<and> kids t = (kids s)(p \<mapsto> Serving j)"
    and "e = Echo p b \<Longrightarrow> kids t = kids s"
    and "e = Exit p \<Longrightarrow> \<exists>c. kids t = (kids s)(p \<mapsto> Zombie c)"
    and "e = Reap p \<Longrightarrow> \<exists>k. kids s p = Some k \<and> \<not> alive k \<and> kids t = (kids s)(p := None) \<and> used_entries (clients t) + 1 = used_entries (clients s)"
proof -
  have ok: "table_ok (clients s) (kids s)" using assms(1) by (simp add: server_inv_def)
  have start: "\<exists>j. c = Some j" if "kids s p = Some (Starting c)" for p c using kid_okD[OF ok that] by auto
  show "total t = total s + (case e of Echo p b \<Rightarrow> b | _ \<Rightarrow> 0)"
    using assms(2)
    by (cases e) (auto simp: main_loop_def addclient_def child_start_def echo_def sigchld_handler_def delclient_def split: option.splits kid.splits if_splits)
  show "e = Accept p \<Longrightarrow> kids s p = None \<and> (\<exists>c. kids t = (kids s)(p \<mapsto> Starting c))"
    using assms(2) by (auto simp: main_loop_def addclient_def split: option.splits if_splits)
  show "e = Child_start p \<Longrightarrow> \<exists>c j. kids s p = Some (Starting c) \<and> kids t = (kids s)(p \<mapsto> Serving j)"
    using assms(2) start by (fastforce simp: child_start_def split: option.splits kid.splits)
  show "e = Echo p b \<Longrightarrow> kids t = kids s" "e = Exit p \<Longrightarrow> \<exists>c. kids t = (kids s)(p \<mapsto> Zombie c)"
    using assms(2) by (auto simp: echo_def split: option.splits kid.splits)
  show "\<exists>k. kids s p = Some k \<and> \<not> alive k \<and> kids t = (kids s)(p := None) \<and> used_entries (clients t) + 1 = used_entries (clients s)" if e: "e = Reap p"
  proof -
    obtain c where c: "kids s p = Some (Zombie c)" "sigchld_handler p s = Inr t"
      using assms(2) e by (auto split: option.splits kid.splits)
    obtain j where j: "j < length (clients s)" "findclient (clients s) p = Some j" "pid (clients s ! j) = p"
      using find_own_entry[OF ok c(1)] by blast
    have "0 < p" using kid_okD[OF ok c(1)] by simp
    have t: "kids t = (kids s)(p := None)" "clients t = (clients s)[j := (clients s ! j)\<lparr>pid := 0\<rparr>]"
      using c(2) j(2) by (auto simp: sigchld_handler_def delclient_def)
    show ?thesis
      using c(1) t used_entries_update[OF j(1), of "(clients s ! j)\<lparr>pid := 0\<rparr>"] j(3) \<open>0 < p\<close> by auto
  qed
qed

lemma server_do_nclients:
  assumes "server_do e s = Some (Inr t)"
  shows "nclients t = nclients s + (case e of Reap p \<Rightarrow> - 1 | Accept p \<Rightarrow> (if findclient (clients s) 0 = None then 0 else 1) | _ \<Rightarrow> 0)"
  using assms
  by (cases e) (auto simp: main_loop_def addclient_def child_start_def echo_def sigchld_handler_def delclient_def split: option.splits kid.splits if_splits)

lemma client_kid:
  assumes "server_inv n s" and "nclients s \<noteq> 0"
  shows "\<exists>p k. kids s p = Some k"
proof -
  have u: "used_entries (clients s) \<noteq> 0" "table_ok (clients s) (kids s)" using assms by (simp_all add: server_inv_def)
  then have "\<exists>c\<in>set (clients s). pid c \<noteq> 0" unfolding used_entries_def by (auto split: if_splits)
  then obtain j where "j < length (clients s)" "pid (clients s ! j) \<noteq> 0" by (auto simp: in_set_conv_nth)
  from entry_used[OF u(2) this] show ?thesis by blast
qed

text \<open>Without clients there are no children, and all bytes are in \<open>nread\<close>.\<close>

lemma no_clients_left:
  assumes "server_inv n s" and "nclients s = 0"
  shows "kids s p = None" and "total s = nread s"
proof -
  have u: "used_entries (clients s) = 0" "table_ok (clients s) (kids s)" using assms by (simp_all add: server_inv_def)
  show "kids s p = None"
  proof (rule ccontr)
    assume "kids s p \<noteq> None"
    then obtain k where "kids s p = Some k" by blast
    from kid_okD[OF u(2) this] obtain j where "j < length (clients s)" "pid (clients s ! j) \<noteq> 0"
      using pid_in_entry_nonzero by auto
    then have "0 < used_entries (clients s)" using used_entries_update[of j "clients s" "(clients s ! j)\<lparr>pid := 0\<rparr>"] by simp
    then show False using u(1) by simp
  qed
  show "total s = nread s" using assms(1) used_none[OF u(1)] by (simp add: server_inv_def)
qed

section \<open>Properties\<close>

text \<open>C23: while the table does not overflow, every byte that was echoed is in \<open>nread\<close> or in the entry of a
  live client, so that the number printed when the last client has gone is the number of all
  bytes echoed.\<close>

theorem echo_total:
  assumes "server_reach m s"
  shows "total s = nread s + used_bytes (clients s) \<and> nclients s = int (used_entries (clients s)) \<and>
    sigint_handler s \<in> {None, Some (total s)}"
  using echo_server.inv_reach[OF assms] used_none[of "clients s"] by (auto simp: server_inv_def sigint_handler_def)

definition demo_server :: server where
  "demo_server = echo 0 7 (child_start 5 (Some 0) (main_loop 5 (server_init 1)))"

lemma demo_reach: "server_reach 1 demo_server"
proof -
  have "server_step (server_init 1) (main_loop 5 (server_init 1))"
    unfolding server_step_def by (rule exI[of _ "Accept 5"]) (simp add: server_init_def findclient_def)
  moreover have "server_step (main_loop 5 (server_init 1)) (child_start 5 (Some 0) (main_loop 5 (server_init 1)))"
    unfolding server_step_def
    by (rule exI[of _ "Child_start 5"]) (simp add: server_init_def main_loop_def addclient_def findclient_def)
  moreover have "server_step (child_start 5 (Some 0) (main_loop 5 (server_init 1))) demo_server"
    unfolding server_step_def demo_server_def
    by (rule exI[of _ "Echo 5 7"]) (simp add: child_start_def)
  moreover have "server_reach 1 (server_init 1)" by (rule reach_init) simp
  ultimately show ?thesis by (meson reach_step)
qed

theorem echo_total_witness: "total demo_server = nread demo_server + used_bytes (clients demo_server)"
  using echo_total[OF demo_reach] by simp

text \<open>The assertion in \<open>delclient\<close> holds for every child that dies, while the table does not
  overflow.\<close>

theorem echo_reap:
  assumes "server_reach m s" and "server_do (Reap p) s = Some r"
  shows "\<exists>t. r = Inr t"
  using server_do_inv[OF echo_server.inv_reach[OF assms(1)] assms(2)] by auto

theorem echo_reap_witness:
  "\<exists>s t. server_do (Exit 5) demo_server = Some (Inr s) \<and> server_do (Reap 5) s = Some (Inr t)"
proof -
  let ?s = "demo_server\<lparr>kids := (kids demo_server)(5 \<mapsto> Zombie (Some 0))\<rparr>"
  have e: "server_do (Exit 5) demo_server = Some (Inr ?s)"
    by (simp add: demo_server_def echo_def child_start_def)
  then have "server_step demo_server ?s" unfolding server_step_def by (intro exI[of _ "Exit 5"]) simp
  with demo_reach have r: "server_reach 1 ?s" by (rule reach_step)
  have "server_do (Reap 5) ?s = Some (sigchld_handler 5 ?s)" by simp
  from echo_reap[OF r this] e show ?thesis by auto
qed

text \<open>One connection more than the table has entries ends the server: the child dies for want of
  an entry, and when it is reaped the assertion in \<open>delclient\<close> fails.\<close>

theorem echo_overflow:
  assumes "server_reach m s" and "findclient (clients s) 0 = None" and "0 < p" and "kids s p = None"
  shows "\<exists>s1 s2. server_do (Accept p) s = Some (Inr s1) \<and> server_do (Child_start p) s1 = Some (Inr s2) \<and>
    server_do (Reap p) s2 = Some (Inl Assert_fails)"
proof -
  have ok: "table_ok (clients s) (kids s)" using echo_server.inv_reach[OF assms(1)] by (simp add: server_inv_def)
  have "findclient (clients s) p = None"
  proof (rule ccontr)
    assume "findclient (clients s) p \<noteq> None"
    then obtain j where "findclient (clients s) p = Some j" by blast
    then have j: "j < length (clients s)" "pid (clients s ! j) = p" using findclient_Some by auto
    then obtain q k where q: "kids s q = Some k" "entry_of k = Some j" using entry_used[OF ok] assms(3) by (metis less_irrefl)
    then have "pid_in_entry q k = p" using kid_okD[OF ok q(1)] j(2) by auto
    then have "q = p" using assms(3) by (cases k) auto
    then show False using q assms(4) by simp
  qed
  then show ?thesis using assms(2-4)
    by (simp add: main_loop_def addclient_def child_start_def sigchld_handler_def delclient_def)
qed

theorem echo_overflow_witness:
  "\<exists>s1 s2. server_do (Accept 6) demo_server = Some (Inr s1) \<and> server_do (Child_start 6) s1 = Some (Inr s2) \<and>
    server_do (Reap 6) s2 = Some (Inl Assert_fails)"
  by (rule echo_overflow[OF demo_reach])
    (simp_all add: demo_server_def echo_def child_start_def main_loop_def addclient_def server_init_def findclient_def)

end
