(* ===== verification/Listdir.thy ===== *)
theory Listdir
  imports Ctext
begin

text \<open>
  The directory listing of \<open>5/so21_lista_5/listdir.c\<close> and the permission check of
  \<open>6/access.c\<close>. The names of users and groups, \<open>ctime\<close> and the file system are arguments. A
  buffer filled by \<open>getdents\<close> is given by the records at its offsets. The text is what goes to standard
  output; \<open>None\<close> as the result of a system call is its failure.
\<close>

unbundle bit_operations_syntax

section \<open>File modes\<close>

type_synonym mode_t = u32

text \<open>The bits of \<open>st_mode\<close>, as POSIX numbers them (octal 4000, 2000, 1000, 400, \<open>\<dots>\<close>, 1).\<close>

definition has :: "mode_t \<Rightarrow> nat \<Rightarrow> bool" where
  "has m b \<longleftrightarrow> bit m b"

definition S_IFMT :: mode_t where
  "S_IFMT = 61440"

definition print_type :: "mode_t \<Rightarrow> char" where
  "print_type m =
    (if m AND S_IFMT = 16384 then CHR ''d''
     else if m AND S_IFMT = 8192 then CHR ''c''
     else if m AND S_IFMT = 24576 then CHR ''b''
     else if m AND S_IFMT = 32768 then CHR ''-''
     else if m AND S_IFMT = 4096 then CHR ''f''
     else if m AND S_IFMT = 40960 then CHR ''l''
     else if m AND S_IFMT = 49152 then CHR ''s'' else CHR ''?'')"

definition flag :: "bool \<Rightarrow> char \<Rightarrow> char" where
  "flag b c = (if b then c else CHR ''-'')"

definition print_mode :: "mode_t \<Rightarrow> string" where
  "print_mode m =
    (let t = print_type m;
         ur = flag (has m 8) (CHR ''r''); uw = flag (has m 7) (CHR ''w''); ux = flag (has m 6) (CHR ''x'');
         gr = flag (has m 5) (CHR ''r''); gw = flag (has m 4) (CHR ''w''); gx = flag (has m 3) (CHR ''x'');
         or = flag (has m 2) (CHR ''r''); ow = flag (has m 1) (CHR ''w''); ox = flag (has m 0) (CHR ''x'');
         ux = (if has m 11 then (if has m 6 then CHR ''s'' else CHR ''S'') else ux);
         ux = (if has m 10 then CHR ''s'' else gx);
         ux = (if has m 9 then CHR ''t'' else ox)
     in [t, ur, uw, ux, gr, gw, gx, or, ow, ox])"

section \<open>One entry\<close>

definition pad :: "nat \<Rightarrow> string \<Rightarrow> string" where
  "pad width s = replicate (width - length s) (CHR '' '') @ s"

record stat_t =
  st_mode :: mode_t
  st_nlink :: nat
  st_uid :: nat
  st_gid :: nat
  st_dev :: nat
  st_rdev :: nat
  st_size :: nat
  st_mtime :: nat

record system =
  pwnam :: "nat \<Rightarrow> string option"
  grnam :: "nat \<Rightarrow> string option"
  major :: "nat \<Rightarrow> nat"
  minor :: "nat \<Rightarrow> nat"
  ctime :: "nat \<Rightarrow> string"
  fstatat :: "string \<Rightarrow> stat_t option"
  readlinkat :: "string \<Rightarrow> string option"

definition print_uid :: "system \<Rightarrow> nat \<Rightarrow> string" where
  "print_uid sys uid = '' '' @ pad 10 (case pwnam sys uid of Some n \<Rightarrow> n | None \<Rightarrow> digits uid)"

definition print_gid :: "system \<Rightarrow> nat \<Rightarrow> string" where
  "print_gid sys gid = '' '' @ pad 10 (case grnam sys gid of Some n \<Rightarrow> n | None \<Rightarrow> digits gid)"

definition file_info :: "system \<Rightarrow> string \<Rightarrow> string" where
  "file_info sys name = (case fstatat sys name of
     None \<Rightarrow> [CHR 0x0A]
   | Some sb \<Rightarrow>
       print_mode (st_mode sb) @ pad 4 (digits (st_nlink sb)) @ print_uid sys (st_uid sb) @ print_gid sys (st_gid sb) @
       (if st_mode sb AND S_IFMT = 8192 \<or> st_mode sb AND S_IFMT = 24576
        then pad 9 (digits (major sys (st_dev sb))) @ '','' @ pad 3 (digits (minor sys (st_dev sb)))
        else pad 12 (digits (st_size sb)) @ '' '') @
       pad 26 (butlast (ctime sys (st_mtime sb))) @
       (if st_mode sb AND S_IFMT = 40960
        then (case readlinkat sys name of None \<Rightarrow> [] | Some path \<Rightarrow> ''  '' @ name @ '' -> '' @ path)
        else ''  '' @ name) @
       [CHR 0x0A])"

section \<open>The directory\<close>

text \<open>A record is its name and its length; \<open>buf\<close> gives the record at an offset. The loop over a buffer of \<open>n\<close> bytes
  takes at most \<open>n\<close> rounds when no record has length 0.\<close>

type_synonym dirents = "nat \<Rightarrow> (string \<times> nat) option"

fun dir_loop :: "nat \<Rightarrow> dirents \<Rightarrow> nat \<Rightarrow> nat \<Rightarrow> string list run" where
  "dir_loop 0 buf n bpos = (if bpos < n then Inl Still_running else Inr [])"
| "dir_loop (Suc fuel) buf n bpos =
    (if bpos < n
     then (case buf bpos of None \<Rightarrow> Inl Out_of_bounds
           | Some (name, reclen) \<Rightarrow>
               bind_run (dir_loop fuel buf n (bpos + reclen)) (\<lambda>names. Inr (name # names)))
     else Inr [])"

text \<open>The successive results of \<open>getdents\<close>; the length 0 ends the directory.\<close>

fun list_chunks :: "system \<Rightarrow> (dirents \<times> nat) list \<Rightarrow> string run" where
  "list_chunks sys [] = Inr []"
| "list_chunks sys ((buf, n) # chunks) =
    (if n = 0 then Inr []
     else bind_run (dir_loop n buf n 0) (\<lambda>names.
          bind_run (list_chunks sys chunks) (\<lambda>out.
          Inr (concat (map (file_info sys) names) @ out))))"

definition listdir_main :: "system \<Rightarrow> (string \<Rightarrow> (dirents \<times> nat) list option) \<Rightarrow> string option \<Rightarrow> string run" where
  "listdir_main sys opendir arg = (case opendir (case arg of None \<Rightarrow> ''.'' | Some d \<Rightarrow> d) of
     None \<Rightarrow> Inl App_error | Some chunks \<Rightarrow> list_chunks sys chunks)"

text \<open>How the kernel lays out records, one after the other from an offset.\<close>

fun lay_out :: "nat \<Rightarrow> (string \<times> nat) list \<Rightarrow> dirents" where
  "lay_out pos [] = (\<lambda>_. None)"
| "lay_out pos ((name, len) # rs) = (lay_out (pos + len) rs)(pos \<mapsto> (name, len))"

definition chunk_of :: "(string \<times> nat) list \<Rightarrow> dirents \<times> nat" where
  "chunk_of rs = (lay_out 0 rs, sum_list (map snd rs))"

lemma lay_out_below: "\<forall>r\<in>set rs. 0 < snd r \<Longrightarrow> p < pos \<Longrightarrow> lay_out pos rs p = None"
  by (induction pos rs rule: lay_out.induct) auto

lemma dir_loop_names:
  assumes "\<forall>r\<in>set rs. 0 < snd r" and "length rs \<le> fuel" and "n = pos + sum_list (map snd rs)"
    and "\<And>p. pos \<le> p \<Longrightarrow> buf p = lay_out pos rs p"
  shows "dir_loop fuel buf n pos = Inr (map fst rs)"
  using assms
proof (induction pos rs arbitrary: fuel rule: lay_out.induct)
  case (1 pos)
  then show ?case by (cases fuel) simp_all
next
  case (2 pos name len rs)
  then obtain f where f: "fuel = Suc f" "length rs \<le> f" by (cases fuel) auto
  have "buf p = lay_out (pos + len) rs p" if "pos + len \<le> p" for p using 2(2) 2(5)[of p] that by auto
  from 2(1)[OF _ f(2) _ this] 2(2,4) have "dir_loop f buf n (pos + len) = Inr (map fst rs)" by (simp add: add.assoc)
  then show ?case using 2(2,4) 2(5)[of pos] f(1) by simp
qed

lemma length_le_sum: "\<forall>r\<in>set rs. 0 < snd r \<Longrightarrow> length rs \<le> sum_list (map snd rs)"
  by (induction rs) (auto simp: Suc_le_eq add_strict_increasing2 intro: le_trans)

section \<open>Access\<close>

definition my_access :: "nat \<Rightarrow> nat \<Rightarrow> nat list \<Rightarrow> stat_t \<Rightarrow> mode_t \<Rightarrow> bool" where
  "my_access ruid rgid groups sb mode =
    (if st_uid sb = ruid
     then if has mode 2 \<and> \<not> has (st_mode sb) 8 then False
          else if has mode 1 \<and> \<not> has (st_mode sb) 7 then False
          else if has mode 0 \<and> \<not> has (st_mode sb) 6 then False
          else True
     else list_ex (\<lambda>g. rgid = g) groups)"

section \<open>Properties\<close>

text \<open>The permissions as \<open>ls\<close> shows them.\<close>

definition ls_permissions :: "mode_t \<Rightarrow> string" where
  "ls_permissions m =
    [flag (has m 8) (CHR ''r''), flag (has m 7) (CHR ''w''),
     if has m 11 then (if has m 6 then CHR ''s'' else CHR ''S'') else flag (has m 6) (CHR ''x''),
     flag (has m 5) (CHR ''r''), flag (has m 4) (CHR ''w''),
     if has m 10 then (if has m 3 then CHR ''s'' else CHR ''S'') else flag (has m 3) (CHR ''x''),
     flag (has m 2) (CHR ''r''), flag (has m 1) (CHR ''w''),
     if has m 9 then (if has m 0 then CHR ''t'' else CHR ''T'') else flag (has m 0) (CHR ''x'')]"

text \<open>Without set-id and sticky bits the permissions are those of \<open>ls\<close> but for one letter: in the place
  of the owner's execute permission stands that of the others.\<close>

theorem print_mode_wrong:
  assumes "\<not> has m 11" and "\<not> has m 10" and "\<not> has m 9"
  shows "tl (print_mode m) = (ls_permissions m)[2 := ls_permissions m ! 8]"
  using assms by (simp add: print_mode_def ls_permissions_def numeral_eq_Suc Let_def)

theorem print_mode_wrong_witness: "tl (print_mode 448) = ''rw-------''"
proof -
  have "\<not> has 448 11" "\<not> has 448 10" "\<not> has 448 9" "(ls_permissions 448)[2 := ls_permissions 448 ! 8] = ''rw-------''"
    by code_simp+
  with print_mode_wrong[of 448] show ?thesis by simp
qed

text \<open>The program prints one line for each record of the directory, in the order of the
  records, whatever their lengths.\<close>

theorem listdir_entries:
  assumes "opendir (case arg of None \<Rightarrow> ''.'' | Some d \<Rightarrow> d) = Some (map chunk_of chunks @ [(\<lambda>_. None, 0)])"
    and "\<forall>rs\<in>set chunks. rs \<noteq> [] \<and> (\<forall>r\<in>set rs. 0 < snd r)"
  shows "listdir_main sys opendir arg = Inr (concat (map (\<lambda>r. file_info sys (fst r)) (concat chunks)))"
proof -
  have "list_chunks sys (map chunk_of chunks @ [(\<lambda>_. None, 0)]) = Inr (concat (map (\<lambda>r. file_info sys (fst r)) (concat chunks)))"
    using assms(2)
  proof (induction chunks)
    case (Cons rs chunks)
    let ?n = "sum_list (map snd rs)"
    have rs: "rs \<noteq> []" "\<forall>r\<in>set rs. 0 < snd r" using Cons.prems by auto
    then have "?n \<noteq> 0" by (cases rs) auto
    moreover have "dir_loop ?n (lay_out 0 rs) ?n 0 = Inr (map fst rs)"
      by (rule dir_loop_names[OF rs(2) length_le_sum[OF rs(2)]]) simp_all
    ultimately show ?case using Cons by (simp add: chunk_of_def o_def del: sum_list_eq_0_iff)
  qed simp
  then show ?thesis using assms(1) by (simp add: listdir_main_def)
qed

definition demo_system :: system where
  "demo_system = \<lparr>pwnam = (\<lambda>_. None), grnam = (\<lambda>_. None), major = (\<lambda>d. d), minor = (\<lambda>d. d), ctime = (\<lambda>_. []),
     fstatat = (\<lambda>_. None), readlinkat = (\<lambda>_. None)\<rparr>"

theorem listdir_entries_witness:
  "listdir_main demo_system (\<lambda>_. Some (map chunk_of [[(''a'', 24), (''b'', 32)], [(''c'', 24)]] @ [(\<lambda>_. None, 0)])) None =
     Inr [CHR 0x0A, CHR 0x0A, CHR 0x0A]"
  using listdir_entries[of "\<lambda>_. Some (map chunk_of [[(''a'', 24), (''b'', 32)], [(''c'', 24)]] @ [(\<lambda>_. None, 0)])"
      None "[[(''a'', 24), (''b'', 32)], [(''c'', 24)]]"]
  by (simp add: file_info_def demo_system_def)

text \<open>For a file of somebody else \<open>my_access\<close> looks neither at the permissions of the file nor at its
  group: it grants every kind of access whenever the group of the process is among its own
  supplementary groups.\<close>

theorem access_group:
  assumes "st_uid sb \<noteq> ruid"
  shows "my_access ruid rgid groups sb mode \<longleftrightarrow> rgid \<in> set groups"
  using assms by (auto simp: my_access_def list_ex_iff)

theorem access_group_witness:
  "my_access 1000 100 [100] \<lparr>st_mode = 0, st_nlink = 1, st_uid = 0, st_gid = 0, st_dev = 0, st_rdev = 0, st_size = 0, st_mtime = 0\<rparr> 7"
  by (subst access_group) simp_all

end
