(* ===== verification/Ride.thy ===== *)
theory Ride
  imports Conc
begin

text \<open>
  The roller coaster of \<open>14/so21_lista_14/ride.c\<close>: one thread for the cart and \<open>k\<close> passengers, with
  a mutex, three condition variables and two semaphores. Every access to the shared state
  but one happens with the mutex held, so an event is a critical section, up to a wait on a condition variable;
  the exceptions are the waits on the semaphores and the loop in \<open>cart_load\<close> that reads \<open>riding\<close>
  until it has its value. \<open>want_to_leave_count\<close> is not set by \<open>ride_init\<close>: its first value is a parameter. A failing
  assertion ends the program.
\<close>

section \<open>The program\<close>

datatype passenger = Away | In_queue | Called | In_cart | Departed | Leaving

datatype cart = Load | Spin int | Loaded int | Wait_ready | Depart | Riding | Unload

record ride_t =
  waiting :: int
  seats :: int
  want_to_leave_count :: int
  riding :: int
  must_wait :: bool
  all_ready :: nat
  ready_to_leave :: nat
  passengers :: "nat \<Rightarrow> passenger"
  cart_pc :: cart

definition ride_init :: "int \<Rightarrow> int \<Rightarrow> ride_t" where
  "ride_init n c = \<lparr>waiting = 0, seats = n, want_to_leave_count = c, riding = 0, must_wait = False,
     all_ready = 0, ready_to_leave = 0, passengers = (\<lambda>_. Away), cart_pc = Load\<rparr>"

text \<open>\<open>passenger_board\<close>, up to the wait on the queue or from there; then the wait on the cart.\<close>

definition board_in :: "nat \<Rightarrow> ride_t \<Rightarrow> ride_t run" where
  "board_in i r =
    (let r = r\<lparr>riding := riding r + 1\<rparr> in
     if riding r \<le> seats r
     then let r = (if riding r = seats r then r\<lparr>must_wait := True, all_ready := sem_post (all_ready r)\<rparr> else r)
          in Inr (r\<lparr>passengers := (passengers r)(i := In_cart)\<rparr>)
     else Inl Assert_fails)"

definition passenger_board :: "nat \<Rightarrow> ride_t \<Rightarrow> ride_t run" where
  "passenger_board i r =
    (if riding r = seats r \<or> must_wait r
     then Inr (r\<lparr>waiting := waiting r + 1, passengers := (passengers r)(i := In_queue)\<rparr>)
     else board_in i r)"

definition board_called :: "nat \<Rightarrow> ride_t \<Rightarrow> ride_t run" where
  "board_called i r = board_in i (r\<lparr>waiting := waiting r - 1\<rparr>)"

definition passenger_unboard :: "nat \<Rightarrow> ride_t \<Rightarrow> ride_t" where
  "passenger_unboard i r =
    (let r = r\<lparr>want_to_leave_count := want_to_leave_count r + 1\<rparr>;
         r = (if want_to_leave_count r = riding r
              then r\<lparr>ready_to_leave := sem_post (ready_to_leave r), want_to_leave_count := 0\<rparr> else r)
     in r\<lparr>passengers := (passengers r)(i := Leaving)\<rparr>)"

text \<open>The cart; \<open>ws\<close> are the passengers that its signals wake.\<close>

definition signal_all :: "nat \<Rightarrow> passenger \<Rightarrow> passenger \<Rightarrow> int \<Rightarrow> nat list \<Rightarrow> ride_t \<Rightarrow> ride_t option" where
  "signal_all k c b m ws r =
    (if can_signal k c (passengers r) m ws then Some (r\<lparr>passengers := woken ws b (passengers r)\<rparr>) else None)"

definition cart_load :: "nat \<Rightarrow> nat list \<Rightarrow> ride_t \<Rightarrow> ride_t option" where
  "cart_load k ws r =
    (case cart_pc r of
       Load \<Rightarrow>
         (let m = (if waiting r < seats r then waiting r else seats r)
          in map_option (\<lambda>r. r\<lparr>cart_pc := Spin m\<rparr>) (signal_all k In_queue Called m ws r))
     | Spin m \<Rightarrow> Some (if riding r \<noteq> m then r else r\<lparr>cart_pc := Loaded m\<rparr>)
     | Loaded m \<Rightarrow> Some ((if m < seats r then r\<lparr>must_wait := False\<rparr> else r)\<lparr>cart_pc := Wait_ready\<rparr>)
     | Wait_ready \<Rightarrow> map_option (\<lambda>v. r\<lparr>all_ready := v, cart_pc := Depart\<rparr>) (sem_wait (all_ready r))
     | Depart \<Rightarrow> map_option (\<lambda>r. r\<lparr>cart_pc := Riding\<rparr>) (signal_all k In_cart Departed (riding r) ws r)
     | _ \<Rightarrow> None)"

definition cart_unload :: "nat \<Rightarrow> nat list \<Rightarrow> ride_t \<Rightarrow> ride_t option" where
  "cart_unload k ws r =
    (case cart_pc r of
       Riding \<Rightarrow> map_option (\<lambda>v. r\<lparr>ready_to_leave := v, cart_pc := Unload\<rparr>) (sem_wait (ready_to_leave r))
     | Unload \<Rightarrow> map_option (\<lambda>r. r\<lparr>riding := 0, cart_pc := Load\<rparr>) (signal_all k Leaving Away (riding r) ws r)
     | _ \<Rightarrow> None)"

definition cart_step :: "nat \<Rightarrow> nat list \<Rightarrow> ride_t \<Rightarrow> ride_t option" where
  "cart_step k ws r = (if cart_pc r \<in> {Riding, Unload} then cart_unload k ws r else cart_load k ws r)"

datatype event = Board nat | Board_called nat | Unboard nat | Cart "nat list"

fun ride_do :: "nat \<Rightarrow> event \<Rightarrow> ride_t \<Rightarrow> ride_t run option" where
  "ride_do k (Board i) r = (if i < k \<and> passengers r i = Away then Some (passenger_board i r) else None)"
| "ride_do k (Board_called i) r = (if i < k \<and> passengers r i = Called then Some (board_called i r) else None)"
| "ride_do k (Unboard i) r = (if i < k \<and> passengers r i = Departed then Some (Inr (passenger_unboard i r)) else None)"
| "ride_do k (Cart ws) r = map_option Inr (cart_step k ws r)"

definition ride_step :: "nat \<Rightarrow> ride_t \<Rightarrow> ride_t \<Rightarrow> bool" where
  "ride_step k r t \<longleftrightarrow> (\<exists>e. ride_do k e r = Some (Inr t))"

fun ride_run :: "nat \<Rightarrow> event list \<Rightarrow> ride_t \<Rightarrow> ride_t run option" where
  "ride_run k [] r = Some (Inr r)"
| "ride_run k (e # es) r = (case ride_do k e r of Some (Inr t) \<Rightarrow> ride_run k es t | x \<Rightarrow> x)"

lemma ride_run_reach:
  "ride_run k es r = Some (Inr t) \<Longrightarrow> reach init (ride_step k) r \<Longrightarrow> reach init (ride_step k) t"
proof (induction es arbitrary: r)
  case (Cons e es)
  then obtain u where u: "ride_do k e r = Some (Inr u)" "ride_run k es u = Some (Inr t)"
    by (auto split: option.splits sum.splits)
  then have "ride_step k r u" by (auto simp: ride_step_def)
  with Cons u(2) show ?case by (blast intro: reach_step)
qed simp

section \<open>The invariant of the rides\<close>

text \<open>The state in which the cart has got to the platform before anybody boards; \<open>c\<close> is the value that \<open>want_to_leave_count\<close> starts with.\<close>

definition at_platform :: "int \<Rightarrow> int \<Rightarrow> ride_t" where
  "at_platform n c = (ride_init n c)\<lparr>cart_pc := Wait_ready\<rparr>"

lemma at_platform_run: "0 \<le> n \<Longrightarrow> ride_run k [Cart [], Cart [], Cart []] (ride_init n c) = Some (Inr (at_platform n c))"
  by (simp add: at_platform_def ride_init_def cart_step_def cart_load_def signal_all_def can_signal_def sleepers_def woken_def Let_def)

definition num_at :: "nat \<Rightarrow> passenger \<Rightarrow> (nat \<Rightarrow> passenger) \<Rightarrow> int" where
  "num_at k c p = int (count_pcs k (\<lambda>q. q = c) p)"

abbreviation num :: "nat \<Rightarrow> passenger \<Rightarrow> ride_t \<Rightarrow> int" where
  "num k c r \<equiv> num_at k c (passengers r)"

lemma num_at_nonneg [simp]: "0 \<le> num_at k c p"
  by (simp add: num_at_def)

lemma num_at_start [simp]: "num_at k c (\<lambda>_. x) = (if x = c then int k else 0)"
  by (simp add: num_at_def)

text \<open>Who is on the way into the cart and in it, whatever happens after the ride.\<close>

fun boarding_phase :: "nat \<Rightarrow> cart \<Rightarrow> ride_t \<Rightarrow> bool" where
  "boarding_phase k Load r \<longleftrightarrow> num k Called r = 0 \<and> num k In_cart r = 0 \<and> riding r = 0 \<and> must_wait r \<and> all_ready r = 0"
| "boarding_phase k (Spin m) r \<longleftrightarrow> riding r = num k In_cart r \<and> num k Called r + riding r = m \<and> m \<le> seats r \<and> must_wait r \<and>
     all_ready r = (if riding r = seats r then 1 else 0)"
| "boarding_phase k (Loaded m) r \<longleftrightarrow> num k Called r = 0 \<and> riding r = num k In_cart r \<and> riding r = m \<and> m \<le> seats r \<and> must_wait r \<and>
     all_ready r = (if riding r = seats r then 1 else 0)"
| "boarding_phase k Wait_ready r \<longleftrightarrow> num k Called r = 0 \<and> riding r = num k In_cart r \<and> riding r \<le> seats r \<and>
     (must_wait r \<longleftrightarrow> riding r = seats r) \<and> all_ready r = (if riding r = seats r then 1 else 0)"
| "boarding_phase k Depart r \<longleftrightarrow> num k Called r = 0 \<and> riding r = num k In_cart r \<and> riding r = seats r \<and> must_wait r \<and> all_ready r = 0"
| "boarding_phase k Riding r \<longleftrightarrow> num k Called r = 0 \<and> num k In_cart r = 0 \<and> riding r = seats r \<and> must_wait r \<and> all_ready r = 0"
| "boarding_phase k Unload r \<longleftrightarrow> num k Called r = 0 \<and> num k In_cart r = 0 \<and> riding r = seats r \<and> must_wait r \<and> all_ready r = 0"

definition boarding_inv :: "nat \<Rightarrow> int \<Rightarrow> ride_t \<Rightarrow> bool" where
  "boarding_inv k n r \<longleftrightarrow> 0 < n \<and> seats r = n \<and> waiting r = num k In_queue r + num k Called r \<and> boarding_phase k (cart_pc r) r"

text \<open>Who is in the cart after the ride, when \<open>want_to_leave_count\<close> starts with 0.\<close>

definition leaving_inv :: "nat \<Rightarrow> ride_t \<Rightarrow> bool" where
  "leaving_inv k r \<longleftrightarrow>
     (case cart_pc r of
        Riding \<Rightarrow> num k Departed r + num k Leaving r = seats r
      | Unload \<Rightarrow> num k Departed r = 0 \<and> num k Leaving r = seats r
      | _ \<Rightarrow> num k Departed r = 0 \<and> num k Leaving r = 0) \<and>
     want_to_leave_count r = (if cart_pc r = Riding \<and> num k Departed r \<noteq> 0 then num k Leaving r else 0) \<and>
     ready_to_leave r = (if cart_pc r = Riding \<and> num k Departed r = 0 then 1 else 0)"

text \<open>How a step of one passenger changes the numbers.\<close>

lemma num_upd:
  "i < k \<Longrightarrow> num_at k c (p(i := b)) = num_at k c p + (if b = c then 1 else 0) - (if p i = c then 1 else 0)"
  using count_pcs_upd[of i k "\<lambda>q. q = c" p b] by (auto simp: num_at_def split: if_splits)

lemma num_pos: "i < k \<Longrightarrow> p i = c \<Longrightarrow> 0 < num_at k c p"
  using count_pcs_pos[of i k "\<lambda>q. q = c" p] by (simp add: num_at_def)

lemma num_woken:
  assumes "signal_all k c b m ws r = Some t" and "0 \<le> m" and "m \<le> num k c r"
  shows "\<exists>p. t = r\<lparr>passengers := p\<rparr> \<and>
    (\<forall>a. num_at k a p = num k a r - (if c = a then m else 0) + (if b = a then m else 0))"
proof -
  have t: "t = r\<lparr>passengers := woken ws b (passengers r)\<rparr>" "can_signal k c (passengers r) m ws"
    using assms(1) by (auto simp: signal_all_def split: if_splits)
  show ?thesis unfolding t(1)
    by (intro exI conjI allI, rule refl) (use can_signal_counts[OF t(2) assms(2)] assms(3) in \<open>simp add: num_at_def\<close>)
qed

lemma num_woken_other:
  assumes "signal_all k c b m ws r = Some t"
  shows "\<exists>p. t = r\<lparr>passengers := p\<rparr> \<and> (\<forall>a. a \<noteq> c \<longrightarrow> a \<noteq> b \<longrightarrow> num_at k a p = num k a r)"
proof -
  have t: "t = r\<lparr>passengers := woken ws b (passengers r)\<rparr>" "can_signal k c (passengers r) m ws"
    using assms by (auto simp: signal_all_def split: if_splits)
  have "num_at k a (woken ws b (passengers r)) = num k a r" if "a \<noteq> c" "a \<noteq> b" for a
    using t(2) that count_pcs_woken[of ws k c "passengers r" "\<lambda>q. q = a" b] by (auto simp: num_at_def can_signal_def)
  then show ?thesis unfolding t(1) by blast
qed

lemma ride_inv_board:
  assumes "boarding_inv k n r" and "i < k" and "passengers r i = Away"
  shows "\<exists>t. passenger_board i r = Inr t \<and> boarding_inv k n t \<and> (leaving_inv k r \<longrightarrow> leaving_inv k t)"
proof (cases "riding r = seats r \<or> must_wait r")
  case True
  then show ?thesis using assms
    by (cases "cart_pc r") (auto simp: boarding_inv_def leaving_inv_def passenger_board_def num_upd)
next
  case False
  then have "cart_pc r = Wait_ready" using assms(1) by (cases "cart_pc r") (auto simp: boarding_inv_def)
  then show ?thesis using False assms
    by (auto simp: boarding_inv_def leaving_inv_def passenger_board_def board_in_def num_upd sem_post_def Let_def)
qed

lemma ride_inv_called:
  assumes "boarding_inv k n r" and "i < k" and "passengers r i = Called"
  shows "\<exists>t. board_called i r = Inr t \<and> boarding_inv k n t \<and> (leaving_inv k r \<longrightarrow> leaving_inv k t)"
proof -
  have "0 < num k Called r" using assms(2,3) by (rule num_pos)
  then obtain m where "cart_pc r = Spin m" using assms(1) by (cases "cart_pc r") (auto simp: boarding_inv_def)
  then show ?thesis using \<open>0 < num k Called r\<close> assms
    by (auto simp: boarding_inv_def leaving_inv_def board_called_def board_in_def num_upd sem_post_def Let_def)
qed

lemma boarding_inv_unboard:
  "boarding_inv k n r \<Longrightarrow> i < k \<Longrightarrow> passengers r i = Departed \<Longrightarrow> boarding_inv k n (passenger_unboard i r)"
  by (cases "cart_pc r") (auto simp: boarding_inv_def passenger_unboard_def num_upd Let_def)

lemma leaving_inv_unboard:
  assumes "boarding_inv k n r" and "leaving_inv k r" and "i < k" and "passengers r i = Departed"
  shows "leaving_inv k (passenger_unboard i r)"
proof -
  have "0 < num k Departed r" using assms(3,4) by (rule num_pos)
  then have "cart_pc r = Riding" using assms(2) by (cases "cart_pc r") (auto simp: leaving_inv_def)
  then show ?thesis using \<open>0 < num k Departed r\<close> assms
    by (auto simp: boarding_inv_def leaving_inv_def passenger_unboard_def num_upd sem_post_def Let_def)
qed

lemma ride_inv_cart:
  assumes "boarding_inv k n r" and "cart_step k ws r = Some t"
  shows "boarding_inv k n t \<and> (leaving_inv k r \<longrightarrow> leaving_inv k t)"
proof (cases "cart_pc r")
  case Load
  let ?m = "if waiting r < seats r then waiting r else seats r"
  from assms(2) Load obtain u where u: "signal_all k In_queue Called ?m ws r = Some u" "t = u\<lparr>cart_pc := Spin ?m\<rparr>"
    by (auto simp: cart_step_def cart_load_def Let_def)
  have m: "0 \<le> ?m" "?m \<le> num k In_queue r" using assms(1) Load by (auto simp: boarding_inv_def)
  from num_woken[OF u(1) m] show ?thesis using assms(1) Load m by (auto simp: boarding_inv_def leaving_inv_def u(2))
next
  case Depart
  from assms(2) Depart obtain u where u: "signal_all k In_cart Departed (riding r) ws r = Some u" "t = u\<lparr>cart_pc := Riding\<rparr>"
    by (auto simp: cart_step_def cart_load_def)
  have m: "0 \<le> riding r" "riding r \<le> num k In_cart r" using assms(1) Depart by (auto simp: boarding_inv_def)
  from num_woken[OF u(1) m] show ?thesis using assms(1) Depart m by (auto simp: boarding_inv_def leaving_inv_def u(2))
next
  case Unload
  from assms(2) Unload obtain u where u: "signal_all k Leaving Away (riding r) ws r = Some u" "t = u\<lparr>riding := 0, cart_pc := Load\<rparr>"
    by (auto simp: cart_step_def cart_unload_def)
  have "boarding_inv k n t" using num_woken_other[OF u(1)] assms(1) Unload by (auto simp: boarding_inv_def u(2))
  moreover have "leaving_inv k t" if "leaving_inv k r"
  proof -
    have m: "0 \<le> riding r" "riding r \<le> num k Leaving r" using assms(1) that Unload by (auto simp: boarding_inv_def leaving_inv_def)
    from num_woken[OF u(1) m] show ?thesis using assms(1) that Unload m by (auto simp: boarding_inv_def leaving_inv_def u(2))
  qed
  ultimately show ?thesis by blast
qed (use assms in \<open>auto simp: boarding_inv_def leaving_inv_def cart_step_def cart_load_def cart_unload_def split: if_splits\<close>)

lemma ride_inv_do:
  assumes "boarding_inv k n r" and "ride_do k e r = Some x"
  shows "\<exists>t. x = Inr t \<and> boarding_inv k n t \<and> (leaving_inv k r \<longrightarrow> leaving_inv k t)"
proof (cases e)
  case (Board i)
  with assms ride_inv_board[OF assms(1), of i] show ?thesis by (auto split: if_splits)
next
  case (Board_called i)
  with assms ride_inv_called[OF assms(1), of i] show ?thesis by (auto split: if_splits)
next
  case (Unboard i)
  with assms boarding_inv_unboard[OF assms(1), of i] leaving_inv_unboard[OF assms(1), of i] show ?thesis by (auto split: if_splits)
next
  case (Cart ws)
  with assms ride_inv_cart[OF assms(1)] show ?thesis by auto
qed

interpretation ride: safe_system "\<lambda>r. r = at_platform n c \<and> 0 < n" "ride_step k" "\<lambda>r. boarding_inv k n r \<and> (c = 0 \<longrightarrow> leaving_inv k r)"
proof unfold_locales
  show "boarding_inv k n r \<and> (c = 0 \<longrightarrow> leaving_inv k r)" if "r = at_platform n c \<and> 0 < n" for r
    using that by (simp add: boarding_inv_def leaving_inv_def at_platform_def ride_init_def)
next
  show "boarding_inv k n t \<and> (c = 0 \<longrightarrow> leaving_inv k t)" if "ride_step k s t" "boarding_inv k n s \<and> (c = 0 \<longrightarrow> leaving_inv k s)" for s t
    using that ride_inv_do unfolding ride_step_def by blast
qed

section \<open>Properties\<close>



text \<open>The program does not make sure of that start: when eleven passengers come before the
  thread of the cart runs for the first time, the cart calls the one who waits although all
  the seats are taken, and the assertion in \<open>passenger_board\<close> fails.\<close>

theorem ride_overbooked:
  "\<exists>es. ride_run 50 es (ride_init 10 0) = Some (Inl Assert_fails)"
proof -
  have "case ride_run 50 (map Board [0..<11] @ [Cart [10], Board_called 10]) (ride_init 10 0) of
      Some (Inl Assert_fails) \<Rightarrow> True | _ \<Rightarrow> False" by code_simp
  then show ?thesis by (auto split: option.splits sum.splits c_error.splits)
qed

definition stop_run :: "event list" where
  "stop_run = map Board [0..<10] @ [Cart [], Cart [0..<10]] @ map Unboard [0..<10] @ [Cart [], Cart [0..<10], Cart []] @
     map Board [0..<50] @ [Cart [], Cart []]"

text \<open>C18: even from that start, and with \<open>want_to_leave_count\<close> starting with 0, the program can stop for ever. When everybody arrives
  between the moment the cart counts the queue and the moment it opens the boarding again, all the
  passengers sleep in the queue and the cart waits for them.\<close>

theorem ride_deadlock:
  "\<exists>r. reach (\<lambda>r. r = at_platform 10 0) (ride_step 50) r \<and> (\<forall>e. ride_do 50 e r = None)"
proof -
  have "case ride_run 50 stop_run (at_platform 10 0) of
      Some (Inr r) \<Rightarrow> list_all (\<lambda>i. passengers r i = In_queue) [0..<50] \<and> cart_pc r = Wait_ready \<and> all_ready r = 0
    | _ \<Rightarrow> False" by code_simp
  then obtain r where r: "ride_run 50 stop_run (at_platform 10 0) = Some (Inr r)"
    "\<forall>i<50. passengers r i = In_queue" "cart_pc r = Wait_ready" "all_ready r = 0"
    by (auto split: option.splits sum.splits simp: list_all_iff)
  have "ride_do 50 e r = None" for e
    using r(2-4) by (cases e) (auto simp: cart_step_def cart_load_def sem_wait_def)
  moreover have "reach (\<lambda>r. r = at_platform 10 0) (ride_step 50) r"
    by (rule ride_run_reach[OF r(1)]) (auto intro: reach_init)
  ultimately show ?thesis by blast
qed

text \<open>\<open>want_to_leave_count\<close> starts with whatever is on the stack: when that is not
  less than the number of seats, nobody is ever let out of the cart.\<close>

definition garbage_inv :: "int \<Rightarrow> ride_t \<Rightarrow> bool" where
  "garbage_inv n r \<longleftrightarrow> seats r = n \<and> riding r \<le> n \<and> n \<le> want_to_leave_count r \<and> ready_to_leave r = 0 \<and> cart_pc r \<noteq> Unload"

lemma garbage_inv_step:
  assumes "ride_step k r t" and "garbage_inv n r"
  shows "garbage_inv n t"
proof -
  obtain e where e: "ride_do k e r = Some (Inr t)" using assms(1) by (auto simp: ride_step_def)
  show ?thesis
  proof (cases e)
    case (Cart ws)
    with e have "cart_step k ws r = Some t" by auto
    then show ?thesis using assms(2)
      by (cases "cart_pc r")
         (auto simp: garbage_inv_def cart_step_def cart_load_def cart_unload_def signal_all_def Let_def split: if_splits)
  qed (use e assms(2) in
    \<open>auto simp: garbage_inv_def passenger_board_def board_called_def board_in_def passenger_unboard_def Let_def split: if_splits\<close>)
qed

interpretation garbage: safe_system "\<lambda>r. r = ride_init n c \<and> 0 \<le> n \<and> n \<le> c" "ride_step k" "garbage_inv n"
proof unfold_locales
  show "garbage_inv n r" if "r = ride_init n c \<and> 0 \<le> n \<and> n \<le> c" for r
    using that by (simp add: garbage_inv_def ride_init_def)
qed (rule garbage_inv_step)

theorem ride_uninitialised:
  assumes "0 \<le> n" and "n \<le> c" and "reach (\<lambda>r. r = ride_init n c) (ride_step k) r"
  shows "cart_pc r \<noteq> Unload"
proof -
  have "reach (\<lambda>r. r = ride_init n c \<and> 0 \<le> n \<and> n \<le> c) (ride_step k) r" using assms by simp
  from garbage.inv_reach[OF this] show ?thesis by (simp add: garbage_inv_def)
qed

theorem ride_uninitialised_witness: "cart_pc (ride_init 10 32767) \<noteq> Unload"
  by (rule ride_uninitialised[where n = 10 and c = 32767 and k = 50]) (auto intro: reach_init)

end
