(* ===== verification/Office.thy ===== *)
theory Office
  imports Conc
begin

text \<open>
  The post office of \<open>14/so21_lista_14/office.c\<close>: \<open>k\<close> customers and one clerk share a mutex and three
  condition variables. Every access to the shared state happens with the mutex held, so an event is one
  critical section, up to a wait. Threads wake up only when they are signalled; \<open>Spurious\<close> has the other case.
\<close>

section \<open>The program\<close>

datatype customer = Outside | On_seat | Called_up | At_window | Served

datatype clerk = Look | Asleep | Roused | Paperwork

record office_t =
  waiting :: int
  seats :: int
  customers :: "nat \<Rightarrow> customer"
  clerk_pc :: clerk

definition office_init :: "int \<Rightarrow> office_t" where
  "office_init n = \<lparr>waiting = 0, seats = n, customers = (\<lambda>_. Outside), clerk_pc = Look\<rparr>"

text \<open>\<open>customer_walk_in\<close>, from call to call of the thread library: up to the wait on the queue (or out again, when
  there is no seat), to the wait for the end of the paperwork, and out.\<close>

definition walk_in :: "nat \<Rightarrow> office_t \<Rightarrow> office_t" where
  "walk_in i s =
    (if waiting s = seats s then s
     else s\<lparr>waiting := waiting s + 1, clerk_pc := (if clerk_pc s = Asleep then Roused else clerk_pc s),
            customers := (customers s)(i := On_seat)\<rparr>)"

definition customer_walk_in :: "nat \<Rightarrow> office_t \<Rightarrow> office_t option" where
  "customer_walk_in i s =
    (case customers s i of
       Outside \<Rightarrow> Some (walk_in i s)
     | Called_up \<Rightarrow> Some (s\<lparr>customers := (customers s)(i := At_window)\<rparr>)
     | Served \<Rightarrow> Some (s\<lparr>waiting := waiting s - 1, customers := (customers s)(i := Outside)\<rparr>)
     | _ \<Rightarrow> None)"

definition signal_one :: "nat \<Rightarrow> customer \<Rightarrow> customer \<Rightarrow> nat list \<Rightarrow> office_t \<Rightarrow> office_t option" where
  "signal_one k c b ws s =
    (if can_signal k c (customers s) 1 ws then Some (s\<lparr>customers := woken ws b (customers s)\<rparr>) else None)"

definition clerk_wait :: "nat \<Rightarrow> nat list \<Rightarrow> office_t \<Rightarrow> office_t option" where
  "clerk_wait k ws s =
    (if waiting s > 0 then map_option (\<lambda>s. s\<lparr>clerk_pc := Paperwork\<rparr>) (signal_one k On_seat Called_up ws s)
     else Some (s\<lparr>clerk_pc := Asleep\<rparr>))"

definition clerk_done :: "nat \<Rightarrow> nat list \<Rightarrow> office_t \<Rightarrow> office_t option" where
  "clerk_done k ws s = map_option (\<lambda>s. s\<lparr>clerk_pc := Look\<rparr>) (signal_one k At_window Served ws s)"

definition clerk_step :: "nat \<Rightarrow> nat list \<Rightarrow> office_t \<Rightarrow> office_t option" where
  "clerk_step k ws s =
    (case clerk_pc s of
       Look \<Rightarrow> clerk_wait k ws s
     | Asleep \<Rightarrow> None
     | Roused \<Rightarrow> Some (s\<lparr>clerk_pc := Paperwork\<rparr>)
     | Paperwork \<Rightarrow> clerk_done k ws s)"

datatype event = Customer nat | Clerk "nat list"

fun office_do :: "nat \<Rightarrow> event \<Rightarrow> office_t \<Rightarrow> office_t option" where
  "office_do k (Customer i) s = (if i < k then customer_walk_in i s else None)"
| "office_do k (Clerk ws) s = clerk_step k ws s"

definition office_step :: "nat \<Rightarrow> office_t \<Rightarrow> office_t \<Rightarrow> bool" where
  "office_step k s t \<longleftrightarrow> (\<exists>e. office_do k e s = Some t)"

abbreviation office_reach :: "nat \<Rightarrow> int \<Rightarrow> office_t \<Rightarrow> bool" where
  "office_reach k n \<equiv> reach (\<lambda>s. s = office_init n) (office_step k)"

abbreviation office_run :: "nat \<Rightarrow> event list \<Rightarrow> office_t \<Rightarrow> office_t option" where
  "office_run k \<equiv> run_schedule (office_do k)"

lemma office_run_reach:
  "office_run k es s = Some t \<Longrightarrow> reach init (office_step k) s \<Longrightarrow> reach init (office_step k) t"
  by (rule run_schedule_reach) (auto simp: office_step_def)

section \<open>The invariant\<close>

definition in_office :: "nat \<Rightarrow> (nat \<Rightarrow> customer) \<Rightarrow> int" where
  "in_office k p = int (count_pcs k (\<lambda>c. c \<noteq> Outside) p)"

lemma in_office_upd:
  "i < k \<Longrightarrow> in_office k (p(i := c)) = in_office k p + (if c \<noteq> Outside then 1 else 0) - (if p i \<noteq> Outside then 1 else 0)"
  using count_pcs_upd[of i k "\<lambda>c. c \<noteq> Outside" p c] by (auto simp: in_office_def split: if_splits)

lemma in_office_pos: "i < k \<Longrightarrow> p i \<noteq> Outside \<Longrightarrow> 0 < in_office k p"
  using count_pcs_pos[of i k "\<lambda>c. c \<noteq> Outside" p] by (simp add: in_office_def)

lemma signal_oneD:
  assumes "signal_one k c b ws s = Some t" and "c \<noteq> Outside" and "b \<noteq> Outside"
  shows "\<exists>p. t = s\<lparr>customers := p\<rparr> \<and> in_office k p = in_office k (customers s)"
  using assms count_pcs_woken[of ws k c "customers s" "\<lambda>c. c \<noteq> Outside" b]
  by (auto simp: signal_one_def can_signal_def in_office_def split: if_splits)

definition office_inv :: "nat \<Rightarrow> int \<Rightarrow> office_t \<Rightarrow> bool" where
  "office_inv k n s \<longleftrightarrow> seats s = n \<and> waiting s = in_office k (customers s) \<and> waiting s \<le> n \<and>
     (clerk_pc s = Asleep \<longrightarrow> waiting s = 0)"

lemma office_inv_step:
  assumes "office_step k s t" and "office_inv k n s"
  shows "office_inv k n t"
proof -
  obtain e where e: "office_do k e s = Some t" using assms(1) by (auto simp: office_step_def)
  show ?thesis
  proof (cases e)
    case (Customer i)
    with e have "i < k" "customer_walk_in i s = Some t" by (auto split: if_splits)
    then show ?thesis using assms(2) in_office_pos[of i k "customers s"]
      by (auto simp: office_inv_def customer_walk_in_def walk_in_def in_office_upd split: customer.splits if_splits)
  next
    case (Clerk ws)
    with e have "clerk_step k ws s = Some t" by simp
    then show ?thesis using assms(2)
      by (auto simp: office_inv_def clerk_step_def clerk_wait_def clerk_done_def in_office_def dest!: signal_oneD
          split: clerk.splits if_splits)
  qed
qed

interpretation office: safe_system "\<lambda>s. s = office_init n \<and> 0 \<le> n" "office_step k" "office_inv k n"
proof unfold_locales
  show "office_inv k n s" if "s = office_init n \<and> 0 \<le> n" for s
    using that by (simp add: office_inv_def office_init_def in_office_def)
qed (rule office_inv_step)

section \<open>Nobody is stuck\<close>

text \<open>The steps of the clerk to the next call, and to the next end of the paperwork.\<close>

fun to_call :: "clerk \<Rightarrow> nat" where
  "to_call Look = 0" | "to_call Asleep = 0" | "to_call Roused = 2" | "to_call Paperwork = 1"

fun to_done :: "clerk \<Rightarrow> nat" where
  "to_done Paperwork = 0" | "to_done _ = 1"

fun served_in :: "clerk \<Rightarrow> customer \<Rightarrow> nat" where
  "served_in q On_seat = 5 + to_call q"
| "served_in q Called_up = 4"
| "served_in q At_window = 2 + to_done q"
| "served_in q _ = 0"

lemma signal_one_chosen:
  assumes "i < k" and "customers s i = c"
  shows "signal_one k c b [i] s = Some (s\<lparr>customers := (customers s)(i := b)\<rparr>)"
proof -
  have "i \<in> set (sleepers k c (customers s))" using assms by (simp add: sleepers_def)
  then have "Suc 0 \<le> length (sleepers k c (customers s))" by (cases "sleepers k c (customers s)") auto
  then have "can_signal k c (customers s) 1 [i]" using assms by (simp add: can_signal_def sleepers_def min_def)
  then show ?thesis by (auto simp: signal_one_def woken_def fun_eq_iff intro!: arg_cong[where f = "\<lambda>p. s\<lparr>customers := p\<rparr>"])
qed

text \<open>Some signal to others leaves customer \<open>i\<close> where it is, and nobody comes or goes.\<close>

definition same_inside :: "(nat \<Rightarrow> customer) \<Rightarrow> (nat \<Rightarrow> customer) \<Rightarrow> bool" where
  "same_inside p q \<longleftrightarrow> (\<forall>l. p l = Outside \<longleftrightarrow> q l = Outside)"

lemma same_inside_upd: "p i \<noteq> Outside \<Longrightarrow> c \<noteq> Outside \<Longrightarrow> same_inside p (p(i := c))"
  by (simp add: same_inside_def)

lemma signal_one_other:
  assumes "customers s i \<noteq> c" and "c \<noteq> Outside" and "b \<noteq> Outside"
  shows "\<exists>ws p. signal_one k c b ws s = Some (s\<lparr>customers := p\<rparr>) \<and> p i = customers s i \<and> same_inside (customers s) p"
proof -
  obtain ws where ws: "can_signal k c (customers s) 1 ws" using can_signal_exists[of k c "customers s" 1] by blast
  then have w: "\<forall>w\<in>set ws. customers s w = c" by (auto simp: can_signal_def sleepers_def)
  have "same_inside (customers s) (woken ws b (customers s))" using w assms(2,3) by (auto simp: same_inside_def woken_def)
  moreover have "woken ws b (customers s) i = customers s i" using w assms(1) by (auto simp: woken_def)
  moreover have "signal_one k c b ws s = Some (s\<lparr>customers := woken ws b (customers s)\<rparr>)" using ws by (simp add: signal_one_def)
  ultimately show ?thesis by blast
qed

text \<open>The clerk who is not asleep can always take a step that leaves customer \<open>i\<close> alone, unless the
  customer is the one it looks for.\<close>

lemma clerk_other:
  assumes "clerk_pc s \<noteq> Asleep" and "waiting s > 0"
    and "clerk_pc s = Look \<Longrightarrow> customers s i \<noteq> On_seat" and "clerk_pc s = Paperwork \<Longrightarrow> customers s i \<noteq> At_window"
  shows "\<exists>ws t. clerk_step k ws s = Some t \<and> customers t i = customers s i \<and> same_inside (customers s) (customers t) \<and>
    clerk_pc t = (if clerk_pc s = Paperwork then Look else Paperwork)"
proof (cases "clerk_pc s")
  case Look
  with signal_one_other[OF assms(3)[OF Look], of Called_up k] obtain ws p where
    "signal_one k On_seat Called_up ws s = Some (s\<lparr>customers := p\<rparr>)" "p i = customers s i" "same_inside (customers s) p" by auto
  then show ?thesis using Look assms(2) by (auto simp: clerk_step_def clerk_wait_def intro!: exI[of _ ws])
next
  case Paperwork
  with signal_one_other[OF assms(4)[OF Paperwork], of Served k] obtain ws p where
    "signal_one k At_window Served ws s = Some (s\<lparr>customers := p\<rparr>)" "p i = customers s i" "same_inside (customers s) p" by auto
  then show ?thesis using Paperwork by (auto simp: clerk_step_def clerk_done_def intro!: exI[of _ ws])
qed (use assms(1) in \<open>auto simp: clerk_step_def same_inside_def\<close>)

text \<open>The steps in which nobody comes or goes and customer \<open>i\<close> is not yet served; they bring the clerk to the end of the paperwork with \<open>i\<close> at the window.\<close>

definition waits_inside :: "nat \<Rightarrow> office_t \<Rightarrow> bool" where
  "waits_inside i s \<longleftrightarrow> customers s i \<notin> {Outside, Served}"

definition service_step :: "nat \<Rightarrow> nat \<Rightarrow> office_t \<Rightarrow> office_t \<Rightarrow> bool" where
  "service_step k i s t \<longleftrightarrow> office_step k s t \<and> same_inside (customers s) (customers t) \<and> waits_inside i t"

lemma service_stepI: "office_do k e s = Some t \<Longrightarrow> same_inside (customers s) (customers t) \<Longrightarrow> waits_inside i t \<Longrightarrow> service_step k i s t"
  unfolding service_step_def office_step_def by blast

lemma office_closer:
  assumes "office_inv k n s" and "i < k" and "waits_inside i s" and "\<not> (customers s i = At_window \<and> clerk_pc s = Paperwork)"
  shows "\<exists>t. service_step k i s t \<and> served_in (clerk_pc t) (customers t i) < served_in (clerk_pc s) (customers s i)"
proof -
  have w: "waiting s > 0" "clerk_pc s \<noteq> Asleep"
    using assms(1-3) in_office_pos[of i k "customers s"] by (auto simp: office_inv_def waits_inside_def)
  consider "customers s i = Called_up" | "customers s i = On_seat" "clerk_pc s = Look"
    | "customers s i = On_seat" "clerk_pc s \<noteq> Look" | "customers s i = At_window" "clerk_pc s \<noteq> Paperwork"
    using assms(3,4) by (cases "customers s i") (auto simp: waits_inside_def)
  then show ?thesis
  proof cases
    case 1
    let ?t = "s\<lparr>customers := (customers s)(i := At_window)\<rparr>"
    have "office_do k (Customer i) s = Some ?t" using 1 assms(2) by (simp add: customer_walk_in_def)
    then have "service_step k i s ?t" by (rule service_stepI) (use 1 in \<open>simp_all add: same_inside_upd waits_inside_def\<close>)
    moreover have "to_done (clerk_pc s) \<le> 1" by (cases "clerk_pc s") auto
    ultimately show ?thesis using 1 by (intro exI[of _ ?t]) auto
  next
    case 2
    let ?t = "s\<lparr>customers := (customers s)(i := Called_up), clerk_pc := Paperwork\<rparr>"
    have "office_do k (Clerk [i]) s = Some ?t"
      using 2 assms(2) w by (simp add: clerk_step_def clerk_wait_def signal_one_chosen)
    then have "service_step k i s ?t" by (rule service_stepI) (use 2 in \<open>simp_all add: same_inside_upd waits_inside_def\<close>)
    then show ?thesis using 2 by (intro exI[of _ ?t]) auto
  next
    case 3
    obtain ws t where t: "clerk_step k ws s = Some t" "customers t i = On_seat" "same_inside (customers s) (customers t)"
      "clerk_pc t = (if clerk_pc s = Paperwork then Look else Paperwork)"
      using clerk_other[OF w(2,1), of i k] 3 by auto
    from t(1) have "office_do k (Clerk ws) s = Some t" by simp
    then have "service_step k i s t" by (rule service_stepI) (use t(2,3) in \<open>simp_all add: waits_inside_def\<close>)
    then show ?thesis using 3 w(2) t(2,4) by (cases "clerk_pc s") auto
  next
    case 4
    obtain ws t where t: "clerk_step k ws s = Some t" "customers t i = At_window" "same_inside (customers s) (customers t)"
      "clerk_pc t = (if clerk_pc s = Paperwork then Look else Paperwork)"
      using clerk_other[OF w(2,1), of i k] 4 by auto
    from t(1) have "office_do k (Clerk ws) s = Some t" by simp
    then have "service_step k i s t" by (rule service_stepI) (use t(2,3) in \<open>simp_all add: waits_inside_def\<close>)
    then show ?thesis using 4 w(2) t(2,4) by (cases "clerk_pc s") auto
  qed
qed

interpretation service: converging_system "\<lambda>s. office_inv k n s \<and> i < k \<and> waits_inside i s \<and> same_inside p (customers s)" "service_step k i"
  "\<lambda>s. office_inv k n s \<and> i < k \<and> waits_inside i s \<and> same_inside p (customers s)"
  "\<lambda>s. customers s i = At_window \<and> clerk_pc s = Paperwork" "\<lambda>s. served_in (clerk_pc s) (customers s i)"
proof unfold_locales
  show "office_inv k n t \<and> i < k \<and> waits_inside i t \<and> same_inside p (customers t)"
    if "service_step k i s t" "office_inv k n s \<and> i < k \<and> waits_inside i s \<and> same_inside p (customers s)" for s t
    using that office_inv_step[of k s t n] by (auto simp: service_step_def same_inside_def)
qed (use office_closer in blast)+

lemma service_steps: "(service_step k i)\<^sup>*\<^sup>* s t \<Longrightarrow> (office_step k)\<^sup>*\<^sup>* s t"
  by (rule mono_rtranclp[rule_format, of "service_step k i"]) (simp_all add: service_step_def)

text \<open>The clerk ends his paperwork and signals customer \<open>i\<close>, who waits for that at the window.\<close>

definition is_served :: "nat \<Rightarrow> nat \<Rightarrow> office_t \<Rightarrow> office_t \<Rightarrow> bool" where
  "is_served k i u v \<longleftrightarrow> customers u i = At_window \<and> clerk_pc u = Paperwork \<and> office_do k (Clerk [i]) u = Some v \<and> customers v i = Served"

lemma inside_served:
  assumes "office_inv k n s" and "i < k" and "waits_inside i s"
  shows "\<exists>u v. (office_step k)\<^sup>*\<^sup>* s u \<and> is_served k i u v \<and> same_inside (customers s) (customers v)"
proof -
  have "same_inside (customers s) (customers s)" by (simp add: same_inside_def)
  with assms obtain u where u: "(service_step k i)\<^sup>*\<^sup>* s u" "customers u i = At_window" "clerk_pc u = Paperwork"
    "same_inside (customers s) (customers u)"
    using service.can_reach_goal[of k n s i "customers s"] by blast
  let ?v = "u\<lparr>customers := (customers u)(i := Served), clerk_pc := Look\<rparr>"
  have "is_served k i u ?v"
    using u(2,3) assms(2) by (simp add: is_served_def clerk_step_def clerk_done_def signal_one_chosen)
  moreover have "same_inside (customers s) (customers ?v)" using u(2,4) by (auto simp: same_inside_def)
  ultimately show ?thesis using service_steps[OF u(1)] by blast
qed

lemma office_step_steps: "(office_step k)\<^sup>*\<^sup>* s t \<Longrightarrow> office_do k e t = Some u \<Longrightarrow> (office_step k)\<^sup>*\<^sup>* s u"
  unfolding office_step_def by (rule rtranclp.rtrancl_into_rtrancl) auto

text \<open>Somebody inside is served and leaves; the others stay where they are, inside or outside.\<close>

lemma inside_leaves:
  assumes "office_inv k n s" and "j < k" and "customers s j \<noteq> Outside"
  shows "\<exists>t. (office_step k)\<^sup>*\<^sup>* s t \<and> office_inv k n t \<and> customers t j = Outside \<and>
    (\<forall>l. l \<noteq> j \<longrightarrow> (customers t l = Outside \<longleftrightarrow> customers s l = Outside)) \<and> waiting t < n"
proof -
  obtain v where v: "(office_step k)\<^sup>*\<^sup>* s v" "customers v j = Served" "same_inside (customers s) (customers v)"
  proof (cases "customers s j = Served")
    case True
    then show ?thesis using that[of s] by (simp add: same_inside_def)
  next
    case False
    then obtain u v where "(office_step k)\<^sup>*\<^sup>* s u" "is_served k j u v" "same_inside (customers s) (customers v)"
      using inside_served[OF assms(1,2)] assms(3) by (auto simp: waits_inside_def)
    then show ?thesis using that[of v] office_step_steps unfolding is_served_def by blast
  qed
  let ?t = "v\<lparr>waiting := waiting v - 1, customers := (customers v)(j := Outside)\<rparr>"
  have t: "office_do k (Customer j) v = Some ?t" using v(2) assms(2) by (simp add: customer_walk_in_def)
  have "office_inv k n v" using office.inv_steps[OF v(1) assms(1)] .
  then have "waiting ?t < n" by (simp add: office_inv_def)
  moreover have st: "(office_step k)\<^sup>*\<^sup>* s ?t" by (rule office_step_steps[OF v(1) t])
  moreover have "office_inv k n ?t" using office.inv_steps[OF st assms(1)] .
  ultimately show ?thesis using v(3) by (intro exI[of _ ?t]) (simp add: same_inside_def)
qed

text \<open>Everybody can come in, when there are seats at all.\<close>

lemma can_come_in:
  assumes "office_inv k n s" and "i < k" and "0 < n"
  shows "\<exists>t. (office_step k)\<^sup>*\<^sup>* s t \<and> office_inv k n t \<and> waits_inside i t"
proof (cases "waits_inside i s")
  case False
  obtain t where t: "(office_step k)\<^sup>*\<^sup>* s t" "office_inv k n t" "customers t i = Outside" "waiting t < n"
  proof (cases "customers s i = Outside \<and> waiting s < n")
    case True
    then show ?thesis using that[of s] assms(1) by simp
  next
    case full: False
    obtain j where j: "j < k" "customers s j \<noteq> Outside" "customers s i = Outside \<or> j = i"
    proof (cases "customers s i = Outside")
      case True
      then have "0 < in_office k (customers s)" using full assms(1,3) by (auto simp: office_inv_def)
      then have "0 < count_pcs k (\<lambda>c. c \<noteq> Outside) (customers s)" by (simp add: in_office_def)
      then show ?thesis using that True count_pcs_ex by blast
    qed (use that assms(2) in blast)
    from inside_leaves[OF assms(1) j(1,2)] j(2,3) that show ?thesis by metis
  qed
  let ?u = "t\<lparr>waiting := waiting t + 1, clerk_pc := (if clerk_pc t = Asleep then Roused else clerk_pc t), customers := (customers t)(i := On_seat)\<rparr>"
  have "office_do k (Customer i) t = Some ?u"
    using t(2-4) assms(2) by (simp add: customer_walk_in_def walk_in_def office_inv_def)
  then have u: "(office_step k)\<^sup>*\<^sup>* s ?u" by (rule office_step_steps[OF t(1)])
  then show ?thesis using office.inv_steps[OF u assms(1)] by (intro exI[of _ ?u]) (simp add: waits_inside_def)
qed (use assms(1) in blast)

section \<open>Properties\<close>

text \<open>\<open>waiting\<close> is the number of the customers inside, never more than the seats, and the clerk
  never sleeps while one is inside.\<close>

theorem office_seats:
  assumes "0 \<le> n" and "office_reach k n s"
  shows "waiting s = in_office k (customers s) \<and> in_office k (customers s) \<le> n \<and>
    (clerk_pc s = Asleep \<longrightarrow> (\<forall>i<k. customers s i = Outside))"
proof -
  have "reach (\<lambda>s. s = office_init n \<and> 0 \<le> n) (office_step k) s" using assms by simp
  from office.inv_reach[OF this] show ?thesis using in_office_pos[of _ k "customers s"] by (fastforce simp: office_inv_def)
qed

theorem office_seats_witness:
  "\<exists>s. office_run 12 [Customer 3, Customer 5, Clerk [5]] (office_init 4) = Some s \<and> in_office 12 (customers s) = 2"
proof -
  obtain s where s: "office_run 12 [Customer 3, Customer 5, Clerk [5]] (office_init 4) = Some s" "waiting s = 2"
    by (simp add: office_init_def customer_walk_in_def walk_in_def clerk_step_def clerk_wait_def signal_one_chosen)
  have "office_reach 12 4 s" by (rule office_run_reach[OF s(1)]) (auto intro: reach_init)
  from office_seats[OF _ this] s show ?thesis by auto
qed

text \<open>C19: as long as threads wake up only when they are signalled: from every reachable state there is a way on to a moment
  in which any chosen customer, inside or not, is at the window and the clerk ends his paperwork and tells him so; and a customer who has taken a seat
  goes out again only after that: he is served by nothing but the end of the clerk's paperwork while he is at the window, and does not leave unserved.\<close>

theorem office_served:
  assumes "0 < n" and "i < k" and "office_reach k n s"
  shows "(\<exists>u v. (office_step k)\<^sup>*\<^sup>* s u \<and> is_served k i u v) \<and>
    (\<forall>e t. office_do k e s = Some t \<longrightarrow>
      (customers s i \<noteq> Served \<longrightarrow> customers t i = Served \<longrightarrow> (\<exists>ws. e = Clerk ws) \<and> clerk_pc s = Paperwork \<and> customers s i = At_window) \<and>
      (customers s i \<noteq> Outside \<longrightarrow> customers t i = Outside \<longrightarrow> customers s i = Served))"
proof (intro conjI allI impI)
  have "reach (\<lambda>s. s = office_init n \<and> 0 \<le> n) (office_step k) s" using assms by simp
  then have inv: "office_inv k n s" by (rule office.inv_reach)
  from can_come_in[OF this assms(2,1)] obtain t where t: "(office_step k)\<^sup>*\<^sup>* s t" "office_inv k n t" "waits_inside i t" by blast
  from inside_served[OF t(2) assms(2) t(3)] t(1) show "\<exists>u v. (office_step k)\<^sup>*\<^sup>* s u \<and> is_served k i u v" by (meson rtranclp_trans)
next
  fix e t assume e: "office_do k e s = Some t"
  have wake: "q i = customers s i \<or> customers s i = c \<and> q i = b" if "signal_one k c b ws s = Some (s\<lparr>customers := q\<rparr>)" for c b ws q
  proof -
    have "q = woken ws b (customers s)" "set ws \<subseteq> {i. customers s i = c}"
      using that by (auto simp: signal_one_def can_signal_def sleepers_def split: if_splits dest!: arg_cong[where f = customers])
    then show ?thesis by (auto simp: woken_def)
  qed
  have sig: "\<exists>q. t' = s\<lparr>customers := q\<rparr>" if "signal_one k c b ws s = Some t'" for c b ws t'
    using that by (auto simp: signal_one_def split: if_splits)
  have "(customers t i = customers s i) \<or> (\<exists>j. e = Customer j \<and> (customers s i, customers t i) \<in> {(Outside, On_seat), (Called_up, At_window), (Served, Outside)}) \<or>
      (\<exists>ws. e = Clerk ws \<and> (customers s i = On_seat \<and> customers t i = Called_up \<or> clerk_pc s = Paperwork \<and> customers s i = At_window \<and> customers t i = Served))"
    (is ?moves)
  proof (cases e)
    case (Customer j)
    then show ?thesis using e by (auto simp: customer_walk_in_def walk_in_def split: customer.splits if_splits)
  next
    case (Clerk ws)
    then have c: "clerk_step k ws s = Some t" using e by simp
    show ?thesis
    proof (cases "clerk_pc s")
      case Look
      then show ?thesis using c Clerk wake sig by (fastforce simp: clerk_step_def clerk_wait_def split: if_splits)
    next
      case Paperwork
      then show ?thesis using c Clerk wake sig by (fastforce simp: clerk_step_def clerk_done_def)
    qed (use c in \<open>auto simp: clerk_step_def\<close>)
  qed
  then show "customers s i \<noteq> Served \<Longrightarrow> customers t i = Served \<Longrightarrow> \<exists>ws. e = Clerk ws"
    "customers s i \<noteq> Served \<Longrightarrow> customers t i = Served \<Longrightarrow> clerk_pc s = Paperwork"
    "customers s i \<noteq> Served \<Longrightarrow> customers t i = Served \<Longrightarrow> customers s i = At_window"
    "customers s i \<noteq> Outside \<Longrightarrow> customers t i = Outside \<Longrightarrow> customers s i = Served" by auto
qed

theorem office_served_witness:
  "\<exists>s u v. office_run 12 [Customer 3] (office_init 4) = Some s \<and> customers s 3 = On_seat \<and>
     (office_step 12)\<^sup>*\<^sup>* s u \<and> is_served 12 7 u v"
proof -
  obtain s where s: "office_run 12 [Customer 3] (office_init 4) = Some s" "customers s 3 = On_seat"
    by (simp add: office_init_def customer_walk_in_def walk_in_def)
  have "office_reach 12 4 s" by (rule office_run_reach[OF s(1)]) (auto intro: reach_init)
  from office_served[OF _ _ this, of 7] s show ?thesis by auto
qed

text \<open>The end of the paperwork can be signalled before the customer it was done for has
  got to the window: the signal is lost, and the customer waits for the end of a second paperwork.\<close>

theorem office_lost_signal:
  "\<exists>s. office_run 12 [Customer 3, Clerk [3], Clerk [], Customer 3] (office_init 4) = Some s \<and>
     customers s 3 = At_window \<and> clerk_pc s = Look"
  by (simp add: office_init_def customer_walk_in_def walk_in_def clerk_step_def clerk_wait_def clerk_done_def signal_one_chosen)
     (simp add: signal_one_def can_signal_def sleepers_def woken_def customer_walk_in_def)

end
