(* ===== verification/Cycle.thy ===== *)
theory Cycle
  imports Conc
begin

text \<open>
  The ring of processes of \<open>2/so21_lista_2/cycle.c\<close> that pass a ball, the signal \<open>SIGUSR1\<close>, around. The children
  are \<open>0..<n\<close> in the order of their creation and \<open>n\<close> is the parent. The signal is blocked from before the first \<open>fork\<close>, except
  in \<open>sigsuspend\<close>: a signal that is sent is pending, and a second one would merge with it. \<open>SIGINT\<close>,
  which ends a process, is in \<open>Ringstop\<close>.
\<close>

section \<open>The program\<close>

text \<open>A process waits in \<open>sigsuspend\<close> (or is on its way there), or it has the ball.\<close>

datatype play = Waiting | Has_ball

record ring =
  pending :: "nat \<Rightarrow> bool"
  plays :: "nat \<Rightarrow> play"

text \<open>The argument \<open>next\<close> of \<open>play\<close>: the first child passes to its parent, the others to the child before them, the
  parent to the last child.\<close>

definition next_of :: "nat \<Rightarrow> nat \<Rightarrow> nat" where
  "next_of n i = (if i = n then n - 1 else if i = 0 then n else i - 1)"

definition play_step :: "nat \<Rightarrow> nat \<Rightarrow> ring \<Rightarrow> ring option" where
  "play_step n i s =
    (case plays s i of
       Waiting \<Rightarrow> (if pending s i then Some (s\<lparr>pending := (pending s)(i := False), plays := (plays s)(i := Has_ball)\<rparr>) else None)
     | Has_ball \<Rightarrow> Some (s\<lparr>pending := (pending s)(next_of n i := True), plays := (plays s)(i := Waiting)\<rparr>))"

text \<open>The parent has forked all the children and is about to send the first signal.\<close>

definition cycle_main :: "int \<Rightarrow> ring run" where
  "cycle_main children =
    (if children < 4 \<or> children > 20 then Inl App_error
     else Inr \<lparr>pending = (\<lambda>_. False), plays = (\<lambda>_. Waiting)(nat children := Has_ball)\<rparr>)"

definition ring_step :: "nat \<Rightarrow> ring \<Rightarrow> ring \<Rightarrow> bool" where
  "ring_step n = interleaved (Suc n) (play_step n)"

abbreviation ring_reach :: "nat \<Rightarrow> ring \<Rightarrow> bool" where
  "ring_reach n \<equiv> reach (\<lambda>s. cycle_main (int n) = Inr s) (ring_step n)"

section \<open>One ball\<close>

text \<open>The ball is at \<open>b\<close>, in its hands or on the way to it, and nowhere else.\<close>

definition ball :: "nat \<Rightarrow> bool \<Rightarrow> ring" where
  "ball b h = \<lparr>pending = (\<lambda>_. False)(b := \<not> h), plays = (\<lambda>_. Waiting)(b := if h then Has_ball else Waiting)\<rparr>"

definition turn :: "nat \<Rightarrow> nat \<times> bool \<Rightarrow> nat \<times> bool" where
  "turn n = (\<lambda>(b, h). if h then (next_of n b, False) else (b, True))"

lemma next_of_le: "b \<le> n \<Longrightarrow> next_of n b \<le> n"
  by (auto simp: next_of_def)

lemma ring_step_ball:
  assumes "b \<le> n" and "0 < n"
  shows "ring_step n (ball b h) t \<longleftrightarrow> t = (case turn n (b, h) of (b', h') \<Rightarrow> ball b' h')"
proof
  assume "ring_step n (ball b h) t"
  then obtain i where i: "play_step n i (ball b h) = Some t" by (auto simp: ring_step_def interleaved_def)
  then have "i = b" by (cases h) (auto simp: play_step_def ball_def split: if_splits)
  then show "t = (case turn n (b, h) of (b', h') \<Rightarrow> ball b' h')"
    using i assms by (cases h) (auto simp: play_step_def ball_def turn_def next_of_def fun_eq_iff)
next
  assume t: "t = (case turn n (b, h) of (b', h') \<Rightarrow> ball b' h')"
  have "play_step n b (ball b h) = Some t"
    using assms unfolding t by (cases h) (auto simp: play_step_def ball_def turn_def next_of_def fun_eq_iff)
  then show "ring_step n (ball b h) t" using assms(1) unfolding ring_step_def interleaved_def by (intro exI[of _ b]) simp
qed

definition one_ball :: "nat \<Rightarrow> ring \<Rightarrow> bool" where
  "one_ball n s \<longleftrightarrow> 0 < n \<and> (\<exists>b\<le>n. \<exists>h. s = ball b h)"

interpretation cycle: safe_system "\<lambda>s. cycle_main (int n) = Inr s" "ring_step n" "one_ball n"
proof unfold_locales
  show "one_ball n s" if "cycle_main (int n) = Inr s" for s
  proof -
    have "s = ball n True" "0 < n" using that by (auto simp: cycle_main_def ball_def fun_eq_iff split: if_splits)
    then show ?thesis unfolding one_ball_def by blast
  qed
next
  show "one_ball n t" if s: "ring_step n s t" "one_ball n s" for s t
  proof -
    obtain b h where b: "s = ball b h" "b \<le> n" "0 < n" using s(2) by (auto simp: one_ball_def)
    then have "t = (case turn n (b, h) of (b', h') \<Rightarrow> ball b' h')" using s(1) ring_step_ball by simp
    then show ?thesis using b next_of_le[OF b(2)] unfolding one_ball_def turn_def by (cases h) auto
  qed
qed

section \<open>The ball goes round\<close>

lemma turn_le: "fst p \<le> n \<Longrightarrow> fst (turn n p) \<le> n"
  by (cases p) (simp add: turn_def next_of_le)

lemma ring_steps_ball:
  assumes "b \<le> n" and "0 < n"
  shows "(ring_step n ^^ m) (ball b h) t \<longleftrightarrow> t = (case (turn n ^^ m) (b, h) of (b', h') \<Rightarrow> ball b' h')"
proof (induction m arbitrary: t)
  case (Suc m)
  obtain b' h' where m: "(turn n ^^ m) (b, h) = (b', h')" by fastforce
  have "fst ((turn n ^^ m) (b, h)) \<le> n" using assms(1) by (induction m) (simp_all add: turn_le)
  then have "b' \<le> n" using m by simp
  have "(ring_step n ^^ Suc m) (ball b h) t \<longleftrightarrow> ring_step n (ball b' h') t" using Suc.IH m by (auto simp: relcompp_apply)
  also have "\<dots> \<longleftrightarrow> t = (case turn n (b', h') of (b', h') \<Rightarrow> ball b' h')"
    using \<open>b' \<le> n\<close> assms(2) by (rule ring_step_ball)
  finally show ?case using m by simp
qed auto

text \<open>Two steps pass the ball on, one place down the ring.\<close>

lemma next_of_mod: "b \<le> n \<Longrightarrow> 0 < n \<Longrightarrow> next_of n b = (b + n) mod Suc n"
proof (cases "b = 0 \<or> b = n")
  case False
  assume "b \<le> n" "0 < n"
  then have "b + n = (b - 1) + Suc n" "b - 1 < Suc n" using False by simp_all
  then have "(b + n) mod Suc n = b - 1" by (metis mod_add_self2 mod_less)
  then show ?thesis using False by (simp add: next_of_def)
next
  case True
  assume "b \<le> n" "0 < n"
  then have "(n + n) mod Suc n = n - 1" by (subst mod_if) simp
  then show ?thesis using True by (auto simp: next_of_def)
qed

lemma turns_mod:
  assumes "b \<le> n" and "0 < n"
  shows "(turn n ^^ (2 * j)) (b, True) = ((b + j * n) mod Suc n, True)"
proof (induction j)
  case (Suc j)
  have "turn n (turn n ((b + j * n) mod Suc n, True)) = (next_of n ((b + j * n) mod Suc n), True)" by (simp add: turn_def)
  moreover have "(b + j * n) mod Suc n \<le> n" by (simp add: less_Suc_eq_le[symmetric])
  then have "next_of n ((b + j * n) mod Suc n) = ((b + j * n) mod Suc n + n) mod Suc n" using assms(2) by (rule next_of_mod)
  moreover have "((b + j * n) mod Suc n + n) mod Suc n = (b + Suc j * n) mod Suc n"
    by (simp only: mod_add_left_eq) (simp add: algebra_simps)
  ultimately show ?case using Suc by simp
qed (use assms in simp)

text \<open>The number of passes from \<open>b\<close> to \<open>i\<close>.\<close>

definition passes :: "nat \<Rightarrow> nat \<Rightarrow> nat \<Rightarrow> nat" where
  "passes n b i = (if i \<le> b then b - i else b + Suc n - i)"

lemma passes_reach:
  assumes "b \<le> n" and "i \<le> n"
  shows "(b + passes n b i * n) mod Suc n = i" and "passes n b i \<le> n"
proof -
  show "passes n b i \<le> n" using assms unfolding passes_def by arith
  obtain k where "b + passes n b i * n = i + k * Suc n"
  proof (cases "i \<le> b")
    case True
    then have "b + passes n b i * n = i + (b - i) * Suc n" by (simp add: passes_def)
    then show ?thesis by (rule that)
  next
    case False
    define j where "j = b + n - i"
    have "b + n = i + j" using assms False by (simp add: j_def)
    then have "b + Suc j * n = i + j * Suc n" by simp
    moreover have "passes n b i = Suc j" using assms False by (simp add: passes_def j_def)
    ultimately show ?thesis using that by metis
  qed
  then have "(b + passes n b i * n) mod Suc n = i mod Suc n" by (simp only: mod_mult_self1)
  then show "(b + passes n b i * n) mod Suc n = i" using assms(2) by simp
qed

lemma ball_comes:
  assumes "b \<le> n" and "0 < n" and "i \<le> n"
  shows "\<exists>m\<le>2 * n + 1. (turn n ^^ m) (b, h) = (i, True)"
proof (cases h)
  case True
  then have "(turn n ^^ (2 * passes n b i)) (b, h) = (i, True)"
    using turns_mod[OF assms(1,2)] passes_reach(1)[OF assms(1,3)] by simp
  then show ?thesis using passes_reach(2)[OF assms(1,3)] by (intro exI[of _ "2 * passes n b i"]) simp
next
  case False
  then have "turn n (b, h) = (b, True)" by (simp add: turn_def)
  then have "(turn n ^^ Suc (2 * passes n b i)) (b, h) = (i, True)"
    using turns_mod[OF assms(1,2)] passes_reach(1)[OF assms(1,3)] by (simp only: funpow_Suc_right o_apply)
  then show ?thesis using passes_reach(2)[OF assms(1,3)] by (intro exI[of _ "Suc (2 * passes n b i)"]) simp
qed

section \<open>Properties\<close>

text \<open>In every reachable state exactly one process has the ball or has it on the way, so that no signal
  is ever sent to a process for which one is pending.\<close>

theorem cycle_one_ball:
  assumes "ring_reach n s"
  shows "(\<exists>!b. pending s b \<or> plays s b = Has_ball) \<and> (\<forall>i. plays s i = Has_ball \<longrightarrow> \<not> pending s (next_of n i))"
proof -
  obtain b h where "s = ball b h" using cycle.inv_reach[OF assms] by (auto simp: one_ball_def)
  then show ?thesis by (cases h) (auto simp: ball_def split: if_splits)
qed

theorem cycle_one_ball_witness: "\<exists>!b. pending (ball 4 True) b \<or> plays (ball 4 True) b = Has_ball"
proof -
  have "ring_reach 4 (ball 4 True)"
    by (rule reach_init) (simp add: cycle_main_def ball_def fun_eq_iff)
  from cycle_one_ball[OF this] show ?thesis by blast
qed

text \<open>C20: however the processes are scheduled, every process has the ball again within
  \<open>2 * n + 1\<close> steps of any reachable state, and the ring never stops.\<close>

theorem cycle_liveness:
  assumes "ring_reach n s" and "i \<le> n"
  shows "(\<exists>t. ring_step n s t) \<and> (\<exists>m\<le>2 * n + 1. \<forall>t. (ring_step n ^^ m) s t \<longrightarrow> plays t i = Has_ball)"
proof -
  obtain b h where b: "s = ball b h" "b \<le> n" "0 < n" using cycle.inv_reach[OF assms(1)] by (auto simp: one_ball_def)
  obtain m where m: "m \<le> 2 * n + 1" "(turn n ^^ m) (b, h) = (i, True)" using ball_comes[OF b(2,3) assms(2)] by blast
  then have "plays t i = Has_ball" if "(ring_step n ^^ m) s t" for t
    using that ring_steps_ball[OF b(2,3)] unfolding b(1) by (simp add: ball_def)
  then show ?thesis using m(1) ring_step_ball[OF b(2,3)] unfolding b(1) by blast
qed

theorem cycle_liveness_witness:
  "\<exists>m\<le>9. \<forall>t. (ring_step 4 ^^ m) (ball 4 True) t \<longrightarrow> plays t 2 = Has_ball"
proof -
  have "ring_reach 4 (ball 4 True)"
    by (rule reach_init) (simp add: cycle_main_def ball_def fun_eq_iff)
  from cycle_liveness[OF this, of 2] show ?thesis by simp
qed

end
