(* ===== verification/Demand.thy ===== *)
theory Demand
  imports Prelude
begin

text \<open>
  The demand pager of \<open>2/so21_lista_2/demand.c\<close>: the handler of \<open>SIGSEGV\<close> maps the missing pages of
  a region, makes its read-only pages writable, and ends the process at an access outside it. The hardware is the
  parameterless part of the model: an access is looked up by its page, a fault calls the handler,
  and the instruction is then run again. \<open>ps\<close> is the page size, \<open>rnd\<close> the values of \<open>random()\<close>. The messages are left
  out; \<open>faults\<close> records the pages that the handler mapped.
\<close>

unbundle bit_operations_syntax

section \<open>The program\<close>

datatype prot = PROT_READ | PROT_READ_WRITE

datatype si_code = SEGV_MAPERR | SEGV_ACCERR

text \<open>How a run stops early: it exits, or it has used up its fuel.\<close>

datatype stop = Exit nat | Out_of_fuel

record memory =
  mapped :: "u64 \<Rightarrow> prot option"
  cells :: "u64 \<Rightarrow> u64"
  faults :: "u64 list"

definition ADDR_START :: u64 where
  "ADDR_START = 0x10000000"

definition ADDR_END :: u64 where
  "ADDR_END = 0x10010000"

definition page_addr :: "u64 \<Rightarrow> u64 \<Rightarrow> u64" where
  "page_addr ps a = a AND NOT (ps - 1)"

text \<open>\<open>MAP_FIXED\<close> replaces what is mapped there by a page of zeros.\<close>

definition mmap_page :: "u64 \<Rightarrow> u64 \<Rightarrow> prot \<Rightarrow> memory \<Rightarrow> memory" where
  "mmap_page ps p pr m =
    m\<lparr>mapped := (mapped m)(p \<mapsto> pr), cells := (\<lambda>a. if page_addr ps a = p then 0 else cells m a)\<rparr>"

definition sigsegv_handler :: "u64 \<Rightarrow> u64 \<Rightarrow> si_code \<Rightarrow> memory \<Rightarrow> stop + memory" where
  "sigsegv_handler ps fault_addr code m =
    (let page = page_addr ps fault_addr; m' = m\<lparr>faults := faults m @ [page]\<rparr>
     in if fault_addr < ADDR_START \<or> ADDR_END \<le> fault_addr then Inl (Exit (128 + 11))
        else case code of
          SEGV_MAPERR \<Rightarrow> Inr (mmap_page ps page PROT_READ_WRITE m')
        | SEGV_ACCERR \<Rightarrow> Inr (mmap_page ps page PROT_READ_WRITE m'))"

text \<open>A write of the program; the fuel bounds the number of times it is run.\<close>

definition write_fault :: "u64 \<Rightarrow> u64 \<Rightarrow> memory \<Rightarrow> si_code option" where
  "write_fault ps a m =
    (case mapped m (page_addr ps a) of None \<Rightarrow> Some SEGV_MAPERR | Some PROT_READ \<Rightarrow> Some SEGV_ACCERR
     | Some PROT_READ_WRITE \<Rightarrow> None)"

fun store :: "nat \<Rightarrow> u64 \<Rightarrow> u64 \<Rightarrow> u64 \<Rightarrow> memory \<Rightarrow> stop + memory" where
  "store 0 ps a v m = Inl Out_of_fuel"
| "store (Suc fuel) ps a v m =
    (case write_fault ps a m of
       None \<Rightarrow> Inr (m\<lparr>cells := (cells m)(a := v)\<rparr>)
     | Some code \<Rightarrow> (case sigsegv_handler ps a code m of Inl e \<Rightarrow> Inl e | Inr m' \<Rightarrow> store fuel ps a v m'))"

text \<open>The pages of the region, some of them mapped readable; \<open>r\<close> values of \<open>random\<close> have been used.\<close>

fun map_some :: "u64 \<Rightarrow> (nat \<Rightarrow> nat) \<Rightarrow> nat \<Rightarrow> nat \<Rightarrow> u64 \<Rightarrow> memory \<Rightarrow> memory" where
  "map_some ps rnd 0 r addr m = m"
| "map_some ps rnd (Suc n) r addr m =
    map_some ps rnd n (r + 1) (addr + ps) (if rnd r mod 2 \<noteq> 0 then mmap_page ps addr PROT_READ m else m)"

definition n_pages :: "u64 \<Rightarrow> nat" where
  "n_pages ps = (unat (ADDR_END - ADDR_START) + unat ps - 1) div unat ps"

definition nelems :: nat where
  "nelems = unat (ADDR_END - ADDR_START) div 8"

definition elem :: "nat \<Rightarrow> u64" where
  "elem i = ADDR_START + word_of_nat (8 * i)"

fun writes :: "u64 \<Rightarrow> (nat \<Rightarrow> nat) \<Rightarrow> nat \<Rightarrow> nat \<Rightarrow> memory \<Rightarrow> stop + memory" where
  "writes ps rnd 0 r m = Inr m"
| "writes ps rnd (Suc n) r m =
    (let index = rnd r mod nelems
     in case store 2 ps (elem index) (elem index) m of Inl e \<Rightarrow> Inl e | Inr m' \<Rightarrow> writes ps rnd n (r + 1) m')"

definition demand_writes :: "u64 \<Rightarrow> (nat \<Rightarrow> nat) \<Rightarrow> stop + memory" where
  "demand_writes ps rnd =
    (let m = map_some ps rnd (n_pages ps) 0 ADDR_START \<lparr>mapped = Map.empty, cells = (\<lambda>_. 0), faults = []\<rparr>
     in writes ps rnd (nelems * 2) (n_pages ps) m)"

definition demand_main :: "u64 \<Rightarrow> (nat \<Rightarrow> nat) \<Rightarrow> stop + memory" where
  "demand_main ps rnd =
    (case demand_writes ps rnd of Inl e \<Rightarrow> Inl e | Inr m \<Rightarrow> store 2 ps (elem nelems) 0xDEADC0DE m)"

section \<open>Pages\<close>

lemma page_addr_mask: "page_addr (2 ^ k) a = a AND NOT (mask k)"
  by (simp add: page_addr_def mask_eq_exp_minus_1)

lemma page_addr_idem: "page_addr ps (page_addr ps a) = page_addr ps a"
  by (simp add: page_addr_def and.assoc)

lemma page_addr_le: "page_addr ps a \<le> a"
  by (simp add: page_addr_def word_and_le2)

lemma page_addr_END:
  assumes "k \<le> 16"
  shows "page_addr (2 ^ k) ADDR_END = ADDR_END"
proof -
  have e: "ADDR_END = push_bit 16 0x1001" by (simp add: ADDR_END_def)
  have b: "16 \<le> i" if "bit ADDR_END i" for i using that by (simp only: e bit_push_bit_iff)
  show ?thesis
  proof (rule bit_eqI)
    show "bit (page_addr (2 ^ k) ADDR_END) i \<longleftrightarrow> bit ADDR_END i" if "possible_bit TYPE(u64) i" for i
      using that b[of i] assms by (auto simp: page_addr_mask bit_and_iff bit_not_iff bit_mask_iff)
  qed
qed

lemma unat64_of_nat: "n < 2 ^ 64 \<Longrightarrow> unat (word_of_nat n :: u64) = n"
  by (simp add: unat_of_nat)

lemma elem_nat:
  assumes "i \<le> nelems"
  shows "unat (elem i) = 0x10000000 + 8 * i"
proof -
  have i: "8 * i \<le> 0x10000" using assms by (simp add: nelems_def ADDR_START_def ADDR_END_def)
  then have w: "unat (word_of_nat (8 * i) :: u64) = 8 * i" by (intro unat64_of_nat) simp
  have "unat (elem i) = (0x10000000 + unat (word_of_nat (8 * i) :: u64)) mod 2 ^ 64"
    unfolding elem_def ADDR_START_def by (subst unat_word_ariths(1)) simp
  then show ?thesis using i unfolding w by simp
qed

lemma elem_bounds: "i < nelems \<Longrightarrow> ADDR_START \<le> elem i \<and> elem i < ADDR_END"
  using elem_nat[of i] unfolding word_le_nat_alt word_less_nat_alt
  by (simp add: ADDR_START_def ADDR_END_def nelems_def)

lemma elem_inj: "i < nelems \<Longrightarrow> j < nelems \<Longrightarrow> elem i = elem j \<longleftrightarrow> i = j"
  using elem_nat[of i] elem_nat[of j] by (metis add_left_cancel less_imp_le mult_left_cancel zero_neq_numeral)

lemma elem_end: "elem nelems = ADDR_END"
  by (simp add: elem_def nelems_def ADDR_START_def ADDR_END_def)

section \<open>The writes\<close>

text \<open>What holds before every write: \<open>ws\<close> are the elements that have been written; the pages are mapped
  by \<open>map_some\<close> or by the handler, and only those that are writable hold anything.\<close>

definition region :: "u64 \<Rightarrow> bool" where
  "region a \<longleftrightarrow> ADDR_START \<le> a \<and> a < ADDR_END"

definition pager_inv :: "nat \<Rightarrow> nat set \<Rightarrow> memory \<Rightarrow> bool" where
  "pager_inv k ws m \<longleftrightarrow>
     (\<forall>a. cells m a \<noteq> 0 \<longrightarrow> mapped m (page_addr (2 ^ k) a) = Some PROT_READ_WRITE) \<and>
     (\<forall>p. mapped m p \<noteq> None \<longrightarrow> p < ADDR_END) \<and>
     distinct (faults m) \<and> (\<forall>p\<in>set (faults m). mapped m p = Some PROT_READ_WRITE) \<and>
     (\<forall>i<nelems. cells m (elem i) = (if i \<in> ws then elem i else 0))"

lemma store_elem:
  assumes "pager_inv k ws m" and "i < nelems"
  shows "\<exists>m'. store 2 (2 ^ k) (elem i) (elem i) m = Inr m' \<and> pager_inv k (insert i ws) m'"
proof -
  let ?p = "page_addr (2 ^ k) (elem i)"
  let ?m = "mmap_page (2 ^ k) ?p PROT_READ_WRITE (m\<lparr>faults := faults m @ [?p]\<rparr>)"
  have r: "\<not> elem i < ADDR_START" "\<not> ADDR_END \<le> elem i" "?p < ADDR_END"
    using elem_bounds[OF assms(2)] page_addr_le[of "2 ^ k" "elem i"] by auto
  show ?thesis
  proof (cases "mapped m ?p = Some PROT_READ_WRITE")
    case True
    then have "store 2 (2 ^ k) (elem i) (elem i) m = Inr (m\<lparr>cells := (cells m)(elem i := elem i)\<rparr>)"
      by (simp add: write_fault_def numeral_2_eq_2)
    then show ?thesis using assms True by (auto simp: pager_inv_def elem_inj)
  next
    case False
    then have z: "\<forall>a. page_addr (2 ^ k) a = ?p \<longrightarrow> cells m a = 0" using assms(1) by (fastforce simp: pager_inv_def)
    then have m: "?m = m\<lparr>mapped := (mapped m)(?p \<mapsto> PROT_READ_WRITE), faults := faults m @ [?p]\<rparr>"
      by (auto simp: mmap_page_def fun_eq_iff intro!: memory.equality)
    have "store 2 (2 ^ k) (elem i) (elem i) m = store 1 (2 ^ k) (elem i) (elem i) ?m"
      using False r by (auto simp: write_fault_def numeral_2_eq_2 sigsegv_handler_def Let_def split: option.splits prot.splits)
    also have "\<dots> = Inr (?m\<lparr>cells := (cells ?m)(elem i := elem i)\<rparr>)" by (simp add: m write_fault_def)
    finally have "store 2 (2 ^ k) (elem i) (elem i) m = Inr (?m\<lparr>cells := (cells ?m)(elem i := elem i)\<rparr>)" .
    moreover have "pager_inv k (insert i ws) (?m\<lparr>cells := (cells ?m)(elem i := elem i)\<rparr>)"
      using assms False r(3) unfolding m by (auto simp: pager_inv_def elem_inj)
    ultimately show ?thesis by blast
  qed
qed

lemma writes_ok:
  assumes "pager_inv k ws m"
  shows "\<exists>m'. writes (2 ^ k) rnd n r m = Inr m' \<and> pager_inv k (ws \<union> (\<lambda>j. rnd j mod nelems) ` {r..<r + n}) m'"
  using assms
proof (induction n arbitrary: r m ws)
  case (Suc n)
  have "rnd r mod nelems < nelems" by (simp add: nelems_def ADDR_START_def ADDR_END_def)
  from store_elem[OF Suc.prems this] obtain m1 where
    m1: "store 2 (2 ^ k) (elem (rnd r mod nelems)) (elem (rnd r mod nelems)) m = Inr m1"
    "pager_inv k (insert (rnd r mod nelems) ws) m1" by blast
  have "{r..<r + Suc n} = insert r {r + 1..<r + 1 + n}" by auto
  with Suc.IH[OF m1(2), of "r + 1"] m1(1) show ?case by simp
qed simp

section \<open>The start and the end\<close>

lemma unat_ps: "k \<le> 16 \<Longrightarrow> unat (2 ^ k :: u64) = 2 ^ k"
proof -
  assume "k \<le> 16"
  then have "(2 :: nat) ^ k < 2 ^ 64" by (intro power_strict_increasing) auto
  from unat64_of_nat[OF this] show ?thesis by simp
qed

lemma n_pages_exact:
  assumes "k \<le> 16"
  shows "n_pages (2 ^ k) * 2 ^ k = unat (ADDR_END - ADDR_START)"
proof -
  have u: "unat (ADDR_END - ADDR_START) = 2 ^ 16" by (simp add: ADDR_END_def ADDR_START_def)
  have "(2 :: nat) ^ 16 = 2 ^ (16 - k) * 2 ^ k" using assms by (simp add: power_add[symmetric])
  moreover have "((2 :: nat) ^ (16 - k) * 2 ^ k + 2 ^ k - 1) div 2 ^ k = 2 ^ (16 - k)"
    using div_mult_self3[of "(2 :: nat) ^ k" "2 ^ (16 - k)" "2 ^ k - 1"] by (simp add: add.commute)
  ultimately show ?thesis unfolding n_pages_def u unat_ps[OF assms] by simp
qed

definition untouched :: "memory \<Rightarrow> bool" where
  "untouched m \<longleftrightarrow> (\<forall>a. cells m a = 0) \<and> (\<forall>p. mapped m p \<noteq> None \<longrightarrow> p < ADDR_END) \<and> faults m = []"

lemma map_some_ok:
  assumes "k \<le> 16" and "unat addr + n * 2 ^ k \<le> unat ADDR_END" and "untouched m"
  shows "untouched (map_some (2 ^ k) rnd n r addr m)"
  using assms(2,3)
proof (induction n arbitrary: r addr m)
  case (Suc n)
  have p: "(0 :: nat) < 2 ^ k" by simp
  have lt: "unat addr < unat ADDR_END" using Suc.prems(1) p unfolding mult_Suc by linarith
  have "unat addr + 2 ^ k \<le> unat ADDR_END" using Suc.prems(1) by simp
  then have "unat addr + unat (2 ^ k :: u64) < 2 ^ LENGTH(64)"
    using unat_ps[OF assms(1)] by (simp add: ADDR_END_def)
  then have "unat (addr + 2 ^ k) = unat addr + 2 ^ k" using unat_ps[OF assms(1)] by (subst unat_word_ariths(1)) simp
  then have "unat (addr + 2 ^ k) + n * 2 ^ k \<le> unat ADDR_END" using Suc.prems(1) by simp
  moreover have "untouched (mmap_page (2 ^ k) addr PROT_READ m)"
    using Suc.prems(2) lt by (auto simp: untouched_def mmap_page_def word_less_nat_alt)
  ultimately show ?case using Suc by simp
qed simp

lemma demand_writes_ok:
  assumes "k \<le> 16"
  shows "\<exists>m. demand_writes (2 ^ k) rnd = Inr m \<and>
    pager_inv k ((\<lambda>j. rnd j mod nelems) ` {n_pages (2 ^ k)..<n_pages (2 ^ k) + nelems * 2}) m"
proof -
  let ?m = "map_some (2 ^ k) rnd (n_pages (2 ^ k)) 0 ADDR_START \<lparr>mapped = Map.empty, cells = (\<lambda>_. 0), faults = []\<rparr>"
  have "unat ADDR_START + n_pages (2 ^ k) * 2 ^ k \<le> unat ADDR_END"
    unfolding n_pages_exact[OF assms] by (simp add: ADDR_START_def ADDR_END_def)
  then have "untouched ?m" using assms by (intro map_some_ok) (simp_all add: untouched_def)
  then have "pager_inv k {} ?m" by (simp add: pager_inv_def untouched_def)
  from writes_ok[OF this] show ?thesis by (simp add: demand_writes_def)
qed

section \<open>Properties\<close>

text \<open>C21: for every page size up to the size of the region, all the writes into the region end
  (each is run at most twice) and are in memory, in spite of the pages that are replaced; no page faults twice; and
  the access behind the region ends the process with the exit status of a segmentation fault.\<close>

theorem demand_ok:
  assumes "k \<le> 16"
  shows "\<exists>m. demand_writes (2 ^ k) rnd = Inr m \<and> distinct (faults m) \<and>
    (\<forall>i<nelems. cells m (elem i) =
       (if \<exists>j<nelems * 2. rnd (n_pages (2 ^ k) + j) mod nelems = i then elem i else 0)) \<and>
    demand_main (2 ^ k) rnd = Inl (Exit 139)"
proof -
  let ?n = "n_pages (2 ^ k)"
  let ?ws = "(\<lambda>j. rnd j mod nelems) ` {?n..<?n + nelems * 2}"
  obtain m where m: "demand_writes (2 ^ k) rnd = Inr m" "pager_inv k ?ws m"
    using demand_writes_ok[OF assms] by blast
  have "i \<in> ?ws \<longleftrightarrow> (\<exists>j<nelems * 2. rnd (?n + j) mod nelems = i)" for i
    by (auto simp: image_iff) (metis add_less_cancel_left le_add_diff_inverse)
  then have c: "\<forall>i<nelems. cells m (elem i) = (if \<exists>j<nelems * 2. rnd (?n + j) mod nelems = i then elem i else 0)"
    using m(2) by (simp add: pager_inv_def)
  have "mapped m ADDR_END = None" using m(2) by (auto simp: pager_inv_def)
  then have "demand_main (2 ^ k) rnd = Inl (Exit 139)"
    using m(1) by (simp add: demand_main_def numeral_2_eq_2 elem_end write_fault_def page_addr_END[OF assms] sigsegv_handler_def)
  with c m show ?thesis by (auto simp: pager_inv_def)
qed

theorem demand_ok_witness: "demand_main (2 ^ 12) (\<lambda>j. j * j) = Inl (Exit 139)"
proof -
  have "(12 :: nat) \<le> 16" by simp
  from demand_ok[OF this, of "\<lambda>j. j * j"] show ?thesis by blast
qed

end
