(* ===== verification/Game.thy ===== *)
theory Game
  imports Ctext
begin

text \<open>
  The addition game of \<open>3/so21_lista_3/game.c\<close>: three lives, six seconds for a question. The program is run on
  a list of what happens around it: lines are typed, calls of \<open>Read\<close> return, the alarm rings after a second, the player interrupts.
  The terminal hands over whole lines; what a call of \<open>Read\<close> does not take of a line stays for the next one.
  \<open>rnd\<close> are the values of \<open>random()\<close>. The cursor of the terminal is left out, and the library function that asks for it is taken to leave the lines alone; the numbers a
  player types are taken to fit an \<open>int\<close>.
\<close>

section \<open>Reading a number\<close>

datatype signo = SIGINT | SIGALRM

text \<open>\<open>Typed\<close>: a line with its newline comes to the terminal, at any time (an empty one is the end of the input). \<open>Reads\<close>: a call of \<open>Read\<close> returns; without a line it waits.
  \<open>Early\<close> is a signal that arrives when no \<open>readnum\<close> has called \<open>sigsetjmp\<close> and not yet returned: while \<open>game\<close> computes or writes
  its prompt (then it waits until the end of the prompt), or at the start of \<open>readnum\<close>.\<close>

datatype input = Signalled signo | Typed string | Reads | Early signo

text \<open>\<open>Returns\<close>: the number of the signal, or \<open>None\<close> for 0, the number that is stored, the lines that are left, and what happens later. \<open>Jumps\<close>: the handler
  of an early signal jumps to a frame that does not exist any more, or into a buffer that has never been set.\<close>

datatype reading = Returns "signo option" int "string list" "input list" | Waits | Jumps

fun readnum :: "string list \<Rightarrow> input list \<Rightarrow> reading" where
  "readnum lines [] = Waits"
| "readnum lines (Typed l # is) = readnum (lines @ [l]) is"
| "readnum lines (Signalled s # is) = Returns (Some s) 0 lines is"
| "readnum lines (Early s # is) = Jumps"
| "readnum lines (Reads # is) =
    (case lines of
       [] \<Rightarrow> readnum [] is
     | l # ls \<Rightarrow> Returns None (atoi (take 119 l)) (if length l \<le> 119 then ls else drop 119 l # ls) is)"

lemma readnum_shorter: "readnum lines is = Returns s v ls is' \<Longrightarrow> length is' < length is"
  by (induction lines "is" rule: readnum.induct) (auto split: list.splits)

section \<open>The game\<close>

record game =
  timeout :: int
  num1 :: int
  num2 :: int
  last_sig :: "signo option"
  lives :: int
  score :: int
  unread :: "string list"

text \<open>How a run ends: the game is over with a score, the player says good bye, the input is used up, or the
  handler has jumped to a stale frame.\<close>

datatype outcome = Game_over int | Bye | Waiting_for_input | Stale_jump

definition ask :: "(nat \<Rightarrow> nat) \<Rightarrow> nat \<Rightarrow> game \<Rightarrow> game" where
  "ask rnd r g = g\<lparr>timeout := 5, num1 := int (rnd r mod 100), num2 := int (rnd (r + 1) mod 100)\<rparr>"

text \<open>The end of the loop body, after \<open>readnum\<close> has returned.\<close>

definition answer_to :: "signo option \<Rightarrow> int \<Rightarrow> string list \<Rightarrow> game \<Rightarrow> game" where
  "answer_to sig num lines g =
    (let g = g\<lparr>last_sig := sig, unread := lines\<rparr>
     in if sig \<noteq> None then g
        else if num = num1 g + num2 g then g\<lparr>score := score g + 1\<rparr> else g\<lparr>lives := lives g - 1\<rparr>)"

function game_loop :: "(nat \<Rightarrow> nat) \<Rightarrow> nat \<Rightarrow> game \<Rightarrow> input list \<Rightarrow> outcome" where
  "game_loop rnd r g is =
    (if lives g > 0
     then case last_sig g of
         None \<Rightarrow> (case readnum (unread g) is of
             Waits \<Rightarrow> Waiting_for_input
           | Jumps \<Rightarrow> Stale_jump
           | Returns sig num lines is' \<Rightarrow> game_loop rnd (r + 2) (answer_to sig num lines (ask rnd r g)) is')
       | Some SIGINT \<Rightarrow> Bye
       | Some SIGALRM \<Rightarrow>
           (let g = g\<lparr>timeout := timeout g - 1\<rparr>
            in if timeout g < 0 then game_loop rnd r (g\<lparr>last_sig := None, lives := lives g - 1\<rparr>) is
               else case readnum (unread g) is of
                   Waits \<Rightarrow> Waiting_for_input
                 | Jumps \<Rightarrow> Stale_jump
                 | Returns sig num lines is' \<Rightarrow> game_loop rnd r (answer_to sig num lines g) is')
     else Game_over (score g))"
  by pat_completeness auto
termination
  by (relation "measures [\<lambda>(rnd, r, g, is). length is, \<lambda>(rnd, r, g, is). if last_sig g = None then 0 else 1]")
    (auto dest: readnum_shorter)

declare game_loop.simps [simp del]

definition game :: "(nat \<Rightarrow> nat) \<Rightarrow> input list \<Rightarrow> outcome" where
  "game rnd is =
    game_loop rnd 0 \<lparr>timeout = 0, num1 = 0, num2 = 0, last_sig = None, lives = 3, score = 0, unread = []\<rparr> is"

section \<open>The rules of the game\<close>

text \<open>What the player does with a question: a line after some seconds, or no answer in time. A line is read in pieces of 119 characters, and each piece
  answers a question, the later ones at once.\<close>

datatype answer = Answer nat string | Late

function pieces :: "string \<Rightarrow> string list" where
  "pieces l = (if length l \<le> 119 then [l] else take 119 l # pieces (drop 119 l))"
  by pat_completeness auto
termination by (relation "measure length") auto

declare pieces.simps [simp del]

lemma pieces_short [simp]: "length l \<le> 119 \<Longrightarrow> pieces l = [l]"
  by (simp add: pieces.simps)

lemma pieces_long: "119 < length l \<Longrightarrow> pieces l = take 119 l # pieces (drop 119 l)"
  by (subst pieces.simps) simp

lemma pieces_nonempty: "pieces l \<noteq> []"
  by (subst pieces.simps) simp

fun script :: "answer \<Rightarrow> input list" where
  "script (Answer t l) = replicate t (Signalled SIGALRM) @ Typed l # replicate (length (pieces l)) Reads"
| "script Late = replicate 6 (Signalled SIGALRM)"

fun answers :: "answer \<Rightarrow> answer list" where
  "answers (Answer t l) = Answer t (hd (pieces l)) # map (Answer 0) (tl (pieces l))"
| "answers Late = [Late]"

fun in_time :: "answer \<Rightarrow> bool" where
  "in_time (Answer t l) \<longleftrightarrow> t \<le> 5"
| "in_time Late \<longleftrightarrow> True"

definition sum_of :: "(nat \<Rightarrow> nat) \<Rightarrow> nat \<Rightarrow> int" where
  "sum_of rnd k = int (rnd (2 * k) mod 100) + int (rnd (2 * k + 1) mod 100)"

fun right :: "(nat \<Rightarrow> nat) \<Rightarrow> nat \<Rightarrow> answer \<Rightarrow> bool" where
  "right rnd k (Answer t l) \<longleftrightarrow> atoi l = sum_of rnd k"
| "right rnd k Late \<longleftrightarrow> False"

text \<open>The rules, for \<open>n\<close> lives from question \<open>k\<close> on.\<close>

fun rules :: "(nat \<Rightarrow> nat) \<Rightarrow> nat \<Rightarrow> nat \<Rightarrow> int \<Rightarrow> answer list \<Rightarrow> outcome" where
  "rules rnd k 0 s as = Game_over s"
| "rules rnd k (Suc n) s [] = Waiting_for_input"
| "rules rnd k (Suc n) s (a # as) =
    (if right rnd k a then rules rnd (Suc k) (Suc n) (s + 1) as else rules rnd (Suc k) n s as)"

section \<open>The seconds of a question\<close>

lemma answer_to_signal [simp]: "answer_to (Some s) v ls g = g\<lparr>last_sig := Some s, unread := ls\<rparr>"
  by (simp add: answer_to_def)

lemma answer_to_number:
  "answer_to None v ls g = (if v = num1 g + num2 g
     then g\<lparr>last_sig := None, unread := ls, score := score g + 1\<rparr> else g\<lparr>last_sig := None, unread := ls, lives := lives g - 1\<rparr>)"
  by (simp add: answer_to_def)

lemma unread_same: "unread g = ls \<Longrightarrow> g\<lparr>unread := ls\<rparr> = g"
  by auto

lemma signal_same: "last_sig g = sg \<Longrightarrow> g\<lparr>timeout := u, last_sig := sg\<rparr> = g\<lparr>timeout := u\<rparr>"
  by auto

lemma alarms_read:
  assumes "0 < lives g" and "last_sig g = Some SIGALRM" and "int t < timeout g" and "readnum (unread g) js = Returns None v ls is"
  shows "game_loop rnd r g (replicate t (Signalled SIGALRM) @ js) =
    game_loop rnd r (answer_to None v ls (g\<lparr>timeout := timeout g - 1 - int t\<rparr>)) is"
  using assms
proof (induction t arbitrary: g)
  case (Suc t)
  let ?g = "g\<lparr>timeout := timeout g - 1\<rparr>"
  have g: "?g\<lparr>last_sig := Some SIGALRM, unread := unread g\<rparr> = ?g" using Suc.prems(2) by (intro game.equality) simp_all
  have "game_loop rnd r g (replicate (Suc t) (Signalled SIGALRM) @ js) = game_loop rnd r ?g (replicate t (Signalled SIGALRM) @ js)"
    using Suc.prems by (subst game_loop.simps) (simp add: g)
  also have "\<dots> = game_loop rnd r (answer_to None v ls (?g\<lparr>timeout := timeout ?g - 1 - int t\<rparr>)) is"
    using Suc.prems by (intro Suc.IH) simp_all
  also have "?g\<lparr>timeout := timeout ?g - 1 - int t\<rparr> = g\<lparr>timeout := timeout g - 1 - int (Suc t)\<rparr>" by simp
  finally show ?case .
qed (subst game_loop.simps, simp)

lemma alarms_late:
  assumes "0 < lives g" and "last_sig g = Some SIGALRM" and "timeout g = int t"
  shows "game_loop rnd r g (replicate t (Signalled SIGALRM) @ is) =
    game_loop rnd r (g\<lparr>timeout := - 1, last_sig := None, lives := lives g - 1\<rparr>) is"
  using assms
proof (induction t arbitrary: g)
  case (Suc t)
  let ?g = "g\<lparr>timeout := timeout g - 1\<rparr>"
  have "game_loop rnd r g (replicate (Suc t) (Signalled SIGALRM) @ is) =
      game_loop rnd r ?g (replicate t (Signalled SIGALRM) @ is)"
    using Suc.prems by (subst game_loop.simps) (simp add: signal_same)
  also have "\<dots> = game_loop rnd r (?g\<lparr>timeout := - 1, last_sig := None, lives := lives ?g - 1\<rparr>) is"
    using Suc.prems by (intro Suc.IH) simp_all
  finally show ?case by simp
qed (subst game_loop.simps, simp)

lemma first_alarm:
  assumes "0 < lives g" and "last_sig g = None"
  shows "game_loop rnd r g (Signalled SIGALRM # is) = game_loop rnd (r + 2) ((ask rnd r g)\<lparr>last_sig := Some SIGALRM\<rparr>) is"
proof -
  have "(ask rnd r g)\<lparr>last_sig := Some SIGALRM, unread := unread g\<rparr> = (ask rnd r g)\<lparr>last_sig := Some SIGALRM\<rparr>"
    by (intro game.equality) (simp_all add: ask_def)
  then show ?thesis using assms by (subst game_loop.simps) simp
qed

text \<open>A question in the program is a question in the rules.\<close>

definition after_question :: "(nat \<Rightarrow> nat) \<Rightarrow> nat \<Rightarrow> bool \<Rightarrow> string list \<Rightarrow> game \<Rightarrow> game \<Rightarrow> bool" where
  "after_question rnd k ok ls g g' \<longleftrightarrow> last_sig g' = None \<and> unread g' = ls \<and> lives g' = (if ok then lives g else lives g - 1) \<and>
     score g' = (if ok then score g + 1 else score g)"

lemma question_late:
  assumes "0 < lives g" and "last_sig g = None"
  shows "\<exists>g'. game_loop rnd (2 * k) g (script Late @ is) = game_loop rnd (2 * Suc k) g' is \<and> after_question rnd k False (unread g) g g'"
proof -
  let ?q = "(ask rnd (2 * k) g)\<lparr>last_sig := Some SIGALRM\<rparr>"
  have "script Late @ is = Signalled SIGALRM # replicate 5 (Signalled SIGALRM) @ is" by (simp add: numeral_eq_Suc)
  then have "game_loop rnd (2 * k) g (script Late @ is) = game_loop rnd (2 * Suc k) (?q\<lparr>timeout := - 1, last_sig := None, lives := lives g - 1\<rparr>) is"
    using assms alarms_late[of ?q 5 rnd "2 * Suc k" "is"] by (simp only: first_alarm) (simp add: ask_def)
  then show ?thesis by (intro exI conjI) (assumption | simp add: after_question_def ask_def)+
qed

lemma question_answer:
  assumes "0 < lives g" and "last_sig g = None" and "t \<le> 5" and "readnum (unread g) js = Returns None v ls is"
  shows "\<exists>g'. game_loop rnd (2 * k) g (replicate t (Signalled SIGALRM) @ js) = game_loop rnd (2 * Suc k) g' is \<and>
    after_question rnd k (v = sum_of rnd k) ls g g'"
proof (cases t)
  case 0
  have "game_loop rnd (2 * k) g js = game_loop rnd (2 * Suc k) (answer_to None v ls (ask rnd (2 * k) g)) is"
    using assms by (subst game_loop.simps) simp
  then show ?thesis using 0 assms(2)
    by (intro exI conjI) (simp, simp add: after_question_def answer_to_number ask_def sum_of_def)
next
  case (Suc u)
  let ?q = "(ask rnd (2 * k) g)\<lparr>last_sig := Some SIGALRM\<rparr>"
  have "game_loop rnd (2 * k) g (replicate t (Signalled SIGALRM) @ js) = game_loop rnd (2 * Suc k) ?q (replicate u (Signalled SIGALRM) @ js)"
    using first_alarm[OF assms(1,2)] Suc by simp
  also have "\<dots> = game_loop rnd (2 * Suc k) (answer_to None v ls (?q\<lparr>timeout := timeout ?q - 1 - int u\<rparr>)) is"
    using assms Suc by (intro alarms_read) (simp_all add: ask_def)
  finally show ?thesis
    by (intro exI conjI, assumption) (simp add: after_question_def answer_to_number ask_def sum_of_def)
qed

text \<open>The program on the inputs \<open>is\<close> and the rules on the answers \<open>as\<close>, from any question on.\<close>

definition agrees :: "(nat \<Rightarrow> nat) \<Rightarrow> (outcome \<Rightarrow> outcome) \<Rightarrow> input list \<Rightarrow> answer list \<Rightarrow> bool" where
  "agrees rnd E is as \<longleftrightarrow> (\<forall>g k. last_sig g = None \<longrightarrow> unread g = [] \<longrightarrow> 0 \<le> lives g \<longrightarrow>
     game_loop rnd (2 * k) g is = E (rules rnd k (nat (lives g)) (score g) as))"

lemma game_loop_over: "lives g \<le> 0 \<Longrightarrow> game_loop rnd r g is = Game_over (score g)"
  by (subst game_loop.simps) simp

lemma rules_step:
  assumes "after_question rnd k (right rnd k a) ls g g'" and "0 < lives g"
  shows "rules rnd k (nat (lives g)) (score g) (a # as) = rules rnd (Suc k) (nat (lives g')) (score g') as"
proof -
  obtain n where n: "lives g = int (Suc n)" using assms(2) by (metis nat_0_le not_gr0 nat_eq_iff2 order_less_imp_le zero_less_nat_eq Suc_pred)
  then show ?thesis using assms(1) by (simp add: after_question_def nat_add_distrib)
qed

lemma agrees_late:
  assumes "agrees rnd E is as" and "\<And>s. E (Game_over s) = Game_over s"
  shows "agrees rnd E (script Late @ is) (Late # as)"
  unfolding agrees_def
proof (intro allI impI)
  fix g :: game and k assume g: "last_sig g = None" "unread g = []" "0 \<le> lives g"
  show "game_loop rnd (2 * k) g (script Late @ is) = E (rules rnd k (nat (lives g)) (score g) (Late # as))"
  proof (cases "0 < lives g")
    case True
    obtain g' where g': "game_loop rnd (2 * k) g (script Late @ is) = game_loop rnd (2 * Suc k) g' is" "after_question rnd k False [] g g'"
      using question_late[OF True g(1), of rnd k "is"] g(2) by auto
    then have "game_loop rnd (2 * Suc k) g' is = E (rules rnd (Suc k) (nat (lives g')) (score g') as)"
      using assms(1)[unfolded agrees_def, rule_format, of g' "Suc k"] True by (simp add: after_question_def)
    then show ?thesis using g'(1) rules_step[of rnd k Late "[]" g g'] g'(2) True by simp
  qed (use g assms(2) in \<open>simp add: game_loop_over\<close>)
qed

text \<open>The pieces of a line, read from the state in which the next call of \<open>Read\<close> gets the first of them.\<close>

lemma agrees_pieces:
  assumes "agrees rnd E is as" and "\<And>s. E (Game_over s) = Game_over s"
  shows "last_sig g = None \<Longrightarrow> 0 \<le> lives g \<Longrightarrow> t \<le> 5 \<Longrightarrow>
    (\<And>is. readnum (unread g) (js @ is) = Returns None (atoi (take 119 l)) (if length l \<le> 119 then [] else [drop 119 l]) is) \<Longrightarrow>
    game_loop rnd (2 * k) g (replicate t (Signalled SIGALRM) @ js @ replicate (length (pieces l) - 1) Reads @ is) =
      E (rules rnd k (nat (lives g)) (score g) (answers (Answer t l) @ as))"
proof (induction l arbitrary: g k t js rule: pieces.induct)
  case (1 l)
  let ?js = "js @ replicate (length (pieces l) - 1) Reads @ is" and ?a = "Answer t (take 119 l)"
  show ?case
  proof (cases "0 < lives g")
    case True
    obtain g' where g': "game_loop rnd (2 * k) g (replicate t (Signalled SIGALRM) @ ?js) =
        game_loop rnd (2 * Suc k) g' (replicate (length (pieces l) - 1) Reads @ is)"
      "after_question rnd k (right rnd k ?a) (if length l \<le> 119 then [] else [drop 119 l]) g g'"
      using question_answer[OF True "1.prems"(1,3,4), of rnd k] by auto
    then have r: "rules rnd k (nat (lives g)) (score g) (?a # bs) = rules rnd (Suc k) (nat (lives g')) (score g') bs" for bs
      using rules_step True by blast
    have l': "last_sig g' = None" "0 \<le> lives g'" using g'(2) True by (auto simp: after_question_def)
    show ?thesis
    proof (cases "length l \<le> 119")
      case short: True
      then have "game_loop rnd (2 * Suc k) g' is = E (rules rnd (Suc k) (nat (lives g')) (score g') as)"
        using assms(1)[unfolded agrees_def, rule_format, of g' "Suc k"] l' g'(2) by (simp add: after_question_def)
      then show ?thesis using g'(1) r[of "as"] short by simp
    next
      case long: False
      let ?d = "drop 119 l"
      have p: "pieces l = take 119 l # pieces ?d" using long by (simp add: pieces_long)
      have u: "readnum (unread g') ([Reads] @ is) = Returns None (atoi (take 119 ?d)) (if length ?d \<le> 119 then [] else [drop 119 ?d]) is" for "is"
        using g'(2) long by (simp add: after_question_def)
      from "1.IH"[OF long l' _ u, of 0 "Suc k"] have
        "game_loop rnd (2 * Suc k) g' (Reads # replicate (length (pieces ?d) - 1) Reads @ is) =
          E (rules rnd (Suc k) (nat (lives g')) (score g') (answers (Answer 0 ?d) @ as))" by simp
      moreover have "replicate (length (pieces l) - 1) Reads = Reads # replicate (length (pieces ?d) - 1) Reads"
        using pieces_nonempty[of ?d] by (cases "pieces ?d") (simp_all add: p)
      moreover have "answers (Answer t l) @ as = ?a # answers (Answer 0 ?d) @ as"
        using pieces_nonempty[of ?d] by (cases "pieces ?d") (simp_all add: p)
      ultimately show ?thesis using g'(1) r[of "answers (Answer 0 ?d) @ as"] by simp
    qed
  qed (use "1.prems" assms(2) in \<open>simp add: game_loop_over\<close>)
qed

lemma agrees_script:
  assumes "in_time a" and "agrees rnd E is as" and "\<And>s. E (Game_over s) = Game_over s"
  shows "agrees rnd E (script a @ is) (answers a @ as)"
proof (cases a)
  case Late
  then show ?thesis using agrees_late[OF assms(2,3)] by simp
next
  case (Answer t l)
  show ?thesis unfolding agrees_def
  proof (intro allI impI)
    fix g :: game and k assume g: "last_sig g = None" "unread g = []" "0 \<le> lives g"
    have js: "script a @ is = replicate t (Signalled SIGALRM) @ [Typed l, Reads] @ replicate (length (pieces l) - 1) Reads @ is"
      using pieces_nonempty[of l] Answer by (cases "pieces l") simp_all
    show "game_loop rnd (2 * k) g (script a @ is) = E (rules rnd k (nat (lives g)) (score g) (answers a @ as))"
      unfolding js unfolding Answer by (rule agrees_pieces[OF assms(2,3) g(1,3)]) (use assms(1) g(2) Answer in simp_all)
  qed
qed

text \<open>What happens after the questions: nothing more, or an early signal.\<close>

definition ending :: "input list \<Rightarrow> outcome \<Rightarrow> outcome" where
  "ending rest r = (if r = Waiting_for_input \<and> rest \<noteq> [] then Stale_jump else r)"

lemma agrees_scripts:
  assumes "\<forall>a\<in>set as. in_time a" and "rest = [] \<or> (\<exists>s is. rest = Early s # is)"
  shows "agrees rnd (ending rest) (concat (map script as) @ rest) (concat (map answers as))"
  using assms(1)
proof (induction "as")
  case Nil
  have "game_loop rnd (2 * k) g rest = ending rest (rules rnd k (nat (lives g)) (score g) [])" if "last_sig g = None" for g :: game and k
    using that assms(2) by (cases "nat (lives g)") (subst game_loop.simps; auto simp: ending_def)+
  then show ?case by (simp add: agrees_def)
next
  case (Cons a as)
  have "ending rest (Game_over s) = Game_over s" for s by (simp add: ending_def)
  then show ?case using agrees_script[of a rnd "ending rest" "concat (map script as) @ rest" "concat (map answers as)"] Cons by simp
qed

section \<open>Properties\<close>

text \<open>C22: the program keeps the rules: a right answer within the time scores, a wrong one and none at all for six seconds
  (one more than the prompt counts from) cost a life, the third of these ends the game with the score, and the
  signals of one question never count for another; a line counts for one question when it has no more than 119 characters (its newline is one of them), and a longer one answers as
  many questions as it has pieces of that size; and a signal that arrives outside of \<open>readnum\<close> while the game is not over
  jumps to a frame that is gone.\<close>

theorem game_rules:
  assumes "\<forall>a\<in>set as. in_time a"
  shows "game rnd (concat (map script as)) = rules rnd 0 3 0 (concat (map answers as)) \<and>
    game rnd (concat (map script as) @ Early s # is) =
      (if rules rnd 0 3 0 (concat (map answers as)) = Waiting_for_input then Stale_jump else rules rnd 0 3 0 (concat (map answers as))) \<and>
    ((\<forall>t l. Answer t l \<in> set as \<longrightarrow> length l \<le> 119) \<longrightarrow> concat (map answers as) = as)"
proof -
  let ?g = "\<lparr>timeout = 0, num1 = 0, num2 = 0, last_sig = None, lives = 3, score = 0, unread = []\<rparr>"
  have g: "last_sig ?g = None" "unread ?g = []" "0 \<le> lives ?g" "lives ?g = 3" "score ?g = 0" by simp_all
  have game: "game rnd (concat (map script as) @ rest) = ending rest (rules rnd 0 3 0 (concat (map answers as)))"
    if "rest = [] \<or> (\<exists>s is. rest = Early s # is)" for rest
    using agrees_scripts[OF assms that, of rnd, unfolded agrees_def, rule_format, OF g(1-3), of 0] unfolding game_def g(4,5) by simp
  have "answers a = [a]" if "\<forall>t l. a = Answer t l \<longrightarrow> length l \<le> 119" for a using that by (cases a) simp_all
  then have "(\<forall>t l. Answer t l \<in> set as \<longrightarrow> length l \<le> 119) \<longrightarrow> concat (map answers as) = as"
    by (induction "as") auto
  then show ?thesis using game[of "[]"] game[of "Early s # is"] by (simp add: ending_def)
qed

theorem game_rules_witness:
  "game (\<lambda>k. 7 * k) (concat (map script [Answer 2 ''7'', Late, Answer 0 ''1'', Answer 5 ''91'', Late])) = Game_over 2 \<and>
   game (\<lambda>k. 7 * k) (concat (map script [Answer 2 ''7'', Late]) @ [Early SIGINT]) = Stale_jump \<and>
   game (\<lambda>k. 7 * k) (concat (map script [Answer 0 (''7'' @ replicate 118 (CHR '' '') @ ''35''), Late])) = Waiting_for_input"
proof (intro conjI)
  let ?as = "[Answer 2 ''7'', Late, Answer 0 ''1'', Answer 5 ''91'', Late]"
  have "rules (\<lambda>k. 7 * k) 0 3 0 ?as = Game_over 2" by code_simp
  moreover have "\<forall>a\<in>set ?as. in_time a" by simp
  ultimately show "game (\<lambda>k. 7 * k) (concat (map script ?as)) = Game_over 2"
    using game_rules[of ?as "\<lambda>k. 7 * k" SIGINT "[]"] by simp
  let ?as = "[Answer 2 ''7'', Late]"
  have "rules (\<lambda>k. 7 * k) 0 3 0 ?as = Waiting_for_input" by code_simp
  moreover have "\<forall>a\<in>set ?as. in_time a" by simp
  ultimately show "game (\<lambda>k. 7 * k) (concat (map script ?as) @ [Early SIGINT]) = Stale_jump"
    using game_rules[of ?as "\<lambda>k. 7 * k" SIGINT "[]"] by simp
  let ?l = "''7'' @ replicate 118 (CHR '' '') @ ''35''"
  have "answers (Answer 0 ?l) = [Answer 0 (''7'' @ replicate 118 (CHR '' '')), Answer 0 ''35'']"
    by (simp add: pieces_long)
  moreover have "rules (\<lambda>k. 7 * k) 0 3 0 [Answer 0 (''7'' @ replicate 118 (CHR '' '')), Answer 0 ''35'', Late] = Waiting_for_input" by code_simp
  ultimately show "game (\<lambda>k. 7 * k) (concat (map script [Answer 0 ?l, Late])) = Waiting_for_input"
    using game_rules[of "[Answer 0 ?l, Late]" "\<lambda>k. 7 * k" SIGINT "[]"] by simp
qed

end
