(* ===== verification/Mergesort.thy ===== *)
theory Mergesort
  imports Ctext "HOL-Library.Multiset"
begin

text \<open>
  The merge sort of \<open>5/so21_lista_5/mergesort.c\<close>: the numbers that go through the sockets, \<open>Merge\<close>, and the program around them. A
  socket is the list of the numbers that are still to come before its writer closes it. \<open>Sort\<close> itself is unfinished in the
  source: it makes the sockets but does not start its children, and waits for them.
\<close>

section \<open>Numbers on sockets\<close>

definition ReadNum :: "int list \<Rightarrow> (int \<times> int list) run" where
  "ReadNum xs = (case xs of [] \<Rightarrow> Inl App_error | x # xs \<Rightarrow> Inr (x, xs))"

text \<open>\<open>MaybeReadNum\<close> leaves its variable as it is at the end of the numbers.\<close>

definition MaybeReadNum :: "int list \<Rightarrow> int \<Rightarrow> bool \<times> int \<times> int list" where
  "MaybeReadNum xs num = (case xs of [] \<Rightarrow> (False, num, []) | x # xs \<Rightarrow> (True, x, xs))"

fun SendElem_loop :: "nat \<Rightarrow> int list \<Rightarrow> int list \<Rightarrow> (int list \<times> int list) run" where
  "SendElem_loop 0 parent child = Inr (parent, child)"
| "SendElem_loop (Suc n) parent child =
    bind_run (ReadNum parent) (\<lambda>(x, parent). SendElem_loop n parent (child @ [x]))"

definition SendElem :: "int list \<Rightarrow> int list \<Rightarrow> int \<Rightarrow> (int list \<times> int list) run" where
  "SendElem parent child nelem = SendElem_loop (nat nelem) parent (child @ [nelem])"

text \<open>A number sent to the parent is added to \<open>out\<close>.\<close>

function Merge_loop :: "bool \<Rightarrow> int \<Rightarrow> int list \<Rightarrow> bool \<Rightarrow> int \<Rightarrow> int list \<Rightarrow> int list \<Rightarrow> int list" where
  "Merge_loop has_left left ls has_right right rs out =
    (if (if has_left \<and> has_right then left < right else has_left)
     then let out = out @ [left]; (has_left, left, ls) = MaybeReadNum ls left
          in if has_left \<or> has_right then Merge_loop has_left left ls has_right right rs out else out
     else let out = out @ [right]; (has_right, right, rs) = MaybeReadNum rs right
          in if has_left \<or> has_right then Merge_loop has_left left ls has_right right rs out else out)"
  by pat_completeness auto
termination
  by (relation "measure (\<lambda>(hl, l, ls, hr, r, rs, out). 2 * length ls + 2 * length rs + of_bool hl + of_bool hr)")
     (auto simp: MaybeReadNum_def split: list.splits if_splits)

declare Merge_loop.simps [simp del]

definition Merge :: "int list \<Rightarrow> int list \<Rightarrow> int list run" where
  "Merge left_fd right_fd =
    bind_run (ReadNum left_fd) (\<lambda>(left, ls).
      bind_run (ReadNum right_fd) (\<lambda>(right, rs). Inr (Merge_loop True left ls True right rs [])))"

text \<open>\<open>Sort\<close> as it is: one number is sent back; for more of them \<open>Wait\<close> fails, since there are no children, and ends the process.\<close>

definition Sort :: "int list \<Rightarrow> (int list \<times> int list) run" where
  "Sort parent =
    bind_run (ReadNum parent) (\<lambda>(nelem, parent).
      if nelem < 2 then bind_run (ReadNum parent) (\<lambda>(x, parent). Inr (parent, [x])) else Inl App_error)"

section \<open>The program around it\<close>

definition GetNumber :: "string \<Rightarrow> (int \<times> string) run" where
  "GetNumber input =
    (case fgets 19 input of None \<Rightarrow> Inl App_error | Some (buf, rest) \<Rightarrow> Inr (to_int32 (strtol buf), rest))"

text \<open>The parent's writes: each succeeds while the child is there to read, \<open>alive\<close> of them at least; the child is the function of what it
  has been sent that gives what it sends.\<close>

fun send_numbers :: "nat \<Rightarrow> nat \<Rightarrow> string \<Rightarrow> (int list \<times> string) run" where
  "send_numbers alive 0 input = Inr ([], input)"
| "send_numbers alive (Suc n) input =
    bind_run (GetNumber input) (\<lambda>(x, input).
      case alive of
        0 \<Rightarrow> Inl App_error
      | Suc alive \<Rightarrow> bind_run (send_numbers alive n input) (\<lambda>(xs, input). Inr (x # xs, input)))"

fun read_sorted :: "nat \<Rightarrow> int \<Rightarrow> int list \<Rightarrow> int list run" where
  "read_sorted 0 prev xs = Inr []"
| "read_sorted (Suc n) prev xs =
    bind_run (ReadNum xs) (\<lambda>(elem, xs).
      if prev \<le> elem then bind_run (read_sorted n elem xs) (\<lambda>out. Inr (elem # out)) else Inl Assert_fails)"

definition mergesort_parent :: "nat \<Rightarrow> (int list \<Rightarrow> int list) \<Rightarrow> string \<Rightarrow> int list run" where
  "mergesort_parent alive child input =
    bind_run (GetNumber input) (\<lambda>(nelem, input).
      if nelem < 2 then Inl App_error
      else bind_run (send_numbers alive (nat nelem) input) (\<lambda>(xs, input).
        read_sorted (nat nelem) (- (2 ^ 31)) (child (nelem # xs))))"

text \<open>The child sends what it has sent by the time it ends.\<close>

definition Sort_child :: "int list \<Rightarrow> int list" where
  "Sort_child parent = (case Sort parent of Inl e \<Rightarrow> [] | Inr (rest, out) \<Rightarrow> out)"

definition mergesort_main :: "nat \<Rightarrow> string \<Rightarrow> int list run" where
  "mergesort_main alive input = mergesort_parent alive Sort_child input"

section \<open>Merging\<close>

text \<open>The list that a variable and its socket stand for, and the reference function.\<close>

definition pending :: "bool \<Rightarrow> int \<Rightarrow> int list \<Rightarrow> int list" where
  "pending has x xs = (if has then x # xs else [])"

fun merged :: "int list \<Rightarrow> int list \<Rightarrow> int list" where
  "merged [] ys = ys"
| "merged (x # xs) [] = x # xs"
| "merged (x # xs) (y # ys) = (if x < y then x # merged xs (y # ys) else y # merged (x # xs) ys)"

lemma merged_Nil [simp]: "merged xs [] = xs"
  by (cases xs) auto

lemma mset_merged: "mset (merged xs ys) = mset xs + mset ys"
  by (induction xs ys rule: merged.induct) auto

lemma sorted_merged: "sorted xs \<Longrightarrow> sorted ys \<Longrightarrow> sorted (merged xs ys)"
proof (induction xs ys rule: merged.induct)
  case (3 x xs y ys)
  have "set (merged as bs) = set as \<union> set bs" for as bs
    using mset_merged[of as bs] by (metis set_mset_mset set_mset_union)
  with 3 show ?case by force
qed auto

lemma Merge_loop_merged:
  assumes "has_left \<or> has_right" and "\<not> has_left \<longrightarrow> ls = []" and "\<not> has_right \<longrightarrow> rs = []"
  shows "Merge_loop has_left left ls has_right right rs out = out @ merged (pending has_left left ls) (pending has_right right rs)"
  using assms
proof (induction has_left left ls has_right right rs out rule: Merge_loop.induct)
  case (1 has_left left ls has_right right rs out)
  show ?case
  proof (cases "if has_left \<and> has_right then left < right else has_left")
    case True
    note IH = 1(1)[OF True refl refl]
    show ?thesis
    proof (cases ls)
      case Nil
      then show ?thesis using True 1(3-5) IH[of False "(left, [])" left "[]"]
        by (subst Merge_loop.simps) (auto simp: MaybeReadNum_def pending_def split: if_splits)
    next
      case (Cons l ls')
      then show ?thesis using True 1(3-5) IH[of True "(l, ls')" l ls']
        by (subst Merge_loop.simps) (auto simp: MaybeReadNum_def pending_def split: if_splits)
    qed
  next
    case False
    note IH = 1(2)[OF False refl refl]
    show ?thesis
    proof (cases rs)
      case Nil
      then show ?thesis using False 1(3-5) IH[of False "(right, [])" right "[]"]
        by (subst Merge_loop.simps) (auto simp: MaybeReadNum_def pending_def split: if_splits)
    next
      case (Cons r rs')
      then show ?thesis using False 1(3-5) IH[of True "(r, rs')" r rs']
        by (subst Merge_loop.simps) (auto simp: MaybeReadNum_def pending_def split: if_splits)
    qed
  qed
qed

section \<open>Properties\<close>

text \<open>C26: \<open>Merge\<close> of two sorted streams that are not empty sends exactly their numbers, in order; of an empty stream it
  ends with an error.\<close>

theorem merge_ok:
  assumes "sorted ls" and "sorted rs"
  shows "if ls = [] \<or> rs = [] then Merge ls rs = Inl App_error
    else \<exists>out. Merge ls rs = Inr out \<and> sorted out \<and> mset out = mset ls + mset rs"
proof (cases "ls = [] \<or> rs = []")
  case True
  then show ?thesis by (cases ls; cases rs) (auto simp: Merge_def ReadNum_def)
next
  case False
  then obtain l ls' r rs' where "ls = l # ls'" "rs = r # rs'" by (meson list.exhaust)
  then have "Merge ls rs = Inr (merged ls rs)" by (simp add: Merge_def ReadNum_def Merge_loop_merged pending_def)
  then show ?thesis using False assms by (simp add: sorted_merged mset_merged)
qed

theorem merge_ok_witness: "\<exists>out. Merge [1, 4, 4] [2, 4, 9] = Inr out \<and> sorted out"
  using merge_ok[of "[1, 4, 4]" "[2, 4, 9]"] by auto

text \<open>\<open>SendElem\<close> passes the count and then exactly that many numbers on, in order.\<close>

theorem send_elem:
  assumes "0 \<le> nelem" and "nelem \<le> int (length parent)"
  shows "SendElem parent child nelem = Inr (drop (nat nelem) parent, child @ nelem # take (nat nelem) parent)"
proof -
  have "n \<le> length p \<Longrightarrow> SendElem_loop n p c = Inr (drop n p, c @ take n p)" for n p c
    by (induction n p c rule: SendElem_loop.induct) (auto simp: ReadNum_def split: list.splits)
  then show ?thesis using assms by (simp add: SendElem_def)
qed

theorem send_elem_witness: "SendElem [5, 3, 8] [] 2 = Inr ([8], [2, 5, 3])"
  using send_elem[of 2 "[5, 3, 8]" "[]"] by simp

lemma GetNumber_bounds: "GetNumber input = Inr (x, rest) \<Longrightarrow> - (2 ^ 31) \<le> x"
  using sint_greater_eq[where 'a = 32] by (auto simp: GetNumber_def to_int32_def split: option.splits)

lemma GetNumber_error: "GetNumber input = Inl e \<Longrightarrow> e = App_error"
  by (auto simp: GetNumber_def split: option.splits)

lemma send_numbers_result:
  "send_numbers alive n input = Inr (xs, rest) \<Longrightarrow> length xs = n \<and> (\<forall>x\<in>set xs. - (2 ^ 31) \<le> x)"
proof (induction n arbitrary: alive input xs rest)
  case (Suc n)
  then obtain x input' ys k where "GetNumber input = Inr (x, input')" "send_numbers k n input' = Inr (ys, rest)" "xs = x # ys"
    by (cases alive) (auto simp: bind_run_Inr_iff)
  then show ?case using Suc.IH GetNumber_bounds by auto
qed simp

lemma send_numbers_error: "send_numbers alive n input = Inl e \<Longrightarrow> e = App_error"
proof (induction n arbitrary: alive input)
  case (Suc n)
  show ?case
  proof (cases "GetNumber input")
    case (Inr r)
    then obtain x input' where r: "GetNumber input = Inr (x, input')" by (cases r) auto
    then show ?thesis using Suc by (cases alive; cases "send_numbers (alive - 1) n input'") auto
  qed (use Suc.prems GetNumber_error in auto)
qed simp

lemma read_sorted_ok: "sorted (prev # xs) \<Longrightarrow> read_sorted (length xs) prev xs = Inr xs"
  by (induction xs arbitrary: prev) (simp_all add: ReadNum_def)

lemma Sort_child_many: "2 \<le> nelem \<Longrightarrow> Sort_child (nelem # xs) = []"
  by (simp add: Sort_child_def Sort_def ReadNum_def)

text \<open>Around a child that sorts, the parent would print the numbers it has read, in order; around \<open>Sort\<close> as it is,
  the program ends with an error for every input, and prints nothing.\<close>

theorem mergesort_unfinished:
  "mergesort_main alive input = Inl App_error \<and>
   (\<forall>nelem rest xs rest'. GetNumber input = Inr (nelem, rest) \<and> 2 \<le> nelem \<and> send_numbers alive (nat nelem) rest = Inr (xs, rest') \<longrightarrow>
      mergesort_parent alive (\<lambda>ns. sort (tl ns)) input = Inr (sort xs))"
proof (intro conjI allI impI)
  fix nelem rest xs rest'
  assume a: "GetNumber input = Inr (nelem, rest) \<and> 2 \<le> nelem \<and> send_numbers alive (nat nelem) rest = Inr (xs, rest')"
  then have "length (sort xs) = nat nelem" "sorted (- (2 ^ 31) # sort xs)" using send_numbers_result by fastforce+
  then show "mergesort_parent alive (\<lambda>ns. sort (tl ns)) input = Inr (sort xs)"
    using a read_sorted_ok[of "- (2 ^ 31)" "sort xs"] by (simp add: mergesort_parent_def)
next
  show "mergesort_main alive input = Inl App_error"
  proof (cases "GetNumber input")
    case (Inl e)
    then show ?thesis using GetNumber_error by (simp add: mergesort_main_def mergesort_parent_def)
  next
    case (Inr r)
    then obtain nelem rest where r: "GetNumber input = Inr (nelem, rest)" by (cases r) auto
    show ?thesis
    proof (cases "2 \<le> nelem")
      case True
      then obtain n where "nat nelem = Suc n" by (cases "nat nelem") auto
      then show ?thesis using r True send_numbers_error[of alive "nat nelem" rest]
        by (cases "send_numbers alive (nat nelem) rest")
          (auto simp: mergesort_main_def mergesort_parent_def Sort_child_many ReadNum_def)
    qed (use r in \<open>simp add: mergesort_main_def mergesort_parent_def\<close>)
  qed
qed

definition example_input :: string where
  "example_input = ''2'' @ [CHR 0x0A] @ ''7'' @ [CHR 0x0A] @ ''-3''"

theorem mergesort_unfinished_witness:
  "mergesort_main 9 example_input = Inl App_error \<and>
   mergesort_parent 9 (\<lambda>ns. sort (tl ns)) example_input = Inr (sort [7, - 3])"
proof -
  let ?rest = "''7'' @ [CHR 0x0A] @ ''-3''"
  have "GetNumber example_input = Inr (2, ?rest)" by code_simp
  moreover have "send_numbers 9 2 ?rest = Inr ([7, - 3], [])" by code_simp
  ultimately show ?thesis using mergesort_unfinished[of 9 example_input] by auto
qed

end
