(* ===== verification/Smokers.thy ===== *)
theory Smokers
  imports Conc
begin

text \<open>
  The agent and the smokers of \<open>13/so21_lista_13/smokers.c\<close>, as far as they are written: the agent waits until somebody smokes and puts
  two ingredients on the table, the smokers make cigarettes; that a smoker waits for its ingredients is still to be done in the source.
  A step is one semaphore operation or one letter of output. \<open>Sem_post\<close> ends the program when the value would not fit.
\<close>

section \<open>The program\<close>

datatype ingredient = Tobacco | Matches | Paper

datatype agent_pc = A_wait | A_choose | A_first nat | A_second nat

datatype smoker_pc = Make | Smoke

text \<open>\<open>started\<close> and \<open>smoked\<close> count the times that the agent has been let on and that a smoker has let it on.\<close>

record smokers_t =
  on_table :: "ingredient \<Rightarrow> nat"
  doneSmoking :: nat
  agent_at :: agent_pc
  smoker_at :: "nat \<Rightarrow> smoker_pc"
  printed :: string
  failed :: bool
  started :: nat
  smoked :: nat

definition SEM_VALUE_MAX :: nat where "SEM_VALUE_MAX = 2147483647"

definition Sem_post_table :: "ingredient \<Rightarrow> smokers_t \<Rightarrow> smokers_t" where
  "Sem_post_table i s =
    (if on_table s i = SEM_VALUE_MAX then s\<lparr>failed := True\<rparr> else s\<lparr>on_table := (on_table s)(i := on_table s i + 1)\<rparr>)"

text \<open>The two ingredients for each choice.\<close>

definition first_of :: "nat \<Rightarrow> ingredient" where
  "first_of c = (if c = 0 then Tobacco else if c = 1 then Tobacco else Paper)"

definition second_of :: "nat \<Rightarrow> ingredient" where
  "second_of c = (if c = 0 then Paper else if c = 1 then Matches else Matches)"

text \<open>\<open>r\<close> is the next value of \<open>rand_r\<close>.\<close>

definition agent :: "nat \<Rightarrow> smokers_t \<Rightarrow> smokers_t option" where
  "agent r s =
    (case agent_at s of
       A_wait \<Rightarrow> map_option (\<lambda>v. s\<lparr>doneSmoking := v, agent_at := A_choose, started := started s + 1\<rparr>) (sem_wait (doneSmoking s))
     | A_choose \<Rightarrow> Some (s\<lparr>agent_at := A_first (r mod 3)\<rparr>)
     | A_first c \<Rightarrow> Some (Sem_post_table (first_of c) (s\<lparr>agent_at := A_second c\<rparr>))
     | A_second c \<Rightarrow> Some (Sem_post_table (second_of c) (s\<lparr>agent_at := A_wait\<rparr>)))"

text \<open>The three smokers, with matches, tobacco and paper.\<close>

definition letter :: "nat \<Rightarrow> char" where
  "letter i = (if i = 0 then CHR ''M'' else if i = 1 then CHR ''T'' else CHR ''P'')"

definition make_and_smoke :: "nat \<Rightarrow> smokers_t \<Rightarrow> smokers_t option" where
  "make_and_smoke i s =
    (case smoker_at s i of
       Make \<Rightarrow>
         Some (if doneSmoking s = SEM_VALUE_MAX then s\<lparr>failed := True\<rparr>
           else s\<lparr>doneSmoking := doneSmoking s + 1, smoker_at := (smoker_at s)(i := Smoke), smoked := smoked s + 1\<rparr>)
     | Smoke \<Rightarrow> Some (s\<lparr>smoker_at := (smoker_at s)(i := Make), printed := printed s @ [letter i]\<rparr>))"

datatype turn = Agent nat | Smoker nat

definition smokers_turn :: "turn \<Rightarrow> smokers_t \<Rightarrow> smokers_t option" where
  "smokers_turn e s =
    (if failed s then None
     else case e of Agent r \<Rightarrow> agent r s | Smoker i \<Rightarrow> if i < 3 then make_and_smoke i s else None)"

definition smokers_main :: smokers_t where
  "smokers_main = \<lparr>on_table = (\<lambda>_. 0), doneSmoking = 1, agent_at = A_wait, smoker_at = (\<lambda>_. Make), printed = [],
     failed = False, started = 0, smoked = 0\<rparr>"

definition smokers_step :: "smokers_t \<Rightarrow> smokers_t \<Rightarrow> bool" where
  "smokers_step s t \<longleftrightarrow> (\<exists>e. smokers_turn e s = Some t)"

abbreviation smokers_reach :: "smokers_t \<Rightarrow> bool" where
  "smokers_reach \<equiv> reach (\<lambda>s. s = smokers_main) smokers_step"

section \<open>What is on the table\<close>

definition table_sum :: "smokers_t \<Rightarrow> nat" where
  "table_sum s = on_table s Tobacco + on_table s Matches + on_table s Paper"

text \<open>The ingredients that the agent has still to put down in this round.\<close>

definition to_post :: "agent_pc \<Rightarrow> nat" where
  "to_post p = (case p of A_wait \<Rightarrow> 0 | A_second c \<Rightarrow> 1 | _ \<Rightarrow> 2)"

definition smokers_inv :: "smokers_t \<Rightarrow> bool" where
  "smokers_inv s \<longleftrightarrow>
     doneSmoking s + started s = 1 + smoked s \<and>
     (\<not> failed s \<longrightarrow> table_sum s + to_post (agent_at s) = 2 * started s) \<and>
     (failed s \<longrightarrow> doneSmoking s = SEM_VALUE_MAX \<or> (\<exists>i. on_table s i = SEM_VALUE_MAX)) \<and>
     length (printed s) + count_pcs 3 (\<lambda>p. p = Smoke) (smoker_at s) = smoked s"

lemma Sem_post_table_simps [simp]:
  "doneSmoking (Sem_post_table i s) = doneSmoking s" "agent_at (Sem_post_table i s) = agent_at s"
  "smoker_at (Sem_post_table i s) = smoker_at s" "printed (Sem_post_table i s) = printed s"
  "started (Sem_post_table i s) = started s" "smoked (Sem_post_table i s) = smoked s"
  "failed (Sem_post_table i s) = (failed s \<or> on_table s i = SEM_VALUE_MAX)"
  by (simp_all add: Sem_post_table_def)

lemma table_sum_post: "on_table s i \<noteq> SEM_VALUE_MAX \<Longrightarrow> table_sum (Sem_post_table i s) = Suc (table_sum s)"
  by (cases i) (simp_all add: Sem_post_table_def table_sum_def)

lemma on_table_post: "on_table s i = SEM_VALUE_MAX \<Longrightarrow> on_table (Sem_post_table i s) = on_table s"
  by (simp add: Sem_post_table_def)

lemma table_sum_cong: "on_table t = on_table s \<Longrightarrow> table_sum t = table_sum s"
  by (simp add: table_sum_def)

lemma smokers_inv_post:
  assumes "smokers_inv s" and "\<not> failed s" and "to_post (agent_at s) = Suc (to_post p)"
  shows "smokers_inv (Sem_post_table i (s\<lparr>agent_at := p\<rparr>))"
proof (cases "on_table s i = SEM_VALUE_MAX")
  case True
  then show ?thesis using assms by (auto simp: smokers_inv_def on_table_post)
next
  case False
  have "table_sum (s\<lparr>agent_at := p\<rparr>) = table_sum s" by (rule table_sum_cong) simp
  then show ?thesis using assms False table_sum_post[of "s\<lparr>agent_at := p\<rparr>" i] by (simp add: smokers_inv_def)
qed

lemma smokers_inv_agent:
  assumes "agent r s = Some t" and "\<not> failed s" and "smokers_inv s"
  shows "smokers_inv t"
proof (cases "agent_at s")
  case A_wait
  then show ?thesis using assms by (auto simp: agent_def smokers_inv_def to_post_def table_sum_def)
next
  case A_choose
  then show ?thesis using assms by (auto simp: agent_def smokers_inv_def to_post_def table_sum_def)
next
  case (A_first c)
  then show ?thesis using assms smokers_inv_post[of s "A_second c" "first_of c"] by (auto simp: agent_def to_post_def)
next
  case (A_second c)
  then show ?thesis using assms smokers_inv_post[of s A_wait "second_of c"] by (auto simp: agent_def to_post_def)
qed

lemma smokers_inv_smoker:
  assumes "make_and_smoke i s = Some t" and "i < 3" and "\<not> failed s" and "smokers_inv s"
  shows "smokers_inv t"
  using assms count_pcs_upd[OF assms(2), where P = "\<lambda>p. p = Smoke" and pc = "smoker_at s" and x = Smoke]
    count_pcs_upd[OF assms(2), where P = "\<lambda>p. p = Smoke" and pc = "smoker_at s" and x = Make]
  by (cases "smoker_at s i") (auto simp: make_and_smoke_def smokers_inv_def table_sum_def split: if_splits)

interpretation smokers: safe_system "\<lambda>s. s = smokers_main" smokers_step smokers_inv
proof unfold_locales
  show "smokers_inv s" if "s = smokers_main" for s
    using that by (simp add: smokers_inv_def smokers_main_def table_sum_def to_post_def)
  show "smokers_inv t" if st: "smokers_step s t" "smokers_inv s" for s t
  proof -
    obtain e where e: "smokers_turn e s = Some t" using st(1) by (auto simp: smokers_step_def)
    then show ?thesis using st(2) smokers_inv_agent smokers_inv_smoker
      by (cases e) (auto simp: smokers_turn_def split: if_splits)
  qed
qed

section \<open>Properties\<close>

text \<open>The smokers that smoke, one after the other, in a given order.\<close>

definition smoking :: "nat list \<Rightarrow> turn list" where
  "smoking ns = concat (map (\<lambda>i. [Smoker i, Smoker i]) ns)"

lemma smoking_run:
  assumes "\<forall>i\<in>set ns. i < 3" and "length ns + doneSmoking s \<le> SEM_VALUE_MAX" and "smoker_at s = (\<lambda>_. Make)" and "\<not> failed s"
  shows "\<exists>t. run_schedule smokers_turn (smoking ns) s = Some t \<and> printed t = printed s @ map letter ns \<and>
    on_table t = on_table s \<and> agent_at t = agent_at s \<and> started t = started s"
  using assms
proof (induction ns arbitrary: s)
  case (Cons i ns)
  let ?s = "s\<lparr>doneSmoking := doneSmoking s + 1, smoked := smoked s + 1, printed := printed s @ [letter i]\<rparr>"
  have "run_schedule smokers_turn [Smoker i, Smoker i] s = Some ?s"
    using Cons.prems by (simp add: smokers_turn_def make_and_smoke_def fun_upd_idem)
  moreover have "\<exists>t. run_schedule smokers_turn (smoking ns) ?s = Some t \<and> printed t = printed ?s @ map letter ns \<and>
    on_table t = on_table ?s \<and> agent_at t = agent_at ?s \<and> started t = started ?s"
    using Cons.prems by (intro Cons.IH) auto
  ultimately show ?case
    using run_schedule_append[of smokers_turn "[Smoker i, Smoker i]" "smoking ns" s] by (simp add: smoking_def)
qed (simp add: smoking_def)

text \<open>
  The agent is at most one round ahead of the cigarettes, and what it puts on the table stays there; but the smokers do not need it: any sequence
  of smokers can smoke, until \<open>doneSmoking\<close> is full, with no ingredient ever on the table.
\<close>

theorem smokers_free:
  "(\<forall>s. smokers_reach s \<longrightarrow> started s \<le> 1 + smoked s \<and> length (printed s) \<le> smoked s \<and>
      (\<not> failed s \<longrightarrow> table_sum s + to_post (agent_at s) = 2 * started s)) \<and>
   (\<forall>ns. (\<forall>i\<in>set ns. i < 3) \<and> length ns < SEM_VALUE_MAX \<longrightarrow>
      (\<exists>s. smokers_reach s \<and> printed s = map letter ns \<and> on_table s = (\<lambda>_. 0) \<and> started s = 0))"
proof (intro conjI allI impI)
  fix s assume "smokers_reach s"
  then have "smokers_inv s" by (rule smokers.inv_reach)
  then show "started s \<le> 1 + smoked s" "length (printed s) \<le> smoked s"
    "\<not> failed s \<Longrightarrow> table_sum s + to_post (agent_at s) = 2 * started s" by (auto simp: smokers_inv_def)
next
  fix ns :: "nat list" assume "(\<forall>i\<in>set ns. i < 3) \<and> length ns < SEM_VALUE_MAX"
  then obtain t where t: "run_schedule smokers_turn (smoking ns) smokers_main = Some t" "printed t = map letter ns"
    "on_table t = (\<lambda>_. 0)" "started t = 0"
    using smoking_run[of ns smokers_main] by (auto simp: smokers_main_def)
  have "smokers_reach t"
    by (rule run_schedule_reach[OF t(1)]) (auto simp: smokers_step_def intro: reach_init)
  with t show "\<exists>s. smokers_reach s \<and> printed s = map letter ns \<and> on_table s = (\<lambda>_. 0) \<and> started s = 0" by blast
qed

theorem smokers_free_witness:
  "\<exists>s. smokers_reach s \<and> printed s = ''MMTPP'' \<and> on_table s = (\<lambda>_. 0)"
proof -
  have "(\<forall>i\<in>set [0, 0, 1, 2, 2]. i < (3 :: nat)) \<and> length [0, 0, 1, 2, 2 :: nat] < SEM_VALUE_MAX"
    by (simp add: SEM_VALUE_MAX_def)
  then obtain s where "smokers_reach s" "printed s = map letter [0, 0, 1, 2, 2]" "on_table s = (\<lambda>_. 0)"
    using smokers_free by blast
  then show ?thesis by (auto simp: letter_def)
qed

end
