(* ===== verification/Sinit.thy ===== *)
theory Sinit
  imports Conc
begin

text \<open>
  The init process of \<open>2/so21_lista_2/sinit.c\<close>. All signals are blocked; the process takes them from its pending signals one
  at a time, in any order, and looks up a handler: two of them start a command, the third one reaps the children that have ended. Pending signals
  of the same number merge. The commands of \<open>config.h\<close>, which the repository does not have, are a parameter. That init changes to the root directory is left out. The other processes are the environment: they
  send signals, children end, and the kernel makes processes that lose their parent into children of init.
\<close>

section \<open>The program\<close>

datatype signal = SIGUSR1 | SIGCHLD | SIGALRM | SIGINT | Other nat

record commands =
  rcinitcmd :: "string list"
  rcpoweroffcmd :: "string list"
  rcrebootcmd :: "string list"

text \<open>A process that runs a command, with whether its signals are blocked and whether it leads a session of its own; an orphan; a process that has
  ended and is not yet reaped.\<close>

datatype process = Runs "string list" bool bool | Orphan | Zombie

datatype ipc = Loop | Sigwait | Handle signal | Reaping

text \<open>Ghost variables: the signals that \<open>sigwait\<close> has returned, and the commands that \<open>spawn\<close> was called with.\<close>

record sinit =
  ipc :: ipc
  pending :: "signal list"
  alarm_set :: bool
  children :: "process list"
  accepted :: "signal list"
  spawned :: "string list list"

text \<open>What \<open>fork\<close> and \<open>execvp\<close> do.\<close>

datatype fork_result = Fork_fails | Exec_fails | Exec_ok

text \<open>A pending signal is not queued twice.\<close>

definition raise :: "signal \<Rightarrow> sinit \<Rightarrow> sinit" where
  "raise sig s = s\<lparr>pending := List.insert sig (pending s)\<rparr>"

text \<open>The child inherits the blocked signals, and unblocks them; when the command cannot be run the child exits.\<close>

definition spawn :: "fork_result \<Rightarrow> string list \<Rightarrow> sinit \<Rightarrow> sinit" where
  "spawn r argv s =
    (let s = s\<lparr>spawned := spawned s @ [argv]\<rparr>
     in case r of
         Fork_fails \<Rightarrow> s
       | Exec_fails \<Rightarrow> raise SIGCHLD (s\<lparr>children := children s @ [Zombie]\<rparr>)
       | Exec_ok \<Rightarrow> s\<lparr>children := children s @ [Runs argv False True]\<rparr>)"

definition sigpoweroff :: "commands \<Rightarrow> fork_result \<Rightarrow> sinit \<Rightarrow> sinit" where
  "sigpoweroff cfg r s = (spawn r (rcpoweroffcmd cfg) s)\<lparr>ipc := Loop\<rparr>"

definition sigreboot :: "commands \<Rightarrow> fork_result \<Rightarrow> sinit \<Rightarrow> sinit" where
  "sigreboot cfg r s = (spawn r (rcrebootcmd cfg) s)\<lparr>ipc := Loop\<rparr>"

text \<open>One round of the loop of \<open>sigreap\<close>: \<open>waitpid\<close> reaps a child that has ended, or returns 0 or an error.\<close>

definition sigreap :: "sinit \<Rightarrow> sinit" where
  "sigreap s =
    (if Zombie \<in> set (children s) then s\<lparr>ipc := Reaping, children := remove1 Zombie (children s)\<rparr>
     else s\<lparr>ipc := Loop, alarm_set := True\<rparr>)"

text \<open>The table of the handlers.\<close>

definition sigmap :: "commands \<Rightarrow> fork_result \<Rightarrow> (signal \<times> (sinit \<Rightarrow> sinit)) list" where
  "sigmap cfg r = [(SIGUSR1, sigpoweroff cfg r), (SIGCHLD, sigreap), (SIGALRM, sigreap), (SIGINT, sigreboot cfg r)]"

definition dispatch :: "commands \<Rightarrow> fork_result \<Rightarrow> signal \<Rightarrow> sinit \<Rightarrow> sinit" where
  "dispatch cfg r sig s = (case map_of (sigmap cfg r) sig of None \<Rightarrow> s\<lparr>ipc := Loop\<rparr> | Some handler \<Rightarrow> handler s)"

text \<open>The program returns 1 when it is not the first process.\<close>

definition sinit_main :: "commands \<Rightarrow> nat \<Rightarrow> fork_result \<Rightarrow> int + sinit" where
  "sinit_main cfg pid r =
    (if pid \<noteq> 1 then Inl 1
     else Inr (spawn r (rcinitcmd cfg)
       \<lparr>ipc = Loop, pending = [], alarm_set = False, children = [], accepted = [], spawned = []\<rparr>))"

text \<open>The loop of \<open>main\<close>: its own steps.\<close>

inductive init_loop :: "commands \<Rightarrow> sinit \<Rightarrow> sinit \<Rightarrow> bool" for cfg :: commands where
  Alarm: "ipc s = Loop \<Longrightarrow> init_loop cfg s (s\<lparr>ipc := Sigwait, alarm_set := True\<rparr>)"
| Accept: "ipc s = Sigwait \<Longrightarrow> sig \<in> set (pending s) \<Longrightarrow>
    init_loop cfg s (s\<lparr>ipc := Handle sig, pending := remove1 sig (pending s), accepted := accepted s @ [sig]\<rparr>)"
| Dispatch: "ipc s = Handle sig \<Longrightarrow> init_loop cfg s (dispatch cfg r sig s)"
| Reap: "ipc s = Reaping \<Longrightarrow> init_loop cfg s (sigreap s)"

text \<open>What the others do: a signal is sent, the timer runs out, a child ends, init gets an orphan that runs or has ended.\<close>

inductive environment :: "sinit \<Rightarrow> sinit \<Rightarrow> bool" where
  Kill: "environment s (raise sig s)"
| Time_out: "alarm_set s \<Longrightarrow> environment s (raise SIGALRM (s\<lparr>alarm_set := False\<rparr>))"
| Ends: "i < length (children s) \<Longrightarrow> environment s (raise SIGCHLD (s\<lparr>children := (children s)[i := Zombie]\<rparr>))"
| Adopt: "environment s (s\<lparr>children := children s @ [Orphan]\<rparr>)"
| Adopt_zombie: "environment s (raise SIGCHLD (s\<lparr>children := children s @ [Zombie]\<rparr>))"

definition sinit_step :: "commands \<Rightarrow> sinit \<Rightarrow> sinit \<Rightarrow> bool" where
  "sinit_step cfg s t \<longleftrightarrow> init_loop cfg s t \<or> environment s t"

lemma sinit_steps: "init_loop cfg s t \<Longrightarrow> sinit_step cfg s t" "environment s t \<Longrightarrow> sinit_step cfg s t"
  by (simp_all add: sinit_step_def)

definition sinit_start :: "commands \<Rightarrow> sinit \<Rightarrow> bool" where
  "sinit_start cfg s \<longleftrightarrow> (\<exists>r. sinit_main cfg 1 r = Inr s)"

abbreviation sinit_reach :: "commands \<Rightarrow> sinit \<Rightarrow> bool" where
  "sinit_reach cfg \<equiv> reach (sinit_start cfg) (sinit_step cfg)"

section \<open>The invariant\<close>

text \<open>The command that a signal asks for.\<close>

fun command_of :: "commands \<Rightarrow> signal \<Rightarrow> string list option" where
  "command_of cfg SIGUSR1 = Some (rcpoweroffcmd cfg)"
| "command_of cfg SIGINT = Some (rcrebootcmd cfg)"
| "command_of cfg _ = None"

definition reaps :: "ipc \<Rightarrow> bool" where
  "reaps p \<longleftrightarrow> p \<in> {Reaping, Handle SIGCHLD, Handle SIGALRM}"

text \<open>The accepted signals that are handled.\<close>

definition handled :: "sinit \<Rightarrow> signal list" where
  "handled s = (case ipc s of Handle sig \<Rightarrow> butlast (accepted s) | _ \<Rightarrow> accepted s)"

definition child_ok :: "commands \<Rightarrow> process \<Rightarrow> bool" where
  "child_ok cfg p \<longleftrightarrow> (case p of Runs argv blocked leader \<Rightarrow> argv \<in> {rcinitcmd cfg, rcpoweroffcmd cfg, rcrebootcmd cfg} \<and> \<not> blocked \<and> leader | _ \<Rightarrow> True)"

definition sinit_inv :: "commands \<Rightarrow> sinit \<Rightarrow> bool" where
  "sinit_inv cfg s \<longleftrightarrow>
     (Zombie \<in> set (children s) \<longrightarrow> SIGCHLD \<in> set (pending s) \<or> reaps (ipc s)) \<and>
     distinct (pending s) \<and>
     (\<forall>sig. ipc s = Handle sig \<longrightarrow> accepted s \<noteq> [] \<and> last (accepted s) = sig) \<and>
     (ipc s = Sigwait \<longrightarrow> alarm_set s \<or> SIGALRM \<in> set (pending s)) \<and>
     spawned s = rcinitcmd cfg # List.map_filter (command_of cfg) (handled s) \<and>
     (\<forall>p\<in>set (children s). child_ok cfg p)"

lemma map_filter_snoc: "List.map_filter f (xs @ [x]) = List.map_filter f xs @ (case f x of None \<Rightarrow> [] | Some y \<Rightarrow> [y])"
  by (simp add: List.map_filter_def split: option.split)

lemma raise_simps [simp]:
  "ipc (raise sig s) = ipc s" "children (raise sig s) = children s" "accepted (raise sig s) = accepted s"
  "spawned (raise sig s) = spawned s" "alarm_set (raise sig s) = alarm_set s" "pending (raise sig s) = List.insert sig (pending s)"
  by (simp_all add: raise_def)

lemma handled_simps [simp]:
  "handled (raise sig s) = handled s"
  "handled (s\<lparr>ipc := Loop\<rparr>) = accepted s" "handled (s\<lparr>ipc := Reaping\<rparr>) = accepted s" "handled (s\<lparr>ipc := Sigwait\<rparr>) = accepted s"
  "handled (s\<lparr>ipc := Handle sig\<rparr>) = butlast (accepted s)"
  "handled (s\<lparr>pending := ps\<rparr>) = handled s" "handled (s\<lparr>children := cs\<rparr>) = handled s" "handled (s\<lparr>alarm_set := a\<rparr>) = handled s"
  "handled (s\<lparr>spawned := as\<rparr>) = handled s"
  by (simp_all add: handled_def split: ipc.split)

lemma handled_cases:
  "ipc s = Handle sig \<Longrightarrow> handled s = butlast (accepted s)" "ipc s \<in> {Loop, Sigwait, Reaping} \<Longrightarrow> handled s = accepted s"
  by (auto simp: handled_def)

lemma spawn_simps [simp]:
  "ipc (spawn r argv s) = ipc s" "accepted (spawn r argv s) = accepted s" "alarm_set (spawn r argv s) = alarm_set s"
  "spawned (spawn r argv s) = spawned s @ [argv]"
  by (simp_all add: spawn_def Let_def split: fork_result.split)

lemma spawn_inv:
  "Zombie \<in> set (children (spawn r argv s)) \<Longrightarrow> Zombie \<in> set (children s) \<or> SIGCHLD \<in> set (pending (spawn r argv s))"
  "set (pending s) \<subseteq> set (pending (spawn r argv s))"
  "distinct (pending s) \<Longrightarrow> distinct (pending (spawn r argv s))"
  "p \<in> set (children (spawn r argv s)) \<Longrightarrow> p \<in> set (children s) \<or> p = Zombie \<or> p = Runs argv False True"
  by (auto simp: spawn_def Let_def split: fork_result.splits)

lemma dispatch_simps:
  "dispatch cfg r SIGUSR1 s = sigpoweroff cfg r s" "dispatch cfg r SIGCHLD s = sigreap s" "dispatch cfg r SIGALRM s = sigreap s"
  "dispatch cfg r SIGINT s = sigreboot cfg r s" "dispatch cfg r (Other n) s = s\<lparr>ipc := Loop\<rparr>"
  by (simp_all add: dispatch_def sigmap_def)

text \<open>A handler that starts a command.\<close>

lemma handled_snoc: "sinit_inv cfg s \<Longrightarrow> ipc s = Handle sig \<Longrightarrow> accepted s = handled s @ [sig]"
  by (auto simp: sinit_inv_def handled_def)

lemma sinit_inv_spawn:
  assumes "sinit_inv cfg s" and "ipc s = Handle sig" and "command_of cfg sig = Some argv"
  shows "sinit_inv cfg ((spawn r argv s)\<lparr>ipc := Loop\<rparr>)"
proof -
  have "\<not> reaps (ipc s)" "argv \<in> {rcinitcmd cfg, rcpoweroffcmd cfg, rcrebootcmd cfg}"
    using assms(2,3) by (cases sig; auto simp: reaps_def)+
  moreover have "List.map_filter (command_of cfg) (accepted s) = List.map_filter (command_of cfg) (handled s) @ [argv]"
    using handled_snoc[OF assms(1,2)] assms(3) by (simp add: map_filter_snoc)
  moreover have "Zombie \<in> set (children (spawn r argv s)) \<longrightarrow> SIGCHLD \<in> set (pending (spawn r argv s))"
    using assms(1) spawn_inv(1)[of r argv s] spawn_inv(2)[of s r argv] calculation(1) unfolding sinit_inv_def by blast
  moreover have "\<forall>p\<in>set (children (spawn r argv s)). child_ok cfg p"
    using assms(1) spawn_inv(4) calculation(2) unfolding sinit_inv_def child_ok_def by fastforce
  ultimately show ?thesis using assms(1,2) spawn_inv(3) by (simp add: sinit_inv_def)
qed

lemma sinit_inv_reap:
  assumes "sinit_inv cfg s" and "reaps (ipc s)"
  shows "sinit_inv cfg (sigreap s)"
proof -
  have "List.map_filter (command_of cfg) (accepted s) = List.map_filter (command_of cfg) (handled s)"
  proof (cases "ipc s")
    case (Handle sig)
    then show ?thesis using assms handled_snoc[of cfg s sig] by (auto simp: reaps_def map_filter_snoc)
  qed (use assms(2) in \<open>auto simp: reaps_def handled_cases\<close>)
  moreover have "set (remove1 Zombie (children s)) \<subseteq> set (children s)" by (rule set_remove1_subset)
  ultimately show ?thesis using assms unfolding sinit_inv_def by (auto simp: sigreap_def reaps_def)
qed

lemma sinit_inv_dispatch:
  assumes "sinit_inv cfg s" and "ipc s = Handle sig"
  shows "sinit_inv cfg (dispatch cfg r sig s)"
proof (cases sig)
  case (Other n)
  then show ?thesis using assms handled_snoc[OF assms]
    by (auto simp: dispatch_simps sinit_inv_def reaps_def map_filter_snoc)
qed (use assms sinit_inv_spawn sinit_inv_reap in \<open>auto simp: dispatch_simps sigpoweroff_def sigreboot_def reaps_def\<close>)

lemma sinit_inv_accept:
  assumes "sinit_inv cfg s" and "ipc s = Sigwait" and "sig \<in> set (pending s)"
  shows "sinit_inv cfg (s\<lparr>ipc := Handle sig, pending := remove1 sig (pending s), accepted := accepted s @ [sig]\<rparr>)"
  using assms by (cases "sig = SIGCHLD") (auto simp: sinit_inv_def handled_def reaps_def)

lemma sinit_inv_child:
  assumes "sinit_inv cfg s" and "\<forall>p\<in>set cs. p \<in> set (children s) \<or> p \<in> {Orphan, Zombie}"
  shows "sinit_inv cfg (raise SIGCHLD (s\<lparr>children := cs\<rparr>))"
  using assms by (auto simp: sinit_inv_def child_ok_def)

lemma sinit_inv_main:
  assumes "init_loop cfg s t" and "sinit_inv cfg s"
  shows "sinit_inv cfg t"
  using assms
proof (induction rule: init_loop.induct)
  case (Dispatch s sig r)
  then show ?case by (simp add: sinit_inv_dispatch)
next
  case (Reap s)
  then show ?case by (simp add: sinit_inv_reap reaps_def)
next
  case (Accept s sig)
  then show ?case by (simp add: sinit_inv_accept)
qed (auto simp: sinit_inv_def reaps_def handled_cases child_ok_def)

lemma sinit_inv_environment:
  assumes "environment s t" and "sinit_inv cfg s"
  shows "sinit_inv cfg t"
  using assms
proof (induction rule: environment.induct)
  case (Ends i s)
  then show ?case by (intro sinit_inv_child) (auto dest!: set_update_subset_insert[THEN subsetD])
next
  case (Adopt_zombie s)
  then show ?case by (intro sinit_inv_child) auto
qed (auto simp: sinit_inv_def reaps_def handled_cases child_ok_def)

lemma sinit_inv_step: "sinit_step cfg s t \<Longrightarrow> sinit_inv cfg s \<Longrightarrow> sinit_inv cfg t"
  using sinit_inv_main sinit_inv_environment unfolding sinit_step_def by blast

lemma sinit_inv_start: "sinit_start cfg s \<Longrightarrow> sinit_inv cfg s"
proof -
  assume "sinit_start cfg s"
  then obtain r where "sinit_main cfg 1 r = Inr s" unfolding sinit_start_def by blast
  then show "sinit_inv cfg s"
    by (cases r) (auto simp: sinit_main_def sinit_inv_def spawn_def handled_def child_ok_def List.map_filter_def reaps_def)
qed

section \<open>Nothing is left to reap\<close>

definition quiet :: "sinit \<Rightarrow> bool" where
  "quiet s \<longleftrightarrow> ipc s = Sigwait \<and> pending s = [] \<and> Zombie \<notin> set (children s)"

definition pc_work :: "ipc \<Rightarrow> nat" where
  "pc_work p = (case p of Sigwait \<Rightarrow> 0 | Loop \<Rightarrow> 1 | Reaping \<Rightarrow> 2 | Handle sig \<Rightarrow> 3)"

definition work :: "sinit \<Rightarrow> nat" where
  "work s = 4 * length (pending s) + 2 * count_list (children s) Zombie + pc_work (ipc s)"

lemma count_list_remove1: "x \<in> set xs \<Longrightarrow> Suc (count_list (remove1 x xs) x) = count_list xs x"
  by (induction xs) auto

lemma work_reap: "ipc s = Reaping \<or> (\<exists>sig. ipc s = Handle sig) \<Longrightarrow> work (sigreap s) < work s"
  using count_list_remove1[of Zombie "children s"] by (auto simp: work_def sigreap_def pc_work_def)

lemma work_dispatch: "ipc s = Handle sig \<Longrightarrow> work (dispatch cfg Exec_ok sig s) < work s"
  using work_reap[of s]
  by (cases sig) (auto simp: dispatch_simps sigpoweroff_def sigreboot_def work_def spawn_def Let_def pc_work_def)

lemma work_smaller:
  assumes "sinit_inv cfg s" and "\<not> quiet s"
  shows "\<exists>t. init_loop cfg s t \<and> work t < work s"
proof (cases "ipc s")
  case Loop
  then show ?thesis using init_loop.Alarm[OF Loop, of cfg] by (auto simp: work_def pc_work_def)
next
  case Sigwait
  then have "pending s \<noteq> []" using assms by (auto simp: quiet_def sinit_inv_def reaps_def)
  then obtain sig where sig: "sig \<in> set (pending s)" by (cases "pending s") auto
  then have "Suc (length (remove1 sig (pending s))) = length (pending s)" using length_pos_if_in_set[OF sig] by (simp add: length_remove1)
  then show ?thesis using init_loop.Accept[OF Sigwait sig, of cfg] Sigwait by (auto simp: work_def pc_work_def)
next
  case (Handle sig)
  show ?thesis using init_loop.Dispatch[OF Handle, of cfg Exec_ok] work_dispatch[OF Handle] by blast
next
  case Reaping
  then show ?thesis using init_loop.Reap[OF Reaping, of cfg] work_reap[of s] by blast
qed

interpretation sinit: safe_system "sinit_start cfg" "sinit_step cfg" "sinit_inv cfg"
  by unfold_locales (use sinit_inv_start sinit_inv_step in blast)+

text \<open>From every state that satisfies the invariant, init gets there alone.\<close>

interpretation sinit_alone: converging_system "sinit_inv cfg" "init_loop cfg" "sinit_inv cfg" quiet work
  by unfold_locales (use sinit_inv_main work_smaller in blast)+

section \<open>Properties\<close>

text \<open>
  C30: although pending signals merge, no child that has ended is forgotten: while there is one, \<open>SIGCHLD\<close> is pending or init is in
  the loop that reaps; and from every reachable state init can come, by steps of its own only, to
  the state in which it waits with no signal pending and no child left to reap.
\<close>

theorem sinit_reaps:
  assumes "sinit_reach cfg s"
  shows "(Zombie \<in> set (children s) \<longrightarrow> SIGCHLD \<in> set (pending s) \<or> reaps (ipc s)) \<and>
    (\<exists>t. (init_loop cfg)\<^sup>*\<^sup>* s t \<and> quiet t)"
proof -
  have inv: "sinit_inv cfg s" by (rule sinit.inv_reach[OF assms])
  then have "Zombie \<in> set (children s) \<longrightarrow> SIGCHLD \<in> set (pending s) \<or> reaps (ipc s)" by (simp add: sinit_inv_def)
  then show ?thesis using sinit_alone.can_reach_goal[OF inv] by blast
qed

text \<open>
  The commands that init has started are the start command and then those that the handled signals ask for,
  in the order of the signals; the processes that run them have their signals unblocked and a session of their own.
\<close>

theorem sinit_commands:
  assumes "sinit_reach cfg s"
  shows "spawned s = rcinitcmd cfg # List.map_filter (command_of cfg) (handled s) \<and> (\<forall>p\<in>set (children s). child_ok cfg p)"
  using sinit.inv_reach[OF assms] by (simp add: sinit_inv_def)

text \<open>A power button, and a start command that ends at the same time.\<close>

definition example_cfg :: commands where
  "example_cfg = \<lparr>rcinitcmd = [''/bin/rc.init''], rcpoweroffcmd = [''/bin/rc.shutdown'', ''poweroff''],
     rcrebootcmd = [''/bin/rc.shutdown'', ''reboot'']\<rparr>"

definition sinit_example :: sinit where
  "sinit_example = \<lparr>ipc = Loop, pending = [SIGCHLD], alarm_set = True, children = [Zombie, Runs (rcpoweroffcmd example_cfg) False True],
     accepted = [SIGUSR1], spawned = [rcinitcmd example_cfg, rcpoweroffcmd example_cfg]\<rparr>"

lemma sinit_example_reach: "sinit_reach example_cfg sinit_example"
proof -
  note step = reach_step[where step = "sinit_step example_cfg" and init = "sinit_start example_cfg"]
  define s where "s = spawn Exec_ok (rcinitcmd example_cfg)
    \<lparr>ipc = Loop, pending = [], alarm_set = False, children = [], accepted = [], spawned = []\<rparr>"
  have "sinit_reach example_cfg s" by (rule reach_init) (auto simp: sinit_start_def sinit_main_def s_def)
  note s1 = step[OF this sinit_steps(1)[OF init_loop.Alarm]]
  note s2 = step[OF s1 sinit_steps(2)[OF environment.Kill[where sig = SIGUSR1]]]
  note s3 = step[OF s2 sinit_steps(1)[OF init_loop.Accept[where sig = SIGUSR1]]]
  note s4 = step[OF s3 sinit_steps(2)[OF environment.Ends[where i = 0]]]
  note s5 = step[OF s4 sinit_steps(1)[OF init_loop.Dispatch[where sig = SIGUSR1 and r = Exec_ok]]]
  show ?thesis using s5 unfolding dispatch_simps
    by (simp add: s_def spawn_def raise_def sigpoweroff_def sinit_example_def)
qed

lemma sinit_reaps_witness: "\<exists>t. (init_loop example_cfg)\<^sup>*\<^sup>* sinit_example t \<and> quiet t"
  using sinit_reaps[OF sinit_example_reach] by simp

lemma sinit_commands_witness: "spawned sinit_example = [rcinitcmd example_cfg, rcpoweroffcmd example_cfg]"
  using sinit_commands[OF sinit_example_reach] by (simp add: sinit_example_def)

end
