(* ===== verification/Reaper.thy ===== *)
theory Reaper
  imports Conc
begin

text \<open>
  The processes of \<open>2/so21_lista_2/reaper.c\<close>: the program makes itself a reaper, its child starts a grandchild and ends, the orphan is killed through its process group
  and reaped. The processes are known by name, and \<open>ps\<close> is the one that runs the command \<open>ps\<close>; when \<open>execve\<close> fails that process goes on
  with the code of \<open>main\<close>, as there is no \<open>exit\<close> after it. What is printed is left out, but for the last line. \<open>fork\<close> succeeds: the library's wrapper ends the program when it does not, but \<open>ps\<close> calls \<open>fork\<close> itself and does
  not look at the result, and with -1 its \<open>waitpid\<close> would wait for the grandchild, which does not end before it is killed.
\<close>

section \<open>Processes\<close>

datatype proc = Init | Main | Child | Grandchild | Ps

text \<open>A running process is at a place of its code; the status of a process that has ended is kept until it is reaped.\<close>

datatype life = Unborn | Runs nat | Zombie nat | Reaped

record family =
  life :: "proc \<Rightarrow> life"
  parent :: "proc \<Rightarrow> proc"
  group :: "proc \<Rightarrow> proc"
  subreaper :: bool
  failed :: bool
  shown :: "nat option"

definition SIGINT :: nat where "SIGINT = 2"

definition WEXITSTATUS :: "nat \<Rightarrow> nat" where
  "WEXITSTATUS status = status div 256 mod 256"

definition goto :: "proc \<Rightarrow> nat \<Rightarrow> family \<Rightarrow> family" where
  "goto p pc s = s\<lparr>life := (life s)(p := Runs pc)\<rparr>"

text \<open>A new process is in the group of its parent.\<close>

definition fork :: "proc \<Rightarrow> proc \<Rightarrow> family \<Rightarrow> family" where
  "fork p c s = s\<lparr>life := (life s)(c := Runs 0), parent := (parent s)(c := p), group := (group s)(c := group s p)\<rparr>"

text \<open>The children of a process that ends go to the reaper.\<close>

definition die :: "nat \<Rightarrow> proc \<Rightarrow> family \<Rightarrow> family" where
  "die status p s = s\<lparr>life := (life s)(p := Zombie status),
     parent := (\<lambda>q. if parent s q = p then if subreaper s then Main else Init else parent s q)\<rparr>"

definition is_running :: "life \<Rightarrow> bool" where
  "is_running l = (case l of Runs pc \<Rightarrow> True | _ \<Rightarrow> False)"

definition in_table :: "life \<Rightarrow> bool" where
  "in_table l \<longleftrightarrow> l \<noteq> Unborn \<and> l \<noteq> Reaped"

definition all_procs :: "proc list" where
  "all_procs = [Init, Main, Child, Grandchild, Ps]"

text \<open>\<open>SIGINT\<close> to the processes of a group ends those that run; \<open>None\<close>: there is no process in the group.\<close>

definition kill_group :: "proc \<Rightarrow> family \<Rightarrow> family option" where
  "kill_group g s =
    (let members = filter (\<lambda>p. group s p = g \<and> in_table (life s p)) all_procs
     in if members = [] then None else Some (fold (die SIGINT) (filter (\<lambda>p. is_running (life s p)) members) s))"

text \<open>\<open>waitpid\<close>: an error when there is no such child, no result while it runs.\<close>

definition waitpid :: "proc \<Rightarrow> proc list \<Rightarrow> family \<Rightarrow> (nat \<times> family) run option" where
  "waitpid me ps s =
    (let children = filter (\<lambda>p. parent s p = me \<and> in_table (life s p)) ps
     in if children = [] then Some (Inl App_error)
        else case filter (\<lambda>p. \<not> is_running (life s p)) children of
            [] \<Rightarrow> None
          | p # _ \<Rightarrow> (case life s p of Zombie status \<Rightarrow> Some (Inr (status, s\<lparr>life := (life s)(p := Reaped)\<rparr>)) | _ \<Rightarrow> None))"

section \<open>The program\<close>

text \<open>\<open>exec_ok\<close>: whether \<open>execve\<close> finds the command.\<close>

definition child :: "nat \<Rightarrow> family \<Rightarrow> family option" where
  "child pc s =
    (if pc = 0 then Some (goto Child 1 (s\<lparr>group := (group s)(Child := Child)\<rparr>))
     else if pc = 1 then Some (goto Child 2 (fork Child Grandchild s))
     else Some (die 0 Child s))"

text \<open>\<open>pause\<close>\<close>

definition grandchild :: "nat \<Rightarrow> family \<Rightarrow> family option" where
  "grandchild pc s = None"

definition ps :: "bool \<Rightarrow> nat \<Rightarrow> nat \<Rightarrow> family \<Rightarrow> family option" where
  "ps exec_ok status pc s =
    (if pc = 0 then Some (goto Ps (if exec_ok then 1 else 2) s)
     else if pc = 1 then Some (die status Ps s)
     else if pc = 2 then map_option (\<lambda>r. goto Ps 3 s) (waitpid Ps all_procs s)
     else if pc = 3 then Some (goto Ps 4 (case kill_group Child s of None \<Rightarrow> s | Some s \<Rightarrow> s))
     else if pc = 4 then map_option (\<lambda>r. goto Ps 5 s) (waitpid Ps all_procs s)
     else Some (die 0 Ps s))"

definition main :: "nat \<Rightarrow> family \<Rightarrow> family option" where
  "main pc s =
    (if pc = 0 then Some (goto Main 1 (s\<lparr>subreaper := True\<rparr>))
     else if pc = 1 then Some (goto Main 2 (fork Main Child s))
     else if pc = 2 then
       map_option (\<lambda>r. case r of Inl e \<Rightarrow> goto Main 3 (s\<lparr>failed := True\<rparr>) | Inr (status, s) \<Rightarrow> goto Main 3 s) (waitpid Main [Child] s)
     else if pc = 3 then Some (goto Main 4 (fork Main Ps s))
     else if pc = 4 then
       map_option (\<lambda>r. case r of Inl e \<Rightarrow> goto Main 5 (s\<lparr>failed := True\<rparr>) | Inr (status, s) \<Rightarrow> goto Main 5 s) (waitpid Main [Ps] s)
     else if pc = 5 then
       Some (goto Main 6 (case kill_group Child s of None \<Rightarrow> s\<lparr>failed := True\<rparr> | Some s \<Rightarrow> s))
     else if pc = 6 then
       map_option (\<lambda>r. case r of
           Inl e \<Rightarrow> goto Main 7 (s\<lparr>failed := True\<rparr>)
         | Inr (status, s) \<Rightarrow> goto Main 7 (s\<lparr>shown := Some (WEXITSTATUS status)\<rparr>)) (waitpid Main all_procs s)
     else None)"

definition family_init :: family where
  "family_init = \<lparr>life = (\<lambda>p. if p \<in> {Init, Main} then Runs 0 else Unborn), parent = (\<lambda>_. Init),
     group = (\<lambda>p. p), subreaper = False, failed = False, shown = None\<rparr>"

inductive family_step :: "bool \<Rightarrow> family \<Rightarrow> family \<Rightarrow> bool" for exec_ok :: bool where
  "life s Main = Runs pc \<Longrightarrow> main pc s = Some t \<Longrightarrow> family_step exec_ok s t"
| "life s Child = Runs pc \<Longrightarrow> child pc s = Some t \<Longrightarrow> family_step exec_ok s t"
| "life s Grandchild = Runs pc \<Longrightarrow> grandchild pc s = Some t \<Longrightarrow> family_step exec_ok s t"
| "life s Ps = Runs pc \<Longrightarrow> ps exec_ok status pc s = Some t \<Longrightarrow> family_step exec_ok s t"

inductive_cases family_stepE: "family_step e s t"

abbreviation family_reach :: "bool \<Rightarrow> family \<Rightarrow> bool" where
  "family_reach exec_ok \<equiv> reach (\<lambda>s. s = family_init) (family_step exec_ok)"

section \<open>The states of a run\<close>

definition family :: "nat \<Rightarrow> life \<Rightarrow> life \<Rightarrow> life \<Rightarrow> proc \<Rightarrow> family \<Rightarrow> bool" where
  "family pc c g p gp s \<longleftrightarrow>
     life s Main = Runs pc \<and> life s Init = Runs 0 \<and> life s Child = c \<and> life s Grandchild = g \<and> life s Ps = p \<and>
     subreaper s = (0 < pc) \<and> \<not> failed s \<and> shown s = (if pc = 7 then Some 0 else None) \<and>
     group s Init = Init \<and> group s Main = Main \<and> (c \<noteq> Unborn \<longrightarrow> parent s Child = Main) \<and> (c \<notin> {Unborn, Runs 0} \<longrightarrow> group s Child = Child) \<and>
     (g \<noteq> Unborn \<longrightarrow> parent s Grandchild = gp \<and> group s Grandchild = Child) \<and>
     (p \<noteq> Unborn \<longrightarrow> parent s Ps = Main \<and> group s Ps = Main) \<and> parent s Main = Init \<and> parent s Init = Init"

definition ps_life :: "life \<Rightarrow> bool" where
  "ps_life p \<longleftrightarrow> (\<exists>pc\<le>5. p = Runs pc) \<or> (\<exists>status. p = Zombie status)"

definition family_inv :: "family \<Rightarrow> bool" where
  "family_inv s \<longleftrightarrow>
     family 0 Unborn Unborn Unborn Init s \<or> family 1 Unborn Unborn Unborn Init s \<or>
     family 2 (Runs 0) Unborn Unborn Init s \<or> family 2 (Runs 1) Unborn Unborn Init s \<or>
     family 2 (Runs 2) (Runs 0) Unborn Child s \<or> family 2 (Zombie 0) (Runs 0) Unborn Main s \<or>
     family 3 Reaped (Runs 0) Unborn Main s \<or>
     (\<exists>p. ps_life p \<and> (family 4 Reaped (Runs 0) p Main s \<or> family 4 Reaped (Zombie SIGINT) p Main s)) \<or>
     family 5 Reaped (Runs 0) Reaped Main s \<or> family 5 Reaped (Zombie SIGINT) Reaped Main s \<or>
     family 6 Reaped (Zombie SIGINT) Reaped Main s \<or> family 7 Reaped Reaped Reaped Main s"

lemmas family_simps = main_def child_def grandchild_def ps_def goto_def fork_def die_def waitpid_def kill_group_def all_procs_def
  is_running_def in_table_def Let_def WEXITSTATUS_def SIGINT_def

lemma family_start: 
  "family_step e s t \<Longrightarrow> family 0 Unborn Unborn Unborn Init s \<Longrightarrow> family 1 Unborn Unborn Unborn Init t"
  "family_step e s t \<Longrightarrow> family 1 Unborn Unborn Unborn Init s \<Longrightarrow> family 2 (Runs 0) Unborn Unborn Init t"
  "family_step e s t \<Longrightarrow> family 2 (Runs 0) Unborn Unborn Init s \<Longrightarrow> family 2 (Runs 1) Unborn Unborn Init t"
  "family_step e s t \<Longrightarrow> family 2 (Runs 1) Unborn Unborn Init s \<Longrightarrow> family 2 (Runs 2) (Runs 0) Unborn Child t"
  "family_step e s t \<Longrightarrow> family 2 (Runs 2) (Runs 0) Unborn Child s \<Longrightarrow> family 2 (Zombie 0) (Runs 0) Unborn Main t"
  "family_step e s t \<Longrightarrow> family 2 (Zombie 0) (Runs 0) Unborn Main s \<Longrightarrow> family 3 Reaped (Runs 0) Unborn Main t"
  "family_step e s t \<Longrightarrow> family 3 Reaped (Runs 0) Unborn Main s \<Longrightarrow> family 4 Reaped (Runs 0) (Runs 0) Main t"
  by (erule family_stepE; auto simp: family_def family_simps)+

lemma family_ps_running:
  assumes "family_step e s t" and "family 4 Reaped g (Runs pc) Main s" and "g = Runs 0 \<or> g = Zombie SIGINT" and "pc \<le> 5"
  shows "\<exists>p. ps_life p \<and> (family 4 Reaped (Runs 0) p Main t \<or> family 4 Reaped (Zombie SIGINT) p Main t)"
proof -
  consider "pc = 0" | "pc = 1" | "pc = 2" | "pc = 3" | "pc = 4" | "pc = 5" using assms(4) by linarith
  then obtain p g' where "ps_life p" "g' = g \<or> g' = Zombie SIGINT" "family 4 Reaped g' p Main t"
  proof cases
    case 1
    have "family 4 Reaped g (Runs (if e then 1 else 2)) Main t" using assms(1,2,3) unfolding 1
      by (elim family_stepE disjE) (auto simp: family_def family_simps)
    then show thesis using that[of "Runs (if e then 1 else 2)" g] by (simp add: ps_life_def)
  next
    case 2
    have "\<exists>st. family 4 Reaped g (Zombie st) Main t" using assms(1,2,3) unfolding 2
      by (elim family_stepE disjE) (auto simp: family_def family_simps)
    then show thesis using that by (auto simp: ps_life_def)
  next
    case 3
    have "family 4 Reaped g (Runs 3) Main t" using assms(1,2,3) unfolding 3
      by (elim family_stepE disjE) (auto simp: family_def family_simps)
    then show thesis using that[of "Runs 3" g] by (simp add: ps_life_def)
  next
    case 4
    have "family 4 Reaped (Zombie SIGINT) (Runs 4) Main t" using assms(1,2,3) unfolding 4
      by (elim family_stepE disjE) (auto simp: family_def family_simps)
    then show thesis using that[of "Runs 4" "Zombie SIGINT"] by (simp add: ps_life_def)
  next
    case 5
    have "family 4 Reaped g (Runs 5) Main t" using assms(1,2,3) unfolding 5
      by (elim family_stepE disjE) (auto simp: family_def family_simps)
    then show thesis using that[of "Runs 5" g] by (simp add: ps_life_def)
  next
    case 6
    have "family 4 Reaped g (Zombie 0) Main t" using assms(1,2,3) unfolding 6
      by (elim family_stepE disjE) (auto simp: family_def family_simps)
    then show thesis using that[of "Zombie 0" g] by (simp add: ps_life_def)
  qed
  then show ?thesis using assms(3) by blast
qed

lemma family_end:
  "family_step e s t \<Longrightarrow> g = Runs 0 \<or> g = Zombie SIGINT \<Longrightarrow> family 4 Reaped g (Zombie st) Main s \<Longrightarrow> family 5 Reaped g Reaped Main t"
  "family_step e s t \<Longrightarrow> family 5 Reaped (Runs 0) Reaped Main s \<Longrightarrow> family 6 Reaped (Zombie SIGINT) Reaped Main t"
  "family_step e s t \<Longrightarrow> family 5 Reaped (Zombie SIGINT) Reaped Main s \<Longrightarrow> family 6 Reaped (Zombie SIGINT) Reaped Main t"
  "family_step e s t \<Longrightarrow> family 6 Reaped (Zombie SIGINT) Reaped Main s \<Longrightarrow> family 7 Reaped Reaped Reaped Main t"
  "family_step e s t \<Longrightarrow> family 7 Reaped Reaped Reaped Main s \<Longrightarrow> False"
  by (erule family_stepE; (elim disjE)?; auto simp: family_def family_simps)+

lemma family_inv_step:
  assumes "family_step e s t" and "family_inv s"
  shows "family_inv t"
proof -
  note start = family_start[OF assms(1)] and over = family_end[OF assms(1)]
  from assms(2) consider
      "family 0 Unborn Unborn Unborn Init s \<or> family 1 Unborn Unborn Unborn Init s \<or> family 2 (Runs 0) Unborn Unborn Init s \<or>
       family 2 (Runs 1) Unborn Unborn Init s \<or> family 2 (Runs 2) (Runs 0) Unborn Child s \<or> family 2 (Zombie 0) (Runs 0) Unborn Main s"
    | "family 3 Reaped (Runs 0) Unborn Main s"
    | g p where "ps_life p" "g = Runs 0 \<or> g = Zombie SIGINT" "family 4 Reaped g p Main s"
    | "family 5 Reaped (Runs 0) Reaped Main s \<or> family 5 Reaped (Zombie SIGINT) Reaped Main s \<or> family 6 Reaped (Zombie SIGINT) Reaped Main s \<or>
       family 7 Reaped Reaped Reaped Main s"
    unfolding family_inv_def by blast
  then show ?thesis
  proof cases
    case 1
    then show ?thesis unfolding family_inv_def using start by blast
  next
    case 2
    have "ps_life (Runs 0)" by (simp add: ps_life_def)
    then show ?thesis unfolding family_inv_def using start(7)[OF 2] by blast
  next
    case 3
    from 3(1) show ?thesis unfolding ps_life_def
    proof (elim disjE exE conjE)
      fix pc assume "pc \<le> 5" "p = Runs pc"
      then show ?thesis unfolding family_inv_def using family_ps_running[OF assms(1) _ 3(2)] 3(3) by blast
    next
      fix st assume "p = Zombie st"
      then show ?thesis unfolding family_inv_def using over(1)[OF 3(2)] 3(2,3) by blast
    qed
  next
    case 4
    then show ?thesis unfolding family_inv_def using over(2-5) by blast
  qed
qed

lemma family_inv_init: "family_inv family_init"
  by (simp add: family_inv_def family_def family_init_def)

section \<open>The end of a run\<close>

definition returned :: "family \<Rightarrow> bool" where
  "returned s \<longleftrightarrow> life s Main = Runs 7"

definition family_work :: "family \<Rightarrow> nat" where
  "family_work s =
    20 * (case life s Main of Runs pc \<Rightarrow> 7 - pc | _ \<Rightarrow> 0) + (case life s Child of Runs pc \<Rightarrow> 3 - pc | _ \<Rightarrow> 0) +
    (case life s Ps of Runs pc \<Rightarrow> 7 - pc | _ \<Rightarrow> 0)"

lemma family_closer:
  assumes "family_inv s" and "\<not> returned s"
  shows "\<exists>t. family_step e s t \<and> family_work t < family_work s"
proof -
  have main: ?thesis if "life s Main = Runs pc" "main pc s = Some t" "family_work t < family_work s" for pc t
    using that family_step.intros(1) by blast
  have child: ?thesis if "life s Child = Runs pc" "child pc s = Some t" "family_work t < family_work s" for pc t
    using that family_step.intros(2) by blast
  have ps: ?thesis if "life s Ps = Runs pc" "ps e 0 pc s = Some t" "family_work t < family_work s" for pc t
    using that family_step.intros(4) by blast
  have "\<exists>pc t. life s Main = Runs pc \<and> main pc s = Some t \<and> family_work t < family_work s"
    if "family 0 Unborn Unborn Unborn Init s \<or> family 1 Unborn Unborn Unborn Init s \<or> family 2 (Zombie 0) (Runs 0) Unborn Main s \<or>
      family 3 Reaped (Runs 0) Unborn Main s \<or> family 4 Reaped g (Zombie st) Main s \<and> (g = Runs 0 \<or> g = Zombie SIGINT) \<or>
      family 5 Reaped (Runs 0) Reaped Main s \<or> family 5 Reaped (Zombie SIGINT) Reaped Main s \<or> family 6 Reaped (Zombie SIGINT) Reaped Main s" for g st
    using that by (elim disjE conjE) (simp_all add: family_def family_work_def family_simps)
  moreover have "\<exists>pc t. life s Child = Runs pc \<and> child pc s = Some t \<and> family_work t < family_work s"
    if "family 2 (Runs 0) Unborn Unborn Init s \<or> family 2 (Runs 1) Unborn Unborn Init s \<or> family 2 (Runs 2) (Runs 0) Unborn Child s"
    using that by (elim disjE) (simp_all add: family_def family_work_def family_simps)
  moreover have "\<exists>pc t. life s Ps = Runs pc \<and> ps e 0 pc s = Some t \<and> family_work t < family_work s"
    if st: "family 4 Reaped g (Runs pc) Main s" "g = Runs 0 \<or> g = Zombie SIGINT" "pc \<le> 5" for g pc
  proof -
    consider "pc = 0" | "pc = 1" | "pc = 2" | "pc = 3" | "pc = 4" | "pc = 5" using st(3) by linarith
    then show ?thesis using st(1,2)
      by cases (elim disjE; simp add: family_def family_work_def family_simps)+
  qed
  moreover have "\<not> family 7 Reaped Reaped Reaped Main s" using assms(2) by (simp add: family_def returned_def)
  ultimately show ?thesis using assms(1) main child ps unfolding family_inv_def ps_life_def by blast
qed

interpretation reaper: converging_system "\<lambda>s. s = family_init" "family_step e" family_inv returned family_work
  by unfold_locales (use family_inv_init family_inv_step family_closer in blast)+

text \<open>
  C33: whatever \<open>execve\<close> does, \<open>waitpid\<close>, \<open>kill\<close> and \<open>wait\<close> of the program never fail; it can always come to its end, and then the three
  processes it has started directly or not have ended and are reaped. The number that it prints as the exit status of the grandchild is 0, although
  the grandchild was killed by the signal.
\<close>

theorem reaper_ok:
  assumes "family_reach exec_ok s"
  shows "\<not> failed s \<and> (\<exists>t. (family_step exec_ok)\<^sup>*\<^sup>* s t \<and> returned t) \<and>
    (returned s \<longrightarrow> (\<forall>p\<in>{Child, Grandchild, Ps}. life s p = Reaped) \<and> shown s = Some 0)"
proof -
  have inv: "family_inv s" by (rule reaper.inv_reach[OF assms])
  have "\<not> failed s" "returned s \<longrightarrow> (\<forall>p\<in>{Child, Grandchild, Ps}. life s p = Reaped) \<and> shown s = Some 0"
    using inv by (auto simp: family_inv_def family_def returned_def)
  then show ?thesis using reaper.reachable_can_reach_goal[OF assms] by blast
qed

theorem reaper_ok_witness: "\<exists>t. (family_step False)\<^sup>*\<^sup>* family_init t \<and> returned t"
  using reaper_ok[of False family_init] by (simp add: reach_init)

end
