(* ===== verification/Kernel.thy ===== *)
theory Kernel
  imports Fdtable
begin

text \<open>
  What the small programs use of the kernel's files: inodes with their bytes, open files with a position, and
  descriptor tables. A process is known by its table; \<open>fork\<close> copies the table, or shares it when the flag
  \<open>CLONE_FILES\<close> is given, and the open files are always shared. A descriptor has a flag that closes it at \<open>exec\<close>. A
  system call that fails gives \<open>None\<close>; what a program does then is part of the program.
\<close>

record ofile =
  ino :: nat
  offset :: nat
  readable :: bool

record kernel =
  contents :: "nat \<Rightarrow> u8 list"
  ofiles :: "ofile list"
  tables :: "(nat \<times> bool) fdtab list"

section \<open>System calls\<close>

definition desc :: "nat \<Rightarrow> nat \<Rightarrow> kernel \<Rightarrow> (nat \<times> bool) option" where
  "desc t fd k = entry (tables k ! t) fd"

definition set_table :: "nat \<Rightarrow> (nat \<times> bool) fdtab \<Rightarrow> kernel \<Rightarrow> kernel" where
  "set_table t tab k = k\<lparr>tables := (tables k)[t := tab]\<rparr>"

definition set_offset :: "nat \<Rightarrow> nat \<Rightarrow> kernel \<Rightarrow> kernel" where
  "set_offset j p k = k\<lparr>ofiles := (ofiles k)[j := (ofiles k ! j)\<lparr>offset := p\<rparr>]\<rparr>"

definition sys_open :: "nat \<Rightarrow> nat \<Rightarrow> bool \<Rightarrow> kernel \<Rightarrow> nat \<times> kernel" where
  "sys_open t i r k =
    (let (fd, tab) = open_fd (tables k ! t) (length (ofiles k), False)
     in (fd, set_table t tab (k\<lparr>ofiles := ofiles k @ [\<lparr>ino = i, offset = 0, readable = r\<rparr>]\<rparr>)))"

definition sys_close :: "nat \<Rightarrow> nat \<Rightarrow> kernel \<Rightarrow> kernel option" where
  "sys_close t fd k = (case close_fd (tables k ! t) fd of Inl e \<Rightarrow> None | Inr tab \<Rightarrow> Some (set_table t tab k))"

definition sys_read :: "nat \<Rightarrow> nat \<Rightarrow> nat \<Rightarrow> kernel \<Rightarrow> (u8 list \<times> kernel) option" where
  "sys_read t fd n k =
    (case desc t fd k of
       None \<Rightarrow> None
     | Some (j, c) \<Rightarrow>
         (let f = ofiles k ! j; bs = take n (drop (offset f) (contents k (ino f)))
          in if readable f then Some (bs, set_offset j (offset f + length bs) k) else None))"

text \<open>A write behind the end of the file fills the gap with zeros.\<close>

definition overwrite :: "nat \<Rightarrow> u8 list \<Rightarrow> u8 list \<Rightarrow> u8 list" where
  "overwrite p bs xs = take p (xs @ replicate (p - length xs) 0) @ bs @ drop (p + length bs) xs"

definition sys_write :: "nat \<Rightarrow> nat \<Rightarrow> u8 list \<Rightarrow> kernel \<Rightarrow> kernel option" where
  "sys_write t fd bs k =
    (case desc t fd k of
       None \<Rightarrow> None
     | Some (j, c) \<Rightarrow>
         (let f = ofiles k ! j
          in Some (set_offset j (offset f + length bs)
               (k\<lparr>contents := (contents k)(ino f := overwrite (offset f) bs (contents k (ino f)))\<rparr>))))"

datatype whence = SEEK_SET | SEEK_CUR | SEEK_END

text \<open>A terminal, the inode 0, has no position to be set.\<close>

definition sys_lseek :: "nat \<Rightarrow> nat \<Rightarrow> nat \<Rightarrow> whence \<Rightarrow> kernel \<Rightarrow> (nat \<times> kernel) option" where
  "sys_lseek t fd n w k =
    (case desc t fd k of
       None \<Rightarrow> None
     | Some (j, c) \<Rightarrow>
         (let f = ofiles k ! j;
              p = (case w of SEEK_SET \<Rightarrow> n | SEEK_CUR \<Rightarrow> offset f + n | SEEK_END \<Rightarrow> length (contents k (ino f)) + n)
          in if ino f = 0 then None else Some (p, set_offset j p k)))"

definition put_entry :: "nat \<Rightarrow> 'e \<Rightarrow> 'e fdtab \<Rightarrow> 'e fdtab" where
  "put_entry fd e tab = (tab @ replicate (Suc fd - length tab) None)[fd := Some e]"

definition sys_dup2 :: "nat \<Rightarrow> nat \<Rightarrow> nat \<Rightarrow> kernel \<Rightarrow> kernel option" where
  "sys_dup2 t old new k =
    (case desc t old k of
       None \<Rightarrow> None
     | Some (j, c) \<Rightarrow> Some (if old = new then k else set_table t (put_entry new (j, False) (tables k ! t)) k))"

definition sys_cloexec :: "nat \<Rightarrow> nat \<Rightarrow> kernel \<Rightarrow> kernel option" where
  "sys_cloexec t fd k =
    (case desc t fd k of None \<Rightarrow> None | Some (j, c) \<Rightarrow> Some (set_table t ((tables k ! t)[fd := Some (j, True)]) k))"

definition sys_fork :: "bool \<Rightarrow> nat \<Rightarrow> kernel \<Rightarrow> nat \<times> kernel" where
  "sys_fork share t k = (if share then (t, k) else (length (tables k), k\<lparr>tables := tables k @ [tables k ! t]\<rparr>))"

definition after_exec :: "(nat \<times> bool) option \<Rightarrow> (nat \<times> bool) option" where
  "after_exec e = (case e of Some (j, c) \<Rightarrow> if c then None else Some (j, c) | None \<Rightarrow> None)"

definition sys_exec :: "nat \<Rightarrow> kernel \<Rightarrow> kernel" where
  "sys_exec t k = set_table t (map after_exec (tables k ! t)) k"

text \<open>A process with its three standard descriptors on a terminal, the inode 0.\<close>

definition boot :: "(nat \<Rightarrow> u8 list) \<Rightarrow> kernel" where
  "boot fs = \<lparr>contents = fs, ofiles = [\<lparr>ino = 0, offset = 0, readable = True\<rparr>],
     tables = [[Some (0, False), Some (0, False), Some (0, False)]]\<rparr>"

section \<open>Well-formed kernels\<close>

text \<open>Every descriptor refers to an open file.\<close>

definition tab_ok :: "nat \<Rightarrow> (nat \<times> bool) fdtab \<Rightarrow> bool" where
  "tab_ok n tab \<longleftrightarrow> (\<forall>fd j c. entry tab fd = Some (j, c) \<longrightarrow> j < n)"

definition kernel_ok :: "kernel \<Rightarrow> bool" where
  "kernel_ok k \<longleftrightarrow> (\<forall>tab\<in>set (tables k). tab_ok (length (ofiles k)) tab)"

lemma tab_ok_mono: "tab_ok n tab \<Longrightarrow> n \<le> m \<Longrightarrow> tab_ok m tab"
  by (auto simp: tab_ok_def dest: less_le_trans)

lemma kernel_ok_table: "kernel_ok k \<Longrightarrow> t < length (tables k) \<Longrightarrow> tab_ok (length (ofiles k)) (tables k ! t)"
  by (simp add: kernel_ok_def)

lemma kernel_ok_set_table: "kernel_ok k \<Longrightarrow> tab_ok (length (ofiles k)) tab \<Longrightarrow> kernel_ok (set_table t tab k)"
  by (auto simp: kernel_ok_def set_table_def dest!: set_update_subset_insert[THEN subsetD])

lemma kernel_ok_set_offset [simp]: "kernel_ok (set_offset j p k) = kernel_ok k"
  by (simp add: kernel_ok_def set_offset_def)

lemma entry_update: "entry (tab[i := e]) fd = (if fd = i \<and> i < length tab then e else entry tab fd)"
  by (auto simp: entry_def nth_list_update)

lemma entry_put_entry [simp]: "entry (put_entry i e tab) = (entry tab)(i := Some e)"
  by (auto simp: entry_def put_entry_def nth_append nth_list_update fun_eq_iff)

lemma entry_map: "entry (map f tab) fd = (if fd < length tab then f (tab ! fd) else None)"
  by (simp add: entry_def)

lemma entry_exec: "entry (map after_exec tab) fd = after_exec (entry tab fd)"
  by (simp add: entry_def after_exec_def)

section \<open>What the calls leave alone\<close>

named_theorems kernel_simps "effects of the system calls on descriptors, open files and contents"

lemma set_offset_simps [kernel_simps]:
  "tables (set_offset j p k) = tables k" "contents (set_offset j p k) = contents k"
  "length (ofiles (set_offset j p k)) = length (ofiles k)" "desc t fd (set_offset j p k) = desc t fd k"
  "j < length (ofiles k) \<Longrightarrow> ofiles (set_offset j p k) ! j = (ofiles k ! j)\<lparr>offset := p\<rparr>"
  "i \<noteq> j \<Longrightarrow> ofiles (set_offset j p k) ! i = ofiles k ! i"
  by (simp_all add: set_offset_def desc_def)

lemma set_offset_twice [kernel_simps]: "set_offset j p (set_offset j q k) = set_offset j p k"
  by (cases "j < length (ofiles k)") (simp_all add: set_offset_def list_update_beyond)

lemma set_table_simps [kernel_simps]:
  "length (tables (set_table t tab k)) = length (tables k)" "contents (set_table t tab k) = contents k"
  "ofiles (set_table t tab k) = ofiles k"
  "t < length (tables k) \<Longrightarrow> tables (set_table t tab k) ! t = tab"
  "u \<noteq> t \<Longrightarrow> tables (set_table t tab k) ! u = tables k ! u"
  by (simp_all add: set_table_def)

lemma desc_set_table [kernel_simps]:
  "t < length (tables k) \<Longrightarrow> desc u fd (set_table t tab k) = (if u = t then entry tab fd else desc u fd k)"
  by (simp add: desc_def set_table_def)

lemma sys_read_at_end:
  assumes "desc t fd k = Some (j, c)" and "readable (ofiles k ! j)" and "length (contents k (ino (ofiles k ! j))) \<le> offset (ofiles k ! j)"
  shows "sys_read t fd n k = Some ([], set_offset j (offset (ofiles k ! j)) k)"
  using assms by (simp add: sys_read_def Let_def)

text \<open>The calls on a descriptor that is open, in terms of the descriptors after them.\<close>

lemma sys_close_open:
  assumes "desc t fd k \<noteq> None" and "t < length (tables k)"
  shows "\<exists>k'. sys_close t fd k = Some k' \<and> k' = set_table t ((tables k ! t)[fd := None]) k \<and>
    (\<forall>i. desc t i k' = (if i = fd then None else desc t i k))"
  using assms by (auto simp: sys_close_def close_fd_def desc_def kernel_simps entry_update) (simp add: entry_def)

lemma sys_dup2_open:
  assumes "desc t old k = Some (j, c)" and "old \<noteq> new" and "t < length (tables k)"
  shows "\<exists>k'. sys_dup2 t old new k = Some k' \<and> k' = set_table t (put_entry new (j, False) (tables k ! t)) k \<and>
    (\<forall>i. desc t i k' = (if i = new then Some (j, False) else desc t i k))"
  using assms by (simp add: sys_dup2_def kernel_simps) (simp add: desc_def)

lemma sys_cloexec_open:
  assumes "desc t fd k = Some (j, c)" and "t < length (tables k)"
  shows "\<exists>k'. sys_cloexec t fd k = Some k' \<and> k' = set_table t ((tables k ! t)[fd := Some (j, True)]) k \<and>
    (\<forall>i. desc t i k' = (if i = fd then Some (j, True) else desc t i k))"
proof -
  have "fd < length (tables k ! t)" using assms(1) by (auto simp: desc_def entry_def split: if_splits)
  then show ?thesis using assms by (simp add: sys_cloexec_def kernel_simps entry_update) (simp add: desc_def)
qed

lemma sys_exec_simps [kernel_simps]:
  "length (tables (sys_exec t k)) = length (tables k)" "contents (sys_exec t k) = contents k" "ofiles (sys_exec t k) = ofiles k"
  by (simp_all add: sys_exec_def kernel_simps)

lemma desc_exec: "t < length (tables k) \<Longrightarrow> desc t fd (sys_exec t k) = after_exec (desc t fd k)"
  by (simp add: sys_exec_def kernel_simps entry_exec) (simp add: desc_def)

section \<open>The calls keep the kernel well-formed\<close>

lemma tab_ok_open:
  assumes "tab_ok n tab" and "open_fd tab (n, False) = (fd, tab')"
  shows "tab_ok (Suc n) tab'"
  using assms open_fd_entry(2)[OF assms(2)] by (auto simp: tab_ok_def less_Suc_eq split: if_splits)

lemma sys_open_ok:
  assumes "kernel_ok k" and "t < length (tables k)" and "sys_open t i r k = (fd, k')"
  shows "kernel_ok k' \<and> desc t fd k = None \<and> desc t fd k' = Some (length (ofiles k), False)"
proof -
  obtain tab where o: "open_fd (tables k ! t) (length (ofiles k), False) = (fd, tab)"
    and k': "k' = set_table t tab (k\<lparr>ofiles := ofiles k @ [\<lparr>ino = i, offset = 0, readable = r\<rparr>]\<rparr>)"
    using assms(3) by (auto simp: sys_open_def split: prod.splits)
  have "kernel_ok (k\<lparr>ofiles := ofiles k @ [\<lparr>ino = i, offset = 0, readable = r\<rparr>]\<rparr>)"
    using assms(1) by (auto simp: kernel_ok_def intro: tab_ok_mono)
  moreover have "tab_ok (Suc (length (ofiles k))) tab" using tab_ok_open[OF kernel_ok_table[OF assms(1,2)] o] .
  ultimately have "kernel_ok k'" unfolding k' by (intro kernel_ok_set_table) simp_all
  then show ?thesis using open_fd_entry[OF o] assms(2) by (simp add: k' desc_def set_table_def)
qed

lemma sys_close_ok:
  assumes "kernel_ok k" and "t < length (tables k)" and "sys_close t fd k = Some k'"
  shows "kernel_ok k' \<and> desc t fd k' = None"
proof -
  have k': "k' = set_table t ((tables k ! t)[fd := None]) k" "entry (tables k ! t) fd \<noteq> None"
    using assms(3) by (auto simp: sys_close_def close_fd_def split: if_splits sum.splits)
  have "tab_ok (length (ofiles k)) ((tables k ! t)[fd := None])"
    using kernel_ok_table[OF assms(1,2)] by (simp add: tab_ok_def entry_update)
  then show ?thesis using assms(1,2) k' unfolding k'(1)
    by (simp add: kernel_ok_set_table desc_set_table entry_update) (simp add: entry_def)
qed

lemma sys_fork_ok:
  assumes "kernel_ok k" and "t < length (tables k)" and "sys_fork share t k = (c, k')"
  shows "kernel_ok k' \<and> c < length (tables k') \<and> (\<forall>fd. desc c fd k' = desc t fd k) \<and> (c = t \<longleftrightarrow> share)"
  using assms by (auto simp: sys_fork_def kernel_ok_def desc_def nth_append split: if_splits)

lemma sys_read_ok: "kernel_ok k \<Longrightarrow> sys_read t fd n k = Some (bs, k') \<Longrightarrow> kernel_ok k'"
  by (auto simp: sys_read_def Let_def split: option.splits if_splits)

lemma sys_lseek_ok: "kernel_ok k \<Longrightarrow> sys_lseek t fd n w k = Some (p, k') \<Longrightarrow> kernel_ok k'"
  by (auto simp: sys_lseek_def Let_def split: option.splits if_splits)


end
