(* ===== verification/Fdleak.thy ===== *)
theory Fdleak
  imports Kernel
begin

text \<open>
  The two programs of \<open>4/so21_lista_4\<close> that belong together: \<open>leaky.c\<close> opens a file with a password, moves its
  descriptor to a random place and runs \<open>innocent.c\<close>, which reports every file that it finds open. The report is
  the list of the descriptors with the inodes they refer to and the text that is printed for them. \<open>max_fd\<close> is the limit
  of descriptors, \<open>rnd\<close> the value of \<open>random()\<close>. The files are known by their inodes: \<open>PASSWD\<close> and \<open>HACKER\<close>; the
  terminal has the inode 0.
\<close>

definition PASSWD :: nat where "PASSWD = 1"

definition HACKER :: nat where "HACKER = 2"

section \<open>The innocent program\<close>

text \<open>The text that is printed for one successful \<open>read\<close>: the last byte is overwritten with the zero that ends a string.\<close>

definition print_chunk :: "u8 list \<Rightarrow> u8 list" where
  "print_chunk bs = takeWhile (\<lambda>b. b \<noteq> 0) (butlast bs)"

fun read_all :: "nat \<Rightarrow> nat \<Rightarrow> nat \<Rightarrow> kernel \<Rightarrow> (u8 list \<times> kernel) run" where
  "read_all 0 t i k = Inl Still_running"
| "read_all (Suc fuel) t i k =
    (case sys_read t i 999 k of
       None \<Rightarrow> Inr ([], k)
     | Some (bs, k') \<Rightarrow>
         if bs = [] then Inr ([], k')
         else bind_run (read_all fuel t i k') (\<lambda>(txt, k''). Inr (print_chunk bs @ txt, k'')))"

text \<open>The descriptors in turn: those that \<open>readlink\<close> finds are rewound, which has no effect on a terminal, and read to their end.\<close>

fun scan_fds :: "nat \<Rightarrow> nat list \<Rightarrow> kernel \<Rightarrow> ((nat \<times> nat \<times> u8 list) list \<times> kernel) run" where
  "scan_fds t [] k = Inr ([], k)"
| "scan_fds t (i # is) k =
    (case desc t i k of
       None \<Rightarrow> scan_fds t is k
     | Some (j, c) \<Rightarrow>
         (let k1 = (case sys_lseek t i 0 SEEK_SET k of None \<Rightarrow> k | Some (p, k1) \<Rightarrow> k1);
              fuel = length (contents k (ino (ofiles k ! j))) + 1
          in bind_run (read_all fuel t i k1) (\<lambda>(txt, k2).
               bind_run (scan_fds t is k2) (\<lambda>(rep, k3). Inr ((i, ino (ofiles k ! j), txt) # rep, k3)))))"

definition innocent_main :: "nat \<Rightarrow> nat \<Rightarrow> kernel \<Rightarrow> (nat \<times> nat \<times> u8 list) list run" where
  "innocent_main max_fd t k =
    (let (out, k1) = sys_open t HACKER False k
     in bind_run (scan_fds t [0..<max_fd] k1) (\<lambda>(rep, k2).
          case sys_close t out k2 of None \<Rightarrow> Inl App_error | Some k3 \<Rightarrow> Inr rep))"

section \<open>The leaky program\<close>

definition or_error :: "'a option \<Rightarrow> 'a run" where
  "or_error x = (case x of None \<Rightarrow> Inl App_error | Some y \<Rightarrow> Inr y)"

text \<open>\<open>system\<close>: a copy of the process runs another program.\<close>

definition run_system :: "nat \<Rightarrow> nat \<Rightarrow> kernel \<Rightarrow> (nat \<times> nat \<times> u8 list) list run" where
  "run_system max_fd t k = (let (c, k1) = sys_fork False t k in innocent_main max_fd c (sys_exec c k1))"

definition leaky_main :: "nat \<Rightarrow> nat \<Rightarrow> kernel \<Rightarrow> (nat \<times> nat \<times> u8 list) list run" where
  "leaky_main max_fd rnd k =
    (let (fd_1, k1) = sys_open 0 PASSWD True k; fd_2 = 3 + rnd mod (max_fd - 3)
     in bind_run (or_error (sys_dup2 0 fd_1 fd_2 k1)) (\<lambda>k2.
        bind_run (or_error (sys_close 0 fd_1 k2)) (\<lambda>k3.
        bind_run (or_error (sys_lseek 0 fd_2 0 SEEK_END k3)) (\<lambda>(p, k4).
          let k5 = (case sys_cloexec 0 fd_2 k4 of None \<Rightarrow> k4 | Some k5 \<Rightarrow> k5)
          in bind_run (run_system max_fd 0 k5) (\<lambda>rep.
             bind_run (or_error (sys_close 0 fd_2 k5)) (\<lambda>_. Inr rep))))))"

section \<open>Reading a file to its end\<close>

text \<open>What the innocent program prints of a file with these bytes.\<close>

function printed :: "u8 list \<Rightarrow> u8 list" where
  "printed xs = (if xs = [] then [] else print_chunk (take 999 xs) @ printed (drop 999 xs))"
  by pat_completeness auto
termination by (relation "measure length") auto

declare printed.simps [simp del]

lemma read_all_printed:
  assumes "desc t i k = Some (j, c)" and "j < length (ofiles k)" and "readable (ofiles k ! j)"
    and "length (drop (offset (ofiles k ! j)) (contents k (ino (ofiles k ! j)))) < fuel"
  shows "\<exists>p\<ge>length (contents k (ino (ofiles k ! j))).
    read_all fuel t i k = Inr (printed (drop (offset (ofiles k ! j)) (contents k (ino (ofiles k ! j)))), set_offset j p k)"
  using assms
proof (induction fuel arbitrary: k)
  case (Suc fuel)
  let ?f = "ofiles k ! j"
  let ?rest = "drop (offset ?f) (contents k (ino ?f))"
  let ?k = "set_offset j (offset ?f + length (take 999 ?rest)) k"
  have r: "sys_read t i 999 k = Some (take 999 ?rest, ?k)" using Suc.prems(1,3) by (simp add: sys_read_def Let_def)
  show ?case
  proof (cases "?rest = []")
    case True
    then show ?thesis using r by (auto simp: printed.simps[of "[]"] intro!: exI[of _ "offset ?f"])
  next
    case False
    then have "0 < length ?rest" by simp
    have "drop (offset (ofiles ?k ! j)) (contents ?k (ino (ofiles ?k ! j))) = drop 999 ?rest"
      using Suc.prems(2) by (cases "999 \<le> length ?rest") (simp_all add: kernel_simps min_def add.commute)
    with Suc.IH[of ?k] Suc.prems obtain p where
      "length (contents k (ino ?f)) \<le> p" "read_all fuel t i ?k = Inr (printed (drop 999 ?rest), set_offset j p ?k)"
      using \<open>0 < length ?rest\<close> by (fastforce simp: kernel_simps)
    then show ?thesis using r False by (auto simp: kernel_simps printed.simps[of ?rest])
  qed
qed simp

lemma read_all_unreadable:
  "desc t i k = Some (j, c) \<Longrightarrow> \<not> readable (ofiles k ! j) \<Longrightarrow> read_all (Suc fuel) t i k = Inr ([], k)"
  by (simp add: sys_read_def Let_def)

text \<open>One descriptor of the report: where its reading starts, and what is printed.\<close>

definition start_of :: "ofile \<Rightarrow> nat" where
  "start_of f = (if ino f = 0 then offset f else 0)"

definition printed_of :: "kernel \<Rightarrow> nat \<Rightarrow> u8 list" where
  "printed_of k j = (let f = ofiles k ! j in if readable f then printed (drop (start_of f) (contents k (ino f))) else [])"

lemma scan_fds_open:
  assumes "desc t i k = Some (j, c)" and "j < length (ofiles k)"
  shows "\<exists>p. scan_fds t (i # is) k =
      bind_run (scan_fds t is (set_offset j p k)) (\<lambda>(rep, k3). Inr ((i, ino (ofiles k ! j), printed_of k j) # rep, k3)) \<and>
    (readable (ofiles k ! j) \<longrightarrow> length (contents k (ino (ofiles k ! j))) \<le> p)"
proof -
  let ?f = "ofiles k ! j"
  let ?k = "set_offset j (start_of ?f) k" and ?n = "length (contents k (ino ?f))"
  have "k = set_offset j (offset ?f) k" using assms(2) by (simp add: set_offset_def)
  then have l: "(case sys_lseek t i 0 SEEK_SET k of None \<Rightarrow> k | Some (p, k1) \<Rightarrow> k1) = ?k"
    using assms(1) by (auto simp: sys_lseek_def Let_def start_of_def)
  have "\<exists>p. read_all (?n + 1) t i ?k = Inr (printed_of k j, set_offset j p k) \<and> (readable ?f \<longrightarrow> ?n \<le> p)"
  proof (cases "readable ?f")
    case True
    then obtain p where "?n \<le> p" "read_all (?n + 1) t i ?k = Inr (printed (drop (start_of ?f) (contents k (ino ?f))), set_offset j p ?k)"
      using read_all_printed[of t i ?k j c "?n + 1"] assms less_Suc_eq_le[of "?n - start_of ?f" ?n]
      by (auto simp: kernel_simps simp del: read_all.simps)
    then show ?thesis using True by (auto simp: kernel_simps printed_of_def Let_def simp del: read_all.simps)
  next
    case False
    then show ?thesis using read_all_unreadable[of t i ?k j c ?n] assms by (auto simp: kernel_simps printed_of_def Let_def)
  qed
  then show ?thesis using assms(1) l by (auto simp: Let_def)
qed

lemma scan_fds_closed: "\<forall>i\<in>set is. desc t i k = None \<Longrightarrow> scan_fds t is k = Inr ([], k)"
  by (induction "is") simp_all

text \<open>The terminal is read to its end at its first descriptor.\<close>

lemma printed_of_end: "ino (ofiles k ! j) = 0 \<Longrightarrow> length (contents k 0) \<le> offset (ofiles k ! j) \<Longrightarrow> printed_of k j = []"
  by (simp add: printed_of_def start_of_def Let_def printed.simps[of "[]"])

section \<open>The descriptors of the two programs\<close>

text \<open>The table with which \<open>innocent.c\<close> starts when everything but the terminal is closed.\<close>

definition only_terminal :: "nat \<Rightarrow> kernel \<Rightarrow> bool" where
  "only_terminal t k \<longleftrightarrow> t < length (tables k) \<and> (\<forall>fd. desc t fd k = (if fd < 3 then Some (0, False) else None)) \<and>
     0 < length (ofiles k) \<and> ofiles k ! 0 = \<lparr>ino = 0, offset = 0, readable = True\<rparr>"

lemma innocent_terminal:
  assumes "only_terminal t k" and "4 \<le> max_fd"
  shows "innocent_main max_fd t k =
    Inr [(0, 0, printed (contents k 0)), (1, 0, []), (2, 0, []), (3, HACKER, [])]"
proof -
  obtain fd k1 where o: "sys_open t HACKER False k = (fd, k1)" by fastforce
  then obtain tab where tab: "open_fd (tables k ! t) (length (ofiles k), False) = (fd, tab)"
    and k1: "k1 = set_table t tab (k\<lparr>ofiles := ofiles k @ [\<lparr>ino = HACKER, offset = 0, readable = False\<rparr>]\<rparr>)"
    by (auto simp: sys_open_def split: prod.splits)
  have e: "entry (tables k ! t) fd' = (if fd' < 3 then Some (0, False) else None)" for fd'
    using assms(1) by (simp add: only_terminal_def desc_def)
  have "lowest_free (tables k ! t) = 3" by (rule lowest_free_eq) (simp_all add: e)
  then have fd: "fd = 3" using open_fd_lowest[OF tab] by simp
  let ?n = "length (ofiles k)"
  have d: "desc t i k1 = (if i < 3 then Some (0, False) else if i = 3 then Some (?n, False) else None)" for i
    using assms(1) open_fd_entry(2)[OF tab] by (simp add: k1 desc_def set_table_def only_terminal_def fd fun_eq_iff)
  have f: "length (ofiles k1) = Suc ?n" "0 < ?n" "ofiles k1 ! 0 = \<lparr>ino = 0, offset = 0, readable = True\<rparr>"
    "ofiles k1 ! ?n = \<lparr>ino = HACKER, offset = 0, readable = False\<rparr>" "contents k1 = contents k"
    using assms(1) by (simp_all add: k1 kernel_simps nth_append only_terminal_def)
  have p: "printed_of k1 0 = printed (contents k 0)" "printed_of (set_offset 0 q k1) ?n = []" for q
    using f by (simp_all add: printed_of_def start_of_def Let_def kernel_simps)
  have done_with: "printed_of (set_offset 0 q k1) 0 = []" if "length (contents k 0) \<le> q" for q
    using f that by (intro printed_of_end) (simp_all add: kernel_simps)
  define rest where "rest = [4..<max_fd]"
  have fds: "[0..<max_fd] = 0 # 1 # 2 # 3 # rest"
    using assms(2) upt_add_eq_append[of 0 4 "max_fd - 4"] by (simp add: upt_rec rest_def)
  obtain p0 where p0: "scan_fds t (0 # 1 # 2 # 3 # rest) k1 = bind_run (scan_fds t (1 # 2 # 3 # rest) (set_offset 0 p0 k1))
      (\<lambda>(rep, k3). Inr ((0, 0, printed (contents k 0)) # rep, k3))" "length (contents k 0) \<le> p0"
    using scan_fds_open[of t 0 k1 0 False "1 # 2 # 3 # rest"] d[of 0] f p(1) by auto
  obtain p1 where p1: "scan_fds t (1 # 2 # 3 # rest) (set_offset 0 p0 k1) = bind_run (scan_fds t (2 # 3 # rest) (set_offset 0 p1 k1))
      (\<lambda>(rep, k3). Inr ((1, 0, []) # rep, k3))" "length (contents k 0) \<le> p1"
    using scan_fds_open[of t 1 "set_offset 0 p0 k1" 0 False "2 # 3 # rest"] d[of 1] f done_with[OF p0(2)] by (auto simp: kernel_simps)
  obtain p2 where p2: "scan_fds t (2 # 3 # rest) (set_offset 0 p1 k1) = bind_run (scan_fds t (3 # rest) (set_offset 0 p2 k1))
      (\<lambda>(rep, k3). Inr ((2, 0, []) # rep, k3))"
    using scan_fds_open[of t 2 "set_offset 0 p1 k1" 0 False "3 # rest"] d[of 2] f done_with[OF p1(2)] by (auto simp: kernel_simps)
  obtain p3 where p3: "scan_fds t (3 # rest) (set_offset 0 p2 k1) = bind_run (scan_fds t rest (set_offset ?n p3 (set_offset 0 p2 k1)))
      (\<lambda>(rep, k3). Inr ((3, HACKER, []) # rep, k3))"
    using scan_fds_open[of t 3 "set_offset 0 p2 k1" ?n False rest] d[of 3] f p(2)[of p2] by (auto simp: kernel_simps)
  let ?k = "set_offset ?n p3 (set_offset 0 p2 k1)"
  have "\<forall>i\<in>set rest. desc t i ?k = None" by (auto simp: rest_def kernel_simps d)
  from scan_fds_closed[OF this] have "scan_fds t [0..<max_fd] k1 =
      Inr ([(0, 0, printed (contents k 0)), (1, 0, []), (2, 0, []), (3, HACKER, [])], ?k)"
    unfolding fds p0(1) p1(1) p2 p3 by simp
  moreover have "entry (tables ?k ! t) 3 \<noteq> None" using d[of 3] by (simp add: desc_def kernel_simps)
  then have "sys_close t fd ?k \<noteq> None" by (simp add: sys_close_def close_fd_def fd)
  ultimately show ?thesis using o by (auto simp: innocent_main_def)
qed

section \<open>Properties\<close>

lemma leaky_start:
  "sys_open 0 PASSWD True (boot fs) =
    (3, \<lparr>contents = fs, ofiles = [\<lparr>ino = 0, offset = 0, readable = True\<rparr>, \<lparr>ino = PASSWD, offset = 0, readable = True\<rparr>],
      tables = [[Some (0, False), Some (0, False), Some (0, False), Some (1, False)]]\<rparr>)"
  by (simp add: sys_open_def boot_def open_fd_def set_table_def numeral_eq_Suc)

text \<open>C32: the password does not leak: unless the random descriptor is the one that the file was opened at, the
  report of the innocent program consists of the terminal, at its three descriptors, of which the first gives what there is to read, and the report itself, which cannot be
  read; nothing of it depends on the file with the password.\<close>

theorem leaky_secret:
  assumes "4 \<le> max_fd" and "rnd mod (max_fd - 3) \<noteq> 0"
  shows "leaky_main max_fd rnd (boot fs) =
    Inr [(0, 0, printed (fs 0)), (1, 0, []), (2, 0, []), (3, HACKER, [])]"
proof -
  define fd where "fd = 3 + rnd mod (max_fd - 3)"
  have fd: "3 < fd" using assms(2) by (simp add: fd_def)
  let ?of = "[\<lparr>ino = 0, offset = 0, readable = True\<rparr>, \<lparr>ino = PASSWD, offset = 0, readable = True\<rparr>]"
  obtain k1 where k1: "sys_open 0 PASSWD True (boot fs) = (3, k1)" "contents k1 = fs" "ofiles k1 = ?of" "length (tables k1) = 1"
    "\<forall>i. desc 0 i k1 = (if i < 3 then Some (0, False) else if i = 3 then Some (1, False) else None)"
    by (auto simp: leaky_start desc_def entry_def nth_Cons numeral_eq_Suc split: nat.splits)
  obtain k2 where k2: "sys_dup2 0 3 fd k1 = Some k2" "contents k2 = fs" "ofiles k2 = ?of" "length (tables k2) = 1"
    "\<forall>i. desc 0 i k2 = (if i < 3 then Some (0, False) else if i \<in> {3, fd} then Some (1, False) else None)"
    using sys_dup2_open[of 0 3 k1 1 False fd] k1 fd by (auto simp: kernel_simps)
  obtain k3 where k3: "sys_close 0 3 k2 = Some k3" "contents k3 = fs" "ofiles k3 = ?of" "length (tables k3) = 1"
    "\<forall>i. desc 0 i k3 = (if i < 3 then Some (0, False) else if i = fd then Some (1, False) else None)"
    using sys_close_open[of 0 3 k2] k2 fd by (auto simp: kernel_simps)
  define k4 where "k4 = set_offset 1 (length (fs PASSWD)) k3"
  have k4: "sys_lseek 0 fd 0 SEEK_END k3 = Some (length (fs PASSWD), k4)" "contents k4 = fs" "ofiles k4 ! 0 = ?of ! 0"
    "length (ofiles k4) = 2" "length (tables k4) = 1" "\<forall>i. desc 0 i k4 = desc 0 i k3"
    using k3 fd by (simp_all add: k4_def kernel_simps sys_lseek_def Let_def PASSWD_def)
  obtain k5 where k5: "sys_cloexec 0 fd k4 = Some k5" "contents k5 = fs" "ofiles k5 = ofiles k4" "length (tables k5) = 1"
    "\<forall>i. desc 0 i k5 = (if i < 3 then Some (0, False) else if i = fd then Some (1, True) else None)"
    using sys_cloexec_open[of 0 fd k4 1 False] k4 k3(5) fd by (auto simp: kernel_simps)
  obtain k6 where k6: "sys_fork False 0 k5 = (1, k6)" "contents k6 = fs" "ofiles k6 = ofiles k4" "length (tables k6) = 2"
    "\<forall>i. desc 1 i k6 = desc 0 i k5"
    using k5 by (auto simp: sys_fork_def desc_def nth_append)
  have "only_terminal 1 (sys_exec 1 k6)" "contents (sys_exec 1 k6) = fs"
    using k4(3,4) k5(5) k6 fd by (auto simp: only_terminal_def desc_exec kernel_simps after_exec_def)
  from innocent_terminal[OF this(1) assms(1)] this(2) have
    "run_system max_fd 0 k5 = Inr [(0, 0, printed (fs 0)), (1, 0, []), (2, 0, []), (3, HACKER, [])]"
    by (simp add: run_system_def k6(1))
  moreover have "sys_close 0 fd k5 \<noteq> None" using sys_close_open[of 0 fd k5] k5(4,5) fd by auto
  ultimately show ?thesis
    using k1(1) k2(1) k3(1) k4(1) k5(1) by (auto simp: leaky_main_def Let_def fd_def[symmetric] or_error_def)
qed

theorem leaky_secret_witness:
  "leaky_main 1024 77 (boot (\<lambda>i. if i = PASSWD then [115, 101, 99, 10] else [])) =
    Inr [(0, 0, []), (1, 0, []), (2, 0, []), (3, HACKER, [])]"
  by (subst leaky_secret) (simp_all add: PASSWD_def printed.simps)

text \<open>When the random descriptor is the one that the file was opened at, \<open>dup2\<close> does nothing, the
  file is closed, and the program ends with an error.\<close>

theorem leaky_same_fd:
  assumes "rnd mod (max_fd - 3) = 0"
  shows "leaky_main max_fd rnd (boot fs) = Inl App_error"
  using assms by (simp add: leaky_main_def leaky_start sys_dup2_def sys_close_def close_fd_def desc_def entry_def
      set_table_def sys_lseek_def or_error_def numeral_eq_Suc)

theorem leaky_same_fd_witness: "leaky_main 1024 2042 (boot (\<lambda>_. [])) = Inl App_error"
  by (rule leaky_same_fd) simp

text \<open>Of what the innocent program reads it prints the part up to the first zero byte of every 999 bytes, and never
  the last byte of them: a short file without zeros is printed but for its last byte.\<close>

theorem innocent_loses:
  assumes "length xs \<le> 999" and "0 \<notin> set xs"
  shows "printed xs = butlast xs"
proof (cases "xs = []")
  case False
  have "print_chunk xs = butlast xs"
    using assms(2) by (auto simp: print_chunk_def takeWhile_eq_all_conv dest: in_set_butlastD)
  then show ?thesis using assms(1) False by (subst printed.simps) (simp add: printed.simps)
qed (simp add: printed.simps)

theorem innocent_loses_witness: "printed [104, 105, 10] = [104, 105]"
  by (subst innocent_loses) simp_all

end
