(* ===== verification/Fileshare.thy ===== *)
theory Fileshare
  imports Kernel Conc
begin

text \<open>
  The experiments of list 1 with an open file and a \<open>fork\<close>: \<open>1/7.c\<close> (does a child read from a file that its parent has
  closed?), \<open>1/7_2.c\<close> (does a child see the position move when its parent reads?) and
  \<open>1/7_ptrace.c\<close> (the first one again, run under a monitor that sets the flag \<open>CLONE_FILES\<close> of the system call behind \<open>fork\<close>).
  The file \<open>a.txt\<close> is the inode 1. The programs sleep to put their steps in an order; the model lets parent and child take turns in any
  order.
\<close>

unbundle bit_operations_syntax

definition two_processes :: "('s \<Rightarrow> 's option) \<Rightarrow> ('s \<Rightarrow> 's option) \<Rightarrow> nat \<Rightarrow> 's \<Rightarrow> 's option" where
  "two_processes parent child i = (if i = 0 then parent else child)"

lemma two_processes_step:
  "interleaved 2 (two_processes p c) s t \<longleftrightarrow> p s = Some t \<or> c s = Some t"
  by (auto simp: interleaved_def two_processes_def less_2_cases_iff)

section \<open>Closing in the parent: \<open>7.c\<close>\<close>

datatype parent_pc = Runs | Done | Failed

record closing =
  kern :: kernel
  fd :: nat
  child :: nat
  parent :: parent_pc
  result :: "u8 list option option"

text \<open>\<open>share\<close>: the child shares the table of its parent.\<close>

definition main_7 :: "bool \<Rightarrow> (nat \<Rightarrow> u8 list) \<Rightarrow> closing" where
  "main_7 share fs =
    (let (fd, k) = sys_open 0 1 True (boot fs); (c, k) = sys_fork share 0 k
     in \<lparr>kern = k, fd = fd, child = c, parent = Runs, result = None\<rparr>)"

definition parent_7 :: "closing \<Rightarrow> closing option" where
  "parent_7 s =
    (if parent s \<noteq> Runs then None
     else case sys_close 0 (fd s) (kern s) of
         None \<Rightarrow> Some (s\<lparr>parent := Failed\<rparr>)
       | Some k \<Rightarrow> Some (s\<lparr>kern := k, parent := Done\<rparr>))"

definition child_7 :: "closing \<Rightarrow> closing option" where
  "child_7 s =
    (if result s \<noteq> None then None
     else case sys_read (child s) (fd s) 16 (kern s) of
         None \<Rightarrow> Some (s\<lparr>result := Some None\<rparr>)
       | Some (bs, k) \<Rightarrow> Some (s\<lparr>kern := k, result := Some (Some bs)\<rparr>))"

definition closing_step :: "closing \<Rightarrow> closing \<Rightarrow> bool" where
  "closing_step = interleaved 2 (two_processes parent_7 child_7)"

abbreviation closing_reach :: "bool \<Rightarrow> (nat \<Rightarrow> u8 list) \<Rightarrow> closing \<Rightarrow> bool" where
  "closing_reach share fs \<equiv> reach (\<lambda>s. s = main_7 share fs) closing_step"

section \<open>Reading in the parent: \<open>7_2.c\<close>\<close>

text \<open>\<open>shown\<close>: the positions that the child prints, each with whether the parent had read by then; a failing
  \<open>lseek\<close> prints \<open>-1\<close>, here \<open>None\<close>.\<close>

record reading =
  rkern :: kernel
  rfd :: nat
  rchild :: nat
  reader :: parent_pc
  shown :: "(bool \<times> nat option) list"

definition main_7_2 :: "(nat \<Rightarrow> u8 list) \<Rightarrow> reading" where
  "main_7_2 fs =
    (let (fd, k) = sys_open 0 1 True (boot fs); (c, k) = sys_fork False 0 k
     in \<lparr>rkern = k, rfd = fd, rchild = c, reader = Runs, shown = []\<rparr>)"

definition parent_7_2 :: "reading \<Rightarrow> reading option" where
  "parent_7_2 s =
    (if reader s \<noteq> Runs then None
     else case sys_read 0 (rfd s) 16 (rkern s) of
         None \<Rightarrow> Some (s\<lparr>reader := Failed\<rparr>)
       | Some (bs, k) \<Rightarrow> Some (s\<lparr>rkern := k, reader := Done\<rparr>))"

definition child_7_2 :: "reading \<Rightarrow> reading option" where
  "child_7_2 s =
    (if length (shown s) = 2 then None
     else case sys_lseek (rchild s) (rfd s) 0 SEEK_CUR (rkern s) of
         None \<Rightarrow> Some (s\<lparr>shown := shown s @ [(reader s = Done, None)]\<rparr>)
       | Some (p, k) \<Rightarrow> Some (s\<lparr>rkern := k, shown := shown s @ [(reader s = Done, Some p)]\<rparr>))"

definition reading_step :: "reading \<Rightarrow> reading \<Rightarrow> bool" where
  "reading_step = interleaved 2 (two_processes parent_7_2 child_7_2)"

section \<open>The monitor: \<open>7_ptrace.c\<close>\<close>

record regs =
  orig_rax :: u64
  rdi :: u64

text \<open>What \<open>wait\<close> reports: the tracee has ended, or it stopped at a system call.\<close>

datatype stop = Exited | Stopped regs

definition SYS_clone :: u64 where "SYS_clone = 56"

definition CLONE_FILES :: u64 where "CLONE_FILES = 0x00000400"

text \<open>The registers with which the tracee goes on after its stops.\<close>

fun monitor_clone :: "stop list \<Rightarrow> regs list" where
  "monitor_clone [] = []"
| "monitor_clone (Exited # stops) = []"
| "monitor_clone (Stopped r # stops) =
    (if orig_rax r = SYS_clone \<and> \<not> (rdi r AND CLONE_FILES \<noteq> 0) then r\<lparr>rdi := rdi r OR CLONE_FILES\<rparr> else r)
      # monitor_clone stops"

text \<open>The tracee, whose \<open>fork\<close> calls \<open>clone\<close> with some flags; the kernel looks at the flags that the monitor leaves.\<close>

definition clone_flags :: "u64 \<Rightarrow> u64" where
  "clone_flags flags = rdi (hd (monitor_clone [Stopped \<lparr>orig_rax = SYS_clone, rdi = flags\<rparr>]))"

definition main_ptrace :: "u64 \<Rightarrow> (nat \<Rightarrow> u8 list) \<Rightarrow> closing" where
  "main_ptrace flags fs = main_7 (clone_flags flags AND CLONE_FILES \<noteq> 0) fs"

text \<open>The loop of \<open>monitor_clone\<close> around that: \<open>status\<close> is the variable of that name, \<open>reports\<close> what \<open>wait\<close> has to report; when it has nothing more to report it fails
  and leaves \<open>status\<close> as it is. The result says whether the loop has ended after \<open>n\<close> rounds.\<close>

datatype report = Exits | Dies_of_signal | Stops regs

fun monitor_returns :: "nat \<Rightarrow> report \<Rightarrow> report list \<Rightarrow> bool" where
  "monitor_returns 0 status reports = False"
| "monitor_returns (Suc n) status reports =
     (let (status, reports) = (case reports of [] \<Rightarrow> (status, []) | r # rs \<Rightarrow> (r, rs))
      in status = Exits \<or> monitor_returns n status reports)"

text \<open>The tracer: \<open>main\<close> waits for the tracee to stop itself, and goes into the loop, with a \<open>status\<close> that is not set.\<close>

definition tracer_returns :: "nat \<Rightarrow> report \<Rightarrow> report list \<Rightarrow> bool" where
  "tracer_returns n garbage reports = (case reports of [] \<Rightarrow> True | r # rs \<Rightarrow> monitor_returns n garbage rs)"

lemma monitor_returns_exit: "Exits \<in> set reports \<Longrightarrow> monitor_returns (length reports) status reports"
  by (induction reports arbitrary: status) auto

lemma monitor_returns_not: "Exits \<notin> set reports \<Longrightarrow> status \<noteq> Exits \<Longrightarrow> \<not> monitor_returns n status reports"
  by (induction n arbitrary: status reports) (auto split: list.splits)

section \<open>The kernels of the runs\<close>

definition opened :: "bool \<Rightarrow> (nat \<Rightarrow> u8 list) \<Rightarrow> kernel" where
  "opened share fs =
    (let tab = [Some (0, False), Some (0, False), Some (0, False), Some (1, False)]
     in \<lparr>contents = fs, ofiles = [\<lparr>ino = 0, offset = 0, readable = True\<rparr>, \<lparr>ino = 1, offset = 0, readable = True\<rparr>],
          tables = (if share then [tab] else [tab, tab])\<rparr>)"

lemma open_and_fork:
  "sys_open 0 1 True (boot fs) = (3, opened True fs)"
  "sys_fork share 0 (opened True fs) = (if share then 0 else 1, opened share fs)"
  by (simp_all add: sys_open_def boot_def open_fd_def set_table_def opened_def sys_fork_def Let_def numeral_eq_Suc)

lemma opened_simps:
  "t < (if share then 1 else 2) \<Longrightarrow> desc t 3 (opened share fs) = Some (1, False)"
  "length (tables (opened share fs)) = (if share then 1 else 2)" "contents (opened share fs) = fs"
  "ofiles (opened share fs) = [\<lparr>ino = 0, offset = 0, readable = True\<rparr>, \<lparr>ino = 1, offset = 0, readable = True\<rparr>]"
  "kernel_ok (opened share fs)"
  by (auto simp: opened_def desc_def entry_def kernel_ok_def tab_ok_def Let_def less_Suc_eq less_2_cases_iff numeral_eq_Suc split: if_splits)

text \<open>The open file, and whether the table of the parent and that of the child still lead to it.\<close>

definition closing_inv :: "bool \<Rightarrow> (nat \<Rightarrow> u8 list) \<Rightarrow> closing \<Rightarrow> bool" where
  "closing_inv share fs s \<longleftrightarrow>
     kernel_ok (kern s) \<and> contents (kern s) = fs \<and> length (ofiles (kern s)) = 2 \<and> child s < length (tables (kern s)) \<and>
     0 < length (tables (kern s)) \<and> (child s = 0 \<longleftrightarrow> share) \<and>
     ino (ofiles (kern s) ! 1) = 1 \<and> readable (ofiles (kern s) ! 1) \<and>
     (result s = None \<longrightarrow> offset (ofiles (kern s) ! 1) = 0) \<and>
     desc 0 (fd s) (kern s) = (if parent s = Done then None else Some (1, False)) \<and>
     desc (child s) (fd s) (kern s) = (if share \<and> parent s = Done then None else Some (1, False)) \<and>
     parent s \<noteq> Failed \<and>
     result s \<in> (if share then {None, Some None, Some (Some (take 16 (fs 1)))} else {None, Some (Some (take 16 (fs 1)))}) \<and>
     (result s = Some None \<longrightarrow> parent s = Done)"

lemma main_7_eq:
  "main_7 share fs = \<lparr>kern = opened share fs, fd = 3, child = (if share then 0 else 1), parent = Runs, result = None\<rparr>"
  by (simp del: One_nat_def add: main_7_def open_and_fork)

lemma closing_inv_init: "closing_inv share fs (main_7 share fs)"
  by (cases share) (simp_all add: closing_inv_def main_7_eq opened_simps)

lemma closing_inv_parent:
  assumes "closing_inv share fs s" and "parent_7 s = Some t"
  shows "closing_inv share fs t"
proof -
  have r: "parent s = Runs" "desc 0 (fd s) (kern s) \<noteq> None" "0 < length (tables (kern s))"
    using assms by (auto simp: closing_inv_def parent_7_def split: if_splits)
  obtain k where k: "sys_close 0 (fd s) (kern s) = Some k"
    "k = set_table 0 ((tables (kern s) ! 0)[fd s := None]) (kern s)" "\<forall>i. desc 0 i k = (if i = fd s then None else desc 0 i (kern s))"
    using sys_close_open[OF r(2,3)] by blast
  have "t = s\<lparr>kern := k, parent := Done\<rparr>" using assms(2) r(1) k(1) by (simp add: parent_7_def)
  moreover have "kernel_ok k" using sys_close_ok[OF _ r(3) k(1)] assms(1) by (simp add: closing_inv_def)
  moreover have "desc (child s) i k = desc (child s) i (kern s)" if "child s \<noteq> 0" for i
    using that by (simp add: k(2) desc_def kernel_simps)
  ultimately show ?thesis using assms(1) r(1) k(3) by (auto simp: closing_inv_def k(2) kernel_simps)
qed

lemma closing_inv_child:
  assumes "closing_inv share fs s" and "child_7 s = Some t"
  shows "closing_inv share fs t"
proof (cases "desc (child s) (fd s) (kern s)")
  case None
  then have "t = s\<lparr>result := Some None\<rparr>" using assms(2) by (auto simp: child_7_def sys_read_def split: if_splits)
  then show ?thesis using assms(1) None by (auto simp: closing_inv_def split: if_splits)
next
  case (Some e)
  have r: "result s = None" using assms(2) by (auto simp: child_7_def split: if_splits)
  have e: "e = (1, False)" "contents (kern s) = fs" "ino (ofiles (kern s) ! 1) = 1" "readable (ofiles (kern s) ! 1)"
    "offset (ofiles (kern s) ! 1) = 0" using assms(1) Some r by (auto simp: closing_inv_def split: if_splits)
  then have "sys_read (child s) (fd s) 16 (kern s) = Some (take 16 (fs 1), set_offset 1 (length (take 16 (fs 1))) (kern s))"
    using Some by (simp add: sys_read_def Let_def)
  then have "t = s\<lparr>kern := set_offset 1 (length (take 16 (fs 1))) (kern s), result := Some (Some (take 16 (fs 1)))\<rparr>"
    using assms(2) r by (simp add: child_7_def)
  then show ?thesis using assms(1) by (auto simp: closing_inv_def kernel_simps)
qed

interpretation closing: safe_system "\<lambda>s. s = main_7 share fs" closing_step "closing_inv share fs"
proof unfold_locales
  show "closing_inv share fs s" if "s = main_7 share fs" for s using that closing_inv_init by simp
  show "closing_inv share fs t" if "closing_step s t" "closing_inv share fs s" for s t
    using that closing_inv_parent closing_inv_child unfolding closing_step_def two_processes_step by blast
qed

text \<open>The positions are those of a file that is read at most once, by the parent.\<close>

definition reading_inv :: "(nat \<Rightarrow> u8 list) \<Rightarrow> reading \<Rightarrow> bool" where
  "reading_inv fs s \<longleftrightarrow>
     contents (rkern s) = fs \<and> length (ofiles (rkern s)) = 2 \<and>
     ino (ofiles (rkern s) ! 1) = 1 \<and> readable (ofiles (rkern s) ! 1) \<and>
     offset (ofiles (rkern s) ! 1) = (if reader s = Done then min 16 (length (fs 1)) else 0) \<and>
     desc 0 (rfd s) (rkern s) = Some (1, False) \<and> desc (rchild s) (rfd s) (rkern s) = Some (1, False) \<and>
     reader s \<noteq> Failed \<and>
     (\<forall>(after, p)\<in>set (shown s). p = Some (if after then min 16 (length (fs 1)) else 0))"

lemma main_7_2_eq:
  "main_7_2 fs = \<lparr>rkern = opened False fs, rfd = 3, rchild = 1, reader = Runs, shown = []\<rparr>"
  by (simp del: One_nat_def add: main_7_2_def open_and_fork)

lemma reading_inv_parent:
  assumes "reading_inv fs s" and "parent_7_2 s = Some t"
  shows "reading_inv fs t"
proof -
  have r: "reader s = Runs" using assms(2) by (auto simp: parent_7_2_def split: if_splits)
  then have "sys_read 0 (rfd s) 16 (rkern s) = Some (take 16 (fs 1), set_offset 1 (length (take 16 (fs 1))) (rkern s))"
    using assms(1) by (simp add: reading_inv_def sys_read_def Let_def)
  then have "t = s\<lparr>rkern := set_offset 1 (length (take 16 (fs 1))) (rkern s), reader := Done\<rparr>"
    using assms(2) r by (simp add: parent_7_2_def)
  then show ?thesis using assms(1) r by (auto simp: reading_inv_def kernel_simps min.commute)
qed

lemma reading_inv_child:
  assumes "reading_inv fs s" and "child_7_2 s = Some t"
  shows "reading_inv fs t"
proof -
  let ?p = "offset (ofiles (rkern s) ! 1)"
  have "length (shown s) \<noteq> 2" using assms(2) by (auto simp: child_7_2_def)
  moreover have "sys_lseek (rchild s) (rfd s) 0 SEEK_CUR (rkern s) = Some (?p, set_offset 1 ?p (rkern s))"
    using assms(1) by (simp add: reading_inv_def sys_lseek_def Let_def)
  ultimately have "t = s\<lparr>rkern := set_offset 1 ?p (rkern s), shown := shown s @ [(reader s = Done, Some ?p)]\<rparr>"
    using assms(2) by (simp add: child_7_2_def)
  then show ?thesis using assms(1) by (simp add: reading_inv_def kernel_simps)
qed

interpretation reading: safe_system "\<lambda>s. s = main_7_2 fs" reading_step "reading_inv fs"
proof unfold_locales
  show "reading_inv fs s" if "s = main_7_2 fs" for s
    unfolding that reading_inv_def main_7_2_eq by (simp add: opened_simps)
  show "reading_inv fs t" if "reading_step s t" "reading_inv fs s" for s t
    using that reading_inv_parent reading_inv_child unfolding reading_step_def two_processes_step by blast
qed

section \<open>What the experiments show\<close>

text \<open>
  C35: a child with a table of its own reads the first 16 bytes of the file, whenever the parent closes its descriptor; a child
  that shares the table reads them, or it fails, and it fails only when the parent has closed the descriptor before. In every state all
  descriptors of both tables refer to open files.
\<close>

theorem share_read:
  assumes "reach (\<lambda>s. s = main_7 share fs) closing_step s"
  shows "kernel_ok (kern s) \<and> parent s \<noteq> Failed \<and>
    (\<forall>r. result s = Some r \<longrightarrow> r = Some (take 16 (fs 1)) \<or> share \<and> r = None \<and> parent s = Done)"
  using closing.inv_reach[OF assms] by (auto simp: closing_inv_def split: if_splits)

text \<open>
  The positions that the child prints are those of the parent: 0 before the parent reads, and the end of what it has read after.
\<close>

theorem share_offset:
  assumes "reach (\<lambda>s. s = main_7_2 fs) reading_step s"
  shows "reader s \<noteq> Failed \<and> (\<forall>(after, p)\<in>set (shown s). p = Some (if after then min 16 (length (fs 1)) else 0))"
  using reading.inv_reach[OF assms] by (simp add: reading_inv_def)

text \<open>The monitor adds the flag to every \<open>clone\<close> and leaves all other bits and all other system calls alone.\<close>

fun stops_of :: "stop list \<Rightarrow> regs list" where
  "stops_of [] = []"
| "stops_of (Exited # stops) = []"
| "stops_of (Stopped r # stops) = r # stops_of stops"

lemma CLONE_FILES_bit: "CLONE_FILES = push_bit 10 1"
  by (simp add: CLONE_FILES_def)

lemma clone_flag_set: "(x OR CLONE_FILES) AND CLONE_FILES = CLONE_FILES"
  by (rule bit_eqI) (auto simp: bit_simps)

lemma monitor_ok:
  "list_all2 (\<lambda>r r'. orig_rax r' = orig_rax r \<and>
      (if orig_rax r = SYS_clone then rdi r' AND CLONE_FILES \<noteq> 0 \<and> rdi r' AND NOT CLONE_FILES = rdi r AND NOT CLONE_FILES else r' = r))
    (stops_of stops) (monitor_clone stops)"
proof (induction stops rule: monitor_clone.induct)
  case (3 r stops)
  have "(rdi r OR CLONE_FILES) AND CLONE_FILES \<noteq> 0" unfolding clone_flag_set by (simp add: CLONE_FILES_def)
  moreover have "(rdi r OR CLONE_FILES) AND NOT CLONE_FILES = rdi r AND NOT CLONE_FILES"
    by (rule bit_eqI) (auto simp: bit_simps)
  ultimately show ?case using 3 by auto
qed simp_all

lemma clone_flags_set: "clone_flags flags AND CLONE_FILES \<noteq> 0"
  using monitor_ok[of "[Stopped \<lparr>orig_rax = SYS_clone, rdi = flags\<rparr>]"] by (simp add: clone_flags_def split: if_splits)

text \<open>With a shared table, both orders of the two steps.\<close>

lemma shared_runs:
  "run_schedule (two_processes parent_7 child_7) [0, 1] (main_7 True fs) =
     Some \<lparr>kern = the (sys_close 0 3 (opened True fs)), fd = 3, child = 0, parent = Done, result = Some None\<rparr>"
  "\<exists>k. run_schedule (two_processes parent_7 child_7) [1, 0] (main_7 True fs) =
     Some \<lparr>kern = k, fd = 3, child = 0, parent = Done, result = Some (Some (take 16 (fs 1)))\<rparr>"
  by (simp_all add: two_processes_def main_7_eq parent_7_def child_7_def sys_close_def close_fd_def sys_read_def desc_def entry_def
      opened_def set_table_def set_offset_def Let_def numeral_eq_Suc)

lemma closing_run_reach:
  assumes "run_schedule (two_processes parent_7 child_7) es (main_7 share fs) = Some s" and "\<forall>e\<in>set es. e < 2"
  shows "reach (\<lambda>s. s = main_7 share fs) closing_step s"
proof (rule reach_steps)
  show "closing_step\<^sup>*\<^sup>* (main_7 share fs) s" unfolding closing_step_def using run_schedule_steps[OF assms] .
qed (simp add: reach_init)

text \<open>
  Under the monitor the program behaves as with a shared table, whatever the flags of its \<open>fork\<close>; so a child that reads after
  its parent has closed the descriptor fails, and one that reads before gets the bytes.
\<close>

theorem monitor_share:
  "main_ptrace flags fs = main_7 True fs \<and>
   (\<exists>s. reach (\<lambda>s. s = main_ptrace flags fs) closing_step s \<and> parent s = Done \<and> result s = Some None) \<and>
   (\<exists>s. reach (\<lambda>s. s = main_ptrace flags fs) closing_step s \<and> parent s = Done \<and> result s = Some (Some (take 16 (fs 1))))"
proof -
  have m: "main_ptrace flags fs = main_7 True fs" by (simp add: main_ptrace_def clone_flags_set)
  obtain k where "run_schedule (two_processes parent_7 child_7) [1, 0] (main_7 True fs) =
     Some \<lparr>kern = k, fd = 3, child = 0, parent = Done, result = Some (Some (take 16 (fs 1)))\<rparr>"
    using shared_runs(2) by blast
  from closing_run_reach[OF this] closing_run_reach[OF shared_runs(1)] show ?thesis unfolding m by force
qed

lemma share_read_witness:
  "\<exists>s. reach (\<lambda>s. s = main_7 True (\<lambda>_. [7])) closing_step s \<and> result s = Some None \<and> parent s = Done"
  using share_read[OF closing_run_reach[OF shared_runs(1)[of "\<lambda>_. [7]"]]] closing_run_reach[OF shared_runs(1)[of "\<lambda>_. [7]"]] by force

definition reading_example :: reading where
  "reading_example = the (run_schedule (two_processes parent_7_2 child_7_2) [1, 0, 1] (main_7_2 (\<lambda>_. [7, 8])))"

lemma reading_example:
  "run_schedule (two_processes parent_7_2 child_7_2) [1, 0, 1] (main_7_2 (\<lambda>_. [7, 8])) = Some reading_example"
  "shown reading_example = [(False, Some 0), (True, Some 2)]"
  by (simp_all add: reading_example_def two_processes_def main_7_2_eq parent_7_2_def child_7_2_def sys_lseek_def sys_read_def desc_def
      entry_def opened_def set_offset_def Let_def numeral_eq_Suc)

lemma share_offset_witness: "reader reading_example \<noteq> Failed \<and> shown reading_example = [(False, Some 0), (True, Some 2)]"
proof -
  have "reading_step\<^sup>*\<^sup>* (main_7_2 (\<lambda>_. [7, 8])) reading_example"
    unfolding reading_step_def by (rule run_schedule_steps[OF reading_example(1)]) simp
  then have "reach (\<lambda>s. s = main_7_2 (\<lambda>_. [7, 8])) reading_step reading_example" by (rule reach_steps) (simp add: reach_init)
  from share_offset[OF this] reading_example(2) show ?thesis by simp
qed

text \<open>
  The monitor of \<open>7_ptrace.c\<close> ends as soon as the tracee has exited; but a tracee that dies of a signal is never reported to have exited, so that the monitor, which does not look at the result of
  \<open>wait\<close>, runs for ever.
\<close>

theorem monitor_ends:
  "(Exits \<in> set reports \<longrightarrow> tracer_returns (length reports) garbage (Stops r # reports)) \<and>
   (Exits \<notin> set reports \<and> garbage \<noteq> Exits \<longrightarrow> (\<forall>n. \<not> tracer_returns n garbage (Stops r # reports @ [Dies_of_signal])))"
  using monitor_returns_exit monitor_returns_not by (auto simp: tracer_returns_def)

theorem monitor_ends_witness:
  "tracer_returns 2 Dies_of_signal [Stops r, Stops r, Exits] \<and> (\<forall>n. \<not> tracer_returns n Dies_of_signal [Stops r, Dies_of_signal])"
  using monitor_ends[of "[Stops r, Exits]" Dies_of_signal r] monitor_ends[of "[]" Dies_of_signal r] by (simp add: numeral_2_eq_2)

end
