(* ===== verification/Mkholes.thy ===== *)
theory Mkholes
  imports Kernel
begin

text \<open>
  The program \<open>4/so21_lista_4/mkholes.c\<close> that writes a file with holes. \<open>rnd\<close> are the values of \<open>random()\<close>; the file is the inode 1, which \<open>open\<close> with
  \<open>O_TRUNC\<close> has emptied; the progress that is shown on standard error is a list of marks.
\<close>

section \<open>The program\<close>

definition BLKSZ :: nat where "BLKSZ = 4096"

definition NBLKS :: nat where "NBLKS = 8192"

definition WRAP :: nat where "WRAP = 64"

datatype mark = Number nat | Dot | Letter_O | End_of_line

record holes =
  kern :: kernel
  drawn :: nat
  usedblks :: nat
  marks :: "mark list"

definition random_block :: "(nat \<Rightarrow> nat) \<Rightarrow> nat \<Rightarrow> u8 list" where
  "random_block rnd r = map (\<lambda>j. word_of_nat (rnd (r + j))) [0..<BLKSZ]"

definition holes_body :: "(nat \<Rightarrow> nat) \<Rightarrow> nat \<Rightarrow> nat \<Rightarrow> holes \<Rightarrow> holes option" where
  "holes_body rnd fd i s =
    (let s = (if i mod WRAP = 0 then s\<lparr>marks := marks s @ [Number i]\<rparr> else s);
         r = (if rnd (drawn s) mod 64 \<noteq> 0
              then map_option (\<lambda>(p, k). s\<lparr>kern := k, drawn := drawn s + 1, marks := marks s @ [Dot]\<rparr>)
                     (sys_lseek 0 fd BLKSZ SEEK_CUR (kern s))
              else map_option (\<lambda>k. s\<lparr>kern := k, drawn := drawn s + 1 + BLKSZ, marks := marks s @ [Letter_O], usedblks := usedblks s + 1\<rparr>)
                     (sys_write 0 fd (random_block rnd (drawn s + 1)) (kern s)))
     in map_option (\<lambda>s. if i mod WRAP = WRAP - 1 then s\<lparr>marks := marks s @ [End_of_line]\<rparr> else s) r)"

fun holes_loop :: "(nat \<Rightarrow> nat) \<Rightarrow> nat \<Rightarrow> nat \<Rightarrow> nat \<Rightarrow> holes \<Rightarrow> holes option" where
  "holes_loop rnd fd i 0 s = Some s"
| "holes_loop rnd fd i (Suc n) s =
    (case holes_body rnd fd i s of None \<Rightarrow> None | Some s \<Rightarrow> holes_loop rnd fd (i + 1) n s)"

text \<open>The file and the number of blocks that are printed at the end; \<open>None\<close> when a system call fails.\<close>

definition mkholes_main :: "(nat \<Rightarrow> nat) \<Rightarrow> (nat \<Rightarrow> u8 list) \<Rightarrow> (u8 list \<times> nat) option" where
  "mkholes_main rnd fs =
    (let (fd, k) = sys_open 0 1 False (boot (fs(1 := [])))
     in case holes_loop rnd fd 0 NBLKS \<lparr>kern = k, drawn = 0, usedblks = 0, marks = []\<rparr> of
         None \<Rightarrow> None
       | Some s \<Rightarrow> map_option (\<lambda>k. (contents k 1, usedblks s)) (sys_close 0 fd (kern s)))"

section \<open>The blocks\<close>

text \<open>What the program draws: a block, or a hole.\<close>

fun draws :: "(nat \<Rightarrow> nat) \<Rightarrow> nat \<Rightarrow> nat \<Rightarrow> u8 list option list" where
  "draws rnd r 0 = []"
| "draws rnd r (Suc n) =
    (if rnd r mod 64 \<noteq> 0 then None # draws rnd (r + 1) n else Some (random_block rnd (r + 1)) # draws rnd (r + 1 + BLKSZ) n)"

definition file_image :: "u8 list option list \<Rightarrow> u8 list" where
  "file_image bs = concat (map (\<lambda>b. case b of None \<Rightarrow> replicate BLKSZ 0 | Some xs \<Rightarrow> xs) bs)"

text \<open>The blocks up to the last one that is not a hole.\<close>

definition trim :: "u8 list option list \<Rightarrow> u8 list option list" where
  "trim bs = rev (dropWhile (\<lambda>b. b = None) (rev bs))"

definition blocks_ok :: "u8 list option list \<Rightarrow> bool" where
  "blocks_ok bs \<longleftrightarrow> (\<forall>xs. Some xs \<in> set bs \<longrightarrow> length xs = BLKSZ)"

lemma trim_snoc [simp]: "trim (bs @ [None]) = trim bs" "trim (bs @ [Some xs]) = bs @ [Some xs]"
  by (simp_all add: trim_def)

lemma trim_Nil [simp]: "trim [] = []"
  by (simp add: trim_def)

lemma image_append [simp]: "file_image (as @ bs) = file_image as @ file_image bs"
  by (simp add: file_image_def)

lemma image_simps [simp]: "file_image [None] = replicate BLKSZ 0" "file_image [Some xs] = xs" "file_image [] = []"
  by (simp_all add: file_image_def)

lemma length_image: "blocks_ok bs \<Longrightarrow> length (file_image bs) = BLKSZ * length bs"
  by (induction bs) (auto simp: blocks_ok_def file_image_def split: option.split)

lemma image_trim: "file_image bs = file_image (trim bs) @ replicate (BLKSZ * (length bs - length (trim bs))) 0 \<and> length (trim bs) \<le> length bs"
proof (induction bs rule: rev_induct)
  case (snoc b bs)
  then show ?case by (cases b) (auto simp: Suc_diff_le replicate_add[symmetric] add.commute)
qed simp

lemma overwrite_behind: "length xs \<le> p \<Longrightarrow> overwrite p bs xs = xs @ replicate (p - length xs) 0 @ bs"
  by (simp add: overwrite_def)

section \<open>The loop\<close>

definition holes_inv :: "nat \<Rightarrow> u8 list option list \<Rightarrow> holes \<Rightarrow> bool" where
  "holes_inv fd bs s \<longleftrightarrow>
     blocks_ok bs \<and> desc 0 fd (kern s) = Some (1, False) \<and> 1 < length (ofiles (kern s)) \<and> ino (ofiles (kern s) ! 1) = 1 \<and>
     offset (ofiles (kern s) ! 1) = BLKSZ * length bs \<and> contents (kern s) 1 = file_image (trim bs) \<and>
     usedblks s = length (filter (\<lambda>b. b \<noteq> None) bs)"

lemma holes_inv_hole:
  assumes "holes_inv fd bs s"
  shows "\<exists>p k. sys_lseek 0 fd BLKSZ SEEK_CUR (kern s) = Some (p, k) \<and>
    holes_inv fd (bs @ [None]) (s\<lparr>kern := k, drawn := d, marks := ms\<rparr>)"
  using assms by (simp add: holes_inv_def sys_lseek_def Let_def kernel_simps blocks_ok_def)

lemma holes_inv_block:
  assumes "holes_inv fd bs s" and "length xs = BLKSZ"
  shows "\<exists>k. sys_write 0 fd xs (kern s) = Some k \<and>
    holes_inv fd (bs @ [Some xs]) (s\<lparr>kern := k, drawn := d, marks := ms, usedblks := usedblks s + 1\<rparr>)"
proof -
  have l: "length (file_image (trim bs)) + BLKSZ * (length bs - length (trim bs)) = BLKSZ * length bs"
    using length_image[of bs] image_trim[of bs] assms(1) by (metis holes_inv_def length_append length_replicate)
  then have "overwrite (BLKSZ * length bs) xs (file_image (trim bs)) = file_image bs @ xs"
    using image_trim[of bs] by (subst overwrite_behind) (auto simp: append_eq_append_conv2)
  then show ?thesis using assms by (auto simp: holes_inv_def sys_write_def Let_def kernel_simps blocks_ok_def set_offset_def desc_def)
qed

lemma holes_inv_marks [simp]: "holes_inv fd bs (s\<lparr>marks := ms\<rparr>) = holes_inv fd bs s"
  by (simp add: holes_inv_def)

text \<open>One round, up to the marks that it shows.\<close>

lemma holes_body_ok:
  assumes "holes_inv fd bs s"
  shows "\<exists>t b. holes_body rnd fd i s = Some t \<and> holes_inv fd (bs @ [b]) t \<and>
    draws rnd (drawn s) (Suc n) = b # draws rnd (drawn t) n"
proof -
  define u where "u = (if i mod WRAP = 0 then s\<lparr>marks := marks s @ [Number i]\<rparr> else s)"
  have u: "holes_inv fd bs u" "drawn u = drawn s" using assms by (simp_all add: u_def)
  define finish where "finish t = (if i mod WRAP = WRAP - 1 then t\<lparr>marks := marks t @ [End_of_line]\<rparr> else t)" for t :: holes
  have finish: "holes_inv fd bs (finish t) = holes_inv fd bs t" "drawn (finish t) = drawn t" for t bs by (simp_all add: finish_def)
  show ?thesis
  proof (cases "rnd (drawn s) mod 64 \<noteq> 0")
    case True
    obtain p k where k: "sys_lseek 0 fd BLKSZ SEEK_CUR (kern u) = Some (p, k)"
      "holes_inv fd (bs @ [None]) (u\<lparr>kern := k, drawn := drawn u + 1, marks := marks u @ [Dot]\<rparr>)"
      using holes_inv_hole[OF u(1)] by blast
    have "holes_body rnd fd i s = Some (finish (u\<lparr>kern := k, drawn := drawn u + 1, marks := marks u @ [Dot]\<rparr>))"
      using True u(2) k(1) unfolding holes_body_def Let_def u_def[symmetric] finish_def[symmetric] by simp
    then show ?thesis using k(2) True u(2) finish by (intro exI conjI) (assumption | simp)+
  next
    case False
    obtain k where k: "sys_write 0 fd (random_block rnd (drawn u + 1)) (kern u) = Some k"
      "holes_inv fd (bs @ [Some (random_block rnd (drawn u + 1))])
        (u\<lparr>kern := k, drawn := drawn u + 1 + BLKSZ, marks := marks u @ [Letter_O], usedblks := usedblks u + 1\<rparr>)"
      using holes_inv_block[OF u(1), of "random_block rnd (drawn u + 1)"] by (auto simp: random_block_def)
    have "holes_body rnd fd i s =
        Some (finish (u\<lparr>kern := k, drawn := drawn u + 1 + BLKSZ, marks := marks u @ [Letter_O], usedblks := usedblks u + 1\<rparr>))"
      using False u(2) k(1) unfolding holes_body_def Let_def u_def[symmetric] finish_def[symmetric] by simp
    then show ?thesis using k(2) False u(2) finish by (intro exI conjI) (assumption | simp)+
  qed
qed

lemma holes_loop_ok:
  assumes "holes_inv fd bs s"
  shows "\<exists>t. holes_loop rnd fd i n s = Some t \<and> holes_inv fd (bs @ draws rnd (drawn s) n) t"
  using assms
proof (induction n arbitrary: i s bs)
  case (Suc n)
  obtain t b where t: "holes_body rnd fd i s = Some t" "holes_inv fd (bs @ [b]) t"
    "draws rnd (drawn s) (Suc n) = b # draws rnd (drawn t) n" using holes_body_ok[OF Suc.prems] by blast
  then show ?case using Suc.IH[OF t(2), of "i + 1"] by (simp del: draws.simps)
qed simp

section \<open>Properties\<close>

text \<open>
  C34: the program does not fail; the file has the blocks at the places where they were drawn and zeros in the holes, and it ends with the last block: the holes
  after that are not part of it. The number that is printed is that of the blocks.
\<close>

theorem mkholes_file:
  "mkholes_main rnd fs =
    Some (file_image (trim (draws rnd 0 NBLKS)), length (filter (\<lambda>b. b \<noteq> None) (draws rnd 0 NBLKS)))"
proof -
  obtain fd k where k: "sys_open 0 1 False (boot (fs(1 := []))) = (fd, k)" by fastforce
  have "desc 0 fd k = Some (1, False)"
    using sys_open_ok[OF _ _ k] by (simp add: boot_def kernel_ok_def tab_ok_def entry_def less_Suc_eq numeral_eq_Suc)
  moreover have "ofiles k = [\<lparr>ino = 0, offset = 0, readable = True\<rparr>, \<lparr>ino = 1, offset = 0, readable = False\<rparr>]" "contents k 1 = []"
    "length (tables k) = 1"
    using k by (auto simp: sys_open_def boot_def set_table_def split: prod.splits)
  ultimately have "holes_inv fd [] \<lparr>kern = k, drawn = 0, usedblks = 0, marks = []\<rparr>"
    by (simp add: holes_inv_def blocks_ok_def)
  from holes_loop_ok[OF this, of rnd 0 NBLKS] obtain t where
    t: "holes_loop rnd fd 0 NBLKS \<lparr>kern = k, drawn = 0, usedblks = 0, marks = []\<rparr> = Some t" "holes_inv fd (draws rnd 0 NBLKS) t" by auto
  have "sys_close 0 fd (kern t) \<noteq> None" using t(2) by (simp add: holes_inv_def sys_close_def close_fd_def desc_def)
  moreover have "contents k' 1 = contents (kern t) 1" if "sys_close 0 fd (kern t) = Some k'" for k'
    using that by (auto simp: sys_close_def close_fd_def set_table_def split: if_splits sum.splits)
  ultimately show ?thesis using t k by (auto simp: mkholes_main_def holes_inv_def)
qed

end
