(* ===== verification/Corostack.thy ===== *)
theory Corostack
  imports Prelude
begin

text \<open>
  The stacks of the coroutines of \<open>3/so21_lista_3/coro.c\<close>: \<open>coro_init\<close> allocates them, \<open>coro_add\<close> puts the stack pointer of the first context into them, and
  \<open>coro_destroy\<close> frees them. The \<open>k\<close>-th call of \<open>posix_memalign\<close> gives \<open>alloc k\<close>, an error number, which is positive and
  leaves the pointer alone, or an address.
\<close>

definition CORO_STKSIZE :: u64 where "CORO_STKSIZE = 4096"

definition CORO_STKALIGN :: nat where "CORO_STKALIGN = 16"

record coro_t =
  co_name :: string
  co_stack :: u64
  rsp :: u64

text \<open>What the call returns, and the pointer after it, which \<open>memset\<close> has made \<open>NULL\<close> before.\<close>

definition memalign_result :: "nat + u64 \<Rightarrow> int" where
  "memalign_result r = (case r of Inl e \<Rightarrow> int e | Inr a \<Rightarrow> 0)"

definition memalign_pointer :: "nat + u64 \<Rightarrow> u64" where
  "memalign_pointer r = (case r of Inl e \<Rightarrow> 0 | Inr a \<Rightarrow> a)"

definition coro_init :: "nat + u64 \<Rightarrow> string \<Rightarrow> coro_t run" where
  "coro_init r name =
    (if memalign_result r < 0 then Inl App_error else Inr \<lparr>co_name = name, co_stack = memalign_pointer r, rsp = 0\<rparr>)"

definition coro_add_stack :: "coro_t \<Rightarrow> coro_t" where
  "coro_add_stack co = co\<lparr>rsp := co_stack co + CORO_STKSIZE - 8\<rparr>"

text \<open>The pointers that are passed to \<open>free\<close>.\<close>

definition coro_destroy :: "coro_t \<Rightarrow> u64 list \<Rightarrow> u64 list" where
  "coro_destroy co freed = freed @ [co_stack co]"

text \<open>\<open>main\<close>: the coroutines that run, and what is freed after them.\<close>

definition stacks_main :: "(nat \<Rightarrow> nat + u64) \<Rightarrow> (coro_t list \<times> u64 list) run" where
  "stacks_main alloc =
    bind_run (coro_init (alloc 0) ''func_1'') (\<lambda>co0.
    bind_run (coro_init (alloc 1) ''func_2'') (\<lambda>co1.
    bind_run (coro_init (alloc 2) ''func_3'') (\<lambda>co2.
      let co0 = coro_add_stack co0; co1 = coro_add_stack co1; co2 = coro_add_stack co2
      in Inr ([co0, co1, co2], coro_destroy co2 (coro_destroy co1 (coro_destroy co0 []))))))"

section \<open>The library\<close>

definition in_stack :: "u64 \<Rightarrow> nat \<Rightarrow> bool" where
  "in_stack a p \<longleftrightarrow> unat a \<le> p \<and> p < unat a + unat CORO_STKSIZE"

text \<open>The first three calls that succeed give blocks that are aligned, in the address space, and apart.\<close>

definition memalign_ok :: "(nat \<Rightarrow> nat + u64) \<Rightarrow> bool" where
  "memalign_ok alloc \<longleftrightarrow>
     (\<forall>k<3. \<forall>a. alloc k = Inr a \<longrightarrow> a \<noteq> 0 \<and> unat a mod CORO_STKALIGN = 0 \<and> unat a + unat CORO_STKSIZE < 2 ^ 64) \<and>
     (\<forall>j<3. \<forall>k<3. \<forall>a b. j \<noteq> k \<and> alloc j = Inr a \<and> alloc k = Inr b \<longrightarrow> (\<forall>p. \<not> (in_stack a p \<and> in_stack b p)))"

section \<open>Properties\<close>

lemma stacks_main_eq:
  "stacks_main alloc = Inr
    (map (\<lambda>k. \<lparr>co_name = [''func_1'', ''func_2'', ''func_3''] ! k, co_stack = memalign_pointer (alloc k),
        rsp = memalign_pointer (alloc k) + CORO_STKSIZE - 8\<rparr>) [0, 1, 2],
     map (\<lambda>k. memalign_pointer (alloc k)) [0, 1, 2])"
  by (simp add: stacks_main_def coro_init_def memalign_result_def coro_add_stack_def coro_destroy_def numeral_2_eq_2 split: sum.split)

lemma rsp_value:
  assumes "unat a + unat CORO_STKSIZE < 2 ^ 64"
  shows "unat (a + CORO_STKSIZE - 8) = unat a + 4088"
proof -
  have e: "a + CORO_STKSIZE - 8 = a + 4088" by (simp add: CORO_STKSIZE_def)
  have "unat a + unat (4088 :: u64) < 2 ^ 64" using assms by (simp add: CORO_STKSIZE_def)
  then have "unat (a + 4088) = unat a + unat (4088 :: u64)" by (subst unat_add_lem[symmetric]) simp
  then show ?thesis unfolding e by simp
qed

text \<open>
  C37: \<open>coro_init\<close> never reports an error, since \<open>posix_memalign\<close> does not return a negative number; a coroutine whose allocation has failed has \<open>NULL\<close> for
  its stack and the address 4088 for its stack pointer. When the allocations succeed, every stack pointer is within its own
  stack and in no other, 8 bytes off the alignment that a function expects before it is called, as after a call; and every stack is freed once.
\<close>

theorem coro_stacks:
  assumes "memalign_ok alloc"
  shows "\<exists>cos freed. stacks_main alloc = Inr (cos, freed) \<and> length cos = 3 \<and> freed = map co_stack cos \<and>
    (\<forall>k<3. \<forall>e. alloc k = Inl e \<longrightarrow> co_stack (cos ! k) = 0 \<and> rsp (cos ! k) = 4088) \<and>
    ((\<forall>k<3. alloc k = Inr (co_stack (cos ! k))) \<longrightarrow>
       distinct freed \<and>
       (\<forall>j<3. \<forall>k<3. in_stack (co_stack (cos ! j)) (unat (rsp (cos ! k))) \<longleftrightarrow> j = k) \<and>
       (\<forall>k<3. unat (rsp (cos ! k)) mod CORO_STKALIGN = 8))"
proof -
  define A where "A k = memalign_pointer (alloc k)" for k
  define cos where "cos = map (\<lambda>k. \<lparr>co_name = [''func_1'', ''func_2'', ''func_3''] ! k, co_stack = A k, rsp = A k + CORO_STKSIZE - 8\<rparr>) [0, 1, 2]"
  have main: "stacks_main alloc = Inr (cos, map co_stack cos)" unfolding stacks_main_eq cos_def A_def by simp
  have len: "length cos = 3" by (simp add: cos_def)
  have nth: "co_stack (cos ! k) = A k \<and> rsp (cos ! k) = A k + CORO_STKSIZE - 8" if "k < 3" for k
    using that by (auto simp: cos_def less_Suc_eq numeral_3_eq_3 numeral_2_eq_2)
  have fails: "co_stack (cos ! k) = 0 \<and> rsp (cos ! k) = 4088" if "k < 3" "alloc k = Inl e" for k e
    using nth[OF that(1)] that(2) by (simp add: A_def memalign_pointer_def CORO_STKSIZE_def)
  have ok: "distinct (map co_stack cos) \<and>
      (\<forall>j<3. \<forall>k<3. in_stack (co_stack (cos ! j)) (unat (rsp (cos ! k))) \<longleftrightarrow> j = k) \<and>
      (\<forall>k<3. unat (rsp (cos ! k)) mod CORO_STKALIGN = 8)"
    if "\<forall>k<3. alloc k = Inr (co_stack (cos ! k))"
  proof -
    have a: "alloc k = Inr (A k)" if "k < 3" for k using that \<open>\<forall>k<3. alloc k = Inr (co_stack (cos ! k))\<close> nth by simp
    have b: "unat (A k) mod CORO_STKALIGN = 0" "unat (A k) + unat CORO_STKSIZE < 2 ^ 64" if "k < 3" for k
      using assms that a[OF that] unfolding memalign_ok_def by blast+
    have r: "unat (rsp (cos ! k)) = unat (A k) + 4088" if "k < 3" for k using nth[OF that] rsp_value[OF b(2)[OF that]] by simp
    have in_own: "in_stack (A k) (unat (A k) + 4088)" for k by (simp add: in_stack_def CORO_STKSIZE_def)
    have apart: "\<not> (in_stack (A j) p \<and> in_stack (A k) p)" if "j < 3" "k < 3" "j \<noteq> k" for j k p
      using assms that a unfolding memalign_ok_def by blast
    have "A j \<noteq> A k" if "j < 3" "k < 3" "j \<noteq> k" for j k using apart[OF that] in_own[of k] by metis
    then have "distinct (map co_stack cos)" using len nth by (auto simp: distinct_conv_nth)
    moreover have "in_stack (co_stack (cos ! j)) (unat (rsp (cos ! k))) \<longleftrightarrow> j = k" if "j < 3" "k < 3" for j k
      using apart[OF that] in_own[of k] nth[OF that(1)] r[OF that(2)] by metis
    moreover have "unat (rsp (cos ! k)) mod CORO_STKALIGN = 8" if "k < 3" for k
      using r[OF that] b(1)[OF that] unfolding CORO_STKALIGN_def by presburger
    ultimately show ?thesis by blast
  qed
  show ?thesis using main len fails ok by blast
qed

definition example_alloc :: "nat \<Rightarrow> nat + u64" where
  "example_alloc k = Inr (word_of_nat (8192 * (k + 1)))"

lemma example_alloc_ok: "memalign_ok example_alloc"
  by (auto simp: memalign_ok_def example_alloc_def in_stack_def CORO_STKALIGN_def CORO_STKSIZE_def less_Suc_eq numeral_3_eq_3)

theorem coro_stacks_witness:
  "\<exists>cos freed. stacks_main example_alloc = Inr (cos, freed) \<and> distinct freed \<and> (\<forall>k<3. unat (rsp (cos ! k)) mod CORO_STKALIGN = 8)"
proof -
  obtain cos freed where c: "stacks_main example_alloc = Inr (cos, freed)"
    "(\<forall>k<3. example_alloc k = Inr (co_stack (cos ! k))) \<longrightarrow> distinct freed \<and> (\<forall>k<3. unat (rsp (cos ! k)) mod CORO_STKALIGN = 8)"
    using coro_stacks[OF example_alloc_ok] by blast
  moreover have "example_alloc k = Inr (co_stack (cos ! k))" if "k < 3" for k
    using that c(1) by (auto simp: stacks_main_eq example_alloc_def memalign_pointer_def less_Suc_eq numeral_3_eq_3 numeral_2_eq_2)
  ultimately show ?thesis by blast
qed

end
