(* ===== verification/Echoline.thy ===== *)
theory Echoline
  imports Ctext Conc "HOL-Library.Sublist"
begin

text \<open>
  The lines that go between \<open>9/so21_lista_9/echoclient.c\<close> and an echo server: the client and the function \<open>echo\<close> of
  \<open>9/so21_lista_9/echoserver-fork.c\<close>, connected by a socket, and \<open>9/so21_lista_9/echoserver.c\<close> with its loop that accepts connections. A direction of a socket is the
  list of the characters that are not yet read. \<open>Rio_readlineb\<close> belongs to a library outside the repository and is a parameter
  \<open>readline\<close>, from the characters that have come and whether the writer has closed its end to the line and what is left, or \<open>None\<close> when it has to
  wait; \<open>readline_ok\<close> is what its documentation says. The buffer size \<open>MAXLINE\<close> is a parameter \<open>m\<close>.
\<close>

section \<open>The library\<close>

abbreviation newline :: char where "newline \<equiv> CHR 0x0A"

text \<open>A line that fits into a buffer of \<open>n + 1\<close> bytes, or fills it.\<close>

definition whole_line :: "nat \<Rightarrow> string \<Rightarrow> bool" where
  "whole_line n l \<longleftrightarrow> l \<noteq> [] \<and> newline \<notin> set (butlast l) \<and> length l \<le> n \<and> (last l = newline \<or> length l = n)"

definition partial_line :: "nat \<Rightarrow> string \<Rightarrow> bool" where
  "partial_line n l \<longleftrightarrow> newline \<notin> set l \<and> length l < n"

type_synonym reader = "nat \<Rightarrow> string \<Rightarrow> bool \<Rightarrow> (string \<times> string) option"

definition readline_ok :: "reader \<Rightarrow> bool" where
  "readline_ok readline \<longleftrightarrow>
     (\<forall>m l rest eof. whole_line (m - 1) l \<longrightarrow> readline m (l @ rest) eof = Some (l, rest)) \<and>
     (\<forall>m l. partial_line (m - 1) l \<longrightarrow> readline m l True = Some (l, []) \<and> readline m l False = None)"

section \<open>The programs\<close>

datatype client_pc = C_read | C_wait | C_done

text \<open>\<open>S_count n\<close>: the server has written a line of \<open>n\<close> characters and has not counted it yet; the client may have printed it by then.\<close>

datatype server_pc = S_read | S_write string | S_count nat | S_done

text \<open>\<open>input\<close>, \<open>shown\<close>: the standard input and output of the client; \<open>up\<close>, \<open>down\<close>: the socket; \<open>counted\<close>: the bytes counted in the client's
  entry of the table.\<close>

record session =
  input :: string
  shown :: string
  up :: string
  down :: string
  client_at :: client_pc
  server_at :: server_pc
  counted :: nat

definition strlen :: "string \<Rightarrow> nat" where
  "strlen s = length (takeWhile (\<lambda>c. c \<noteq> CHR 0x00) s)"

definition client_step :: "reader \<Rightarrow> nat \<Rightarrow> session \<Rightarrow> session option" where
  "client_step readline m s =
    (case client_at s of
       C_read \<Rightarrow>
         (case fgets (m - 1) (input s) of
            None \<Rightarrow> Some (s\<lparr>client_at := C_done\<rparr>)
          | Some (buf, rest) \<Rightarrow> Some (s\<lparr>input := rest, up := up s @ take (strlen buf) buf, client_at := C_wait\<rparr>))
     | C_wait \<Rightarrow>
         (case readline m (down s) (server_at s = S_done) of
            None \<Rightarrow> None
          | Some (buf, rest) \<Rightarrow> Some (s\<lparr>down := rest, shown := shown s @ take (strlen buf) buf, client_at := C_read\<rparr>))
     | C_done \<Rightarrow> None)"

definition echo_step :: "reader \<Rightarrow> nat \<Rightarrow> session \<Rightarrow> session option" where
  "echo_step readline m s =
    (case server_at s of
       S_read \<Rightarrow>
         (case readline m (up s) (client_at s = C_done) of
            None \<Rightarrow> None
          | Some (buf, rest) \<Rightarrow> Some (s\<lparr>up := rest, server_at := if length buf = 0 then S_done else S_write buf\<rparr>))
     | S_write buf \<Rightarrow> Some (s\<lparr>down := down s @ buf, server_at := S_count (length buf)\<rparr>)
     | S_count n \<Rightarrow> Some (s\<lparr>counted := counted s + n, server_at := S_read\<rparr>)
     | S_done \<Rightarrow> None)"

definition session_start :: "string \<Rightarrow> session" where
  "session_start text = \<lparr>input = text, shown = [], up = [], down = [], client_at = C_read, server_at = S_read, counted = 0\<rparr>"

definition session_step :: "reader \<Rightarrow> nat \<Rightarrow> session \<Rightarrow> session \<Rightarrow> bool" where
  "session_step readline m s t \<longleftrightarrow> client_step readline m s = Some t \<or> echo_step readline m s = Some t"

abbreviation session_reach :: "reader \<Rightarrow> nat \<Rightarrow> string \<Rightarrow> session \<Rightarrow> bool" where
  "session_reach readline m text \<equiv> reach (\<lambda>s. s = session_start text) (session_step readline m)"

text \<open>\<open>9/so21_lista_9/echoserver.c\<close>: \<open>echo\<close> ends the whole server after its first line. The connections that clients make are given as all that each
  of them sends. The result: what each accepted client is sent, the bytes counted, and whether the server still runs.\<close>

definition echo_once :: "reader \<Rightarrow> nat \<Rightarrow> string \<Rightarrow> (string \<times> nat) option" where
  "echo_once readline m sent =
    (case readline m sent True of
       None \<Rightarrow> None
     | Some (buf, rest) \<Rightarrow> if length buf = 0 then None else Some (buf, length buf))"

fun echoserver :: "reader \<Rightarrow> nat \<Rightarrow> nat \<Rightarrow> string list \<Rightarrow> string list \<times> nat \<times> bool" where
  "echoserver readline m nread [] = ([], nread, True)"
| "echoserver readline m nread (sent # conns) =
    (case echo_once readline m sent of
       Some (reply, n) \<Rightarrow> ([reply], nread + n, False)
     | None \<Rightarrow> (let (replies, nread, running) = echoserver readline m nread conns in ([] # replies, nread, running)))"

section \<open>Lines\<close>

lemma fgets_chars_line:
  assumes "fgets_chars n cs = (l, rest)" and "cs \<noteq> []" and "0 < n"
  shows "whole_line n l \<or> rest = [] \<and> l = cs \<and> partial_line n l"
  using assms
proof (induction n cs arbitrary: l rest rule: fgets_chars.induct)
  case (3 n c cs)
  show ?case
  proof (cases "c = newline")
    case True
    then have "l = [newline]" using "3.prems"(1) by simp
    then show ?thesis by (simp add: whole_line_def)
  next
    case False
    obtain l' r' where r': "fgets_chars n cs = (l', r')" by (cases "fgets_chars n cs")
    then have l': "fgets_chars n cs = (l', rest)" "l = c # l'" using "3.prems"(1) False by simp_all
    consider "n = 0" | "0 < n" "cs = []" | "0 < n" "cs \<noteq> []" by blast
    then show ?thesis
    proof cases
      case 1
      then show ?thesis using l' by (simp add: whole_line_def)
    next
      case 2
      then show ?thesis using l' False by (cases n) (simp_all add: partial_line_def)
    next
      case 3
      then have "whole_line n l' \<or> rest = [] \<and> l' = cs \<and> partial_line n l'" using "3.IH"[OF False l'(1)] by simp
      then show ?thesis using l'(2) False by (auto simp: whole_line_def partial_line_def)
    qed
  qed
qed simp_all

lemma strlen_all: "CHR 0x00 \<notin> set l \<Longrightarrow> take (strlen l) l = l"
proof -
  assume "CHR 0x00 \<notin> set l"
  then have "takeWhile (\<lambda>c. c \<noteq> CHR 0x00) l = l" by (intro takeWhile_eq_all_conv[THEN iffD2]) auto
  then have "strlen l = length l" unfolding strlen_def by (rule arg_cong)
  then show ?thesis by simp
qed

lemma readline_whole: "readline_ok rl \<Longrightarrow> whole_line (m - 1) l \<Longrightarrow> rl m l eof = Some (l, [])"
  unfolding readline_ok_def by (metis append_Nil2)

lemma readline_partial:
  "readline_ok rl \<Longrightarrow> partial_line (m - 1) l \<Longrightarrow> rl m l True = Some (l, [])"
  "readline_ok rl \<Longrightarrow> partial_line (m - 1) l \<Longrightarrow> rl m l False = None"
  by (simp_all add: readline_ok_def)

section \<open>The invariant of a session\<close>

text \<open>At most one line is under way; it is in the socket up to the server, in the server, or in the socket down to the client.\<close>

definition under_way :: "session \<Rightarrow> string" where
  "under_way s = up s @ (case server_at s of S_write buf \<Rightarrow> buf | _ \<Rightarrow> []) @ down s"

text \<open>The bytes that are written and not counted.\<close>

definition uncounted :: "session \<Rightarrow> nat" where
  "uncounted s = (case server_at s of S_count n \<Rightarrow> n | _ \<Rightarrow> 0)"

lemma uncounted_updates [simp]:
  "uncounted (s\<lparr>input := x\<rparr>) = uncounted s" "uncounted (s\<lparr>shown := x\<rparr>) = uncounted s" "uncounted (s\<lparr>up := x\<rparr>) = uncounted s"
  "uncounted (s\<lparr>down := x\<rparr>) = uncounted s" "uncounted (s\<lparr>client_at := pc\<rparr>) = uncounted s" "uncounted (s\<lparr>counted := n\<rparr>) = uncounted s"
  "uncounted (s\<lparr>server_at := q\<rparr>) = (case q of S_count n \<Rightarrow> n | _ \<Rightarrow> 0)"
  by (simp_all add: uncounted_def)

definition reads_or_counts :: "server_pc \<Rightarrow> bool" where
  "reads_or_counts p \<longleftrightarrow> p = S_read \<or> (\<exists>n. p = S_count n)"

lemma reads_or_counts_simps [simp]:
  "reads_or_counts S_read" "reads_or_counts (S_count n)" "\<not> reads_or_counts (S_write l)" "\<not> reads_or_counts S_done"
  by (simp_all add: reads_or_counts_def)

text \<open>Where the line \<open>l\<close> of a waiting client is.\<close>

definition line_at :: "string \<Rightarrow> session \<Rightarrow> bool" where
  "line_at l s \<longleftrightarrow>
     up s = l \<and> reads_or_counts (server_at s) \<and> down s = [] \<or>
     up s = [] \<and> server_at s = S_write l \<and> down s = [] \<or>
     up s = [] \<and> reads_or_counts (server_at s) \<and> down s = l"

definition session_inv :: "nat \<Rightarrow> string \<Rightarrow> session \<Rightarrow> bool" where
  "session_inv m text s \<longleftrightarrow>
     text = shown s @ under_way s @ input s \<and>
     counted s + uncounted s = length (shown s) + length (down s) \<and> uncounted s \<le> m - 1 \<and>
     (case client_at s of
        C_read \<Rightarrow> under_way s = [] \<and> reads_or_counts (server_at s)
      | C_wait \<Rightarrow>
          (\<exists>l. line_at l s \<and> (whole_line (m - 1) l \<or> input s = [] \<and> up s = l \<and> l \<noteq> [] \<and> partial_line (m - 1) l))
      | C_done \<Rightarrow> under_way s = [] \<and> input s = [] \<and> (reads_or_counts (server_at s) \<or> server_at s = S_done))"

lemma session_inv_wait:
  assumes "session_inv m text s" and "client_at s = C_wait"
  obtains l where "line_at l s" "whole_line (m - 1) l \<or> input s = [] \<and> up s = l \<and> l \<noteq> [] \<and> partial_line (m - 1) l" "server_at s \<noteq> S_done"
proof -
  from assms obtain l where l: "line_at l s" "whole_line (m - 1) l \<or> input s = [] \<and> up s = l \<and> l \<noteq> [] \<and> partial_line (m - 1) l"
    unfolding session_inv_def by auto
  then have "server_at s \<noteq> S_done" by (auto simp: line_at_def)
  with l that show ?thesis by blast
qed

lemma partial_Nil: "2 \<le> m \<Longrightarrow> partial_line (m - 1) []"
  by (simp add: partial_line_def)

lemma session_inv_client:
  assumes "readline_ok rl" and "2 \<le> m" and "CHR 0x00 \<notin> set text" and "session_inv m text s" and "client_step rl m s = Some t"
  shows "session_inv m text t"
proof (cases "client_at s")
  case C_read
  show ?thesis
  proof (cases "input s")
    case Nil
    then show ?thesis using C_read assms(4,5) by (auto simp: client_step_def fgets_def session_inv_def under_way_def)
  next
    case (Cons c cs)
    obtain l rest where l: "fgets_chars (m - 1) (input s) = (l, rest)" by fastforce
    have split: "input s = l @ rest" using fgets_chars_split[OF l] by simp
    have line: "whole_line (m - 1) l \<or> rest = [] \<and> l = input s \<and> partial_line (m - 1) l"
      using fgets_chars_line[OF l] Cons assms(2) by simp
    then have "l \<noteq> []" using Cons by (auto simp: whole_line_def)
    have "CHR 0x00 \<notin> set l" using assms(3,4) split by (auto simp: session_inv_def)
    then have "t = s\<lparr>input := rest, up := up s @ l, client_at := C_wait\<rparr>"
      using assms(5) C_read Cons l by (simp add: client_step_def fgets_def strlen_all)
    moreover have "line_at l (s\<lparr>input := rest, up := up s @ l, client_at := C_wait\<rparr>)"
      using assms(4) C_read by (simp add: session_inv_def under_way_def line_at_def)
    ultimately show ?thesis using assms(4) C_read split line \<open>l \<noteq> []\<close> by (auto simp: session_inv_def under_way_def)
  qed
next
  case C_wait
  then obtain l where l: "line_at l s" "whole_line (m - 1) l \<or> input s = [] \<and> up s = l \<and> l \<noteq> [] \<and> partial_line (m - 1) l"
    and l3: "server_at s \<noteq> S_done" by (rule session_inv_wait[OF assms(4)])
  have "down s \<noteq> []"
    using assms(5) C_wait l3 readline_partial(2)[OF assms(1) partial_Nil[OF assms(2)]] by (auto simp: client_step_def)
  then have w: "down s = l" "whole_line (m - 1) l" "up s = []" "reads_or_counts (server_at s)" using l by (auto simp: line_at_def)
  then have "CHR 0x00 \<notin> set l" using assms(3,4) by (auto simp: session_inv_def under_way_def)
  then have "t = s\<lparr>down := [], shown := shown s @ l, client_at := C_read\<rparr>"
    using assms(5) C_wait w readline_whole[OF assms(1) w(2)] by (simp add: client_step_def strlen_all)
  then show ?thesis using assms(4) C_wait w by (auto simp: session_inv_def under_way_def split: server_pc.splits)
next
  case C_done
  then show ?thesis using assms(5) by (simp add: client_step_def)
qed

lemma session_inv_echo:
  assumes "readline_ok rl" and "2 \<le> m" and "session_inv m text s" and "echo_step rl m s = Some t"
  shows "session_inv m text t"
proof (cases "server_at s")
  case S_read
  show ?thesis
  proof (cases "up s = []")
    case True
    then have "client_at s = C_done"
      using S_read assms(4) readline_partial(2)[OF assms(1) partial_Nil[OF assms(2)]] by (cases "client_at s = C_done") (auto simp: echo_step_def)
    moreover have "t = s\<lparr>up := [], server_at := S_done\<rparr>"
      using True S_read assms(4) calculation readline_partial(1)[OF assms(1) partial_Nil[OF assms(2)]] by (simp add: echo_step_def)
    ultimately show ?thesis using True S_read assms(3) by (simp add: session_inv_def under_way_def uncounted_def)
  next
    case False
    then have wait: "client_at s = C_wait" using assms(3) by (auto simp: session_inv_def under_way_def split: client_pc.splits)
    obtain l where l: "line_at l s" "whole_line (m - 1) l \<or> input s = [] \<and> up s = l \<and> l \<noteq> [] \<and> partial_line (m - 1) l"
      by (rule session_inv_wait[OF assms(3) wait])
    have up: "up s = l" "down s = []" using l(1) False S_read by (auto simp: line_at_def)
    then have whole: "whole_line (m - 1) l"
      using l(2) assms(4) S_read wait readline_partial(2)[OF assms(1)] by (auto simp: echo_step_def)
    then have t: "t = s\<lparr>up := [], server_at := S_write l\<rparr>"
      using False S_read up assms(4) readline_whole[OF assms(1)] by (auto simp: echo_step_def)
    have "line_at l t" unfolding t by (simp add: line_at_def up)
    then show ?thesis using S_read wait up whole assms(3) unfolding t by (auto simp: session_inv_def under_way_def uncounted_def)
  qed
next
  case (S_write l)
  then have t: "t = s\<lparr>down := down s @ l, server_at := S_count (length l)\<rparr>" using assms(4) by (simp add: echo_step_def)
  have wait: "client_at s = C_wait" using S_write assms(3) by (auto simp: session_inv_def split: client_pc.splits)
  obtain l' where l': "line_at l' s" "whole_line (m - 1) l' \<or> input s = [] \<and> up s = l' \<and> l' \<noteq> [] \<and> partial_line (m - 1) l'"
    by (rule session_inv_wait[OF assms(3) wait])
  then have w: "l' = l" "up s = []" "down s = []" "whole_line (m - 1) l" "length l \<le> m - 1" using S_write by (auto simp: line_at_def whole_line_def)
  have "line_at l t" unfolding t by (simp add: line_at_def w)
  then show ?thesis using S_write wait w assms(3) unfolding t by (auto simp: session_inv_def under_way_def uncounted_def)
next
  case (S_count n)
  then have t: "t = s\<lparr>counted := counted s + n, server_at := S_read\<rparr>" using assms(4) by (simp add: echo_step_def)
  have "line_at l t" if "line_at l s" for l using that S_count unfolding t by (auto simp: line_at_def)
  then show ?thesis using S_count assms(3) unfolding t by (auto simp: session_inv_def under_way_def uncounted_def split: client_pc.splits)
qed (use assms(4) in \<open>simp add: echo_step_def\<close>)

lemma session_inv_start: "session_inv m text (session_start text)"
  by (simp add: session_inv_def session_start_def under_way_def uncounted_def)

section \<open>A session ends\<close>

definition session_over :: "session \<Rightarrow> bool" where
  "session_over s \<longleftrightarrow> client_at s = C_done \<and> server_at s = S_done"

definition session_work :: "session \<Rightarrow> nat" where
  "session_work s =
    5 * length (input s) +
    (case client_at s of
       C_read \<Rightarrow> 2
     | C_wait \<Rightarrow> (if down s \<noteq> [] then 3 else case server_at s of S_write l \<Rightarrow> 5 | _ \<Rightarrow> 6)
     | C_done \<Rightarrow> (if server_at s = S_done then 0 else 1)) +
    (case server_at s of S_count n \<Rightarrow> 1 | _ \<Rightarrow> 0)"

text \<open>No line is left without its end.\<close>

definition lines_only :: "string \<Rightarrow> bool" where
  "lines_only text \<longleftrightarrow> (text \<noteq> [] \<longrightarrow> last text = newline) \<and> CHR 0x00 \<notin> set text"

lemma partial_last: "partial_line n l \<Longrightarrow> l \<noteq> [] \<Longrightarrow> last l \<noteq> newline"
  by (metis last_in_set partial_line_def)

lemma partial_not_whole: "partial_line n l \<Longrightarrow> \<not> whole_line n l"
  using partial_last[of n l] by (auto simp: whole_line_def partial_line_def)

lemma session_closer_read:
  assumes "readline_ok rl" and "2 \<le> m" and "lines_only text" and "session_inv m text s" and "\<not> session_over s"
    and "\<not> (\<exists>n. server_at s = S_count n)"
  shows "\<exists>t. session_step rl m s t \<and> session_work t < session_work s"
proof (cases "client_at s")
  case C_read
  show ?thesis
  proof (cases "input s")
    case Nil
    then have "client_step rl m s = Some (s\<lparr>client_at := C_done\<rparr>)" using C_read by (simp add: client_step_def fgets_def)
    moreover have "session_work (s\<lparr>client_at := C_done\<rparr>) < session_work s" using C_read by (simp add: session_work_def)
    ultimately show ?thesis unfolding session_step_def by blast
  next
    case (Cons c cs)
    obtain l rest where l: "fgets_chars (m - 1) (input s) = (l, rest)" by fastforce
    have split: "input s = l @ rest" using fgets_chars_split[OF l] by simp
    have "l \<noteq> []" using fgets_chars_line[OF l] Cons assms(2) by (auto simp: whole_line_def)
    then have n: "length rest < length (input s)" using split by simp
    let ?t = "s\<lparr>input := rest, up := up s @ take (strlen l) l, client_at := C_wait\<rparr>"
    have "client_step rl m s = Some ?t" using C_read Cons l by (simp add: client_step_def fgets_def)
    moreover have "down s = []" "server_at s = S_read" using assms(4,6) C_read by (auto simp: session_inv_def under_way_def reads_or_counts_def)
    then have "session_work ?t < session_work s" using C_read n by (simp add: session_work_def)
    ultimately show ?thesis unfolding session_step_def by blast
  qed
next
  case C_wait
  then obtain l where l: "line_at l s" "whole_line (m - 1) l \<or> input s = [] \<and> up s = l \<and> l \<noteq> [] \<and> partial_line (m - 1) l"
    by (rule session_inv_wait[OF assms(4)])
  have w: "whole_line (m - 1) l"
  proof (rule ccontr)
    assume "\<not> whole_line (m - 1) l"
    then have p: "input s = []" "up s = l" "l \<noteq> []" "partial_line (m - 1) l" using l(2) by auto
    then have "text = shown s @ l" using l(1) assms(4,6) by (auto simp: session_inv_def under_way_def line_at_def reads_or_counts_def)
    then show False using assms(3) p partial_last by (auto simp: lines_only_def)
  qed
  then have ne: "l \<noteq> []" by (simp add: whole_line_def)
  consider "up s = l" "server_at s = S_read" "down s = []" | "up s = []" "server_at s = S_write l" "down s = []"
    | "up s = []" "server_at s = S_read" "down s = l" using l(1) assms(6) by (auto simp: line_at_def reads_or_counts_def)
  then show ?thesis
  proof cases
    case 1
    then have "echo_step rl m s = Some (s\<lparr>up := [], server_at := S_write l\<rparr>)"
      using readline_whole[OF assms(1) w] ne by (simp add: echo_step_def)
    moreover have "session_work (s\<lparr>up := [], server_at := S_write l\<rparr>) < session_work s" using C_wait 1 by (simp add: session_work_def)
    ultimately show ?thesis unfolding session_step_def by blast
  next
    case 2
    then have "echo_step rl m s = Some (s\<lparr>down := l, server_at := S_count (length l)\<rparr>)" by (simp add: echo_step_def)
    moreover have "session_work (s\<lparr>down := l, server_at := S_count (length l)\<rparr>) < session_work s"
      using C_wait 2 ne by (simp add: session_work_def)
    ultimately show ?thesis unfolding session_step_def by blast
  next
    case 3
    then have "client_step rl m s = Some (s\<lparr>down := [], shown := shown s @ take (strlen l) l, client_at := C_read\<rparr>)"
      using readline_whole[OF assms(1) w] C_wait by (simp add: client_step_def)
    moreover have "session_work (s\<lparr>down := [], shown := shown s @ take (strlen l) l, client_at := C_read\<rparr>) < session_work s"
      using C_wait 3 ne by (simp add: session_work_def)
    ultimately show ?thesis unfolding session_step_def by blast
  qed
next
  case C_done
  then have "server_at s = S_read" "up s = []" using assms(4-6) by (auto simp: session_inv_def session_over_def under_way_def reads_or_counts_def)
  then have "echo_step rl m s = Some (s\<lparr>up := [], server_at := S_done\<rparr>)"
    using readline_partial(1)[OF assms(1) partial_Nil[OF assms(2)]] C_done by (simp add: echo_step_def)
  moreover have "session_work (s\<lparr>up := [], server_at := S_done\<rparr>) < session_work s"
    using C_done \<open>server_at s = S_read\<close> by (simp add: session_work_def)
  ultimately show ?thesis unfolding session_step_def by blast
qed

lemma session_closer:
  assumes "readline_ok rl" and "2 \<le> m" and "lines_only text" and "session_inv m text s" and "\<not> session_over s"
  shows "\<exists>t. session_step rl m s t \<and> session_work t < session_work s"
proof (cases "\<exists>n. server_at s = S_count n")
  case True
  then obtain n where n: "server_at s = S_count n" by blast
  let ?t = "s\<lparr>counted := counted s + n, server_at := S_read\<rparr>"
  have "echo_step rl m s = Some ?t" using n by (simp add: echo_step_def)
  moreover have "session_work ?t < session_work s" using n by (simp add: session_work_def split: client_pc.splits)
  ultimately show ?thesis unfolding session_step_def by blast
next
  case False
  then show ?thesis using session_closer_read[OF assms] by blast
qed
text \<open>What a session relies on: the library's reader, a buffer with room for a character, no NUL in the text.\<close>

definition session_ok :: "reader \<Rightarrow> nat \<Rightarrow> string \<Rightarrow> bool" where
  "session_ok readline m text \<longleftrightarrow> readline_ok readline \<and> 2 \<le> m \<and> CHR 0x00 \<notin> set text"

lemma session_inv_step:
  "session_step rl m s t \<Longrightarrow> session_ok rl m text \<Longrightarrow> session_inv m text s \<Longrightarrow> session_inv m text t"
  using session_inv_client session_inv_echo unfolding session_step_def session_ok_def by blast

interpretation session: safe_system "\<lambda>s. s = session_start text" "session_step rl m" "\<lambda>s. session_ok rl m text \<longrightarrow> session_inv m text s"
  by unfold_locales (use session_inv_start session_inv_step in blast)+

interpretation finite_session: converging_system "\<lambda>s. s = session_start text \<and> session_ok rl m text \<and> lines_only text" "session_step rl m"
    "\<lambda>s. session_ok rl m text \<and> lines_only text \<and> session_inv m text s" session_over session_work
  by unfold_locales (use session_inv_start session_inv_step session_closer in \<open>unfold session_ok_def, blast\<close>)+

section \<open>An unfinished line\<close>

text \<open>The text after the last newline, when it does not fill the buffer: the client is before it, or waits for the answer to it.\<close>

definition stuck_inv :: "nat \<Rightarrow> string \<Rightarrow> session \<Rightarrow> bool" where
  "stuck_inv m l s \<longleftrightarrow>
     client_at s \<noteq> C_done \<and>
     ((\<exists>pre. input s = pre @ l \<and> (pre = [] \<or> last pre = newline)) \<or> client_at s = C_wait \<and> up s = l)"

lemma fgets_keeps_tail:
  assumes "fgets_chars n (pre @ l) = (c, rest)" and "pre = [] \<or> last pre = newline" and "partial_line n l" and "l \<noteq> []" and "0 < n"
  shows "(\<exists>pre'. rest = pre' @ l \<and> (pre' = [] \<or> last pre' = newline)) \<or> c = l \<and> rest = []"
proof (cases "pre = []")
  case True
  then have "partial_line n (c @ rest)" "whole_line n c \<or> rest = []"
    using fgets_chars_split[OF assms(1)] fgets_chars_line[OF assms(1)] assms(3-5) by auto
  moreover have "\<not> whole_line n c" if "partial_line n (c @ rest)"
    using that partial_not_whole[of n c] by (simp add: partial_line_def)
  ultimately show ?thesis using fgets_chars_split[OF assms(1)] True by auto
next
  case False
  then obtain p where p: "pre = p @ [newline]" using assms(2) by (metis append_butlast_last_id)
  have s: "c @ rest = p @ newline # l" using fgets_chars_split[OF assms(1)] p by simp
  have line: "whole_line n c \<or> rest = [] \<and> partial_line n c" using fgets_chars_line[OF assms(1)] assms(4,5) by auto
  have "length c \<le> length pre"
  proof (rule ccontr)
    assume "\<not> length c \<le> length pre"
    then have "length p + 1 < length c" using p by simp
    then have c: "c = p @ newline # take (length c - length p - 1) l" using arg_cong[OF s, of "take (length c)"]
      by (simp add: take_Cons')
    then have "take (length c - length p - 1) l \<noteq> []" using \<open>length p + 1 < length c\<close> by (metis One_nat_def add.commute append_eq_conv_conj append_same_eq  length_Cons length_append less_irrefl list.size(3) plus_1_eq_Suc)
    then have "newline \<in> set (butlast c)" by (subst c) (simp add: butlast_append)
    then show False using line by (auto simp: whole_line_def partial_line_def dest: in_set_butlastD)
  qed
  then obtain q where q: "pre = c @ q" "rest = q @ l"
    using s p by (metis append_assoc append_Cons append_Nil append_eq_append_conv_if append_eq_conv_conj append_take_drop_id same_append_eq)
  then show ?thesis using assms(2) by auto
qed

lemma stuck_inv_step:
  assumes "session_ok rl m text" and "session_inv m text s" and "partial_line (m - 1) l" and "l \<noteq> []" and "stuck_inv m l s"
    and "session_step rl m s t"
  shows "stuck_inv m l t"
proof -
  have ok: "readline_ok rl" "2 \<le> m" "CHR 0x00 \<notin> set text" using assms(1) by (simp_all add: session_ok_def)
  show ?thesis
  proof (cases "client_at s = C_wait \<and> up s = l")
    case True
    then have "reads_or_counts (server_at s)" "down s = []" using assms(2,4) by (auto simp: session_inv_def line_at_def)
    then have "client_step rl m s = None" "echo_step rl m s = None \<or> (\<exists>n. echo_step rl m s = Some (s\<lparr>counted := n, server_at := S_read\<rparr>))"
      using True readline_partial(2)[OF ok(1) assms(3)] readline_partial(2)[OF ok(1) partial_Nil[OF ok(2)]]
      by (auto simp: client_step_def echo_step_def reads_or_counts_def)
    then show ?thesis using assms(6) True by (auto simp: session_step_def stuck_inv_def)
  next
    case False
    then obtain pre where pre: "input s = pre @ l" "pre = [] \<or> last pre = newline" using assms(5) by (auto simp: stuck_inv_def)
    have "input t = input s \<and> client_at t \<noteq> C_done \<or>
      (\<exists>c rest. fgets_chars (m - 1) (input s) = (c, rest) \<and> input t = rest \<and> client_at t = C_wait \<and> up t = up s @ take (strlen c) c \<and> client_at s = C_read)"
      using assms(4,6) pre(1) assms(5) unfolding session_step_def
      by (auto simp: client_step_def echo_step_def fgets_def stuck_inv_def split: client_pc.splits server_pc.splits option.splits prod.splits if_splits)
    then show ?thesis
    proof (elim disjE exE conjE)
      assume "input t = input s" "client_at t \<noteq> C_done"
      then show ?thesis using pre by (auto simp: stuck_inv_def)
    next
      fix c rest assume c: "fgets_chars (m - 1) (input s) = (c, rest)" "input t = rest" "client_at t = C_wait"
        "up t = up s @ take (strlen c) c" "client_at s = C_read"
      have "up s = []" using assms(2) c(5) by (simp add: session_inv_def under_way_def)
      moreover have "CHR 0x00 \<notin> set c" using fgets_chars_split[OF c(1)] assms(2) ok(3) by (auto simp: session_inv_def)
      ultimately have "up t = c" using c(4) by (simp add: strlen_all)
      then show ?thesis using fgets_keeps_tail[OF c(1)[unfolded pre(1)] pre(2) assms(3,4)] ok(2) c(2,3) by (auto simp: stuck_inv_def)
    qed
  qed
qed

interpretation stuck: safe_system "\<lambda>s. s = session_start (pre @ l)" "session_step rl m"
    "\<lambda>s. session_ok rl m (pre @ l) \<and> partial_line (m - 1) l \<and> l \<noteq> [] \<and> (pre = [] \<or> last pre = newline) \<longrightarrow>
       session_inv m (pre @ l) s \<and> stuck_inv m l s"
proof unfold_locales
  show "session_ok rl m (pre @ l) \<and> partial_line (m - 1) l \<and> l \<noteq> [] \<and> (pre = [] \<or> last pre = newline) \<longrightarrow>
      session_inv m (pre @ l) s \<and> stuck_inv m l s" if "s = session_start (pre @ l)" for s
    using that session_inv_start by (auto simp: stuck_inv_def session_start_def)
qed (use session_inv_step stuck_inv_step in blast)

section \<open>Properties\<close>

text \<open>
  C28: whatever the client and the server do, what the client has printed is a beginning of its input, and the bytes that are printed or on their way back are those the server has
  counted and those of the line it has written last and not counted yet, which fits its buffer; and for an input in which every line ends, the session comes to an end, with the whole input
  printed and counted, however long the lines are.
\<close>

theorem session_roundtrip:
  assumes "session_ok readline m text" and "session_reach readline m text s"
  shows "prefix (shown s) text \<and> length (shown s) + length (down s) = counted s + uncounted s \<and> uncounted s < m \<and> counted s \<le> length text \<and>
    (lines_only text \<longrightarrow>
      (\<exists>t. (session_step readline m)\<^sup>*\<^sup>* s t \<and> session_over t \<and> shown t = text \<and> counted t = length text))"
proof -
  have inv: "session_inv m text s" using session.inv_reach[OF assms(2)] assms(1) by blast
  have "2 \<le> m" using assms(1) by (simp add: session_ok_def)
  moreover have "text = shown s @ under_way s @ input s" "counted s + uncounted s = length (shown s) + length (down s)" "uncounted s \<le> m - 1"
    using inv by (simp_all add: session_inv_def)
  moreover from this(1) have "length (shown s) + length (down s) \<le> length text" unfolding under_way_def by simp
  ultimately have "prefix (shown s) text \<and> length (shown s) + length (down s) = counted s + uncounted s \<and> uncounted s < m \<and> counted s \<le> length text"
    by auto
  moreover have "\<exists>t. (session_step readline m)\<^sup>*\<^sup>* s t \<and> session_over t \<and> session_inv m text t" if "lines_only text"
    using finite_session.can_reach_goal[of readline m "text" s] assms(1) that inv by blast
  moreover have "shown t = text \<and> counted t = length text" if "session_over t" "session_inv m text t" for t
    using that by (auto simp: session_over_def session_inv_def under_way_def uncounted_def)
  ultimately show ?thesis by blast
qed

text \<open>
  When the last line of the input does not end, and does not fill the buffer, the session never ends: the server waits for the end of the line, and the
  client for the answer.
\<close>

theorem session_stuck:
  assumes "session_ok readline m (pre @ l)" and "partial_line (m - 1) l" and "l \<noteq> []" and "pre = [] \<or> last pre = newline"
    and "session_reach readline m (pre @ l) s"
  shows "\<not> session_over s \<and> shown s \<noteq> pre @ l"
proof -
  have "session_inv m (pre @ l) s" "stuck_inv m l s" using stuck.inv_reach[OF assms(5)] assms(1-4) by blast+
  then show ?thesis using assms(3) by (auto simp: stuck_inv_def session_over_def session_inv_def under_way_def)
qed

text \<open>
  \<open>9/so21_lista_9/echoserver.c\<close> serves one line of one client: the clients that send nothing get nothing, the first that sends something gets its first line back, or as much as
  fits into the buffer, and then the server is gone.
\<close>

theorem echoserver_once:
  assumes "readline_ok readline" and "2 \<le> m" and "\<forall>c\<in>set conns. c = []" and "sent \<noteq> []"
  shows "echoserver readline m 0 (conns @ sent # later) =
    (map (\<lambda>_. []) conns @ [fst (fgets_chars (m - 1) sent)], length (fst (fgets_chars (m - 1) sent)), False)"
proof -
  obtain l rest where l: "fgets_chars (m - 1) sent = (l, rest)" by fastforce
  have "sent = l @ rest" "whole_line (m - 1) l \<or> rest = [] \<and> l = sent \<and> partial_line (m - 1) l"
    using fgets_chars_split[OF l] fgets_chars_line[OF l] assms(2,4) by auto
  then have "readline m sent True = Some (l, rest)" "l \<noteq> []"
    using assms(1,4) by (auto simp: readline_ok_def whole_line_def)
  then have sent: "echo_once readline m sent = Some (l, length l)" by (simp add: echo_once_def)
  have "echo_once readline m [] = None"
    using readline_partial(1)[OF assms(1) partial_Nil[OF assms(2)]] by (simp add: echo_once_def)
  then show ?thesis using assms(3) sent l by (induction conns) auto
qed

section \<open>A reader\<close>

text \<open>A function with the documented behaviour of \<open>Rio_readlineb\<close>.\<close>

definition example_reader :: reader where
  "example_reader m sent eof =
    (let (l, rest) = fgets_chars (m - 1) sent in if whole_line (m - 1) l \<or> eof then Some (l, rest) else None)"

lemma fgets_chars_whole: "whole_line n l \<Longrightarrow> fgets_chars n (l @ rest) = (l, rest)"
proof (induction n "l @ rest" arbitrary: l rule: fgets_chars.induct)
  case (3 n c cs)
  then obtain l' where l': "l = c # l'" "cs = l' @ rest" by (cases l) (auto simp: whole_line_def)
  show ?case
  proof (cases "l' = []")
    case True
    then show ?thesis using 3(3) l' by (cases n) (auto simp: whole_line_def)
  next
    case False
    then have "c \<noteq> newline" "whole_line n l'" using 3(3) l' by (auto simp: whole_line_def)
    then show ?thesis using 3(1)[of l'] l' by simp
  qed
qed (auto simp: whole_line_def)

lemma fgets_chars_partial: "partial_line n l \<Longrightarrow> fgets_chars n l = (l, [])"
  by (induction n l rule: fgets_chars.induct) (auto simp: partial_line_def)

lemma example_reader_ok: "readline_ok example_reader"
  using partial_not_whole by (auto simp: readline_ok_def example_reader_def fgets_chars_whole fgets_chars_partial)

theorem session_roundtrip_witness:
  "\<exists>t. (session_step example_reader 4)\<^sup>*\<^sup>* (session_start (''hello'' @ [newline])) t \<and> session_over t \<and> shown t = ''hello'' @ [newline]"
proof -
  have "session_ok example_reader 4 (''hello'' @ [newline])" "lines_only (''hello'' @ [newline])"
    by (simp_all add: session_ok_def example_reader_ok lines_only_def)
  moreover have "session_reach example_reader 4 (''hello'' @ [newline]) (session_start (''hello'' @ [newline]))"
    by (rule reach_init) (rule refl)
  ultimately show ?thesis using session_roundtrip by fast
qed

theorem session_stuck_witness: "\<not> session_over (session_start (''a'' @ [newline] @ ''b''))"
  using session_stuck[of example_reader 4 "''a'' @ [newline]" "''b''" "session_start (''a'' @ [newline] @ ''b'')"]
  by (simp add: session_ok_def example_reader_ok partial_line_def reach_init)

theorem echoserver_once_witness: "echoserver example_reader 4 0 [[], ''hello'', ''x''] = ([[], ''hel''], 3, False)"
proof -
  have "fgets_chars 3 ''hello'' = (''hel'', ''lo'')" by code_simp
  then show ?thesis using echoserver_once[of example_reader 4 "[[]]" "''hello''" "[''x'']"] by (simp add: example_reader_ok)
qed

end
