(* ===== verification/Echosystem.thy ===== *)
theory Echosystem
  imports Echo Echoline
begin

text \<open>
  The echo server and its clients together: each client has a session (\<open>Echoline\<close>) with a child of the server (\<open>Echo\<close>), which counts the bytes of every line in its
  entry of the table; when the session is over the child ends and is reaped. Here the clients come one after the other.
\<close>

section \<open>The writes of a session\<close>

text \<open>The numbers of bytes that \<open>echo\<close> counts during a session, in order.\<close>

inductive session_counts :: "reader \<Rightarrow> nat \<Rightarrow> session \<Rightarrow> nat list \<Rightarrow> session \<Rightarrow> bool" for readline :: reader and m :: nat where
  counts_refl: "session_counts readline m s [] s"
| counts_silent: "session_counts readline m s ns t \<Longrightarrow> session_step readline m t u \<Longrightarrow> counted u = counted t \<Longrightarrow>
    session_counts readline m s ns u"
| counts_write: "session_counts readline m s ns t \<Longrightarrow> session_step readline m t u \<Longrightarrow> counted u = counted t + n \<Longrightarrow> 0 < n \<Longrightarrow>
    session_counts readline m s (ns @ [n]) u"

lemma counts_steps: "session_counts readline m s ns t \<Longrightarrow> (session_step readline m)\<^sup>*\<^sup>* s t"
  by (induction rule: session_counts.induct) auto

lemma counts_sum: "session_counts readline m s ns t \<Longrightarrow> counted t = counted s + sum_list ns"
  by (induction rule: session_counts.induct) auto

lemma session_step_counted: "session_step readline m s t \<Longrightarrow> counted s \<le> counted t"
  by (auto simp: session_step_def client_step_def echo_step_def split: client_pc.splits server_pc.splits option.splits prod.splits if_splits)

lemma counts_exist: "(session_step readline m)\<^sup>*\<^sup>* s t \<Longrightarrow> \<exists>ns. session_counts readline m s ns t"
proof (induction rule: rtranclp_induct)
  case base
  show ?case using counts_refl by blast
next
  case (step t u)
  then obtain ns where ns: "session_counts readline m s ns t" by blast
  consider "counted u = counted t" | n where "counted u = counted t + n" "0 < n"
    using session_step_counted[OF step.hyps(2)] by (metis add_diff_inverse_nat le_neq_implies_less not_less zero_less_diff)
  then show ?case using counts_silent[OF ns step.hyps(2)] counts_write[OF ns step.hyps(2)] by cases blast+
qed

section \<open>A client from its connection to its end\<close>

definition client_events :: "int \<Rightarrow> nat list \<Rightarrow> event list" where
  "client_events p ns = [Accept p, Child_start p] @ map (event.Echo p) ns @ [Exit p, Reap p]"

text \<open>A run of the server without failing assertions.\<close>

definition serve :: "event \<Rightarrow> server \<Rightarrow> server option" where
  "serve e s = (case server_do e s of Some (Inr t) \<Rightarrow> Some t | _ \<Rightarrow> None)"

definition no_clients :: "nat \<Rightarrow> server \<Rightarrow> bool" where
  "no_clients n s \<longleftrightarrow> length (clients s) = n \<and> (\<forall>c\<in>set (clients s). pid c = 0) \<and> nclients s = 0 \<and> kids s = (\<lambda>_. None)"

text \<open>The state while the only client is served: it has the first entry.\<close>

definition one_client :: "int \<Rightarrow> nat \<Rightarrow> server \<Rightarrow> server" where
  "one_client p b s = s\<lparr>clients := (clients s)[0 := \<lparr>pid = p, bytes = b\<rparr>], nclients := 1, kids := [p \<mapsto> Serving 0], total := total s + b\<rparr>"

lemma find_first: "cs \<noteq> [] \<Longrightarrow> pid (hd cs) = p \<Longrightarrow> findclient cs p = Some 0"
  by (cases cs) (simp_all add: findclient_def)

lemma serve_accept:
  assumes "no_clients n s" and "0 < n" and "0 < p"
  shows "run_schedule serve [Accept p, Child_start p] s = Some (one_client p 0 s)"
proof -
  obtain c cs where cs: "clients s = c # cs" "pid c = 0" using assms(1,2) by (cases "clients s") (auto simp: no_clients_def)
  then have "findclient (clients s) 0 = Some 0" by (intro find_first) simp_all
  then show ?thesis using assms cs
    by (simp add: serve_def main_loop_def addclient_def child_start_def one_client_def no_clients_def)
qed

lemma serve_echo:
  assumes "clients s \<noteq> []"
  shows "run_schedule serve (map (event.Echo p) ns) (one_client p b s) = Some (one_client p (b + sum_list ns) s)"
proof (induction ns arbitrary: b)
  case (Cons n ns)
  have "serve (event.Echo p n) (one_client p b s) = Some (one_client p (b + n) s)"
    using assms by (simp add: serve_def one_client_def echo_def add.assoc)
  then show ?case using Cons.IH[of "b + n"] by (simp add: add.assoc)
qed simp

lemma serve_exit:
  assumes "no_clients n s" and "0 < n" and "0 < p"
  shows "\<exists>t. run_schedule serve [Exit p, Reap p] (one_client p b s) = Some t \<and> no_clients n t \<and> nread t = nread s + b \<and> total t = total s + b"
proof -
  obtain c cs where cs: "clients s = c # cs" using assms(1,2) by (cases "clients s") (auto simp: no_clients_def)
  then have "findclient (\<lparr>pid = p, bytes = b\<rparr> # cs) p = Some 0" by (intro find_first) simp_all
  then show ?thesis using assms cs
    by (auto simp: serve_def sigchld_handler_def delclient_def one_client_def no_clients_def fun_upd_idem)
qed

lemma serve_client:
  assumes "no_clients n s" and "0 < n" and "0 < p"
  shows "\<exists>t. run_schedule serve (client_events p ns) s = Some t \<and> no_clients n t \<and> nread t = nread s + sum_list ns \<and> total t = total s + sum_list ns"
proof -
  have "clients s \<noteq> []" using assms(1,2) by (auto simp: no_clients_def)
  with serve_accept[OF assms] serve_echo[of s p ns 0] serve_exit[OF assms, of "sum_list ns"] show ?thesis
    unfolding client_events_def run_schedule_append by simp
qed

section \<open>All the clients\<close>

text \<open>The events of a list of clients, given by their process ids, texts and counts.\<close>

definition full_session :: "reader \<Rightarrow> nat \<Rightarrow> string \<Rightarrow> nat list \<Rightarrow> bool" where
  "full_session readline m text ns \<longleftrightarrow> (\<exists>t. session_counts readline m (session_start text) ns t \<and> session_over t)"

lemma full_session_sum:
  assumes "session_ok readline m text" and "full_session readline m text ns"
  shows "sum_list ns = length text"
proof -
  obtain t where t: "session_counts readline m (session_start text) ns t" "session_over t" using assms(2) by (auto simp: full_session_def)
  have "session_reach readline m text t" using counts_steps[OF t(1)] by (rule reach_steps) (simp add: reach_init)
  then have "session_inv m text t" using session.inv_reach assms(1) by blast
  then have "counted t = length text" using t(2) by (auto simp: session_inv_def session_over_def under_way_def uncounted_def)
  then show ?thesis using counts_sum[OF t(1)] by (simp add: session_start_def)
qed

text \<open>Complete sessions exist.\<close>

lemma full_session_exists:
  assumes "session_ok readline m text" and "lines_only text"
  shows "\<exists>ns. full_session readline m text ns"
proof -
  have "session_inv m text (session_start text)" by (rule session_inv_start)
  then obtain t where "(session_step readline m)\<^sup>*\<^sup>* (session_start text) t" "session_over t"
    using finite_session.can_reach_goal[of readline m "text" "session_start text"] assms by blast
  then show ?thesis using counts_exist unfolding full_session_def by blast
qed

text \<open>
  When the server serves clients one after the other, each with a complete session over its text (which exists for every text of whole lines, \<open>full_session_exists\<close>), no assertion of the
  server fails, and the number that it prints at its end is the number of the bytes of all the texts.
\<close>

theorem echo_bytes:
  assumes "0 < n" and "\<forall>(p, tx, ns)\<in>set cs. 0 < p \<and> session_ok readline m tx \<and> full_session readline m tx ns"
  shows "\<exists>t. run_schedule serve (concat (map (\<lambda>(p, tx, ns). client_events p ns) cs)) (server_init n) = Some t \<and>
    sigint_handler t = Some (sum_list (map (\<lambda>(p, tx, ns). length tx) cs))"
proof -
  have "\<exists>t. run_schedule serve (concat (map (\<lambda>(p, tx, ns). client_events p ns) cs)) s = Some t \<and> no_clients n t \<and>
      nread t = nread s + sum_list (map (\<lambda>(p, tx, ns). length tx) cs)" if "no_clients n s" for s
    using assms(2) that
  proof (induction cs arbitrary: s)
    case (Cons c cs)
    obtain p tx ns where c: "c = (p, tx, ns)" by (cases c)
    then have "sum_list ns = length tx" "0 < p" using Cons.prems(1) full_session_sum by auto
    then obtain u where u: "run_schedule serve (client_events p ns) s = Some u" "no_clients n u" "nread u = nread s + length tx"
      using serve_client[OF Cons.prems(2) assms(1)] by metis
    from Cons.IH[OF _ u(2)] Cons.prems(1) obtain t where
      "run_schedule serve (concat (map (\<lambda>(p, tx, ns). client_events p ns) cs)) u = Some t" "no_clients n t"
      "nread t = nread u + sum_list (map (\<lambda>(p, tx, ns). length tx) cs)" by auto
    then show ?case using u c by (simp add: run_schedule_append)
  qed simp
  moreover have "no_clients n (server_init n)" by (simp add: no_clients_def server_init_def)
  ultimately obtain t where t: "run_schedule serve (concat (map (\<lambda>(p, tx, ns). client_events p ns) cs)) (server_init n) = Some t"
    "no_clients n t" "nread t = nread (server_init n) + sum_list (map (\<lambda>(p, tx, ns). length tx) cs)" by blast
  then show ?thesis by (auto simp: no_clients_def sigint_handler_def server_init_def)
qed

theorem echo_bytes_witness:
  "\<exists>ns t. run_schedule serve (client_events 42 ns) (server_init 10) = Some t \<and> sigint_handler t = Some 6"
proof -
  have ok: "session_ok example_reader 4 (''hello'' @ [newline])" "lines_only (''hello'' @ [newline])"
    by (simp_all add: session_ok_def example_reader_ok lines_only_def)
  then obtain ns where "full_session example_reader 4 (''hello'' @ [newline]) ns" using full_session_exists by blast
  then show ?thesis using echo_bytes[of 10 "[(42, ''hello'' @ [newline], ns)]" example_reader 4] ok(1) by (auto simp: numeral_eq_Suc)
qed

end
