(* ===== verification/Lookup.thy ===== *)
theory Lookup
  imports Ctext
begin

text \<open>
  Two programs that print what the system's databases say: \<open>6/so21_lista_6/id.c\<close>, the user and groups of the process, and \<open>9/so21_lista_9/hostinfo.c\<close>, the addresses of a host. The
  databases are functions and lists: \<open>getpwuid\<close> and \<open>getgrgid\<close> give a name or \<open>NULL\<close>, \<open>getgroups\<close> the supplementary
  groups, which are numbers that fit an \<open>int\<close>, \<open>getaddrinfo\<close> a list of addresses already in the numeric form of \<open>getnameinfo\<close>.
\<close>

section \<open>\<open>id.c\<close>\<close>

definition uidname :: "(nat \<Rightarrow> string option) \<Rightarrow> nat \<Rightarrow> string run" where
  "uidname getpwuid uid = (case getpwuid uid of None \<Rightarrow> Inl Null_deref | Some pw_name \<Rightarrow> Inr pw_name)"

definition gidname :: "(nat \<Rightarrow> string option) \<Rightarrow> nat \<Rightarrow> string run" where
  "gidname getgrgid gid = (case getgrgid gid of None \<Rightarrow> Inl Null_deref | Some gr_name \<Rightarrow> Inr gr_name)"

text \<open>\<open>printf ("%d(%s)", ...)\<close>\<close>

definition id_item :: "nat \<Rightarrow> string \<Rightarrow> string" where
  "id_item n name = digits n @ ''('' @ name @ '')''"

fun groups_loop :: "(nat \<Rightarrow> string option) \<Rightarrow> nat list \<Rightarrow> string \<Rightarrow> string run" where
  "groups_loop getgrgid [] out = Inr out"
| "groups_loop getgrgid (g # gs) out =
    bind_run (gidname getgrgid g) (\<lambda>n. groups_loop getgrgid gs (out @ '','' @ id_item g n))"

text \<open>The groups of a process do not change between the two calls of \<open>getgroups\<close>: the first one counts them, the second one fills an array
  of that size.\<close>

definition getid :: "nat \<Rightarrow> nat \<Rightarrow> nat list \<Rightarrow> nat \<times> nat \<times> nat list \<times> nat" where
  "getid getuid getgid getgroups =
    (let groups = length getgroups; gids = take groups getgroups in (getuid, getgid, gids, groups))"

text \<open>The first element of the array of groups is printed without a look at their number.\<close>

definition id_main :: "(nat \<Rightarrow> string option) \<Rightarrow> (nat \<Rightarrow> string option) \<Rightarrow> nat \<Rightarrow> nat \<Rightarrow> nat list \<Rightarrow> string run" where
  "id_main getpwuid getgrgid getuid getgid getgroups =
    (case getid getuid getgid getgroups of (uid, gid, gids, groups) \<Rightarrow>
      bind_run (uidname getpwuid uid) (\<lambda>u.
      bind_run (gidname getgrgid gid) (\<lambda>g.
        let out = ''uid='' @ id_item uid u @ '' gid='' @ id_item gid g @ '' ''
        in case gids of
            [] \<Rightarrow> Inl Out_of_bounds
          | g0 # gs \<Rightarrow>
              bind_run (gidname getgrgid g0) (\<lambda>n.
              bind_run (groups_loop getgrgid (take (groups - 1) gs) (out @ ''groups='' @ id_item g0 n))
                (\<lambda>out. Inr (out @ [CHR 0x0A]))))))"

section \<open>\<open>hostinfo.c\<close>\<close>

datatype ai_family = AF_INET | AF_INET6 | Other_family

fun print_addresses :: "(ai_family \<times> string \<times> string) list \<Rightarrow> string \<Rightarrow> string run" where
  "print_addresses [] out = Inr out"
| "print_addresses ((family, buf, serv) # ps) out =
    (if family = AF_INET6 then print_addresses ps (out @ ''['' @ buf @ '']:'' @ serv @ [CHR 0x0A])
     else if family = AF_INET then print_addresses ps (out @ buf @ '':'' @ serv @ [CHR 0x0A])
     else Inl Assert_fails)"

text \<open>The hints ask for addresses of any family; \<open>None\<close> is an error of \<open>getaddrinfo\<close>.\<close>

definition hostinfo_main :: "(string \<Rightarrow> string \<Rightarrow> (ai_family \<times> string \<times> string) list option) \<Rightarrow> string list \<Rightarrow> string run" where
  "hostinfo_main getaddrinfo argv =
    (if length argv \<noteq> 3 then Inl App_error
     else case getaddrinfo (argv ! 1) (argv ! 2) of None \<Rightarrow> Inl App_error | Some listp \<Rightarrow> print_addresses listp [])"

section \<open>Properties\<close>

text \<open>A list with a separator, and the line that \<open>id\<close> is to print.\<close>

fun joined :: "string \<Rightarrow> string list \<Rightarrow> string" where
  "joined sep [] = []"
| "joined sep [x] = x"
| "joined sep (x # y # zs) = x @ sep @ joined sep (y # zs)"

definition id_line :: "(nat \<Rightarrow> string option) \<Rightarrow> (nat \<Rightarrow> string option) \<Rightarrow> nat \<Rightarrow> nat \<Rightarrow> nat list \<Rightarrow> string" where
  "id_line getpwuid getgrgid uid gid gids =
    ''uid='' @ id_item uid (the (getpwuid uid)) @ '' gid='' @ id_item gid (the (getgrgid gid)) @
    '' groups='' @ joined '','' (map (\<lambda>g. id_item g (the (getgrgid g))) gids) @ [CHR 0x0A]"

lemma gidname_simps: "getgrgid g \<noteq> None \<Longrightarrow> gidname getgrgid g = Inr (the (getgrgid g))" "getgrgid g = None \<Longrightarrow> gidname getgrgid g = Inl Null_deref"
  by (auto simp: gidname_def)

lemma groups_loop_named:
  "\<forall>g\<in>set gs. getgrgid g \<noteq> None \<Longrightarrow>
    groups_loop getgrgid gs (out @ x) = Inr (out @ joined '','' (x # map (\<lambda>g. id_item g (the (getgrgid g))) gs))"
proof (induction gs arbitrary: out x)
  case (Cons g gs)
  let ?i = "id_item g (the (getgrgid g))"
  have "groups_loop getgrgid gs ((out @ x @ '','') @ ?i) =
      Inr ((out @ x @ '','') @ joined '','' (?i # map (\<lambda>g. id_item g (the (getgrgid g))) gs))"
    using Cons.prems by (intro Cons.IH) simp
  then show ?case using Cons.prems by (simp add: gidname_simps)
qed simp

lemma groups_loop_unnamed: "\<exists>g\<in>set gs. getgrgid g = None \<Longrightarrow> groups_loop getgrgid gs out = Inl Null_deref"
proof (induction gs arbitrary: out)
  case (Cons g gs)
  then show ?case by (cases "getgrgid g") (auto simp: gidname_def)
qed simp

text \<open>
  \<open>id\<close> prints the line, with all the groups in order, when all the names are known and the process has a supplementary group; a process without one makes it read
  behind the array, and an unknown user or group makes it follow a null pointer.
\<close>

theorem id_ok:
  "id_main getpwuid getgrgid uid gid gids =
    (if getpwuid uid = None \<or> getgrgid gid = None then Inl Null_deref
     else if gids = [] then Inl Out_of_bounds
     else if \<exists>g\<in>set gids. getgrgid g = None then Inl Null_deref
     else Inr (id_line getpwuid getgrgid uid gid gids))"
proof (cases "getpwuid uid = None \<or> getgrgid gid = None \<or> gids = []")
  case True
  then show ?thesis by (cases "getpwuid uid"; cases "getgrgid gid") (auto simp: id_main_def getid_def uidname_def gidname_def)
next
  case False
  then obtain g gs where gids: "gids = g # gs" by (cases gids) auto
  show ?thesis
  proof (cases "\<exists>g\<in>set gids. getgrgid g = None")
    case True
    then show ?thesis using False gids groups_loop_unnamed[of gs getgrgid]
      by (cases "getgrgid g") (auto simp: id_main_def getid_def uidname_def gidname_simps)
  next
    case all: False
    let ?out = "''uid='' @ id_item uid (the (getpwuid uid)) @ '' gid='' @ id_item gid (the (getgrgid gid)) @ '' groups=''"
    have "groups_loop getgrgid gs (?out @ id_item g (the (getgrgid g))) =
        Inr (?out @ joined '','' (map (\<lambda>g. id_item g (the (getgrgid g))) gids))"
      using groups_loop_named[of gs getgrgid ?out "id_item g (the (getgrgid g))"] all gids by simp
    then show ?thesis using False all gids by (auto simp: id_main_def getid_def id_line_def uidname_def gidname_simps)
  qed
qed

text \<open>
  \<open>hostinfo\<close> prints all the addresses in order, those of version 6 in brackets, and stops at an address that is of neither family.
\<close>

theorem hostinfo_ok:
  "hostinfo_main getaddrinfo [prog, host, service] =
    (case getaddrinfo host service of
       None \<Rightarrow> Inl App_error
     | Some ps \<Rightarrow>
         if \<exists>p\<in>set ps. fst p = Other_family then Inl Assert_fails
         else Inr (concat (map (\<lambda>(family, buf, serv).
           (if family = AF_INET6 then ''['' @ buf @ '']'' else buf) @ '':'' @ serv @ [CHR 0x0A]) ps)))"
proof -
  have "print_addresses ps out =
      (if \<exists>p\<in>set ps. fst p = Other_family then Inl Assert_fails
       else Inr (out @ concat (map (\<lambda>(family, buf, serv).
         (if family = AF_INET6 then ''['' @ buf @ '']'' else buf) @ '':'' @ serv @ [CHR 0x0A]) ps)))" for ps out
    by (induction ps out rule: print_addresses.induct) (auto, (metis ai_family.exhaust)+)
  then show ?thesis by (simp add: hostinfo_main_def split: option.split)
qed

end
