(* ===== verification/Boardlock.thy ===== *)
theory Boardlock
  imports Queens Conc
begin

text \<open>
  The end of \<open>1/het.c\<close>: the leaves of the tree of processes write their boards, piece by piece, to one open file, whose position they
  share, and each takes the lock of \<open>lockf\<close> before and gives it back after. A lock reaches from the position at which it
  is taken to the end of all files; it is given back from the position that has been reached by then, so that the part that was written stays locked until the file is closed.
  The file is opened without \<open>O_TRUNC\<close>: \<open>old\<close> is what it holds before. One \<open>dprintf\<close> is one write.
\<close>

section \<open>The program\<close>

datatype place = Trying | Writing "string list" | Closing | Exited

record outfile =
  contents_of :: string
  pos :: nat
  held :: "nat \<Rightarrow> (nat \<times> nat option) option"
  at_place :: "nat \<Rightarrow> place"

text \<open>The writes of \<open>print_board\<close>.\<close>

definition sep_pieces :: "nat \<Rightarrow> string list" where
  "sep_pieces sz = replicate sz ''+---'' @ [''+'' @ [CHR 0x0A]]"

definition row_pieces :: "nat \<Rightarrow> int \<Rightarrow> string list" where
  "row_pieces sz q = map (\<lambda>j. ''|'' @ (if q = int j then '' Q '' else ''   '')) [0..<sz] @ [''|'' @ [CHR 0x0A]]"

definition board_pieces :: "nat \<Rightarrow> board \<Rightarrow> string list" where
  "board_pieces sz board =
    concat (map (\<lambda>i. sep_pieces sz @ row_pieces sz (board ! i)) [0..<sz]) @ sep_pieces sz @ [[CHR 0x0A]]"

definition dprintf :: "string \<Rightarrow> outfile \<Rightarrow> outfile" where
  "dprintf p s = s\<lparr>contents_of := take (pos s) (contents_of s) @ p @ drop (pos s + length p) (contents_of s), pos := pos s + length p\<rparr>"

text \<open>A process has no lock on a byte at or behind the position; \<open>lockf\<close> fails when one of the others has.\<close>

definition no_lock_behind :: "outfile \<Rightarrow> nat \<Rightarrow> bool" where
  "no_lock_behind s j \<longleftrightarrow> (case held s j of None \<Rightarrow> True | Some (a, None) \<Rightarrow> False | Some (a, Some b) \<Rightarrow> b \<le> pos s)"

definition excluded :: "nat \<Rightarrow> nat \<Rightarrow> outfile \<Rightarrow> bool" where
  "excluded n i s \<longleftrightarrow> list_ex (\<lambda>j. j \<noteq> i \<and> \<not> no_lock_behind s j) [0..<n]"

text \<open>A step of process \<open>i\<close> of \<open>n\<close>, which has the pieces \<open>ps\<close> to write.\<close>

definition write_step :: "nat \<Rightarrow> string list \<Rightarrow> nat \<Rightarrow> outfile \<Rightarrow> outfile option" where
  "write_step n ps i s =
    (case at_place s i of
       Trying \<Rightarrow>
         Some (if excluded n i s then s
           else s\<lparr>held := (held s)(i := Some (pos s, None)), at_place := (at_place s)(i := Writing ps)\<rparr>)
     | Writing (p # qs) \<Rightarrow> Some ((dprintf p s)\<lparr>at_place := (at_place s)(i := Writing qs)\<rparr>)
     | Writing [] \<Rightarrow>
         Some (s\<lparr>held := (held s)(i := map_option (\<lambda>(a, b). (a, Some (pos s))) (held s i)), at_place := (at_place s)(i := Closing)\<rparr>)
     | Closing \<Rightarrow> Some (s\<lparr>held := (held s)(i := None), at_place := (at_place s)(i := Exited)\<rparr>)
     | Exited \<Rightarrow> None)"

definition write_start :: "string \<Rightarrow> outfile" where
  "write_start old = \<lparr>contents_of = old, pos = 0, held = (\<lambda>_. None), at_place = (\<lambda>_. Trying)\<rparr>"

text \<open>Writers with any texts, in pieces.\<close>

definition writers_step :: "string list list \<Rightarrow> outfile \<Rightarrow> outfile \<Rightarrow> bool" where
  "writers_step texts = interleaved (length texts) (\<lambda>i. write_step (length texts) (texts ! i) i)"

abbreviation writers_reach :: "string list list \<Rightarrow> string \<Rightarrow> outfile \<Rightarrow> bool" where
  "writers_reach texts old \<equiv> reach (\<lambda>s. s = write_start old) (writers_step texts)"

lemma concat_board_pieces: "concat (board_pieces sz board) = print_board sz board"
proof -
  have "concat (replicate n xs @ ys) = concat (replicate n xs) @ concat ys" for n and xs :: string and ys by simp
  moreover have "concat (concat (map (\<lambda>i. sep_pieces sz @ row_pieces sz (board ! i)) is)) =
      concat (map (\<lambda>i. print_line_sep sz @ print_row sz (board ! i)) is)" for "is"
    by (induction "is") (simp_all add: sep_pieces_def row_pieces_def print_line_sep_def print_row_def)
  ultimately show ?thesis by (simp add: board_pieces_def print_board_def sep_pieces_def print_line_sep_def)
qed

section \<open>One writer at a time\<close>

text \<open>\<open>ws\<close>: the writers that are done, in the order of their locks.\<close>

definition text_of :: "string list list \<Rightarrow> nat list \<Rightarrow> string" where
  "text_of texts ws = concat (map (\<lambda>w. concat (texts ! w)) ws)"

definition written :: "string \<Rightarrow> string \<Rightarrow> outfile \<Rightarrow> bool" where
  "written old t s \<longleftrightarrow> pos s = length t \<and> contents_of s = t @ drop (length t) old"

definition resting :: "nat list \<Rightarrow> outfile \<Rightarrow> nat \<Rightarrow> bool" where
  "resting ws s j \<longleftrightarrow>
     (if j \<in> set ws then at_place s j = Closing \<or> at_place s j = Exited else at_place s j = Trying) \<and> no_lock_behind s j"

definition idle_inv :: "string list list \<Rightarrow> string \<Rightarrow> nat list \<Rightarrow> outfile \<Rightarrow> bool" where
  "idle_inv texts old ws s \<longleftrightarrow>
     distinct ws \<and> set ws \<subseteq> {..<length texts} \<and> written old (text_of texts ws) s \<and>
     (\<forall>j<length texts. resting ws s j)"

definition busy_inv :: "string list list \<Rightarrow> string \<Rightarrow> nat list \<Rightarrow> nat \<Rightarrow> string list \<Rightarrow> outfile \<Rightarrow> bool" where
  "busy_inv texts old ws i ps s \<longleftrightarrow>
     distinct ws \<and> set ws \<subseteq> {..<length texts} \<and> i < length texts \<and> i \<notin> set ws \<and>
     (\<exists>qs. texts ! i = qs @ ps \<and> written old (text_of texts ws @ concat qs) s) \<and>
     at_place s i = Writing ps \<and> (\<exists>a. held s i = Some (a, None)) \<and>
     (\<forall>j<length texts. j \<noteq> i \<longrightarrow> resting ws s j)"

definition writers_inv :: "string list list \<Rightarrow> string \<Rightarrow> outfile \<Rightarrow> bool" where
  "writers_inv texts old s \<longleftrightarrow> (\<exists>ws. idle_inv texts old ws s) \<or> (\<exists>ws i ps. busy_inv texts old ws i ps s)"

lemma text_of_snoc: "text_of texts (ws @ [w]) = text_of texts ws @ concat (texts ! w)"
  by (simp add: text_of_def)

lemma excluded_iff: "excluded n i s \<longleftrightarrow> (\<exists>j<n. j \<noteq> i \<and> \<not> no_lock_behind s j)"
  by (auto simp: excluded_def list_ex_iff)

lemma written_dprintf: "written old t s \<Longrightarrow> written old (t @ p) (dprintf p s)"
  by (simp add: written_def dprintf_def add.commute)

lemma written_cong: "contents_of t = contents_of s \<Longrightarrow> pos t = pos s \<Longrightarrow> written old x t = written old x s"
  by (simp add: written_def)

lemma resting_simps:
  "resting ws s j \<Longrightarrow> no_lock_behind s j"
  "resting ws s j \<Longrightarrow> j \<in> set ws \<Longrightarrow> at_place s j = Closing \<or> at_place s j = Exited"
  "resting ws s j \<Longrightarrow> j \<notin> set ws \<Longrightarrow> at_place s j = Trying"
  by (simp_all add: resting_def)

lemma no_lock_mono: "no_lock_behind s j \<Longrightarrow> held t j = held s j \<Longrightarrow> pos s \<le> pos t \<Longrightarrow> no_lock_behind t j"
  by (auto simp: no_lock_behind_def split: option.splits prod.splits)

lemma resting_mono:
  "resting ws s j \<Longrightarrow> held t j = held s j \<Longrightarrow> at_place t j = at_place s j \<Longrightarrow> pos s \<le> pos t \<Longrightarrow> resting ws t j"
  using no_lock_mono[of s j t] by (simp add: resting_def)

text \<open>A writer that is done closes the file.\<close>

lemma closing_step:
  assumes "resting ws s i" and "i \<in> set ws" and "write_step n ps i s = Some t"
  shows "contents_of t = contents_of s \<and> pos t = pos s \<and> (\<forall>j. j \<noteq> i \<longrightarrow> held t j = held s j \<and> at_place t j = at_place s j) \<and> resting ws t i"
proof -
  have "at_place s i = Closing" using resting_simps(2)[OF assms(1,2)] assms(3) by (auto simp: write_step_def)
  then have "t = s\<lparr>held := (held s)(i := None), at_place := (at_place s)(i := Exited)\<rparr>" using assms(3) by (simp add: write_step_def)
  then show ?thesis using assms(2) by (simp add: resting_def no_lock_behind_def)
qed

lemma idle_step:
  assumes "idle_inv texts old ws s" and "i < length texts" and "write_step (length texts) (texts ! i) i s = Some t"
  shows "writers_inv texts old t"
proof (cases "i \<in> set ws")
  case True
  have "resting ws s i" using assms(1,2) by (simp add: idle_inv_def)
  note c = closing_step[OF this True assms(3)]
  have "resting ws t j" if "j < length texts" for j
    using c assms(1) that resting_mono[of ws s j t] by (cases "j = i") (auto simp: idle_inv_def)
  then have "idle_inv texts old ws t" using assms(1) c by (simp add: idle_inv_def written_def)
  then show ?thesis unfolding writers_inv_def by blast
next
  case False
  have "at_place s i = Trying" using assms(1,2) resting_simps(3)[OF _ False] by (simp add: idle_inv_def)
  moreover have "\<not> excluded (length texts) i s" using assms(1) resting_simps(1) by (auto simp: idle_inv_def excluded_iff)
  ultimately have t: "t = s\<lparr>held := (held s)(i := Some (pos s, None)), at_place := (at_place s)(i := Writing (texts ! i))\<rparr>"
    using assms(3) by (simp add: write_step_def)
  have "resting ws t j" if "j < length texts" "j \<noteq> i" for j
    using assms(1) that resting_mono[of ws s j t] by (simp add: t idle_inv_def)
  then have "busy_inv texts old ws i (texts ! i) t" using assms(1,2) False by (simp add: t idle_inv_def busy_inv_def written_def)
  then show ?thesis unfolding writers_inv_def by blast
qed

lemma dprintf_simps [simp]:
  "held (dprintf p s) = held s" "at_place (dprintf p s) = at_place s" "pos (dprintf p s) = pos s + length p"
  by (simp_all add: dprintf_def)

text \<open>The writer goes on.\<close>

lemma busy_writer_step:
  assumes "busy_inv texts old ws i ps s" and "write_step n (texts ! i) i s = Some t"
  shows "(\<exists>p qs. ps = p # qs \<and> busy_inv texts old ws i qs t) \<or> ps = [] \<and> idle_inv texts old (ws @ [i]) t"
proof -
  have at: "at_place s i = Writing ps" using assms(1) by (simp add: busy_inv_def)
  obtain qs where qs: "texts ! i = qs @ ps" "written old (text_of texts ws @ concat qs) s" using assms(1) by (auto simp: busy_inv_def)
  have rest: "resting ws s j" if "j < length texts" "j \<noteq> i" for j using assms(1) that by (simp add: busy_inv_def)
  show ?thesis
  proof (cases ps)
    case (Cons p rest)
    then have t: "t = (dprintf p s)\<lparr>at_place := (at_place s)(i := Writing rest)\<rparr>" using at assms(2) by (simp add: write_step_def)
    have "written old ((text_of texts ws @ concat qs) @ p) t"
      using written_dprintf[OF qs(2), of p] unfolding t by (simp add: written_def)
    then have "\<exists>qs. texts ! i = qs @ rest \<and> written old (text_of texts ws @ concat qs) t"
      using qs(1) Cons by (intro exI[of _ "qs @ [p]"]) simp
    moreover have "resting ws t j" if "j < length texts" "j \<noteq> i" for j
      using rest[OF that] that(2) by (intro resting_mono[of ws s j t]) (simp_all add: t)
    ultimately have "busy_inv texts old ws i rest t" using assms(1) by (simp add: busy_inv_def t)
    then show ?thesis using Cons by blast
  next
    case Nil
    obtain a where a: "held s i = Some (a, None)" using assms(1) by (auto simp: busy_inv_def)
    then have t: "t = s\<lparr>held := (held s)(i := Some (a, Some (pos s))), at_place := (at_place s)(i := Closing)\<rparr>"
      using at assms(2) Nil by (simp add: write_step_def)
    have "resting (ws @ [i]) t j" if "j < length texts" for j
    proof (cases "j = i")
      case True
      then show ?thesis by (simp add: t resting_def no_lock_behind_def)
    next
      case False
      then have "resting ws t j" using rest[OF that False] by (intro resting_mono[of ws s j t]) (simp_all add: t)
      then show ?thesis using False by (simp add: resting_def)
    qed
    moreover have "written old (text_of texts (ws @ [i])) t" using qs Nil unfolding t by (simp add: written_def text_of_snoc)
    ultimately have "idle_inv texts old (ws @ [i]) t" using assms(1) by (simp add: busy_inv_def idle_inv_def)
    then show ?thesis using Nil by blast
  qed
qed

text \<open>The others only close the file, or find the lock taken.\<close>

lemma busy_other_step:
  assumes "busy_inv texts old ws i ps s" and "j \<noteq> i" and "j < length texts" and "write_step (length texts) (texts ! j) j s = Some t"
  shows "busy_inv texts old ws i ps t"
proof (cases "j \<in> set ws")
  case True
  have r: "resting ws s k" if "k < length texts" "k \<noteq> i" for k using assms(1) that by (simp add: busy_inv_def)
  note c = closing_step[OF r[OF assms(3,2)] True assms(4)]
  have "resting ws t k" if "k < length texts" "k \<noteq> i" for k
    using c r[OF that] resting_mono[of ws s k t] by (cases "k = j") auto
  then show ?thesis using assms(1,2) c by (simp add: busy_inv_def written_def)
next
  case False
  have "at_place s j = Trying" using assms(1-3) resting_simps(3)[OF _ False] by (simp add: busy_inv_def)
  moreover have "excluded (length texts) j s" using assms(1,2) by (auto simp: busy_inv_def excluded_iff no_lock_behind_def)
  ultimately show ?thesis using assms(1,4) by (simp add: write_step_def)
qed

lemma writers_inv_cases:
  "idle_inv texts old ws s \<Longrightarrow> writers_inv texts old s" "busy_inv texts old ws i ps s \<Longrightarrow> writers_inv texts old s"
  unfolding writers_inv_def by blast+

lemma writers_inv_step:
  assumes "writers_step texts s t" and "writers_inv texts old s"
  shows "writers_inv texts old t"
proof -
  obtain i where i: "i < length texts" "write_step (length texts) (texts ! i) i s = Some t"
    using assms(1) by (auto simp: writers_step_def interleaved_def)
  from assms(2) consider ws where "idle_inv texts old ws s" | ws k ps where "busy_inv texts old ws k ps s"
    unfolding writers_inv_def by blast
  then show ?thesis
  proof cases
    case 1
    then show ?thesis using idle_step[OF _ i] by blast
  next
    case b: (2 ws k ps)
    show ?thesis
    proof (cases "i = k")
      case True
      show ?thesis using busy_writer_step[OF b i(2)[unfolded True]] writers_inv_cases by blast
    next
      case False
      show ?thesis using busy_other_step[OF b False i] writers_inv_cases by blast
    qed
  qed
qed

lemma writers_inv_start: "writers_inv texts old (write_start old)"
proof -
  have "idle_inv texts old [] (write_start old)"
    by (simp add: idle_inv_def write_start_def written_def text_of_def resting_def no_lock_behind_def)
  then show ?thesis unfolding writers_inv_def by blast
qed

section \<open>All the writers end\<close>

definition all_exited :: "string list list \<Rightarrow> outfile \<Rightarrow> bool" where
  "all_exited texts s \<longleftrightarrow> (\<forall>i<length texts. at_place s i = Exited)"

definition place_work :: "nat \<Rightarrow> place \<Rightarrow> nat" where
  "place_work m p = (case p of Trying \<Rightarrow> m + 3 | Writing ps \<Rightarrow> length ps + 2 | Closing \<Rightarrow> 1 | Exited \<Rightarrow> 0)"

definition pieces_bound :: "string list list \<Rightarrow> nat" where
  "pieces_bound texts = sum_list (map length texts)"

definition writers_work :: "string list list \<Rightarrow> outfile \<Rightarrow> nat" where
  "writers_work texts s = sum_pcs (length texts) (place_work (pieces_bound texts)) (at_place s)"

lemma pieces_bound: "i < length texts \<Longrightarrow> length (texts ! i) \<le> pieces_bound texts"
  unfolding pieces_bound_def by (intro member_le_sum_list) auto

lemma writers_work_less:
  assumes "i < length texts" and "write_step n (texts ! i) i s = Some t" and "at_place s i = Trying \<Longrightarrow> \<not> excluded n i s"
  shows "writers_work texts t < writers_work texts s"
proof -
  have "\<exists>p. at_place t = (at_place s)(i := p) \<and> place_work (pieces_bound texts) p < place_work (pieces_bound texts) (at_place s i)"
    using assms pieces_bound[OF assms(1)]
    by (auto simp: write_step_def place_work_def split: place.splits list.splits)
  then obtain p where p: "at_place t = (at_place s)(i := p)"
    "place_work (pieces_bound texts) p < place_work (pieces_bound texts) (at_place s i)" by blast
  then show ?thesis using sum_pcs_upd[OF assms(1), of "place_work (pieces_bound texts)" "at_place s" p]
    unfolding writers_work_def p(1) by linarith
qed

lemma writers_closer:
  assumes "writers_inv texts old s" and "\<not> all_exited texts s"
  shows "\<exists>t. writers_step texts s t \<and> writers_work texts t < writers_work texts s"
proof -
  let ?n = "length texts"
  have go: ?thesis if i: "i < ?n" "at_place s i \<noteq> Exited" "at_place s i = Trying \<Longrightarrow> \<not> excluded ?n i s" for i
  proof -
    have "write_step ?n (texts ! i) i s \<noteq> None" using i(2) by (auto simp: write_step_def split: place.splits list.splits)
    then obtain t where t: "write_step ?n (texts ! i) i s = Some t" by blast
    then have "writers_step texts s t" using i(1) by (auto simp: writers_step_def interleaved_def)
    then show ?thesis using writers_work_less[OF i(1) t i(3)] by blast
  qed
  obtain i where i: "i < ?n" "at_place s i \<noteq> Exited" using assms(2) by (auto simp: all_exited_def)
  from assms(1) consider ws where "idle_inv texts old ws s" | ws k ps where "busy_inv texts old ws k ps s"
    unfolding writers_inv_def by blast
  then show ?thesis
  proof cases
    case 1
    then have "\<not> excluded ?n i s" using resting_simps(1) by (auto simp: idle_inv_def excluded_iff)
    then show ?thesis using go[OF i] by blast
  next
    case (2 ws k ps)
    then show ?thesis using go[of k] by (simp add: busy_inv_def)
  qed
qed

interpretation writers: converging_system "\<lambda>s. s = write_start old" "writers_step texts" "writers_inv texts old"
    "all_exited texts" "writers_work texts"
  by unfold_locales (use writers_inv_start writers_inv_step writers_closer in blast)+

section \<open>Properties\<close>

lemma resting_not_writing: "resting ws s j \<Longrightarrow> at_place s j \<noteq> Writing ps"
  by (auto simp: resting_def split: if_splits)

lemma exited_file:
  assumes "writers_inv texts old s" and "all_exited texts s"
  shows "\<exists>order. distinct order \<and> set order = {..<length texts} \<and>
    contents_of s = text_of texts order @ drop (length (text_of texts order)) old"
proof -
  from assms(1) consider ws where "idle_inv texts old ws s" | ws k ps where "busy_inv texts old ws k ps s"
    unfolding writers_inv_def by blast
  then show ?thesis
  proof cases
    case (1 ws)
    then have "j \<in> set ws" if "j < length texts" for j
      using that assms(2) resting_simps(3)[of ws s j] by (auto simp: idle_inv_def all_exited_def)
    then have "set ws = {..<length texts}" using 1 by (auto simp: idle_inv_def)
    then show ?thesis using 1 by (auto simp: idle_inv_def written_def)
  next
    case (2 ws k ps)
    then show ?thesis using assms(2) by (auto simp: busy_inv_def all_exited_def)
  qed
qed

text \<open>
  At every moment at most one process writes; the writers can always come to their end, and then
  the file holds the texts of all of them, each whole and once, in some order, and behind them what it held there before.
\<close>

theorem whole_texts:
  assumes "writers_reach texts old s"
  shows "(\<forall>i<length texts. \<forall>j<length texts. \<forall>ps qs. at_place s i = Writing ps \<and> at_place s j = Writing qs \<longrightarrow> i = j) \<and>
    (\<exists>t. (writers_step texts)\<^sup>*\<^sup>* s t \<and> all_exited texts t) \<and>
    (all_exited texts s \<longrightarrow>
      (\<exists>order. distinct order \<and> set order = {..<length texts} \<and>
         contents_of s = text_of texts order @ drop (length (text_of texts order)) old))"
proof (intro conjI)
  have inv: "writers_inv texts old s" by (rule writers.inv_reach[OF assms])
  then consider ws where "idle_inv texts old ws s" | ws k ps where "busy_inv texts old ws k ps s" unfolding writers_inv_def by blast
  then show "\<forall>i<length texts. \<forall>j<length texts. \<forall>ps qs. at_place s i = Writing ps \<and> at_place s j = Writing qs \<longrightarrow> i = j"
  proof cases
    case 1
    then show ?thesis using resting_not_writing unfolding idle_inv_def by blast
  next
    case (2 ws k ps)
    then have "i = k" if "i < length texts" "at_place s i = Writing ps'" for i ps'
      using that resting_not_writing unfolding busy_inv_def by blast
    then show ?thesis by blast
  qed
  show "all_exited texts s \<longrightarrow> (\<exists>order. distinct order \<and> set order = {..<length texts} \<and>
      contents_of s = text_of texts order @ drop (length (text_of texts order)) old)"
    using exited_file[OF inv] by blast
qed (rule writers.reachable_can_reach_goal[OF assms])

lemma text_of_boards:
  assumes "distinct order" and "set order = {..<length boards}"
  shows "\<exists>os. mset os = mset boards \<and> text_of (map (board_pieces n) boards) order = concat (map (print_board n) os)"
proof (intro exI conjI)
  have "set order = set [0..<length boards]" by (simp only: assms(2) set_upt atLeast0LessThan)
  then have "mset order = mset [0..<length boards]"
    using set_eq_iff_mset_eq_distinct[OF assms(1) distinct_upt[of 0 "length boards"]] by blast
  then have "mset (map ((!) boards) order) = mset (map ((!) boards) [0..<length boards])" by (simp only: mset_map)
  then show "mset (map ((!) boards) order) = mset boards" by (simp only: map_nth)
  have "concat (map (board_pieces n) boards ! w) = print_board n (boards ! w)" if "w \<in> set order" for w
    using that assms(2) by (simp add: concat_board_pieces)
  then have "map (\<lambda>w. concat (map (board_pieces n) boards ! w)) order = map (\<lambda>w. print_board n (boards ! w)) order" by simp
  then show "text_of (map (board_pieces n) boards) order = concat (map (print_board n) (map ((!) boards) order))"
    unfolding text_of_def by (simp only: map_map o_def)
qed

text \<open>
  C36: the leaves of \<open>het\<close> leave the boards of all the solutions in a file that was empty, each whole and once, in some order, and they can always come to
  that; a longer file from an earlier run keeps its end.
\<close>

theorem het_writes:
  assumes "het_boards sz = Inr boards" and "texts = map (board_pieces (nat sz)) boards" and "writers_reach texts old s"
  shows "(\<exists>t. (writers_step texts)\<^sup>*\<^sup>* s t \<and> all_exited texts t) \<and>
    (all_exited texts s \<longrightarrow> (\<exists>file. het_file sz file \<and> contents_of s = file @ drop (length file) old))"
proof (intro conjI impI)
  assume "all_exited texts s"
  then obtain order where o: "distinct order" "set order = {..<length boards}"
    "contents_of s = text_of texts order @ drop (length (text_of texts order)) old"
    using exited_file[OF writers.inv_reach[OF assms(3)]] assms(2) by auto
  then obtain os where "mset os = mset boards" "text_of texts order = concat (map (print_board (nat sz)) os)"
    using text_of_boards[OF o(1,2)] assms(2) by blast
  then have "het_file sz (text_of texts order)" using assms(1) by (auto simp: het_file_def)
  then show "\<exists>file. het_file sz file \<and> contents_of s = file @ drop (length file) old" using o(3) by blast
qed (rule writers.reachable_can_reach_goal[OF assms(3)])

lemma whole_texts_witness: "\<exists>t. (writers_step [[''a'', ''b''], [''c'']])\<^sup>*\<^sup>* (write_start ''old'') t \<and> all_exited [[''a'', ''b''], [''c'']] t"
  using whole_texts[where texts = "[[''a'', ''b''], [''c'']]" and old = "''old''" and s = "write_start ''old''"] by (simp add: reach_init)

lemma het_writes_witness:
  "\<exists>boards t. het_boards 4 = Inr boards \<and> (writers_step (map (board_pieces 4) boards))\<^sup>*\<^sup>* (write_start []) t \<and>
     all_exited (map (board_pieces 4) boards) t"
proof -
  obtain boards where b: "het_boards 4 = Inr boards" by (auto simp: het_boards_def Let_def)
  have "writers_reach (map (board_pieces (nat 4)) boards) [] (write_start [])" by (rule reach_init) (rule refl)
  from het_writes[OF b refl this] b show ?thesis by auto
qed

end
