(* ===== verification/Orphan.thy ===== *)
theory Orphan
  imports Conc
begin

text \<open>
  The orphan of \<open>1/2.c\<close>: a child prints its parent, sleeps, and prints it again; the parent prints something and exits. The sleep is to let the parent end first; in the model the two
  take turns in any order. \<open>p\<close> is the process id of the parent, \<open>r\<close> that of the process that gets its orphans.
\<close>

datatype child_pc = First_print | Second_print | Gone

record orphan =
  parent_runs :: bool
  child_at :: child_pc
  said :: "nat list"

definition getppid :: "nat \<Rightarrow> nat \<Rightarrow> orphan \<Rightarrow> nat" where
  "getppid p r s = (if parent_runs s then p else r)"

definition orphan_child :: "nat \<Rightarrow> nat \<Rightarrow> orphan \<Rightarrow> orphan option" where
  "orphan_child p r s =
    (case child_at s of
       First_print \<Rightarrow> Some (s\<lparr>said := said s @ [getppid p r s], child_at := Second_print\<rparr>)
     | Second_print \<Rightarrow> Some (s\<lparr>said := said s @ [getppid p r s], child_at := Gone\<rparr>)
     | Gone \<Rightarrow> None)"

definition orphan_parent :: "orphan \<Rightarrow> orphan option" where
  "orphan_parent s = (if parent_runs s then Some (s\<lparr>parent_runs := False\<rparr>) else None)"

text \<open>\<open>main\<close>, after a \<open>fork\<close> that does not fail.\<close>

definition orphan_main :: orphan where
  "orphan_main = \<lparr>parent_runs = True, child_at = First_print, said = []\<rparr>"

definition orphan_step :: "nat \<Rightarrow> nat \<Rightarrow> orphan \<Rightarrow> orphan \<Rightarrow> bool" where
  "orphan_step p r = interleaved 2 (\<lambda>i. if i = 0 then orphan_parent else orphan_child p r)"

definition orphan_inv :: "nat \<Rightarrow> nat \<Rightarrow> orphan \<Rightarrow> bool" where
  "orphan_inv p r s \<longleftrightarrow>
     (case child_at s of
        First_print \<Rightarrow> said s = []
      | Second_print \<Rightarrow> said s = [p] \<or> said s = [r] \<and> \<not> parent_runs s
      | Gone \<Rightarrow> said s = [p, p] \<or> said s \<in> {[p, r], [r, r]} \<and> \<not> parent_runs s)"

interpretation orphan: safe_system "\<lambda>s. s = orphan_main" "orphan_step p r" "orphan_inv p r"
proof unfold_locales
  show "orphan_inv p r s" if "s = orphan_main" for s using that by (simp add: orphan_inv_def orphan_main_def)
  show "orphan_inv p r t" if st: "orphan_step p r s t" "orphan_inv p r s" for s t
  proof -
    have "orphan_parent s = Some t \<or> orphan_child p r s = Some t"
      using st(1) by (auto simp: orphan_step_def interleaved_def split: if_splits)
    then show ?thesis using st(2)
      by (elim disjE) (auto simp: orphan_inv_def orphan_parent_def orphan_child_def getppid_def split: child_pc.splits if_splits)
  qed
qed

text \<open>
  Once the child has seen its new parent it sees it again, and it can tell of the old parent only when the parent still ran at that moment; all three outcomes
  occur, also the one in which the child says that its parent has died and names it.
\<close>

theorem orphan_says:
  assumes "p \<noteq> r"
  shows "(\<exists>s. reach (\<lambda>s. s = orphan_main) (orphan_step p r) s \<and> child_at s = Gone \<and> said s = xs) \<longleftrightarrow> xs \<in> {[p, p], [p, r], [r, r]}"
proof
  assume "\<exists>s. reach (\<lambda>s. s = orphan_main) (orphan_step p r) s \<and> child_at s = Gone \<and> said s = xs"
  then show "xs \<in> {[p, p], [p, r], [r, r]}" using orphan.inv_reach[of p r] by (fastforce simp: orphan_inv_def)
next
  have run: "\<exists>s. reach (\<lambda>s. s = orphan_main) (orphan_step p r) s \<and> child_at s = Gone \<and> said s = ys"
    if "run_schedule (\<lambda>i. if i = 0 then orphan_parent else orphan_child p r) is orphan_main = Some s" "\<forall>i\<in>set is. i < (2 :: nat)"
      "child_at s = Gone" "said s = ys" for "is" :: "nat list" and s ys
    using run_schedule_steps[OF that(1,2)] that(3,4) reach_steps[of _ orphan_main s "\<lambda>s. s = orphan_main"]
    by (auto simp: orphan_step_def intro: reach_init)
  assume "xs \<in> {[p, p], [p, r], [r, r]}"
  then consider "xs = [p, p]" | "xs = [p, r]" | "xs = [r, r]" by blast
  then show "\<exists>s. reach (\<lambda>s. s = orphan_main) (orphan_step p r) s \<and> child_at s = Gone \<and> said s = xs"
  proof cases
    case 1
    then show ?thesis by (intro run[of "[1, 1]" "\<lparr>parent_runs = True, child_at = Gone, said = [p, p]\<rparr>"]) (simp_all add: orphan_main_def orphan_child_def getppid_def)
  next
    case 2
    then show ?thesis by (intro run[of "[1, 0, 1]" "\<lparr>parent_runs = False, child_at = Gone, said = [p, r]\<rparr>"]) (simp_all add: orphan_main_def orphan_parent_def orphan_child_def getppid_def)
  next
    case 3
    then show ?thesis by (intro run[of "[0, 1, 1]" "\<lparr>parent_runs = False, child_at = Gone, said = [r, r]\<rparr>"]) (simp_all add: orphan_main_def orphan_parent_def orphan_child_def getppid_def)
  qed
qed

theorem orphan_says_witness:
  "\<exists>s. reach (\<lambda>s. s = orphan_main) (orphan_step 7 1) s \<and> child_at s = Gone \<and> said s = [7, 7]"
  using orphan_says[of 7 1 "[7, 7]"] by simp

end
