(* ===== verification/Echoclients.thy ===== *)
theory Echoclients
  imports Echosystem
begin

text \<open>
  The echo server with any number of clients at the same time: the server of \<open>Echo\<close>, and for each connection the session of \<open>Echoline\<close> between the client
  and its child of the server. The steps of the server, its children and the clients interleave in any order; a line that a child has echoed is counted in its entry of the
  table by a step of its own. Process ids are used again after their children are reaped.
\<close>

section \<open>The system\<close>

text \<open>A connection: its child, the input of its client, its session, and whether the child has not ended. All connections ever made are kept, in order.\<close>

record connection =
  cpid :: int
  ctext :: string
  talk :: session
  running :: bool

record system =
  srv :: server
  conns :: "connection list"

datatype action = Connect int string | Begin nat | Client nat | Serve nat | End nat | Reaped int

text \<open>The server takes a step, and no assertion fails.\<close>

definition server_part :: "event \<Rightarrow> system \<Rightarrow> system option" where
  "server_part e s = (case server_do e (srv s) of Some (Inr t) \<Rightarrow> Some (s\<lparr>srv := t\<rparr>) | _ \<Rightarrow> None)"

definition set_talk :: "nat \<Rightarrow> session \<Rightarrow> system \<Rightarrow> system" where
  "set_talk i u s = s\<lparr>conns := (conns s)[i := (conns s ! i)\<lparr>talk := u\<rparr>]\<rparr>"

fun system_do :: "reader \<Rightarrow> nat \<Rightarrow> action \<Rightarrow> system \<Rightarrow> system option" where
  "system_do readline m (Connect p tx) s =
     server_part (Accept p) (s\<lparr>conns := conns s @ [\<lparr>cpid = p, ctext = tx, talk = session_start tx, running = True\<rparr>]\<rparr>)"
| "system_do readline m (Begin i) s =
     (if i < length (conns s) \<and> running (conns s ! i) then server_part (Child_start (cpid (conns s ! i))) s else None)"
| "system_do readline m (Client i) s =
     (if i < length (conns s) then map_option (\<lambda>u. set_talk i u s) (client_step readline m (talk (conns s ! i))) else None)"
| "system_do readline m (Serve i) s =
     (if i < length (conns s) \<and> running (conns s ! i)
      then case echo_step readline m (talk (conns s ! i)) of
             None \<Rightarrow> None
           | Some u \<Rightarrow> server_part (event.Echo (cpid (conns s ! i)) (counted u - counted (talk (conns s ! i)))) (set_talk i u s)
      else None)"
| "system_do readline m (End i) s =
     (if i < length (conns s) \<and> running (conns s ! i) \<and> server_at (talk (conns s ! i)) = S_done
      then server_part (Exit (cpid (conns s ! i))) (s\<lparr>conns := (conns s)[i := (conns s ! i)\<lparr>running := False\<rparr>]\<rparr>)
      else None)"
| "system_do readline m (Reaped p) s = server_part (Reap p) s"

definition system_init :: "nat \<Rightarrow> system" where
  "system_init n = \<lparr>srv = server_init n, conns = []\<rparr>"

text \<open>The steps: clients connect while the table has a free entry, with inputs that a session can carry.\<close>

definition system_step :: "reader \<Rightarrow> nat \<Rightarrow> system \<Rightarrow> system \<Rightarrow> bool" where
  "system_step readline m s t \<longleftrightarrow> (\<exists>a. system_do readline m a s = Some t \<and>
     (case a of Connect p tx \<Rightarrow> findclient (clients (srv s)) 0 \<noteq> None \<and> session_ok readline m tx | _ \<Rightarrow> True))"

abbreviation system_reach :: "reader \<Rightarrow> nat \<Rightarrow> nat \<Rightarrow> system \<Rightarrow> bool" where
  "system_reach readline m n \<equiv> reach (\<lambda>s. s = system_init n) (system_step readline m)"

lemma server_part_Some: "server_part e s = Some t \<longleftrightarrow> (\<exists>u. server_do e (srv s) = Some (Inr u) \<and> t = s\<lparr>srv := u\<rparr>)"
  by (auto simp: server_part_def split: option.splits sum.splits)

section \<open>Connections and children\<close>

definition linked :: "connection list \<Rightarrow> (int \<Rightarrow> kid option) \<Rightarrow> bool" where
  "linked cs ks \<longleftrightarrow>
     (\<forall>i<length cs. running (cs ! i) \<longrightarrow> (\<exists>k. ks (cpid (cs ! i)) = Some k \<and> alive k)) \<and>
     (\<forall>i<length cs. \<forall>j<length cs. running (cs ! i) \<longrightarrow> running (cs ! j) \<longrightarrow> cpid (cs ! i) = cpid (cs ! j) \<longrightarrow> i = j) \<and>
     (\<forall>p k. ks p = Some k \<longrightarrow> alive k \<longrightarrow> (\<exists>i<length cs. running (cs ! i) \<and> cpid (cs ! i) = p))"

lemma linkedD:
  assumes "linked cs ks"
  shows "i < length cs \<Longrightarrow> running (cs ! i) \<Longrightarrow> \<exists>k. ks (cpid (cs ! i)) = Some k \<and> alive k"
    and "i < length cs \<Longrightarrow> j < length cs \<Longrightarrow> running (cs ! i) \<Longrightarrow> running (cs ! j) \<Longrightarrow> cpid (cs ! i) = cpid (cs ! j) \<Longrightarrow> i = j"
    and "ks p = Some k \<Longrightarrow> alive k \<Longrightarrow> \<exists>i<length cs. running (cs ! i) \<and> cpid (cs ! i) = p"
  using assms unfolding linked_def by blast+

lemma linked_accept:
  assumes "linked cs ks" and "ks (cpid c) = None" and "running c" and "alive k"
  shows "linked (cs @ [c]) (ks(cpid c \<mapsto> k))"
proof -
  have new: "cpid (cs ! i) \<noteq> cpid c" if "i < length cs" "running (cs ! i)" for i
    using linkedD(1)[OF assms(1) that] assms(2) by auto
  show ?thesis unfolding linked_def
  proof (intro conjI allI impI)
    fix i j
    assume i: "i < length (cs @ [c])" "running ((cs @ [c]) ! i)"
    then show "\<exists>l. (ks(cpid c \<mapsto> k)) (cpid ((cs @ [c]) ! i)) = Some l \<and> alive l"
      using linkedD(1)[OF assms(1), of i] new[of i] assms(3,4) by (auto simp: nth_append)
    assume "j < length (cs @ [c])" "running ((cs @ [c]) ! j)" "cpid ((cs @ [c]) ! i) = cpid ((cs @ [c]) ! j)"
    then show "i = j"
      using i linkedD(2)[OF assms(1), of i j] new[of i] new[of j] by (auto simp: nth_append less_Suc_eq split: if_splits)
  next
    fix p l
    assume p: "(ks(cpid c \<mapsto> k)) p = Some l" "alive l"
    show "\<exists>i<length (cs @ [c]). running ((cs @ [c]) ! i) \<and> cpid ((cs @ [c]) ! i) = p"
    proof (cases "p = cpid c")
      case True
      then show ?thesis using assms(3) by (intro exI[of _ "length cs"]) simp
    next
      case False
      then obtain i where "i < length cs" "running (cs ! i)" "cpid (cs ! i) = p" using linkedD(3)[OF assms(1), of p l] p by auto
      then show ?thesis by (intro exI[of _ i]) (simp add: nth_append)
    qed
  qed
qed

lemma linked_same:
  assumes "linked cs ks" and "running c = running (cs ! i)" and "cpid c = cpid (cs ! i)"
  shows "linked (cs[i := c]) ks"
proof (cases "i < length cs")
  case True
  then have r: "running (cs[i := c] ! j) = running (cs ! j) \<and> cpid (cs[i := c] ! j) = cpid (cs ! j)" for j
    using assms(2,3) by (cases "j = i") auto
  show ?thesis using assms(1) unfolding linked_def by (simp add: r)
qed (use assms(1) in \<open>simp add: list_update_beyond\<close>)

lemma linked_kid:
  assumes "linked cs ks" and "ks p = Some k" and "alive k" and "alive k'"
  shows "linked cs (ks(p \<mapsto> k'))"
  using assms unfolding linked_def by (auto split: if_splits)

lemma linked_reap: "linked cs ks \<Longrightarrow> ks p = Some k \<Longrightarrow> \<not> alive k \<Longrightarrow> linked cs (ks(p := None))"
  unfolding linked_def by (auto split: if_splits)

lemma linked_end:
  assumes "linked cs ks" and i: "i < length cs" "running (cs ! i)" and c: "\<not> running c" and "\<not> alive k"
  shows "linked (cs[i := c]) (ks(cpid (cs ! i) \<mapsto> k))"
proof -
  have r: "running (cs[i := c] ! j) \<longleftrightarrow> j \<noteq> i \<and> running (cs ! j)" if "j < length cs" for j
    using that c by (cases "j = i") auto
  have other: "cpid (cs ! j) \<noteq> cpid (cs ! i)" if "j < length cs" "running (cs ! j)" "j \<noteq> i" for j
    using linkedD(2)[OF assms(1) that(1) i(1) that(2) i(2)] that(3) by blast
  show ?thesis unfolding linked_def length_list_update
  proof (intro conjI allI impI)
    fix j l
    assume j: "j < length cs" "running (cs[i := c] ! j)"
    then have j': "j \<noteq> i" "running (cs ! j)" using r by auto
    then show "\<exists>l. (ks(cpid (cs ! i) \<mapsto> k)) (cpid (cs[i := c] ! j)) = Some l \<and> alive l"
      using linkedD(1)[OF assms(1) j(1)] other j(1) by auto
    assume l: "l < length cs" "running (cs[i := c] ! l)" "cpid (cs[i := c] ! j) = cpid (cs[i := c] ! l)"
    then have "l \<noteq> i" "running (cs ! l)" using r by auto
    then show "j = l" using linkedD(2)[OF assms(1) j(1) l(1)] j' l(3) by simp
  next
    fix p l
    assume p: "(ks(cpid (cs ! i) \<mapsto> k)) p = Some l" "alive l"
    then have "p \<noteq> cpid (cs ! i)" "ks p = Some l" using assms(5) by (auto split: if_splits)
    then obtain j where "j < length cs" "running (cs ! j)" "cpid (cs ! j) = p" "j \<noteq> i" using linkedD(3)[OF assms(1), of p l] p(2) by auto
    then show "\<exists>j<length cs. running (cs[i := c] ! j) \<and> cpid (cs[i := c] ! j) = p" by (intro exI[of _ j]) simp
  qed
qed

section \<open>The invariant\<close>

definition connection_ok :: "reader \<Rightarrow> nat \<Rightarrow> connection \<Rightarrow> bool" where
  "connection_ok readline m c \<longleftrightarrow> session_ok readline m (ctext c) \<and> session_inv m (ctext c) (talk c) \<and>
     (\<not> running c \<longrightarrow> server_at (talk c) = S_done)"

definition total_counted :: "connection list \<Rightarrow> nat" where
  "total_counted cs = sum_list (map (\<lambda>c. counted (talk c)) cs)"

definition system_inv :: "reader \<Rightarrow> nat \<Rightarrow> nat \<Rightarrow> system \<Rightarrow> bool" where
  "system_inv readline m n s \<longleftrightarrow> server_inv n (srv s) \<and> linked (conns s) (kids (srv s)) \<and>
     (\<forall>c\<in>set (conns s). connection_ok readline m c) \<and> total (srv s) = total_counted (conns s)"

lemma total_counted_simps [simp]:
  "total_counted [] = 0" "total_counted (cs @ [c]) = total_counted cs + counted (talk c)"
  by (simp_all add: total_counted_def)

lemma total_counted_update:
  "i < length cs \<Longrightarrow> total_counted (cs[i := c]) + counted (talk (cs ! i)) = total_counted cs + counted (talk c)"
  unfolding total_counted_def by (rule sum_list_map_update)

lemma client_step_counted: "client_step rl m s = Some t \<Longrightarrow> counted t = counted s \<and> server_at t = server_at s"
  by (auto simp: client_step_def split: client_pc.splits option.splits prod.splits)

lemma set_update_all: "\<forall>x\<in>set xs. P x \<Longrightarrow> P y \<Longrightarrow> \<forall>x\<in>set (xs[i := y]). P x"
  using set_update_subset_insert[of xs i y] by blast

lemma connection_ok_talk:
  assumes "connection_ok readline m c" and "session_step readline m (talk c) u" and "running c \<or> server_at u = server_at (talk c)"
  shows "connection_ok readline m (c\<lparr>talk := u\<rparr>)"
  using assms session_inv_step[OF assms(2)] by (auto simp: connection_ok_def)

lemma server_part_inv:
  assumes "server_inv n (srv s)" and "server_part e s = Some t" and "case e of Accept p \<Rightarrow> findclient (clients (srv s)) 0 \<noteq> None | _ \<Rightarrow> True"
  shows "server_inv n (srv t)" and "conns t = conns s" and "server_do e (srv s) = Some (Inr (srv t))"
  using assms server_do_inv[OF assms(1) _ assms(3)] by (auto simp: server_part_Some)

lemma system_inv_Connect:
  assumes "system_inv readline m n s" and "system_do readline m (Connect p tx) s = Some t"
    and room: "findclient (clients (srv s)) 0 \<noteq> None" and tx: "session_ok readline m tx"
  shows "system_inv readline m n t"
proof -
  let ?c = "\<lparr>cpid = p, ctext = tx, talk = session_start tx, running = True\<rparr>"
  have inv: "server_inv n (srv s)" "linked (conns s) (kids (srv s))" using assms(1) by (simp_all add: system_inv_def)
  note t = server_part_inv[of n "s\<lparr>conns := conns s @ [?c]\<rparr>" "Accept p" t]
  have t: "server_inv n (srv t)" "conns t = conns s @ [?c]" "server_do (Accept p) (srv s) = Some (Inr (srv t))"
    using t inv(1) room assms(2) by simp_all
  from server_do_kids(2)[OF inv(1) t(3) refl] obtain c where
    c: "kids (srv s) p = None" "kids (srv t) = (kids (srv s))(p \<mapsto> Starting c)" by blast
  have "linked (conns t) (kids (srv t))" using linked_accept[OF inv(2), of ?c "Starting c"] c t(2) by simp
  then show ?thesis using assms(1) t server_do_kids(1)[OF inv(1) t(3)] tx session_inv_start
    by (auto simp: system_inv_def connection_ok_def session_start_def)
qed

lemma system_inv_Begin:
  assumes "system_inv readline m n s" and "system_do readline m (Begin i) s = Some t"
  shows "system_inv readline m n t"
proof -
  have inv: "server_inv n (srv s)" "linked (conns s) (kids (srv s))" using assms(1) by (simp_all add: system_inv_def)
  let ?e = "Child_start (cpid (conns s ! i))"
  have e: "server_part ?e s = Some t" using assms(2) by (simp split: if_splits)
  note t = server_part_inv[OF inv(1) e, unfolded event.case, OF TrueI]
  from server_do_kids(3)[OF inv(1) t(3) refl] obtain c j where
    c: "kids (srv s) (cpid (conns s ! i)) = Some (Starting c)" "kids (srv t) = (kids (srv s))(cpid (conns s ! i) \<mapsto> Serving j)" by blast
  have "linked (conns t) (kids (srv t))" using linked_kid[OF inv(2) c(1), of "Serving j"] c(2) t(2) by simp
  then show ?thesis using assms(1) t server_do_kids(1)[OF inv(1) t(3)] by (simp add: system_inv_def)
qed

lemma system_inv_Client:
  assumes "system_inv readline m n s" and "system_do readline m (Client i) s = Some t"
  shows "system_inv readline m n t"
proof -
  obtain u where u: "i < length (conns s)" "client_step readline m (talk (conns s ! i)) = Some u" "t = set_talk i u s"
    using assms(2) by (auto split: if_splits)
  let ?c = "(conns s ! i)\<lparr>talk := u\<rparr>"
  have ok: "connection_ok readline m (conns s ! i)" using assms(1) u(1) by (simp add: system_inv_def)
  have "connection_ok readline m ?c"
    using connection_ok_talk[OF ok] client_step_counted[OF u(2)] u(2) by (simp add: session_step_def)
  moreover have "total_counted ((conns s)[i := ?c]) = total_counted (conns s)"
    using total_counted_update[OF u(1), of ?c] client_step_counted[OF u(2)] by simp
  ultimately show ?thesis using assms(1) u(1,3) linked_same[of "conns s" "kids (srv s)" ?c i] set_update_all[of "conns s" "connection_ok readline m" ?c i]
    by (simp add: system_inv_def set_talk_def)
qed

lemma system_inv_Serve:
  assumes "system_inv readline m n s" and "system_do readline m (Serve i) s = Some t"
  shows "system_inv readline m n t"
proof -
  let ?p = "cpid (conns s ! i)" and ?b = "\<lambda>u. counted u - counted (talk (conns s ! i))"
  obtain u where u: "i < length (conns s)" "running (conns s ! i)" "echo_step readline m (talk (conns s ! i)) = Some u"
    and e: "server_part (event.Echo ?p (?b u)) (set_talk i u s) = Some t"
    using assms(2) by (auto split: if_splits option.splits)
  let ?c = "(conns s ! i)\<lparr>talk := u\<rparr>"
  have inv: "server_inv n (srv (set_talk i u s))" using assms(1) by (simp add: system_inv_def set_talk_def)
  note t = server_part_inv[OF inv e, unfolded event.case, OF TrueI]
  have c: "conns t = (conns s)[i := ?c]" using t(2) by (simp add: set_talk_def)
  have st: "session_step readline m (talk (conns s ! i)) u" using u(3) by (simp add: session_step_def)
  have "connection_ok readline m ?c" using connection_ok_talk[OF _ st] assms(1) u(1,2) by (simp add: system_inv_def)
  moreover have "counted (talk (conns s ! i)) \<le> counted u" by (rule session_step_counted[OF st])
  moreover have "kids (srv t) = kids (srv s)" "total (srv t) = total (srv s) + ?b u"
    using server_do_kids(4)[OF inv t(3) refl] server_do_kids(1)[OF inv t(3)] by (simp_all add: set_talk_def)
  ultimately show ?thesis
    using assms(1) t(1) c linked_same[of "conns s" "kids (srv s)" ?c i] total_counted_update[OF u(1), of ?c]
      set_update_all[of "conns s" "connection_ok readline m" ?c i]
    by (simp add: system_inv_def)
qed

lemma system_inv_End:
  assumes "system_inv readline m n s" and "system_do readline m (End i) s = Some t"
  shows "system_inv readline m n t"
proof -
  let ?c = "(conns s ! i)\<lparr>running := False\<rparr>" and ?s = "s\<lparr>conns := (conns s)[i := (conns s ! i)\<lparr>running := False\<rparr>]\<rparr>"
  have i: "i < length (conns s)" "running (conns s ! i)" "server_at (talk (conns s ! i)) = S_done"
    and e: "server_part (Exit (cpid (conns s ! i))) ?s = Some t" using assms(2) by (auto split: if_splits)
  have inv: "server_inv n (srv ?s)" "linked (conns s) (kids (srv s))" using assms(1) by (simp_all add: system_inv_def)
  note t = server_part_inv[OF inv(1) e, unfolded event.case, OF TrueI]
  from server_do_kids(5)[OF inv(1) t(3) refl] obtain c where
    k: "kids (srv t) = (kids (srv s))(cpid (conns s ! i) \<mapsto> Zombie c)" by auto
  have "linked (conns t) (kids (srv t))" using linked_end[OF inv(2) i(1,2), of ?c "Zombie c"] k t(2) by simp
  moreover have "connection_ok readline m ?c" using assms(1) i(1,3) by (auto simp: system_inv_def connection_ok_def)
  moreover have "total_counted ((conns s)[i := ?c]) = total_counted (conns s)" using total_counted_update[OF i(1), of ?c] by simp
  ultimately show ?thesis using assms(1) t server_do_kids(1)[OF inv(1) t(3)] set_update_all[of "conns s" "connection_ok readline m" ?c i]
    by (simp add: system_inv_def)
qed

lemma system_inv_Reaped:
  assumes "system_inv readline m n s" and "system_do readline m (Reaped p) s = Some t"
  shows "system_inv readline m n t"
proof -
  have inv: "server_inv n (srv s)" "linked (conns s) (kids (srv s))" using assms(1) by (simp_all add: system_inv_def)
  have e: "server_part (Reap p) s = Some t" using assms(2) by simp
  note t = server_part_inv[OF inv(1) e, unfolded event.case, OF TrueI]
  from server_do_kids(6)[OF inv(1) t(3) refl] obtain k where
    k: "kids (srv s) p = Some k" "\<not> alive k" "kids (srv t) = (kids (srv s))(p := None)" by blast
  have "linked (conns t) (kids (srv t))" using linked_reap[OF inv(2) k(1,2)] k(3) t(2) by simp
  then show ?thesis using assms(1) t server_do_kids(1)[OF inv(1) t(3)] by (simp add: system_inv_def)
qed

lemma system_inv_step:
  assumes "system_step readline m s t" and "system_inv readline m n s"
  shows "system_inv readline m n t"
proof -
  obtain a where a: "system_do readline m a s = Some t"
    and c: "case a of Connect p tx \<Rightarrow> findclient (clients (srv s)) 0 \<noteq> None \<and> session_ok readline m tx | _ \<Rightarrow> True"
    using assms(1) unfolding system_step_def by blast
  show ?thesis
  proof (cases a)
    case (Connect p tx)
    show ?thesis by (rule system_inv_Connect[OF assms(2) a[unfolded Connect]]) (use c in \<open>simp_all add: Connect\<close>)
  next
    case (Begin i)
    show ?thesis by (rule system_inv_Begin[OF assms(2) a[unfolded Begin]])
  next
    case (Client i)
    show ?thesis by (rule system_inv_Client[OF assms(2) a[unfolded Client]])
  next
    case (Serve i)
    show ?thesis by (rule system_inv_Serve[OF assms(2) a[unfolded Serve]])
  next
    case (End i)
    show ?thesis by (rule system_inv_End[OF assms(2) a[unfolded End]])
  next
    case (Reaped p)
    show ?thesis by (rule system_inv_Reaped[OF assms(2) a[unfolded Reaped]])
  qed
qed

interpretation echo_system: safe_system "\<lambda>s. s = system_init n" "system_step readline m" "system_inv readline m n"
proof unfold_locales
  show "system_inv readline m n s" if "s = system_init n" for s
    using that echo_server.inv_init[of "server_init n" n]
    by (simp add: system_inv_def system_init_def linked_def) (simp add: server_init_def)
qed (rule system_inv_step)

section \<open>The clients are served\<close>

text \<open>The steps without new connections.\<close>

definition serving_step :: "reader \<Rightarrow> nat \<Rightarrow> system \<Rightarrow> system \<Rightarrow> bool" where
  "serving_step readline m s t \<longleftrightarrow> (\<exists>a. system_do readline m a s = Some t \<and> (case a of Connect p tx \<Rightarrow> False | _ \<Rightarrow> True))"

lemma serving_system: "serving_step readline m s t \<Longrightarrow> system_step readline m s t"
  unfolding serving_step_def system_step_def by (erule ex_forward, rename_tac a, case_tac a) simp_all

definition conn_work :: "(int \<Rightarrow> kid option) \<Rightarrow> connection \<Rightarrow> nat" where
  "conn_work ks c = session_work (talk c) + (if running c then (case ks (cpid c) of Some (Starting j) \<Rightarrow> 2 | _ \<Rightarrow> 1) else 0)"

definition system_work :: "system \<Rightarrow> nat" where
  "system_work s = sum_list (map (conn_work (kids (srv s))) (conns s)) + nat (nclients (srv s))"

text \<open>A connection that has begun goes on, or its child ends.\<close>

lemma closer_serving:
  assumes "system_inv readline m n s" and i: "i < length (conns s)" "running (conns s ! i)" and "lines_only (ctext (conns s ! i))"
    and k: "kids (srv s) (cpid (conns s ! i)) = Some (Serving j)"
  shows "\<exists>t. serving_step readline m s t \<and> system_work t < system_work s"
proof -
  let ?c = "conns s ! i"
  have ok: "session_ok readline m (ctext ?c)" "session_inv m (ctext ?c) (talk ?c)"
    using assms(1) i(1) by (auto simp: system_inv_def connection_ok_def)
  have upd: "sum_list (map (conn_work (kids (srv s))) ((conns s)[i := c])) < sum_list (map (conn_work (kids (srv s))) (conns s))"
    if "conn_work (kids (srv s)) c < conn_work (kids (srv s)) ?c" for c
    using sum_list_map_update[OF i(1), of "conn_work (kids (srv s))" c] that by simp
  show ?thesis
  proof (cases "session_over (talk ?c)")
    case True
    let ?t = "s\<lparr>conns := (conns s)[i := ?c\<lparr>running := False\<rparr>], srv := (srv s)\<lparr>kids := (kids (srv s))(cpid ?c \<mapsto> Zombie (Some j))\<rparr>\<rparr>"
    have "system_do readline m (End i) s = Some ?t" using i k True by (simp add: server_part_def session_over_def)
    then have "serving_step readline m s ?t" unfolding serving_step_def by (intro exI[of _ "End i"]) simp
    moreover have "conn_work (kids (srv ?t)) = conn_work (kids (srv s))" using k by (auto simp: conn_work_def fun_eq_iff)
    then have "system_work ?t < system_work s" using upd[of "?c\<lparr>running := False\<rparr>"] i(2) k by (simp add: system_work_def conn_work_def)
    ultimately show ?thesis by blast
  next
    case False
    then obtain u where u: "session_step readline m (talk ?c) u" "session_work u < session_work (talk ?c)"
      using session_closer assms(4) ok unfolding session_ok_def by blast
    have w: "conn_work (kids (srv s)) (?c\<lparr>talk := u\<rparr>) < conn_work (kids (srv s)) ?c" using u(2) by (simp add: conn_work_def)
    from u(1) consider "client_step readline m (talk ?c) = Some u" | "echo_step readline m (talk ?c) = Some u"
      unfolding session_step_def by blast
    then show ?thesis
    proof cases
      case 1
      then have "system_do readline m (Client i) s = Some (set_talk i u s)" using i by simp
      then have "serving_step readline m s (set_talk i u s)" unfolding serving_step_def by (intro exI[of _ "Client i"]) simp
      then show ?thesis using upd[OF w] by (intro exI[of _ "set_talk i u s"]) (simp add: system_work_def set_talk_def)
    next
      case 2
      let ?t = "(set_talk i u s)\<lparr>srv := echo j (counted u - counted (talk ?c)) (srv s)\<rparr>"
      have "system_do readline m (Serve i) s = Some ?t" using i k 2 by (simp add: server_part_def set_talk_def)
      then have "serving_step readline m s ?t" unfolding serving_step_def by (intro exI[of _ "Serve i"]) simp
      then show ?thesis using upd[OF w] by (intro exI[of _ ?t]) (simp add: system_work_def set_talk_def echo_def)
    qed
  qed
qed

lemma closer_begin:
  assumes "system_inv readline m n s" and i: "i < length (conns s)" "running (conns s ! i)"
    and k: "kids (srv s) (cpid (conns s ! i)) = Some (Starting c)"
  shows "\<exists>t. serving_step readline m s t \<and> system_work t < system_work s"
proof -
  let ?p = "cpid (conns s ! i)" and ?t = "s\<lparr>srv := child_start (cpid (conns s ! i)) c (srv s)\<rparr>"
  have "table_ok (clients (srv s)) (kids (srv s))" using assms(1) by (simp add: system_inv_def server_inv_def)
  from kid_okD[OF this k] obtain j where j: "c = Some j" by auto
  have "system_do readline m (Begin i) s = Some ?t" using i k by (simp add: server_part_def)
  then have "serving_step readline m s ?t" unfolding serving_step_def by (intro exI[of _ "Begin i"]) simp
  moreover have "kids (srv ?t) = (kids (srv s))(?p \<mapsto> Serving j)" by (simp add: child_start_def j)
  then have "sum_list (map (conn_work (kids (srv ?t))) (conns s)) < sum_list (map (conn_work (kids (srv s))) (conns s))"
    by (intro sum_list_less[of _ _ _ "conns s ! i"]) (use i k in \<open>auto simp: conn_work_def split: option.splits kid.splits\<close>)
  then have "system_work ?t < system_work s" by (simp add: system_work_def child_start_def j)
  ultimately show ?thesis by blast
qed

lemma closer_reap:
  assumes "system_inv readline m n s" and none: "\<forall>i<length (conns s). \<not> running (conns s ! i)" and "nclients (srv s) \<noteq> 0"
  shows "\<exists>t. serving_step readline m s t \<and> system_work t < system_work s"
proof -
  have inv: "server_inv n (srv s)" "linked (conns s) (kids (srv s))" using assms(1) by (simp_all add: system_inv_def)
  then have n: "0 < used_entries (clients (srv s))" "table_ok (clients (srv s)) (kids (srv s))"
    "nclients (srv s) = int (used_entries (clients (srv s)))" using assms(3) by (simp_all add: server_inv_def)
  from client_kid[OF inv(1) assms(3)] obtain p k where k: "kids (srv s) p = Some k" by blast
  then have "\<not> alive k" using linkedD(3)[OF inv(2) k] none by blast
  then obtain c where c: "k = Zombie c" by (cases k) auto
  from reap_inv[OF inv(1)] k c obtain u where u: "sigchld_handler p (srv s) = Inr u" by blast
  let ?t = "s\<lparr>srv := u\<rparr>"
  have d: "server_do (Reap p) (srv s) = Some (Inr u)" using u k c by simp
  then have "system_do readline m (Reaped p) s = Some ?t" by (simp only: system_do.simps server_part_def option.case sum.case)
  then have "serving_step readline m s ?t" unfolding serving_step_def by (intro exI[of _ "Reaped p"]) simp
  moreover from server_do_kids(6)[OF inv(1) d refl] have "kids u = (kids (srv s))(p := None)" by blast
  then have "conn_work (kids u) = conn_work (kids (srv s))" using k c by (auto simp: conn_work_def fun_eq_iff)
  then have "system_work ?t < system_work s" using server_do_nclients[OF d] n(1,3) by (simp add: system_work_def)
  ultimately show ?thesis by blast
qed

lemma system_closer:
  assumes "system_inv readline m n s" and "\<forall>c\<in>set (conns s). lines_only (ctext c)" and "nclients (srv s) \<noteq> 0"
  shows "\<exists>t. serving_step readline m s t \<and> system_work t < system_work s"
proof (cases "\<forall>i<length (conns s). \<not> running (conns s ! i)")
  case True
  then show ?thesis using closer_reap assms by blast
next
  case False
  then obtain i where i: "i < length (conns s)" "running (conns s ! i)" by blast
  have "linked (conns s) (kids (srv s))" using assms(1) by (simp add: system_inv_def)
  from linkedD(1)[OF this i] obtain k where "kids (srv s) (cpid (conns s ! i)) = Some k" "alive k" by blast
  moreover have "lines_only (ctext (conns s ! i))" using assms(2) i(1) by simp
  ultimately show ?thesis using closer_begin[OF assms(1) i] closer_serving[OF assms(1) i] by (cases k) auto
qed

lemma ctexts_update: "ctext c = ctext (cs ! i) \<Longrightarrow> map ctext (cs[i := c]) = map ctext cs"
  by (cases "i < length cs") (auto simp: map_update list_update_same_conv list_update_beyond)

lemma serving_ctexts:
  assumes "serving_step readline m s t"
  shows "map ctext (conns t) = map ctext (conns s)"
proof -
  obtain a where a: "system_do readline m a s = Some t" "case a of Connect p tx \<Rightarrow> False | _ \<Rightarrow> True"
    using assms unfolding serving_step_def by blast
  then show ?thesis
    by (cases a) (auto simp: server_part_Some set_talk_def ctexts_update split: if_splits option.splits)
qed

lemma lines_ctexts: "(\<forall>c\<in>set cs. lines_only (ctext c)) \<longleftrightarrow> (\<forall>tx\<in>set (map ctext cs). lines_only tx)"
  by simp

interpretation echo_serving: converging_system "\<lambda>s. system_inv readline m n s \<and> (\<forall>c\<in>set (conns s). lines_only (ctext c))" "serving_step readline m"
    "\<lambda>s. system_inv readline m n s \<and> (\<forall>c\<in>set (conns s). lines_only (ctext c))" "\<lambda>s. nclients (srv s) = 0" system_work
proof unfold_locales
  show "system_inv readline m n t \<and> (\<forall>c\<in>set (conns t). lines_only (ctext c))"
    if "serving_step readline m s t" "system_inv readline m n s \<and> (\<forall>c\<in>set (conns s). lines_only (ctext c))" for s t
    using that serving_ctexts[OF that(1)] system_inv_step[OF serving_system[OF that(1)]] unfolding lines_ctexts by simp
qed (use system_closer in blast)+

text \<open>When every child has been reaped, every byte of every client is counted.\<close>

lemma all_counted:
  assumes "system_inv readline m n s" and "nclients (srv s) = 0"
  shows "nread (srv s) = sum_list (map (\<lambda>c. length (ctext c)) (conns s))"
proof -
  have inv: "server_inv n (srv s)" "linked (conns s) (kids (srv s))" "total (srv s) = total_counted (conns s)"
    using assms(1) by (simp_all add: system_inv_def)
  have "kids (srv s) p = None" for p using no_clients_left(1)[OF inv(1) assms(2)] .
  then have "\<not> running (conns s ! i)" if "i < length (conns s)" for i using linkedD(1)[OF inv(2) that] by auto
  then have ended: "\<not> running c" if "c \<in> set (conns s)" for c using that by (auto simp: in_set_conv_nth)
  have "counted (talk c) = length (ctext c)" if "c \<in> set (conns s)" for c
  proof -
    have "session_inv m (ctext c) (talk c)" "server_at (talk c) = S_done"
      using assms(1) that ended by (auto simp: system_inv_def connection_ok_def)
    then show ?thesis by (auto simp: session_inv_def under_way_def uncounted_def line_at_def split: client_pc.splits)
  qed
  then have "total_counted (conns s) = sum_list (map (\<lambda>c. length (ctext c)) (conns s))"
    unfolding total_counted_def by (intro arg_cong[of _ _ sum_list] map_cong) simp_all
  moreover have "total (srv s) = nread (srv s)" using no_clients_left(2)[OF inv(1) assms(2)] .
  ultimately show ?thesis using inv(3) by simp
qed

section \<open>Properties\<close>

text \<open>
  C29: whatever clients connect while the table has room, and however they, the children and the server interleave: the number that the server prints when it is interrupted
  is the number of the bytes of the inputs of all the clients that ever connected, and when every line of their inputs ends, all of them can be
  served so that it is printed.
\<close>

theorem echo_clients:
  assumes "system_reach readline m n s"
  shows "sigint_handler (srv s) \<in> {None, Some (sum_list (map (\<lambda>c. length (ctext c)) (conns s)))} \<and>
    ((\<forall>c\<in>set (conns s). lines_only (ctext c)) \<longrightarrow>
      (\<exists>t. (serving_step readline m)\<^sup>*\<^sup>* s t \<and> map ctext (conns t) = map ctext (conns s) \<and>
        sigint_handler (srv t) = Some (sum_list (map (\<lambda>c. length (ctext c)) (conns s)))))"
proof (intro conjI impI)
  have inv: "system_inv readline m n s" using echo_system.inv_reach[OF assms] .
  then show "sigint_handler (srv s) \<in> {None, Some (sum_list (map (\<lambda>c. length (ctext c)) (conns s)))}"
    using all_counted by (auto simp: sigint_handler_def)
  assume "\<forall>c\<in>set (conns s). lines_only (ctext c)"
  then obtain t where t: "(serving_step readline m)\<^sup>*\<^sup>* s t" "nclients (srv t) = 0" "system_inv readline m n t"
    using echo_serving.can_reach_goal[of readline m n s] inv by blast
  from t(1) have same: "map ctext (conns t) = map ctext (conns s)"
    by (induction rule: rtranclp_induct) (use serving_ctexts in auto)
  have "map (\<lambda>c. length (ctext c)) (conns t) = map length (map ctext (conns t))" "map (\<lambda>c. length (ctext c)) (conns s) = map length (map ctext (conns s))"
    by simp_all
  then have "sigint_handler (srv t) = Some (sum_list (map (\<lambda>c. length (ctext c)) (conns s)))"
    using all_counted[OF t(3,2)] t(2) same by (simp only: sigint_handler_def) simp
  then show "\<exists>t. (serving_step readline m)\<^sup>*\<^sup>* s t \<and> map ctext (conns t) = map ctext (conns s) \<and>
      sigint_handler (srv t) = Some (sum_list (map (\<lambda>c. length (ctext c)) (conns s)))" using t(1) same by blast
qed

definition demo_connect :: "reader \<Rightarrow> system option" where
  "demo_connect readline = run_schedule (system_do readline 8) [Connect 5 (''hello'' @ [newline]), Connect 6 (''hi'' @ [newline])] (system_init 2)"

lemma demo_connect_reach: "\<exists>s. demo_connect example_reader = Some s \<and> system_reach example_reader 8 2 s \<and> map ctext (conns s) = [''hello'' @ [newline], ''hi'' @ [newline]]"
proof -
  let ?s0 = "system_init 2"
  obtain s1 where s1: "system_do example_reader 8 (Connect 5 (''hello'' @ [newline])) ?s0 = Some s1" by (simp add: server_part_def system_init_def server_init_def)
  then have f1: "findclient (clients (srv s1)) 0 \<noteq> None" "kids (srv s1) 6 = None" "map ctext (conns s1) = [''hello'' @ [newline]]"
    unfolding server_part_Some system_do.simps
    by (auto simp: system_init_def server_init_def main_loop_def addclient_def findclient_def numeral_2_eq_2)
  obtain s2 where s2: "system_do example_reader 8 (Connect 6 (''hi'' @ [newline])) s1 = Some s2" using f1(2) by (simp add: server_part_def)
  have ok: "session_ok example_reader 8 (''hello'' @ [newline])" "session_ok example_reader 8 (''hi'' @ [newline])"
    by (simp_all add: session_ok_def example_reader_ok)
  have "system_step example_reader 8 ?s0 s1"
    unfolding system_step_def using s1 ok(1)
    by (intro exI[of _ "Connect 5 (''hello'' @ [newline])"]) (simp add: system_init_def server_init_def findclient_def numeral_2_eq_2)
  moreover have "system_step example_reader 8 s1 s2"
    unfolding system_step_def using s2 ok(2) f1(1) by (intro exI[of _ "Connect 6 (''hi'' @ [newline])"]) simp
  moreover have "system_reach example_reader 8 2 ?s0" by (rule reach_init) (rule refl)
  ultimately have "system_reach example_reader 8 2 s2" by (meson reach_step)
  moreover have "map ctext (conns s2) = [''hello'' @ [newline], ''hi'' @ [newline]]" using s2 f1(3) by (auto simp: server_part_Some)
  ultimately show ?thesis using s1 s2 by (auto simp del: system_do.simps simp: demo_connect_def)
qed

theorem echo_clients_witness:
  "\<exists>s t. demo_connect example_reader = Some s \<and> (serving_step example_reader 8)\<^sup>*\<^sup>* s t \<and> sigint_handler (srv t) = Some 9"
proof -
  obtain s where s: "demo_connect example_reader = Some s" "system_reach example_reader 8 2 s"
    and tx: "map ctext (conns s) = [''hello'' @ [newline], ''hi'' @ [newline]]" using demo_connect_reach by (elim exE conjE)
  have "\<forall>c\<in>set (conns s). lines_only (ctext c)" unfolding lines_ctexts tx by (simp add: lines_only_def)
  moreover have "map (\<lambda>c. length (ctext c)) (conns s) = map length (map ctext (conns s))" by simp
  then have "sum_list (map (\<lambda>c. length (ctext c)) (conns s)) = 9" unfolding tx by simp
  ultimately show ?thesis using echo_clients[OF s(2)] s(1) by auto
qed

end
