(* ===== verification/Echoquit.thy ===== *)
theory Echoquit
  imports Echo
begin

text \<open>
  The end of the server of \<open>9/so21_lista_9/echoserver-fork.c\<close>: the loop of \<open>main\<close> in single steps, with the mask of \<open>SIGCHLD\<close> and the
  handlers of the two signals, in single steps as well. \<open>SIGCHLD\<close> is pending or not; its handler takes the zombies there are one after the other, in any order, and
  \<open>SIGCHLD\<close> is blocked in it, but \<open>SIGINT\<close> is not. The handler of \<open>SIGINT\<close> tests \<open>nclients\<close>, is then on its way to
  \<open>sigsuspend\<close>, and is suspended; a \<open>SIGCHLD\<close> is handled in each of these places. Its signal mask lets \<open>SIGCHLD\<close> through. It never returns, so what it has interrupted
  never goes on, be it \<open>main\<close> or the handler of \<open>SIGCHLD\<close>. A child has the handler of \<open>SIGINT\<close> until it ignores the signal; when it runs there, it
  waits for a child of the child, for ever. Children are not killed by other signals.
\<close>

section \<open>The program\<close>

text \<open>Where \<open>main\<close> is: in \<open>accept\<close>; after blocking the signal; after \<open>addclient\<close>, with the entry that it gave and the process id that \<open>fork\<close> will return, on which nothing depends
  before; after \<open>fork\<close>. Where the handler of \<open>SIGCHLD\<close> is: before \<open>waitpid\<close>, or with a process id that this has returned.\<close>

datatype main_place = M_accept | M_connected | M_added "nat option" int | M_forked

datatype int_place = I_none | I_test | I_checked | I_suspended | I_done nat

datatype chld_place = H_none | H_loop | H_reaped int

text \<open>\<open>hung\<close>: the children that are in the handler of \<open>SIGINT\<close>.\<close>

record quitter =
  tab :: server
  pids :: "int list"
  main_at :: main_place
  int_at :: int_place
  handler_at :: chld_place
  chld_blocked :: bool
  chld_pending :: bool
  hung :: "int set"

datatype happening =
  Connection | Add int | Fork_child | Unblock | Child event | Child_sigint int | Sigint | Sigchld | Waitpid int | Waitpid_none | Delclient
| Sigint_handler

definition zombie :: "server \<Rightarrow> int \<Rightarrow> bool" where
  "zombie s p \<longleftrightarrow> (case kids s p of Some (Zombie c) \<Rightarrow> True | _ \<Rightarrow> False)"

definition starting :: "server \<Rightarrow> int \<Rightarrow> bool" where
  "starting s p \<longleftrightarrow> (case kids s p of Some (Starting c) \<Rightarrow> True | _ \<Rightarrow> False)"

text \<open>An event of a child in which it dies.\<close>

definition child_dies :: "event \<Rightarrow> server \<Rightarrow> bool" where
  "child_dies e t \<longleftrightarrow> (case e of Exit p \<Rightarrow> True | Child_start p \<Rightarrow> zombie t p | _ \<Rightarrow> False)"

fun child_event :: "int set \<Rightarrow> event \<Rightarrow> bool" where
  "child_event hs (Child_start p) = (p \<notin> hs)"
| "child_event hs (Echo p n) = (p \<notin> hs)"
| "child_event hs (Exit p) = (p \<notin> hs)"
| "child_event hs _ = False"

text \<open>\<open>main\<close> goes on when no handler runs, the handler of \<open>SIGINT\<close> when that of \<open>SIGCHLD\<close> does not. \<open>Waitpid_none\<close>: no zombie is left, and the
  handler returns, with it \<open>sigsuspend\<close>.\<close>

definition main_runs :: "quitter \<Rightarrow> bool" where
  "main_runs q \<longleftrightarrow> int_at q = I_none \<and> handler_at q = H_none"

definition quit_over :: "quitter \<Rightarrow> bool" where
  "quit_over q \<longleftrightarrow> (case int_at q of I_done k \<Rightarrow> True | _ \<Rightarrow> False)"

fun quit_do :: "happening \<Rightarrow> quitter \<Rightarrow> quitter run option" where
  "quit_do Connection q = (if main_runs q \<and> main_at q = M_accept
     then Some (Inr (q\<lparr>main_at := M_connected, chld_blocked := True\<rparr>)) else None)"
| "quit_do (Add p) q = (if main_runs q \<and> main_at q = M_connected \<and> 0 < p \<and> kids (tab q) p = None
     then (let (t, c) = addclient (tab q) in Some (Inr (q\<lparr>tab := t, main_at := M_added c p\<rparr>))) else None)"
| "quit_do Fork_child q = (if main_runs q
     then (case main_at q of
             M_added c p \<Rightarrow> Some (Inr (q\<lparr>tab := (tab q)\<lparr>kids := (kids (tab q))(p \<mapsto> Starting c)\<rparr>, pids := pids q @ [p], main_at := M_forked\<rparr>))
           | _ \<Rightarrow> None)
     else None)"
| "quit_do Unblock q = (if main_runs q \<and> main_at q = M_forked
     then Some (Inr (q\<lparr>main_at := M_accept, chld_blocked := False\<rparr>)) else None)"
| "quit_do (Child e) q = (if child_event (hung q) e
     then (case server_do e (tab q) of
             Some (Inr t) \<Rightarrow> Some (Inr (q\<lparr>tab := t, chld_pending := chld_pending q \<or> child_dies e t\<rparr>))
           | Some (Inl x) \<Rightarrow> Some (Inl x)
           | None \<Rightarrow> None)
     else None)"
| "quit_do (Child_sigint p) q = (if starting (tab q) p \<and> p \<notin> hung q then Some (Inr (q\<lparr>hung := insert p (hung q)\<rparr>)) else None)"
| "quit_do Sigint q = (if int_at q = I_none
     then Some (Inr (q\<lparr>int_at := I_test, handler_at := H_none, chld_blocked := False\<rparr>)) else None)"
| "quit_do Sigchld q = (if chld_pending q \<and> \<not> chld_blocked q \<and> handler_at q = H_none \<and> \<not> quit_over q
     then Some (Inr (q\<lparr>handler_at := H_loop, chld_pending := False\<rparr>)) else None)"
| "quit_do (Waitpid p) q = (if handler_at q = H_loop \<and> zombie (tab q) p
     then Some (Inr (q\<lparr>tab := (tab q)\<lparr>kids := (kids (tab q))(p := None)\<rparr>, pids := filter (\<lambda>x. x \<noteq> p) (pids q), handler_at := H_reaped p\<rparr>))
     else None)"
| "quit_do Waitpid_none q = (if handler_at q = H_loop \<and> (\<forall>p\<in>set (pids q). \<not> zombie (tab q) p)
     then Some (Inr (q\<lparr>handler_at := H_none, int_at := (if int_at q = I_suspended then I_test else int_at q)\<rparr>)) else None)"
| "quit_do Delclient q = (case handler_at q of
     H_reaped p \<Rightarrow> (case delclient p (tab q) of
         Inl x \<Rightarrow> Some (Inl x)
       | Inr t \<Rightarrow> Some (Inr (q\<lparr>tab := t, handler_at := H_loop\<rparr>)))
   | _ \<Rightarrow> None)"
| "quit_do Sigint_handler q = (if handler_at q = H_none
     then (case int_at q of
         I_test \<Rightarrow> Some (Inr (q\<lparr>int_at := (if nclients (tab q) = 0 then I_done (nread (tab q)) else I_checked)\<rparr>))
       | I_checked \<Rightarrow> Some (Inr (q\<lparr>int_at := I_suspended\<rparr>))
       | _ \<Rightarrow> None)
     else None)"

definition quit_init :: "nat \<Rightarrow> quitter" where
  "quit_init n = \<lparr>tab = server_init n, pids = [], main_at = M_accept, int_at = I_none, handler_at = H_none, chld_blocked = False,
     chld_pending = False, hung = {}\<rparr>"

text \<open>All that can happen while the table has room, and what can happen when the four bad moments are left out: \<open>SIGINT\<close> between \<open>addclient\<close> and \<open>fork\<close>,
  \<open>SIGINT\<close> in the handler of \<open>SIGCHLD\<close>, \<open>SIGINT\<close> for a child that does not ignore it yet, and
  \<open>SIGCHLD\<close> between the test of \<open>nclients\<close> and \<open>sigsuspend\<close>.\<close>

definition quit_go :: "happening \<Rightarrow> quitter \<Rightarrow> quitter option" where
  "quit_go h q = (if (case h of Add p \<Rightarrow> findclient (clients (tab q)) 0 \<noteq> None | _ \<Rightarrow> True)
     then (case quit_do h q of Some (Inr r) \<Rightarrow> Some r | _ \<Rightarrow> None) else None)"

definition quit_step :: "quitter \<Rightarrow> quitter \<Rightarrow> bool" where
  "quit_step q r \<longleftrightarrow> (\<exists>h. quit_go h q = Some r)"

definition bad_moment :: "happening \<Rightarrow> quitter \<Rightarrow> bool" where
  "bad_moment h q \<longleftrightarrow> (case h of
     Sigint \<Rightarrow> (case main_at q of M_added c p \<Rightarrow> True | _ \<Rightarrow> False) \<or> handler_at q \<noteq> H_none
   | Child_sigint p \<Rightarrow> True
   | Sigchld \<Rightarrow> int_at q = I_checked
   | _ \<Rightarrow> False)"

definition lucky_step :: "quitter \<Rightarrow> quitter \<Rightarrow> bool" where
  "lucky_step q r \<longleftrightarrow> (\<exists>h. quit_go h q = Some r \<and> \<not> bad_moment h q)"

lemma quit_go_Some:
  "quit_go h q = Some r \<longleftrightarrow> quit_do h q = Some (Inr r) \<and> (case h of Add p \<Rightarrow> findclient (clients (tab q)) 0 \<noteq> None | _ \<Rightarrow> True)"
  by (auto simp: quit_go_def split: option.splits sum.splits)

abbreviation quit_reach :: "nat \<Rightarrow> quitter \<Rightarrow> bool" where
  "quit_reach n \<equiv> reach (\<lambda>q. q = quit_init n) quit_step"

abbreviation lucky_reach :: "nat \<Rightarrow> quitter \<Rightarrow> bool" where
  "lucky_reach n \<equiv> reach (\<lambda>q. q = quit_init n) lucky_step"

text \<open>\<open>addclient\<close> and \<open>fork\<close> together are the step of \<open>Echo\<close>, and \<open>waitpid\<close> and \<open>delclient\<close> are.\<close>

lemma add_fork:
  "quit_do (Add p) q = Some (Inr r) \<Longrightarrow> quit_do Fork_child r = Some (Inr t) \<Longrightarrow> tab t = main_loop p (tab q)"
  by (auto simp: main_loop_def split: prod.splits if_splits)

lemma waitpid_delclient:
  "quit_do (Waitpid p) q = Some (Inr r) \<Longrightarrow> quit_do Delclient r = Some (Inr t) \<Longrightarrow> sigchld_handler p (tab q) = Inr (tab t)"
  by (auto simp: sigchld_handler_def split: if_splits sum.splits)

section \<open>The invariant without bad moments\<close>

text \<open>The table with the child that is about to be forked.\<close>

fun whole :: "main_place \<Rightarrow> server \<Rightarrow> server" where
  "whole (M_added c p) s = s\<lparr>kids := (kids s)(p \<mapsto> Starting c)\<rparr>"
| "whole _ s = s"

text \<open>The state of \<open>Echo\<close> that a state stands for: with that child, or with the zombie whose client is about to be deleted.\<close>

definition stands_for :: "quitter \<Rightarrow> server \<Rightarrow> bool" where
  "stands_for q s \<longleftrightarrow> (case handler_at q of
     H_reaped p \<Rightarrow> kids (tab q) p = None \<and> (\<exists>c. s = (tab q)\<lparr>kids := (kids (tab q))(p \<mapsto> Zombie c)\<rparr>)
   | _ \<Rightarrow> s = whole (main_at q) (tab q))"

definition no_bad_moment :: "quitter \<Rightarrow> bool" where
  "no_bad_moment q \<longleftrightarrow> hung q = {} \<and>
     (handler_at q \<noteq> H_none \<longrightarrow> \<not> chld_blocked q \<and> int_at q \<in> {I_none, I_test, I_suspended}) \<and>
     (\<forall>c p. main_at q = M_added c p \<longrightarrow> int_at q = I_none \<and> chld_blocked q \<and> 0 < p \<and> kids (tab q) p = None) \<and>
     (main_at q = M_connected \<longrightarrow> int_at q = I_none \<longrightarrow> chld_blocked q) \<and>
     (int_at q \<noteq> I_none \<longrightarrow> \<not> chld_blocked q) \<and>
     (int_at q = I_checked \<or> int_at q = I_suspended \<and> handler_at q = H_none \<longrightarrow> nclients (tab q) \<noteq> 0) \<and>
     (\<forall>k. int_at q = I_done k \<longrightarrow> k = total (tab q) \<and> pids q = [])"

definition pids_ok :: "quitter \<Rightarrow> bool" where
  "pids_ok q \<longleftrightarrow> distinct (pids q) \<and> (\<forall>p. kids (tab q) p \<noteq> None \<longleftrightarrow> p \<in> set (pids q)) \<and>
     (\<forall>p\<in>set (pids q). zombie (tab q) p \<longrightarrow> chld_pending q \<or> handler_at q \<noteq> H_none)"

definition quit_inv :: "nat \<Rightarrow> quitter \<Rightarrow> bool" where
  "quit_inv n q \<longleftrightarrow> (\<exists>s. stands_for q s \<and> server_inv n s) \<and> pids_ok q \<and> no_bad_moment q"

lemma quit_invD:
  assumes "quit_inv n q"
  shows "pids_ok q" "no_bad_moment q"
  using assms by (simp_all add: quit_inv_def)

text \<open>The handler of \<open>SIGCHLD\<close> does not run while a client is added and not forked.\<close>

lemma added_quiet: "no_bad_moment q \<Longrightarrow> main_at q = M_added c p \<Longrightarrow> handler_at q = H_none"
  unfolding no_bad_moment_def by blast

lemma stands_for_tab:
  assumes "stands_for q s" and "\<And>c p. main_at q \<noteq> M_added c p" and "\<And>p. handler_at q \<noteq> H_reaped p"
  shows "s = tab q"
  using assms by (cases "main_at q"; cases "handler_at q") (auto simp: stands_for_def)

lemma plain_server:
  assumes "quit_inv n q" and "\<And>c p. main_at q \<noteq> M_added c p" and "\<And>p. handler_at q \<noteq> H_reaped p"
  shows "server_inv n (tab q)"
  using assms stands_for_tab unfolding quit_inv_def by blast

lemma child_event_kids:
  assumes "child_event hs e" and "server_do e s = Some (Inr t)"
  shows "kids t p = None \<longleftrightarrow> kids s p = None" and "zombie t p \<Longrightarrow> zombie s p \<or> child_dies e t" and "nclients t = nclients s"
    and "\<exists>p. kids s p \<noteq> None"
  using assms
  by (cases e; auto simp: child_start_def echo_def zombie_def child_dies_def split: option.splits kid.splits if_splits)+

lemma child_event_beside:
  assumes "child_event hs e" and "server_do e s = Some (Inr t)" and "kids s p = None"
  shows "server_do e (s\<lparr>kids := (kids s)(p \<mapsto> k)\<rparr>) = Some (Inr (t\<lparr>kids := (kids t)(p \<mapsto> k)\<rparr>))"
  using assms
  by (cases e) (auto simp: child_start_def echo_def fun_upd_twist split: option.splits kid.splits if_splits)

lemma child_event_inv: "child_event hs e \<Longrightarrow> server_do e s = Some (Inr t) \<Longrightarrow> server_inv n s \<Longrightarrow> server_inv n t"
  using server_do_inv[of n s e "Inr t"] by (cases e) auto

lemma quit_inv_Child:
  assumes inv: "quit_inv n q" and e: "child_event (hung q) e" "server_do e (tab q) = Some (Inr t)"
  shows "quit_inv n (q\<lparr>tab := t, chld_pending := chld_pending q \<or> child_dies e t\<rparr>)" (is "quit_inv n ?r")
proof -
  note k = child_event_kids[OF e] and beside = child_event_beside[OF e]
  from inv obtain s where s: "stands_for q s" "server_inv n s" "pids_ok q" "no_bad_moment q" unfolding quit_inv_def by blast
  have "\<exists>s'. server_do e s = Some (Inr s') \<and> stands_for ?r s'"
  proof (cases "handler_at q")
    case (H_reaped p)
    then obtain c where "kids (tab q) p = None" "s = (tab q)\<lparr>kids := (kids (tab q))(p \<mapsto> Zombie c)\<rparr>" using s(1) by (auto simp: stands_for_def)
    then show ?thesis using beside[of p "Zombie c"] H_reaped k(1)[of p] by (auto simp: stands_for_def)
  qed (use s(1,4) beside e(2) in \<open>cases "main_at q"; auto simp: stands_for_def no_bad_moment_def\<close>)+
  then have "\<exists>s'. stands_for ?r s' \<and> server_inv n s'" using child_event_inv[OF e(1) _ s(2)] by blast
  moreover have "pids_ok ?r" using s(3) k(1,2) unfolding pids_ok_def by auto
  moreover have "pids q \<noteq> []" using k(4) s(3) unfolding pids_ok_def by force
  then have "no_bad_moment ?r" using s(4) k(1,3) unfolding no_bad_moment_def by simp
  ultimately show ?thesis unfolding quit_inv_def by blast
qed

text \<open>The handler of \<open>SIGCHLD\<close> deletes a client whose process it has taken.\<close>

lemma delclient_inv:
  assumes "quit_inv n q" and "handler_at q = H_reaped p"
  shows "\<exists>t. delclient p (tab q) = Inr t \<and> server_inv n t \<and> kids t = kids (tab q) \<and> total t = total (tab q)"
proof -
  obtain c where c: "kids (tab q) p = None" "server_inv n ((tab q)\<lparr>kids := (kids (tab q))(p \<mapsto> Zombie c)\<rparr>)" (is "server_inv n ?s")
    using assms by (auto simp: quit_inv_def stands_for_def)
  have k: "kids ?s p = Some (Zombie c)" by simp
  obtain t where t: "sigchld_handler p ?s = Inr t" "server_inv n t" using reap_inv[OF c(2) k] by blast
  then have d: "server_do (Reap p) ?s = Some (Inr t)" using k by simp
  have "?s\<lparr>kids := (kids ?s)(p := None)\<rparr> = tab q" using c(1) by (simp add: fun_upd_idem)
  then have "delclient p (tab q) = Inr t" using t(1) unfolding sigchld_handler_def by metis
  moreover have "kids t = (kids ?s)(p := None)" using server_do_kids(6)[OF c(2) d refl] by blast
  then have "kids t = kids (tab q)" using c(1) by (simp add: fun_upd_idem)
  ultimately show ?thesis using t(2) server_do_kids(1)[OF c(2) d] by simp
qed

lemma quit_inv_handler:
  assumes inv: "quit_inv n q" and d: "quit_do h q = Some (Inr r)"
    and h: "h = Sigchld \<and> int_at q \<noteq> I_checked \<or> h = Waitpid p \<or> h = Waitpid_none \<or> h = Delclient"
  shows "quit_inv n r"
proof -
  obtain s where s: "stands_for q s" "server_inv n s" "pids_ok q" "no_bad_moment q" using inv unfolding quit_inv_def by blast
  consider (sigchld) "h = Sigchld" "int_at q \<noteq> I_checked" | (waitpid) "h = Waitpid p" | (none) "h = Waitpid_none" | (delclient) "h = Delclient"
    using h by blast
  then show ?thesis
  proof cases
    case sigchld
    then have c: "\<not> chld_blocked q" "handler_at q = H_none" "\<not> quit_over q" and r: "r = q\<lparr>handler_at := H_loop, chld_pending := False\<rparr>"
      using d by (auto split: if_splits)
    then have "int_at q \<in> {I_none, I_test, I_suspended}" using sigchld(2) by (cases "int_at q") (auto simp: quit_over_def)
    then show ?thesis using s c unfolding quit_inv_def r by (auto simp: stands_for_def pids_ok_def no_bad_moment_def)
  next
    case waitpid
    then have c: "handler_at q = H_loop" "zombie (tab q) p"
      and r: "r = q\<lparr>tab := (tab q)\<lparr>kids := (kids (tab q))(p := None)\<rparr>, pids := filter (\<lambda>x. x \<noteq> p) (pids q), handler_at := H_reaped p\<rparr>"
      using d by (auto split: if_splits)
    then obtain k where k: "kids (tab q) p = Some (Zombie k)" by (auto simp: zombie_def split: option.splits kid.splits)
    have "main_at q \<noteq> M_added c' p'" for c' p' using added_quiet[OF s(4)] c(1) by auto
    then have "s = tab q" using stands_for_tab[OF s(1)] c(1) by simp
    moreover have "(tab r)\<lparr>kids := (kids (tab r))(p \<mapsto> Zombie k)\<rparr> = tab q" using k r by (simp add: fun_upd_idem)
    ultimately have "stands_for r s" unfolding stands_for_def using r by (auto intro!: exI[of _ k])
    moreover have "pids_ok r" using s(3) k unfolding pids_ok_def r by (auto simp: zombie_def)
    moreover have "no_bad_moment r" using s(4) c(1) added_quiet[OF s(4)] unfolding no_bad_moment_def r by auto
    ultimately show ?thesis using s(2) unfolding quit_inv_def by blast
  next
    case none
    then have c: "handler_at q = H_loop" "\<forall>p\<in>set (pids q). \<not> zombie (tab q) p"
      and r: "r = q\<lparr>handler_at := H_none, int_at := (if int_at q = I_suspended then I_test else int_at q)\<rparr>"
      using d by (auto split: if_splits)
    have m: "main_at q \<noteq> M_added c' p'" for c' p' using added_quiet[OF s(4)] c(1) by auto
    have "stands_for r s" using s(1) c(1) unfolding r by (simp add: stands_for_def)
    moreover have "pids_ok r" using s(3) c(2) unfolding pids_ok_def r by auto
    moreover have "no_bad_moment r" using s(4) c(1) m unfolding no_bad_moment_def r by auto
    ultimately show ?thesis using s(2) unfolding quit_inv_def by blast
  next
    case delclient
    then obtain p where c: "handler_at q = H_reaped p" using d by (auto split: chld_place.splits)
    then obtain t where t: "delclient p (tab q) = Inr t" "server_inv n t" "kids t = kids (tab q)" "total t = total (tab q)"
      using delclient_inv[OF inv] by blast
    then have r: "r = q\<lparr>tab := t, handler_at := H_loop\<rparr>" using d c delclient by simp
    have m: "main_at q \<noteq> M_added c' p'" for c' p' using added_quiet[OF s(4)] c by auto
    then have "stands_for r t" unfolding r by (cases "main_at q") (auto simp: stands_for_def)
    moreover have "pids_ok r" using s(3) t(3) c unfolding pids_ok_def r by (auto simp: zombie_def)
    moreover have "no_bad_moment r" using s(4) t(3,4) c m unfolding no_bad_moment_def r by auto
    ultimately show ?thesis using t(2) unfolding quit_inv_def by blast
  qed
qed

text \<open>The loop of \<open>main\<close>, and \<open>SIGINT\<close>.\<close>

lemma quit_inv_main:
  assumes inv: "quit_inv n q" and d: "quit_do h q = Some (Inr r)" and h: "h \<in> {Connection, Add p, Fork_child, Unblock}"
    and room: "case h of Add p \<Rightarrow> findclient (clients (tab q)) 0 \<noteq> None | _ \<Rightarrow> True"
  shows "quit_inv n r"
proof -
  obtain s where s: "stands_for q s" "server_inv n s" "pids_ok q" "no_bad_moment q" using inv unfolding quit_inv_def by blast
  have run: "int_at q = I_none" "handler_at q = H_none" using d h by (auto simp: main_runs_def split: if_splits)
  then have sw: "s = whole (main_at q) (tab q)" using s(1) by (simp add: stands_for_def)
  consider "h = Connection" | "h = Add p" | "h = Fork_child" | "h = Unblock" using h by blast
  then show ?thesis
  proof cases
    case 1
    then have "main_at q = M_accept" "r = q\<lparr>main_at := M_connected, chld_blocked := True\<rparr>" using d by (auto split: if_splits)
    then show ?thesis using s run unfolding quit_inv_def by (auto simp: stands_for_def pids_ok_def no_bad_moment_def)
  next
    case 2
    then have p: "main_at q = M_connected" "0 < p" "kids (tab q) p = None"
      and r: "r = q\<lparr>tab := fst (addclient (tab q)), main_at := M_added (snd (addclient (tab q))) p\<rparr>"
      using d by (auto split: if_splits prod.splits)
    have i: "server_inv n (tab q)" "chld_blocked q" using sw s(2,4) p(1) run by (auto simp: no_bad_moment_def)
    have "server_inv n (main_loop p (tab q))" using accept_inv[OF i(1) p(2,3)] room 2 by simp
    moreover have w: "main_loop p (tab q) = whole (main_at r) (tab r)" "kids (tab r) = kids (tab q)"
      using r by (auto simp: main_loop_def addclient_def split: prod.splits option.splits)
    then have "stands_for r (main_loop p (tab q))" using run(2) unfolding stands_for_def r by simp
    moreover have "pids_ok r" using s(3) w(2) r unfolding pids_ok_def by (auto simp: zombie_def)
    moreover have "no_bad_moment r" using s(4) p i(2) run w(2) r unfolding no_bad_moment_def by auto
    ultimately show ?thesis unfolding quit_inv_def by blast
  next
    case 3
    then obtain c x where m: "main_at q = M_added c x"
      and r: "r = q\<lparr>tab := (tab q)\<lparr>kids := (kids (tab q))(x \<mapsto> Starting c)\<rparr>, pids := pids q @ [x], main_at := M_forked\<rparr>"
      using d by (auto split: if_splits main_place.splits)
    have "stands_for r s" using sw m run(2) unfolding r by (simp add: stands_for_def)
    moreover have "kids (tab q) x = None" using s(4) m by (auto simp: no_bad_moment_def)
    then have "x \<notin> set (pids q)" using s(3) unfolding pids_ok_def by metis
    then have "pids_ok r" using s(3) unfolding pids_ok_def r by (auto simp: zombie_def)
    moreover have "no_bad_moment r" using s(4) run unfolding no_bad_moment_def r by auto
    ultimately show ?thesis using s(2) unfolding quit_inv_def by blast
  next
    case 4
    then have "main_at q = M_forked" "r = q\<lparr>main_at := M_accept, chld_blocked := False\<rparr>" using d by (auto split: if_splits)
    then show ?thesis using s run unfolding quit_inv_def by (auto simp: stands_for_def pids_ok_def no_bad_moment_def)
  qed
qed

lemma quit_inv_sigint:
  assumes inv: "quit_inv n q" and d: "quit_do h q = Some (Inr r)" and h: "h \<in> {Sigint, Sigint_handler}" and "\<not> bad_moment h q"
  shows "quit_inv n r"
proof -
  obtain s where s: "stands_for q s" "server_inv n s" "pids_ok q" "no_bad_moment q" using inv unfolding quit_inv_def by blast
  have run: "handler_at q = H_none" using d h assms(4) by (auto simp: bad_moment_def split: if_splits)
  have m: "main_at q \<noteq> M_added c p" for c p
    using d h assms(4) s(4) by (auto simp: bad_moment_def no_bad_moment_def split: if_splits)
  have t: "server_inv n (tab q)" using plain_server[OF inv m] run by simp
  have same: "stands_for (q\<lparr>int_at := i, chld_blocked := b\<rparr>) s" for i b using s(1) run by (simp add: stands_for_def)
  have p: "pids_ok (q\<lparr>int_at := i, chld_blocked := b\<rparr>)" for i b using s(3) by (simp add: pids_ok_def)
  consider (sigint) "int_at q = I_none" "r = q\<lparr>int_at := I_test, chld_blocked := False\<rparr>"
    | (ended) "int_at q = I_test" "nclients (tab q) = 0" "r = q\<lparr>int_at := I_done (nread (tab q)), chld_blocked := chld_blocked q\<rparr>"
    | (checked) "int_at q = I_test" "nclients (tab q) \<noteq> 0" "r = q\<lparr>int_at := I_checked, chld_blocked := chld_blocked q\<rparr>"
    | (suspended) "int_at q = I_checked" "r = q\<lparr>int_at := I_suspended, chld_blocked := chld_blocked q\<rparr>"
    using d h run by (auto split: int_place.splits if_splits)
  then show ?thesis
  proof cases
    case sigint
    then have "no_bad_moment r" using s(4) run m unfolding no_bad_moment_def by simp
    then show ?thesis using same p s(2) unfolding quit_inv_def sigint(2) by blast
  next
    case ended
    have "x \<notin> set (pids q)" for x using no_clients_left(1)[OF t ended(2), of x] s(3) unfolding pids_ok_def by metis
    then have "pids q = []" by (cases "pids q") auto
    then have "no_bad_moment r" using s(4) run m ended(1) no_clients_left(2)[OF t ended(2)] unfolding no_bad_moment_def ended(3) by simp
    then show ?thesis using same p s(2) unfolding quit_inv_def ended(3) by blast
  next
    case checked
    then have "no_bad_moment r" using s(4) run m unfolding no_bad_moment_def by simp
    then show ?thesis using same p s(2) unfolding quit_inv_def checked(3) by blast
  next
    case suspended
    then have "no_bad_moment r" using s(4) run m unfolding no_bad_moment_def by simp
    then show ?thesis using same p s(2) unfolding quit_inv_def suspended(2) by blast
  qed
qed

lemma quit_inv_step:
  assumes "lucky_step q r" and inv: "quit_inv n q"
  shows "quit_inv n r"
proof -
  obtain h where h: "quit_do h q = Some (Inr r)" "\<not> bad_moment h q"
    "case h of Add p \<Rightarrow> findclient (clients (tab q)) 0 \<noteq> None | _ \<Rightarrow> True" using assms(1) unfolding lucky_step_def quit_go_Some by blast
  show ?thesis
  proof (cases h)
    case (Child e)
    then have e: "child_event (hung q) e" using h(1) by (auto split: if_splits)
    then obtain t where t: "server_do e (tab q) = Some (Inr t)" "r = q\<lparr>tab := t, chld_pending := chld_pending q \<or> child_dies e t\<rparr>"
      using h(1) Child by (auto split: option.splits sum.splits)
    show ?thesis unfolding t(2) by (rule quit_inv_Child[OF inv e t(1)])
  next
    case Sigchld
    then show ?thesis using quit_inv_handler[OF inv h(1)] h(2) by (simp add: bad_moment_def)
  next
    case (Child_sigint p)
    then show ?thesis using h(2) by (simp add: bad_moment_def)
  qed (use quit_inv_main[OF inv h(1) _ h(3)] quit_inv_handler[OF inv h(1)] quit_inv_sigint[OF inv h(1) _ h(2)] in blast)+
qed

section \<open>The server ends\<close>

definition kid_rank :: "kid option \<Rightarrow> nat" where
  "kid_rank k = (case k of None \<Rightarrow> 0 | Some (Starting c) \<Rightarrow> 3 | Some (Serving j) \<Rightarrow> 2 | Some (Zombie c) \<Rightarrow> 1)"

lemma kid_rank_simps [simp]:
  "kid_rank None = 0" "kid_rank (Some (Starting c)) = 3" "kid_rank (Some (Serving j)) = 2" "kid_rank (Some (Zombie c)) = 1"
  by (simp_all add: kid_rank_def)

definition kids_work :: "quitter \<Rightarrow> nat" where
  "kids_work q = sum_list (map (\<lambda>p. kid_rank (kids (tab q) p)) (pids q))"

text \<open>What is left: the work of the children, the loop of \<open>main\<close>, the handler of \<open>SIGCHLD\<close> and that of \<open>SIGINT\<close>.\<close>

definition handler_work :: "quitter \<Rightarrow> nat" where
  "handler_work q = (case handler_at q of H_none \<Rightarrow> (if pids q = [] then 0 else 6) | H_loop \<Rightarrow> 4 | H_reaped p \<Rightarrow> 5)"

definition quit_work :: "quitter \<Rightarrow> nat" where
  "quit_work q = 10 * (kids_work q + (case main_at q of M_added c p \<Rightarrow> 4 | _ \<Rightarrow> 0)) + handler_work q +
     (case int_at q of I_none \<Rightarrow> 5 | I_test \<Rightarrow> 3 | I_checked \<Rightarrow> 2 | I_suspended \<Rightarrow> 1 | I_done k \<Rightarrow> 0)"

lemma closer_step:
  assumes "quit_go h q = Some r" and "\<not> bad_moment h q" and "quit_work r < quit_work q"
  shows "\<exists>r. lucky_step q r \<and> quit_work r < quit_work q"
  using assms unfolding lucky_step_def by blast

lemma closer_child:
  assumes p: "p \<in> set (pids q)" and e: "child_event (hung q) e" "server_do e (tab q) = Some (Inr t)"
    and k: "kids t = (kids (tab q))(p := k)" "kid_rank k < kid_rank (kids (tab q) p)"
  shows "\<exists>r. lucky_step q r \<and> quit_work r < quit_work q"
proof (rule closer_step)
  let ?r = "q\<lparr>tab := t, chld_pending := chld_pending q \<or> child_dies e t\<rparr>"
  show "quit_go (Child e) q = Some ?r" using e by (simp add: quit_go_Some)
  have "kids_work ?r < kids_work q"
    unfolding kids_work_def using sum_list_less[of "pids q" "\<lambda>p. kid_rank (kids t p)" "\<lambda>p. kid_rank (kids (tab q) p)" p] p k by auto
  then show "quit_work ?r < quit_work q" by (simp add: quit_work_def handler_work_def)
qed (simp add: bad_moment_def)

text \<open>A child that is not a zombie can go on to its end.\<close>

lemma closer_living:
  assumes inv: "quit_inv n q" and s: "server_inv n (tab q)" and p: "p \<in> set (pids q)" "\<not> zombie (tab q) p"
  shows "\<exists>r. lucky_step q r \<and> quit_work r < quit_work q"
proof -
  have h: "hung q = {}" using quit_invD(2)[OF inv] by (simp add: no_bad_moment_def)
  obtain k where k: "kids (tab q) p = Some k" using quit_invD(1)[OF inv] p(1) by (fastforce simp: pids_ok_def)
  show ?thesis
  proof (cases k)
    case (Starting c)
    then obtain j where "c = Some j" using k s kid_okD[of "clients (tab q)" "kids (tab q)" p] by (auto simp: server_inv_def)
    then show ?thesis using k Starting h
      by (intro closer_child[OF p(1), of "Child_start p" _ "Some (Serving j)"]) (auto simp: child_start_def kid_rank_def)
  next
    case (Serving j)
    then show ?thesis using k h
      by (intro closer_child[OF p(1), of "Exit p" _ "Some (Zombie (Some j))"]) (auto simp: kid_rank_def)
  qed (use p k in \<open>simp add: zombie_def\<close>)
qed

lemma sum_list_filter_less:
  "p \<in> set ps \<Longrightarrow> 0 < f p \<Longrightarrow> sum_list (map f (filter (\<lambda>x. x \<noteq> p) ps)) < (sum_list (map f ps) :: nat)"
proof (induction ps)
  case (Cons x ps)
  have "sum_list (map f (filter (\<lambda>x. x \<noteq> p) ps)) \<le> sum_list (map f ps)" by (induction ps) auto
  then show ?case using Cons by (cases "p \<in> set ps") auto
qed simp

lemma closer_handler:
  assumes inv: "quit_inv n q" and "handler_at q \<noteq> H_none"
  shows "\<exists>r. lucky_step q r \<and> quit_work r < quit_work q"
proof -
  have inv': "pids_ok q" "no_bad_moment q" using quit_invD[OF inv] by simp_all
  have m: "main_at q \<noteq> M_added c p" for c p using added_quiet[OF inv'(2)] assms(2) by auto
  show ?thesis
  proof (cases "handler_at q")
    case (H_reaped p)
    then obtain t where t: "delclient p (tab q) = Inr t" "kids t = kids (tab q)" using delclient_inv[OF inv] by blast
    let ?r = "q\<lparr>tab := t, handler_at := H_loop\<rparr>"
    show ?thesis
    proof (rule closer_step)
      show "quit_go Delclient q = Some ?r" using H_reaped t(1) by (simp add: quit_go_Some)
      show "quit_work ?r < quit_work q" using H_reaped t(2) by (simp add: quit_work_def handler_work_def kids_work_def)
    qed (simp add: bad_moment_def)
  next
    case H_loop
    have s: "server_inv n (tab q)" using plain_server[OF inv m] H_loop by simp
    consider (living) p where "p \<in> set (pids q)" "\<not> zombie (tab q) p" | (zombies) p where "p \<in> set (pids q)" "zombie (tab q) p" | (none) "pids q = []"
      by (cases "pids q") auto
    then show ?thesis
    proof cases
      case living
      then show ?thesis using closer_living[OF inv s] by blast
    next
      case zombies
      let ?r = "q\<lparr>tab := (tab q)\<lparr>kids := (kids (tab q))(p := None)\<rparr>, pids := filter (\<lambda>x. x \<noteq> p) (pids q), handler_at := H_reaped p\<rparr>"
      have "0 < kid_rank (kids (tab q) p)" using zombies(2) by (auto simp: zombie_def split: option.splits kid.splits)
      from sum_list_filter_less[OF zombies(1), of "\<lambda>p. kid_rank (kids (tab q) p)", OF this]
      moreover have "map (\<lambda>x. kid_rank (kids (tab ?r) x)) (pids ?r) = map (\<lambda>x. kid_rank (kids (tab q) x)) (filter (\<lambda>x. x \<noteq> p) (pids q))" by simp
      ultimately have "kids_work ?r < kids_work q" unfolding kids_work_def by (simp only:)
      then have "quit_work ?r < quit_work q" using H_loop by (simp add: quit_work_def handler_work_def)
      moreover have "quit_go (Waitpid p) q = Some ?r" using H_loop zombies(2) by (simp add: quit_go_Some)
      ultimately show ?thesis by (intro closer_step[of "Waitpid p" q ?r]) (simp_all add: bad_moment_def)
    next
      case none
      let ?r = "q\<lparr>handler_at := H_none, int_at := (if int_at q = I_suspended then I_test else int_at q)\<rparr>"
      have "quit_go Waitpid_none q = Some ?r" using H_loop none by (simp add: quit_go_Some)
      moreover have "quit_work ?r < quit_work q" using H_loop none by (simp add: quit_work_def handler_work_def kids_work_def)
      ultimately show ?thesis by (intro closer_step[of Waitpid_none q ?r]) (simp_all add: bad_moment_def)
    qed
  qed (use assms(2) in simp)
qed

lemma closer_interrupted:
  assumes inv: "quit_inv n q" and "int_at q \<noteq> I_none" and "\<not> (\<exists>k. int_at q = I_done k)" and h: "handler_at q = H_none"
  shows "\<exists>r. lucky_step q r \<and> quit_work r < quit_work q"
proof -
  have inv': "pids_ok q" "no_bad_moment q" using quit_invD[OF inv] by simp_all
  have m: "main_at q \<noteq> M_added c p" for c p using inv'(2) assms(2) by (auto simp: no_bad_moment_def)
  have s: "server_inv n (tab q)" using plain_server[OF inv m] h by simp
  have i: "int_at q \<in> {I_test, I_checked, I_suspended}" using assms(2,3) by (cases "int_at q") auto
  consider (living) p where "p \<in> set (pids q)" "\<not> zombie (tab q) p" | (checked) "int_at q = I_checked"
    | (zombies) "int_at q \<in> {I_test, I_suspended}" "pids q \<noteq> []" "\<forall>p\<in>set (pids q). zombie (tab q) p" | (none) "int_at q \<in> {I_test, I_suspended}" "pids q = []"
    using i by blast
  then show ?thesis
  proof cases
    case living
    then show ?thesis using closer_living[OF inv s] by blast
  next
    case checked
    let ?r = "q\<lparr>int_at := I_suspended\<rparr>"
    have "quit_go Sigint_handler q = Some ?r" using checked h by (simp add: quit_go_Some)
    moreover have "quit_work ?r < quit_work q" using checked by (simp add: quit_work_def handler_work_def kids_work_def)
    ultimately show ?thesis by (intro closer_step[of Sigint_handler q ?r]) (simp_all add: bad_moment_def)
  next
    case zombies
    let ?r = "q\<lparr>handler_at := H_loop, chld_pending := False\<rparr>"
    have "chld_pending q" "\<not> chld_blocked q"
      using zombies inv' h by (cases "pids q"; auto simp: pids_ok_def no_bad_moment_def)+
    then have "quit_go Sigchld q = Some ?r" using h zombies(1) by (auto simp: quit_go_Some quit_over_def)
    moreover have "quit_work ?r < quit_work q" using zombies(2) h by (simp add: quit_work_def handler_work_def kids_work_def)
    ultimately show ?thesis using zombies(1) by (intro closer_step[of Sigchld q ?r]) (auto simp: bad_moment_def)
  next
    case none
    then have "kids (tab q) p = None" for p using inv'(1) by (auto simp: pids_ok_def)
    then have n: "nclients (tab q) = 0" using client_kid[OF s] by force
    with none(1) inv'(2) h have t: "int_at q = I_test" by (auto simp: no_bad_moment_def)
    let ?r = "q\<lparr>int_at := I_done (nread (tab q))\<rparr>"
    have "quit_go Sigint_handler q = Some ?r" using t n h by (simp add: quit_go_Some)
    moreover have "quit_work ?r < quit_work q" using t by (simp add: quit_work_def handler_work_def kids_work_def)
    ultimately show ?thesis by (intro closer_step[of Sigint_handler q ?r]) (simp_all add: bad_moment_def)
  qed
qed

lemma closer_main:
  assumes inv: "quit_inv n q" and i: "int_at q = I_none" and h: "handler_at q = H_none"
  shows "\<exists>r. lucky_step q r \<and> quit_work r < quit_work q"
proof (cases "\<exists>c p. main_at q = M_added c p")
  case added: True
  then obtain c p where m: "main_at q = M_added c p" by blast
  let ?r = "q\<lparr>tab := (tab q)\<lparr>kids := (kids (tab q))(p \<mapsto> Starting c)\<rparr>, pids := pids q @ [p], main_at := M_forked\<rparr>"
  have "kids (tab q) p = None" using quit_invD(2)[OF inv] m by (auto simp: no_bad_moment_def)
  then have "p \<notin> set (pids q)" using quit_invD(1)[OF inv] unfolding pids_ok_def by metis
  then have "map (\<lambda>x. kid_rank (((kids (tab q))(p \<mapsto> Starting c)) x)) (pids q) = map (\<lambda>x. kid_rank (kids (tab q) x)) (pids q)"
    by (intro map_cong) auto
  from arg_cong[OF this, of sum_list] have "kids_work ?r = kids_work q + 3"
    using kid_rank_simps(2)[of c] by (simp add: kids_work_def fun_upd_same del: fun_upd_apply)
  then have "quit_work ?r < quit_work q" using m h by (simp add: quit_work_def handler_work_def)
  moreover have "quit_go Fork_child q = Some ?r" using m i h by (simp add: quit_go_Some main_runs_def)
  ultimately show ?thesis by (intro closer_step[of Fork_child q ?r]) (simp_all add: bad_moment_def)
next
  case False
  let ?r = "q\<lparr>int_at := I_test, handler_at := H_none, chld_blocked := False\<rparr>"
  have "quit_go Sigint q = Some ?r" using i by (simp add: quit_go_Some)
  moreover have "quit_work ?r < quit_work q" using i h by (simp add: quit_work_def handler_work_def kids_work_def)
  ultimately show ?thesis using False h
    by (intro closer_step[of Sigint q ?r]) (auto simp: bad_moment_def split: main_place.splits)
qed

lemma quit_closer:
  "quit_inv n q \<Longrightarrow> \<not> (\<exists>k. int_at q = I_done k) \<Longrightarrow> \<exists>r. lucky_step q r \<and> quit_work r < quit_work q"
  using closer_handler closer_interrupted closer_main by blast

interpretation quitting: converging_system "\<lambda>q. q = quit_init n" lucky_step "quit_inv n" "\<lambda>q. \<exists>k. int_at q = I_done k" quit_work
proof unfold_locales
  show "quit_inv n q" if "q = quit_init n" for q
    using that echo_server.inv_init[of "server_init n" n]
    by (simp add: quit_inv_def quit_init_def stands_for_def pids_ok_def no_bad_moment_def) (simp add: server_init_def)
qed (use quit_inv_step quit_closer in blast)+

section \<open>Properties\<close>

text \<open>
  C38: while the table has room, and as long as none of the four bad moments occurs, no assertion of \<open>delclient\<close> fails, the server can always be ended, and the number that it prints is the number of all bytes
  echoed. The bad moments: \<open>SIGINT\<close> between \<open>addclient\<close> and \<open>fork\<close>, in the handler of \<open>SIGCHLD\<close>, and for a child that has not yet asked to ignore it; and
  \<open>SIGCHLD\<close> between the test of \<open>nclients\<close> and \<open>sigsuspend\<close>.
\<close>

theorem quit_lucky:
  assumes "lucky_reach n q"
  shows "(\<exists>r k. lucky_step\<^sup>*\<^sup>* q r \<and> int_at r = I_done k) \<and>
    (\<forall>k. int_at q = I_done k \<longrightarrow> k = total (tab q) \<and> sigint_handler (tab q) = Some k) \<and>
    (\<forall>x. quit_do Delclient q = Some x \<longrightarrow> (\<exists>r. x = Inr r))"
proof (intro conjI allI impI)
  have inv: "quit_inv n q" using quitting.inv_reach[OF assms] .
  show "\<exists>r k. lucky_step\<^sup>*\<^sup>* q r \<and> int_at r = I_done k" using quitting.reachable_can_reach_goal[OF assms] by blast
  show "k = total (tab q)" "sigint_handler (tab q) = Some k" if k: "int_at q = I_done k" for k
  proof -
    have q: "pids_ok q" "no_bad_moment q" using quit_invD[OF inv] by simp_all
    then show e: "k = total (tab q)" using k by (simp add: no_bad_moment_def)
    have "handler_at q = H_none" "main_at q \<noteq> M_added c p" for c p using q(2) k by (auto simp: no_bad_moment_def)
    then have s: "server_inv n (tab q)" by (intro plain_server[OF inv]) auto
    have "kids (tab q) p = None" for p using q k by (auto simp: pids_ok_def no_bad_moment_def)
    then have "nclients (tab q) = 0" using client_kid[OF s] by force
    then show "sigint_handler (tab q) = Some k" using no_clients_left(2)[OF s] e by (simp add: sigint_handler_def)
  qed
  show "\<exists>r. x = Inr r" if x: "quit_do Delclient q = Some x" for x
  proof -
    obtain p where h: "handler_at q = H_reaped p" using x by (auto split: chld_place.splits)
    then show ?thesis using delclient_inv[OF inv h] x by auto
  qed
qed

theorem quit_lucky_witness: "\<exists>r k. lucky_step\<^sup>*\<^sup>* (quit_init 64) r \<and> int_at r = I_done k"
proof -
  have "lucky_reach 64 (quit_init 64)" by (rule reach_init) (rule refl)
  from quit_lucky[OF this] show ?thesis by simp
qed

text \<open>The handler of \<open>SIGINT\<close> waits for a signal that does not come: no child is left, or those that are left wait themselves.\<close>

definition stuck_quit :: "quitter \<Rightarrow> bool" where
  "stuck_quit q \<longleftrightarrow> int_at q = I_suspended \<and> handler_at q = H_none \<and> \<not> chld_pending q \<and>
     (\<forall>p. kids (tab q) p \<noteq> None \<longrightarrow> p \<in> hung q)"

lemma stuck_quit_step:
  assumes "stuck_quit q"
  shows "\<not> quit_step q r"
proof
  assume "quit_step q r"
  then obtain h where h: "quit_do h q = Some (Inr r)" unfolding quit_step_def quit_go_Some by blast
  have k: "kids (tab q) p = None" if "p \<notin> hung q" for p using assms that unfolding stuck_quit_def by blast
  have "\<not> (child_event (hung q) e \<and> server_do e (tab q) = Some x)" for e x by (cases e) (auto simp: k)
  moreover have "\<not> (starting (tab q) p \<and> p \<notin> hung q)" for p using k[of p] by (cases "p \<in> hung q") (auto simp: starting_def)
  ultimately show False using h assms
    by (cases h) (auto simp: stuck_quit_def main_runs_def split: if_splits option.splits)
qed

lemma quit_run_reach: "run_schedule quit_go hs q = Some r \<Longrightarrow> quit_reach n q \<Longrightarrow> quit_reach n r"
  by (rule run_schedule_reach) (auto simp: quit_step_def)

text \<open>
  C27: in each of the four bad moments the server can come to wait for ever: when \<open>SIGCHLD\<close> for the last child is handled between the test of \<open>nclients\<close> and
  \<open>sigsuspend\<close>, all clients are gone and nothing is printed; when \<open>SIGINT\<close> comes between \<open>addclient\<close> and \<open>fork\<close>, it waits for a client that was
  never served; when it comes in the handler of \<open>SIGCHLD\<close>, between \<open>waitpid\<close> and \<open>delclient\<close>, for a client whose process has been reaped; and when it comes to a child before this
  ignores it, child and server both wait.
\<close>

theorem quit_stuck:
  "(\<exists>q. quit_reach 1 q \<and> nclients (tab q) = 0 \<and> int_at q = I_suspended \<and> (\<forall>r. \<not> quit_step q r)) \<and>
   (\<exists>q. quit_reach 1 q \<and> nclients (tab q) = 1 \<and> int_at q = I_suspended \<and> (\<forall>r. \<not> quit_step q r) \<and> main_at q = M_added (Some 0) 5) \<and>
   (\<exists>q. quit_reach 1 q \<and> nclients (tab q) = 1 \<and> int_at q = I_suspended \<and> (\<forall>r. \<not> quit_step q r) \<and> main_at q = M_accept \<and> pids q = []) \<and>
   (\<exists>q. quit_reach 1 q \<and> nclients (tab q) = 1 \<and> int_at q = I_suspended \<and> (\<forall>r. \<not> quit_step q r) \<and> hung q = {5} \<and> pids q = [5])"
proof -
  let ?served = "[Connection, Add 5, Fork_child, Child (Child_start 5), Unblock]"
  let ?lost = "?served @ [Sigint, Sigint_handler, Child (Exit 5), Sigchld, Waitpid 5, Delclient, Waitpid_none, Sigint_handler]"
  let ?early = "[Connection, Add 5, Sigint, Sigint_handler, Sigint_handler]"
  let ?reaped = "?served @ [Child (Exit 5), Sigchld, Waitpid 5, Sigint, Sigint_handler, Sigint_handler]"
  let ?child = "[Connection, Add 5, Fork_child, Child_sigint 5, Sigint, Sigint_handler, Sigint_handler]"
  note defs = quit_go_def quit_init_def server_init_def findclient_def addclient_def child_start_def child_dies_def zombie_def starting_def
    delclient_def stuck_quit_def main_runs_def quit_over_def
  have stuck: "quit_reach 1 q \<and> int_at q = I_suspended \<and> (\<forall>r. \<not> quit_step q r)"
    if "run_schedule quit_go hs (quit_init 1) = Some q" "stuck_quit q" for hs q
  proof -
    have "quit_reach 1 (quit_init 1)" by (rule reach_init) (rule refl)
    from quit_run_reach[OF that(1) this] show ?thesis using that(2) stuck_quit_step[OF that(2)] by (auto simp: stuck_quit_def)
  qed
  obtain q1 where "run_schedule quit_go ?lost (quit_init 1) = Some q1" "stuck_quit q1" "nclients (tab q1) = 0"
    by (simp add: defs fun_eq_iff)
  moreover obtain q2 where "run_schedule quit_go ?early (quit_init 1) = Some q2" "stuck_quit q2" "nclients (tab q2) = 1" "main_at q2 = M_added (Some 0) 5"
    by (simp add: defs fun_eq_iff)
  moreover obtain q3 where "run_schedule quit_go ?reaped (quit_init 1) = Some q3" "stuck_quit q3" "nclients (tab q3) = 1" "main_at q3 = M_accept" "pids q3 = []"
    by (simp add: defs fun_eq_iff)
  moreover obtain q4 where "run_schedule quit_go ?child (quit_init 1) = Some q4" "stuck_quit q4" "nclients (tab q4) = 1" "hung q4 = {5}" "pids q4 = [5]"
    by (simp add: defs fun_eq_iff)
  ultimately show ?thesis using stuck by blast
qed

end
