(* ===== verification/Templates.thy ===== *)
theory Templates
  imports Queens Ctext Kernel
begin

text \<open>
  Two exercises of list 1 as they were handed out, without a solution. \<open>1/so21_lista_1/het.c\<close> prints a board that it has not set; what is on the stack there
  is a parameter. Its \<open>ndselect\<close> and \<open>conflict\<close> are not called. \<open>1/so21_lista_1/fileref.c\<close> opens a file, chooses an experiment, and ends without
  one.
\<close>

section \<open>\<open>het.c\<close>\<close>

text \<open>The loops of \<open>print_line_sep\<close> and \<open>print_board\<close>, with what is printed after them.\<close>

function template_sep :: "nat \<Rightarrow> nat \<Rightarrow> string" where
  "template_sep i sz = (if i < sz then ''+---'' @ template_sep (i + 1) sz else ''+'' @ [CHR 0x0A])"
  by pat_completeness auto
termination by (relation "measure (\<lambda>(i, sz). sz - i)") auto

function template_cells :: "nat \<Rightarrow> nat \<Rightarrow> int \<Rightarrow> string" where
  "template_cells j sz q =
     (if j < sz then ''|'' @ (if q = int j then '' Q '' else ''   '') @ template_cells (j + 1) sz q else ''|'' @ [CHR 0x0A])"
  by pat_completeness auto
termination by (relation "measure (\<lambda>(j, sz, q). sz - j)") auto

function template_rows :: "nat \<Rightarrow> nat \<Rightarrow> board \<Rightarrow> string" where
  "template_rows i sz board =
     (if i < sz then template_sep 0 sz @ template_cells 0 sz (board ! i) @ template_rows (i + 1) sz board
      else template_sep 0 sz @ [CHR 0x0A])"
  by pat_completeness auto
termination by (relation "measure (\<lambda>(i, sz, board). sz - i)") auto

declare template_sep.simps [simp del] template_cells.simps [simp del] template_rows.simps [simp del]

definition template_main :: "string list \<Rightarrow> board \<Rightarrow> string run" where
  "template_main args stack =
    (if length args \<noteq> 2 then Inl App_error
     else let sz = atoi (args ! 1)
          in if sz < 3 \<or> sz > 9 then Inl App_error else Inr (template_rows 0 (nat sz) (take (nat sz) stack)))"

lemma template_sep: "template_sep i sz = concat (replicate (sz - i) ''+---'') @ ''+'' @ [CHR 0x0A]"
proof (induction i sz rule: template_sep.induct)
  case (1 i sz)
  then show ?case by (cases "i < sz") (simp_all add: template_sep.simps[of i sz] Suc_diff_Suc[symmetric])
qed

lemma template_cells: "template_cells j sz q =
    concat (map (\<lambda>j. ''|'' @ (if q = int j then '' Q '' else ''   '')) [j..<sz]) @ ''|'' @ [CHR 0x0A]"
proof (induction j sz q rule: template_cells.induct)
  case (1 j sz q)
  then show ?case by (cases "j < sz") (simp_all add: template_cells.simps[of j sz q] upt_conv_Cons)
qed

lemma template_rows: "template_rows i sz board =
    concat (map (\<lambda>i. print_line_sep sz @ print_row sz (board ! i)) [i..<sz]) @ print_line_sep sz @ [CHR 0x0A]"
proof (induction i sz board rule: template_rows.induct)
  case (1 i sz board)
  have "template_sep 0 sz = print_line_sep sz" "template_cells 0 sz q = print_row sz q" for q
    by (simp_all add: template_sep print_line_sep_def template_cells print_row_def)
  with 1 show ?case by (cases "i < sz") (simp_all add: template_rows.simps[of i sz board] upt_conv_Cons)
qed

lemma template_print_board: "template_rows 0 sz board = print_board sz board"
  by (simp add: template_rows print_board_def)

section \<open>\<open>fileref.c\<close>\<close>

text \<open>The file \<open>test.txt\<close> is the inode 1, if it exists; the wrapper \<open>Open\<close> ends the process if not.\<close>

definition do_read :: "nat \<Rightarrow> nat run" where
  "do_read fd = Inr 0"

definition do_close :: "nat \<Rightarrow> nat run" where
  "do_close fd = Inr 0"

definition fileref_main :: "string list \<Rightarrow> bool \<Rightarrow> kernel \<Rightarrow> nat run \<times> kernel" where
  "fileref_main args found k =
    (if length args \<noteq> 2 \<or> \<not> found then (Inl App_error, k)
     else let (fd, k) = sys_open 0 1 True k
          in (if args ! 1 = ''read'' then do_read fd else if args ! 1 = ''close'' then do_close fd else Inl App_error, k))"

section \<open>Properties\<close>

lemma count_list_concat: "count_list (concat xss) x = sum_list (map (\<lambda>xs. count_list xs x) xss)"
  by (induction xss) simp_all

lemma queens_in_row: "count_list (print_row sz q) CHR ''Q'' = (if 0 \<le> q \<and> q < int sz then 1 else 0)"
proof -
  have cell: "count_list (''|'' @ (if q = int j then '' Q '' else ''   '')) CHR ''Q'' = (if j = nat q \<and> 0 \<le> q then 1 else 0)" for j by auto
  have "(\<Sum>j\<leftarrow>[0..<sz]. if j = nat q \<and> 0 \<le> q then 1 else (0 :: nat)) = (if 0 \<le> q \<and> nat q < sz then 1 else 0)"
    by (induction sz) auto
  then have "count_list (concat (map (\<lambda>j. ''|'' @ (if q = int j then '' Q '' else ''   '')) [0..<sz])) CHR ''Q'' = (if 0 \<le> q \<and> nat q < sz then 1 else 0)"
    unfolding count_list_concat map_map o_def cell .
  then show ?thesis unfolding print_row_def by (auto simp: nat_less_iff)
qed

text \<open>The template prints what the solved program would print for the same board: one queen in each row whose entry is a column, and none in
  the others. A board of size 3 is printed, although the message asks for 4 to 9.\<close>

theorem template_board:
  assumes "3 \<le> atoi a" and "atoi a \<le> 9" and "length stack = nat (atoi a)"
  shows "\<exists>out. template_main [prog, a] stack = Inr out \<and> out = print_board (nat (atoi a)) stack \<and>
    count_list out CHR ''Q'' = length (filter (\<lambda>q. 0 \<le> q \<and> q < atoi a) stack)"
proof -
  have "count_list (print_line_sep sz) CHR ''Q'' = 0" for sz
    by (simp add: print_line_sep_def count_list_concat sum_list_replicate)
  moreover have "(\<Sum>i\<leftarrow>[0..<length xs]. if 0 \<le> xs ! i \<and> xs ! i < n then 1 else 0) = length (filter (\<lambda>q. 0 \<le> q \<and> q < n) xs)" for xs and n :: int
  proof -
    have "map (\<lambda>i. (if 0 \<le> xs ! i \<and> xs ! i < n then 1 else (0 :: nat))) [0..<length xs] = map (\<lambda>q. if 0 \<le> q \<and> q < n then 1 else 0) xs"
      by (intro nth_equalityI) simp_all
    moreover have "(\<Sum>q\<leftarrow>xs. if 0 \<le> q \<and> q < n then 1 else (0 :: nat)) = length (filter (\<lambda>q. 0 \<le> q \<and> q < n) xs)"
      by (induction xs) auto
    ultimately show ?thesis by simp
  qed
  ultimately have "count_list (print_board (length stack) stack) CHR ''Q'' = length (filter (\<lambda>q. 0 \<le> q \<and> q < int (length stack)) stack)"
    by (simp add: print_board_def count_list_concat o_def queens_in_row)
  then show ?thesis using assms by (simp add: template_main_def template_print_board)
qed

theorem template_board_witness:
  "\<exists>out. template_main [''het'', ''3''] [1, 77, - 5] = Inr out \<and> count_list out CHR ''Q'' = 1"
proof -
  have "atoi ''3'' = 3" by code_simp
  then show ?thesis using template_board[of "''3''" "[1, 77, - 5]" "''het''"] by auto
qed

text \<open>\<open>fileref\<close> neither reads nor closes: whatever its argument, all files and the positions of the open files are as before, and the file that it has opened is at its
  beginning.\<close>

theorem fileref_does_nothing:
  assumes "fileref_main args found k = (r, k')"
  shows "contents k' = contents k \<and> r \<in> {Inl App_error, Inr 0} \<and>
    (ofiles k' = ofiles k \<or> ofiles k' = ofiles k @ [\<lparr>ino = 1, offset = 0, readable = True\<rparr>])"
  using assms
  by (auto simp: fileref_main_def do_read_def do_close_def sys_open_def set_table_def Let_def split: if_splits prod.splits)

theorem fileref_does_nothing_witness: "ofiles (snd (fileref_main [''fileref'', ''read''] True (boot (\<lambda>_. [])))) \<noteq> []"
  using fileref_does_nothing[of "[''fileref'', ''read'']" True "boot (\<lambda>_. [])", OF surjective_pairing]
  by (auto simp: boot_def)

end
