(* ===== verification/Threads.thy ===== *)
theory Threads
  imports Ramen Ride Office
begin

text \<open>
  The function \<open>main\<close> of the programs of list 14: it creates the threads one by one, joins them in the same order, and destroys the shared object. The threads that have been
  created run in the meantime. The models of the programs let all threads run from the beginning; here this is justified: the shared objects can be in the same states in both.
  No thread ever returns, so that \<open>main\<close> waits for ever and the object is never destroyed under the hands of a thread.
\<close>

section \<open>Creating, joining, destroying\<close>

datatype main_pc = Creating | Joining | Destroying | Exited

record 's process =
  shared :: 's
  started :: nat
  joined :: nat
  mpc :: main_pc

text \<open>A step of \<open>main\<close> with \<open>n\<close> threads, of which \<open>returned i s\<close> says that thread \<open>i\<close> has returned.\<close>

definition main_step :: "nat \<Rightarrow> (nat \<Rightarrow> 's \<Rightarrow> bool) \<Rightarrow> 's process \<Rightarrow> 's process option" where
  "main_step n returned s =
    (case mpc s of
       Creating \<Rightarrow> Some (if started s < n then s\<lparr>started := started s + 1\<rparr> else s\<lparr>mpc := Joining\<rparr>)
     | Joining \<Rightarrow>
         (if joined s < n then if returned (joined s) (shared s) then Some (s\<lparr>joined := joined s + 1\<rparr>) else None
          else Some (s\<lparr>mpc := Destroying\<rparr>))
     | Destroying \<Rightarrow> Some (s\<lparr>mpc := Exited\<rparr>)
     | Exited \<Rightarrow> None)"

text \<open>A thread takes a step \<open>e\<close>; \<open>who e\<close> is the number of the thread.\<close>

definition threads_step :: "('e \<Rightarrow> 's \<Rightarrow> 's option) \<Rightarrow> ('e \<Rightarrow> nat) \<Rightarrow> 's process \<Rightarrow> 's process \<Rightarrow> bool" where
  "threads_step do who s t \<longleftrightarrow> mpc s \<noteq> Exited \<and> (\<exists>e u. who e < started s \<and> do e (shared s) = Some u \<and> t = s\<lparr>shared := u\<rparr>)"

definition process_step :: "nat \<Rightarrow> (nat \<Rightarrow> 's \<Rightarrow> bool) \<Rightarrow> ('e \<Rightarrow> 's \<Rightarrow> 's option) \<Rightarrow> ('e \<Rightarrow> nat) \<Rightarrow> 's process \<Rightarrow> 's process \<Rightarrow> bool" where
  "process_step n returned do who s t \<longleftrightarrow> main_step n returned s = Some t \<or> threads_step do who s t"

definition process_start :: "'s \<Rightarrow> 's process" where
  "process_start r = \<lparr>shared = r, started = 0, joined = 0, mpc = Creating\<rparr>"

definition any_step :: "('e \<Rightarrow> 's \<Rightarrow> 's option) \<Rightarrow> 's \<Rightarrow> 's \<Rightarrow> bool" where
  "any_step do r u \<longleftrightarrow> (\<exists>e. do e r = Some u)"

abbreviation whole_reach :: "nat \<Rightarrow> (nat \<Rightarrow> 's \<Rightarrow> bool) \<Rightarrow> ('e \<Rightarrow> 's \<Rightarrow> 's option) \<Rightarrow> ('e \<Rightarrow> nat) \<Rightarrow> 's \<Rightarrow> 's process \<Rightarrow> bool" where
  "whole_reach n returned do who start \<equiv> reach (\<lambda>s. s = process_start start) (process_step n returned do who)"

abbreviation static_reach :: "('e \<Rightarrow> 's \<Rightarrow> 's option) \<Rightarrow> 's \<Rightarrow> 's \<Rightarrow> bool" where
  "static_reach do start \<equiv> reach (\<lambda>r. r = start) (any_step do)"

locale threaded =
  fixes n :: nat and returned :: "nat \<Rightarrow> 's \<Rightarrow> bool" and do :: "'e \<Rightarrow> 's \<Rightarrow> 's option" and who :: "'e \<Rightarrow> nat" and start :: 's
  assumes who_less: "do e r = Some u \<Longrightarrow> who e < n"
    and never_returns: "\<not> returned i r"
    and some_thread: "0 < n"
begin

lemma main_step_shared: "main_step n returned s = Some t \<Longrightarrow> shared t = shared s"
  by (auto simp: main_step_def split: main_pc.splits if_splits)

lemma whole_static: "whole_reach n returned do who start s \<Longrightarrow> static_reach do start (shared s)"
proof (induction rule: reach.induct)
  case (reach_init s)
  then show ?case by (simp add: process_start_def reach.reach_init)
next
  case (reach_step s t)
  then consider "shared t = shared s" | "any_step do (shared s) (shared t)"
    unfolding process_step_def threads_step_def any_step_def using main_step_shared by force
  then show ?case using reach_step.IH by cases (auto intro: reach.reach_step)
qed

lemma created: "k \<le> n \<Longrightarrow> whole_reach n returned do who start (process_start start\<lparr>started := k\<rparr>)"
proof (induction k)
  case 0
  show ?case by (rule reach_init) (simp add: process_start_def)
next
  case (Suc k)
  then have "whole_reach n returned do who start (process_start start\<lparr>started := k\<rparr>)" by simp
  moreover have "process_step n returned do who (process_start start\<lparr>started := k\<rparr>) (process_start start\<lparr>started := Suc k\<rparr>)"
    using Suc.prems by (simp add: process_step_def main_step_def process_start_def)
  ultimately show ?case by (rule reach_step)
qed

lemma static_whole: "static_reach do start r \<Longrightarrow> whole_reach n returned do who start (process_start start\<lparr>started := n, shared := r\<rparr>)"
proof (induction rule: reach.induct)
  case (reach_init r)
  then show ?case using created[of n] by (simp add: process_start_def)
next
  case (reach_step r u)
  then obtain e where e: "do e r = Some u" by (auto simp: any_step_def)
  have "threads_step do who (process_start start\<lparr>started := n, shared := r\<rparr>) (process_start start\<lparr>started := n, shared := u\<rparr>)"
    unfolding threads_step_def using e who_less[OF e] by (auto simp: process_start_def)
  then show ?case using reach_step.IH by (auto simp: process_step_def intro: reach.reach_step)
qed

lemma same_states: "{shared s |s. whole_reach n returned do who start s} = {r. static_reach do start r}"
proof -
  have "\<exists>s. r = shared s \<and> whole_reach n returned do who start s" if "static_reach do start r" for r
    by (rule exI[of _ "process_start start\<lparr>started := n, shared := r\<rparr>"]) (simp add: static_whole[OF that])
  then show ?thesis using whole_static by auto
qed

lemma never_destroyed: "whole_reach n returned do who start s \<Longrightarrow> mpc s \<in> {Creating, Joining} \<and> joined s = 0 \<and> started s \<le> n"
proof (induction rule: reach.induct)
  case (reach_step s t)
  then show ?case using some_thread
    by (auto simp: process_step_def threads_step_def main_step_def never_returns split: if_splits)
qed (simp add: process_start_def)

end

section \<open>The three programs\<close>

text \<open>The customers of the ramen bar.\<close>

fun customer_of :: "Ramen.event \<Rightarrow> nat" where
  "customer_of (Ramen.Arrive i) = i"
| "customer_of (Ramen.Return i) = i"
| "customer_of (Ramen.Finish i ws) = i"
| "customer_of (Ramen.Spurious i) = i"

definition ramen_event :: "nat \<Rightarrow> bool \<Rightarrow> Ramen.event \<Rightarrow> ramen_t \<Rightarrow> ramen_t option" where
  "ramen_event k sp e r = (if spurious e \<and> \<not> sp then None else ramen_do k e r)"

definition ramen_main :: "nat \<Rightarrow> ramen_t process \<Rightarrow> ramen_t process option" where
  "ramen_main k = main_step k (\<lambda>_ _. False)"

abbreviation ramen_process :: "nat \<Rightarrow> bool \<Rightarrow> ramen_t process \<Rightarrow> ramen_t process \<Rightarrow> bool" where
  "ramen_process k sp s t \<equiv> ramen_main k s = Some t \<or> threads_step (ramen_event k sp) customer_of s t"

text \<open>The clerk is the first thread of the office, and the cart the first of the ride.\<close>

fun officer_of :: "Office.event \<Rightarrow> nat" where
  "officer_of (Clerk ws) = 0"
| "officer_of (Customer i) = Suc i"

definition office_main :: "nat \<Rightarrow> office_t process \<Rightarrow> office_t process option" where
  "office_main k = main_step (Suc k) (\<lambda>_ _. False)"

abbreviation office_process :: "nat \<Rightarrow> office_t process \<Rightarrow> office_t process \<Rightarrow> bool" where
  "office_process k s t \<equiv> office_main k s = Some t \<or> threads_step (office_do k) officer_of s t"

fun rider_of :: "Ride.event \<Rightarrow> nat" where
  "rider_of (Cart ws) = 0"
| "rider_of (Board i) = Suc i"
| "rider_of (Board_called i) = Suc i"
| "rider_of (Unboard i) = Suc i"

definition ride_event :: "nat \<Rightarrow> Ride.event \<Rightarrow> ride_t \<Rightarrow> ride_t option" where
  "ride_event k e r = (case ride_do k e r of Some (Inr t) \<Rightarrow> Some t | _ \<Rightarrow> None)"

definition ride_main :: "nat \<Rightarrow> ride_t process \<Rightarrow> ride_t process option" where
  "ride_main k = main_step (Suc k) (\<lambda>_ _. False)"

abbreviation ride_process :: "nat \<Rightarrow> ride_t process \<Rightarrow> ride_t process \<Rightarrow> bool" where
  "ride_process k s t \<equiv> ride_main k s = Some t \<or> threads_step (ride_event k) rider_of s t"

lemma any_step_models:
  "any_step (ramen_event k sp) = ramen_step k sp" "any_step (office_do k) = office_step k" "any_step (ride_event k) = ride_step k"
proof -
  have "ride_event k e r = Some t \<longleftrightarrow> ride_do k e r = Some (Inr t)" for e r t
    by (auto simp: ride_event_def split: option.splits sum.splits)
  then show "any_step (ride_event k) = ride_step k" by (simp add: any_step_def ride_step_def fun_eq_iff)
qed (auto simp: any_step_def ramen_step_def office_step_def ramen_event_def fun_eq_iff)

lemma process_models:
  "process_step k (\<lambda>_ _. False) (ramen_event k sp) customer_of = ramen_process k sp"
  "process_step (Suc k) (\<lambda>_ _. False) (office_do k) officer_of = office_process k"
  "process_step (Suc k) (\<lambda>_ _. False) (ride_event k) rider_of = ride_process k"
  by (simp_all add: process_step_def ramen_main_def office_main_def ride_main_def fun_eq_iff)

interpretation ramen_threads: threaded "Suc k" "\<lambda>_ _. False" "ramen_event (Suc k) sp" customer_of "ramen_init m"
  for k sp m
proof unfold_locales
  show "customer_of e < Suc k" if "ramen_event (Suc k) sp e r = Some u" for e r u
    using that by (cases e) (auto simp: ramen_event_def split: if_splits)
qed simp_all

interpretation office_threads: threaded "Suc k" "\<lambda>_ _. False" "office_do k" officer_of "office_init n"
  for k n
proof unfold_locales
  show "officer_of e < Suc k" if "office_do k e r = Some u" for e r u using that by (cases e) (auto split: if_splits)
qed simp_all

interpretation ride_threads: threaded "Suc k" "\<lambda>_ _. False" "ride_event k" rider_of "ride_init n c"
  for k n c
proof unfold_locales
  show "rider_of e < Suc k" if "ride_event k e r = Some u" for e r u
    using that by (cases e) (auto simp: ride_event_def split: if_splits)
qed simp_all

section \<open>Properties\<close>

text \<open>
  With \<open>main\<close> creating the threads one after the other while the first ones already run, the bar, the office and the ride can be in exactly the states that they can be in when all threads
  run from the beginning, and \<open>main\<close> never comes to destroy them.
\<close>

theorem threads_same:
  "{shared s |s. reach (\<lambda>s. s = process_start (ramen_init m)) (ramen_process (Suc k) sp) s} = {r. ramen_reach (Suc k) sp m r} \<and>
   {shared s |s. reach (\<lambda>s. s = process_start (office_init n)) (office_process k) s} = {r. office_reach k n r} \<and>
   {shared s |s. reach (\<lambda>s. s = process_start (ride_init n c)) (ride_process k) s} = {r. reach (\<lambda>r. r = ride_init n c) (ride_step k) r}"
  using ramen_threads.same_states[of m k sp] office_threads.same_states[of n k] ride_threads.same_states[of n c k]
  by (simp only: any_step_models process_models)

theorem objects_kept:
  assumes "reach (\<lambda>s. s = process_start (ramen_init m)) (ramen_process (Suc k) sp) s"
    and "reach (\<lambda>s. s = process_start (office_init n)) (office_process k) t"
    and "reach (\<lambda>s. s = process_start (ride_init n c)) (ride_process k) u"
  shows "mpc s \<in> {Creating, Joining} \<and> mpc t \<in> {Creating, Joining} \<and> mpc u \<in> {Creating, Joining}"
  using assms ramen_threads.never_destroyed[of m k sp s] office_threads.never_destroyed[of n k t] ride_threads.never_destroyed[of n c k u]
  by (simp only: process_models)

end
