(* ===== verification/Spurious.thy ===== *)
theory Spurious
  imports Ride Office
begin

text \<open>
  Wake-ups without a signal in the ride and in the office, which the library allows. In \<open>14/so21_lista_14/ride.c\<close> and \<open>14/so21_lista_14/office.c\<close> every wait on a condition variable is behind an \<open>if\<close>, or behind nothing, and not in a
  loop, so that a thread that wakes up goes on as if it had been called.
\<close>

section \<open>The ride\<close>

definition ride_wakes :: "nat \<Rightarrow> ride_t \<Rightarrow> ride_t option" where
  "ride_wakes i r =
    (case passengers r i of
       In_queue \<Rightarrow> Some (r\<lparr>passengers := (passengers r)(i := Called)\<rparr>)
     | In_cart \<Rightarrow> Some (r\<lparr>passengers := (passengers r)(i := Departed)\<rparr>)
     | Leaving \<Rightarrow> Some (r\<lparr>passengers := (passengers r)(i := Away)\<rparr>)
     | _ \<Rightarrow> None)"

datatype ride_happening = Ride_event Ride.event | Ride_wakes nat

fun ride_happens :: "nat \<Rightarrow> ride_happening \<Rightarrow> ride_t \<Rightarrow> ride_t run option" where
  "ride_happens k (Ride_event e) r = ride_do k e r"
| "ride_happens k (Ride_wakes i) r = (if i < k then map_option Inr (ride_wakes i r) else None)"

fun ride_story :: "nat \<Rightarrow> ride_happening list \<Rightarrow> ride_t \<Rightarrow> ride_t run option" where
  "ride_story k [] r = Some (Inr r)"
| "ride_story k (h # hs) r = (case ride_happens k h r of Some (Inr t) \<Rightarrow> ride_story k hs t | x \<Rightarrow> x)"

lemma ride_story_events: "ride_story k (map Ride_event es) r = ride_run k es r"
  by (induction es arbitrary: r) (auto split: option.splits sum.splits)

lemma ride_story_append:
  "ride_story k (hs @ gs) r = (case ride_story k hs r of Some (Inr t) \<Rightarrow> ride_story k gs t | x \<Rightarrow> x)"
  by (induction hs arbitrary: r) (auto split: option.splits sum.splits)

section \<open>The office\<close>

definition customer_wakes :: "nat \<Rightarrow> office_t \<Rightarrow> office_t option" where
  "customer_wakes i s =
    (case customers s i of
       On_seat \<Rightarrow> Some (s\<lparr>customers := (customers s)(i := Called_up)\<rparr>)
     | At_window \<Rightarrow> Some (s\<lparr>customers := (customers s)(i := Served)\<rparr>)
     | _ \<Rightarrow> None)"

definition clerk_wakes :: "office_t \<Rightarrow> office_t option" where
  "clerk_wakes s = (if clerk_pc s = Asleep then Some (s\<lparr>clerk_pc := Roused\<rparr>) else None)"

datatype office_happening = Office_event Office.event | Customer_wakes nat | Clerk_wakes

fun office_happens :: "nat \<Rightarrow> office_happening \<Rightarrow> office_t \<Rightarrow> office_t option" where
  "office_happens k (Office_event e) s = office_do k e s"
| "office_happens k (Customer_wakes i) s = (if i < k then customer_wakes i s else None)"
| "office_happens k Clerk_wakes s = clerk_wakes s"

definition office_visit :: "nat \<Rightarrow> office_happening list" where
  "office_visit i = [Office_event (Customer i), Customer_wakes i, Office_event (Customer i), Customer_wakes i, Office_event (Customer i)]"

section \<open>Properties\<close>

text \<open>
  From the start at the platform, from which no assertion fails as long as threads wake up for signals only, one wake-up without a signal is enough: in every state in which all the seats are taken and somebody waits,
  a passenger in the queue who wakes up makes the assertion in \<open>passenger_board\<close> fail.
\<close>

theorem ride_wakes_fail:
  assumes "0 < n" and "reach (\<lambda>r. r = at_platform n c) (ride_step k) r" and "riding r = n" and "i < k" and "passengers r i = In_queue"
  shows "ride_story k [Ride_wakes i, Ride_event (Board_called i)] r = Some (Inl Assert_fails)"
proof -
  have "reach (\<lambda>r. r = at_platform n c \<and> 0 < n) (ride_step k) r" using assms(1,2) by simp
  then have "boarding_inv k n r" using ride.inv_reach by blast
  then have "ride_t.seats r = n" by (simp add: boarding_inv_def)
  then show ?thesis using assms(3-5) by (simp add: ride_wakes_def board_called_def board_in_def Let_def)
qed

theorem ride_wakes_fail_witness:
  "ride_story 3 [Ride_event (Board 0), Ride_event (Board 1), Ride_event (Board 2), Ride_wakes 2, Ride_event (Board_called 2)] (at_platform 2 0) =
     Some (Inl Assert_fails)"
proof -
  let ?es = "[Board 0, Board 1, Board 2]"
  obtain r where r: "ride_run 3 ?es (at_platform 2 0) = Some (Inr r)" "riding r = 2" "passengers r 2 = In_queue"
    by (simp add: at_platform_def ride_init_def passenger_board_def board_in_def sem_post_def)
  have "reach (\<lambda>r. r = at_platform 2 0) (ride_step 3) r" by (rule ride_run_reach[OF r(1)]) (auto intro: reach_init)
  from ride_wakes_fail[OF _ this r(2) _ r(3)] have "ride_story 3 [Ride_wakes 2, Ride_event (Board_called 2)] r = Some (Inl Assert_fails)" by simp
  then have "ride_story 3 (map Ride_event ?es @ [Ride_wakes 2, Ride_event (Board_called 2)]) (at_platform 2 0) = Some (Inl Assert_fails)"
    unfolding ride_story_append ride_story_events r(1) by simp
  then show ?thesis by simp
qed

text \<open>
  A customer who finds a seat and wakes up twice without a signal leaves as served, although the clerk, wherever he is, has done nothing for him: apart from his rousing when he slept, the office is as before.
\<close>

theorem office_unserved:
  assumes "i < k" and "customers s i = Outside" and "waiting s < seats s"
  shows "run_schedule (office_happens k) (office_visit i) s = Some (s\<lparr>clerk_pc := (if clerk_pc s = Asleep then Roused else clerk_pc s)\<rparr>)"
proof -
  have "(customers s)(i := Outside) = customers s" using assms(2) by (simp add: fun_upd_idem)
  then show ?thesis using assms
    by (simp add: office_visit_def customer_walk_in_def walk_in_def customer_wakes_def)
qed

theorem office_unserved_witness: "run_schedule (office_happens 12) (office_visit 7) (office_init 4) = Some (office_init 4)"
  using office_unserved[of 7 12 "office_init 4"] by (simp add: office_init_def)

end
