(* ===== verification/Barrierlive.thy ===== *)
theory Barrierlive
  imports Barrier
begin

text \<open>
  The liveness of the barrier of \<open>13/so21_lista_13/barrier.c\<close> when it is used by as many processes as it is made for: the phases through which its
  first round goes, and after that the open barrier that the third part of \<open>barrier_wait\<close> leaves behind. In no phase all processes wait.
\<close>

section \<open>Places\<close>

text \<open>The holders of \<open>mutex\<close>; the processes that are counted by \<open>waiting\<close> in the first and in the last part; those that will open the first turnstile again.\<close>

definition holding :: "place \<Rightarrow> bool" where
  "holding q \<longleftrightarrow> q \<in> {Arrive, Close_2, Open_1, Unlock_1, Leave, Close_1, Open_2, Unlock_2, Again, Unlock_3}"

definition counted_1 :: "place \<Rightarrow> bool" where
  "counted_1 q \<longleftrightarrow> q \<in> {Unlock_1, Wait_1, Pass_1, Lock_2, Leave}"

definition counted_3 :: "place \<Rightarrow> bool" where
  "counted_3 q \<longleftrightarrow> q \<in> {Unlock_3, Test_3, Wait_3}"

definition reopening :: "place \<Rightarrow> bool" where
  "reopening q \<longleftrightarrow> q \<in> {Pass_1, Pass_3, Post_3}"

abbreviation num :: "nat \<Rightarrow> (place \<Rightarrow> bool) \<Rightarrow> barrier_t \<Rightarrow> nat" where
  "num n P b \<equiv> count_pcs n P (place_of b)"

definition places :: "nat \<Rightarrow> place set \<Rightarrow> barrier_t \<Rightarrow> bool" where
  "places n S b \<longleftrightarrow> (\<forall>i<n. place_of b i \<in> S)"

section \<open>Phases\<close>

definition arriving :: "nat \<Rightarrow> barrier_t \<Rightarrow> bool" where
  "arriving n b \<longleftrightarrow> turnsnile b = 0 \<and> turnsnile2 b = 1 \<and> places n {Outside, Arrive, Unlock_1, Wait_1} b \<and>
     waiting b = int (num n counted_1 b) \<and> num n counted_1 b < n \<and> (\<forall>i<n. rounds b i = 0)"

definition turning_1 :: "nat \<Rightarrow> barrier_t \<Rightarrow> bool" where
  "turning_1 n b \<longleftrightarrow> turnsnile b = 0 \<and> waiting b = int n \<and>
     (\<exists>i<n. (place_of b i = Close_2 \<and> turnsnile2 b = 1 \<or> place_of b i = Open_1 \<and> turnsnile2 b = 0) \<and> (\<forall>j<n. j \<noteq> i \<longrightarrow> place_of b j = Wait_1))"

definition leaving :: "nat \<Rightarrow> barrier_t \<Rightarrow> bool" where
  "leaving n b \<longleftrightarrow> turnsnile2 b = 0 \<and> turnsnile b + num n (\<lambda>q. q = Pass_1) b = 1 \<and>
     places n {Unlock_1, Wait_1, Pass_1, Lock_2, Leave, Unlock_2, Wait_2} b \<and>
     waiting b = int (num n counted_1 b) \<and> 0 < num n counted_1 b"

definition turning_2 :: "nat \<Rightarrow> barrier_t \<Rightarrow> bool" where
  "turning_2 n b \<longleftrightarrow> turnsnile2 b = 0 \<and> waiting b = 0 \<and>
     (\<exists>i<n. (place_of b i = Close_1 \<and> turnsnile b = 1 \<or> place_of b i = Open_2 \<and> turnsnile b = 0) \<and> (\<forall>j<n. j \<noteq> i \<longrightarrow> place_of b j = Wait_2))"

definition counting :: "nat \<Rightarrow> barrier_t \<Rightarrow> bool" where
  "counting n b \<longleftrightarrow> turnsnile b = 0 \<and> turnsnile2 b + num n (\<lambda>q. q = Pass_2) b = 1 \<and>
     places n {Unlock_2, Wait_2, Pass_2, Lock_3, Again, Unlock_3, Test_3, Wait_3} b \<and>
     waiting b = int (num n counted_3 b) \<and> num n counted_3 b < n"

definition all_counted :: "nat \<Rightarrow> barrier_t \<Rightarrow> bool" where
  "all_counted n b \<longleftrightarrow> turnsnile b = 0 \<and> turnsnile2 b = 1 \<and> places n {Unlock_3, Test_3, Wait_3} b \<and> waiting b = int n \<and>
     0 < num n (\<lambda>q. q = Unlock_3 \<or> q = Test_3) b"

definition open_barrier :: "nat \<Rightarrow> barrier_t \<Rightarrow> bool" where
  "open_barrier n b \<longleftrightarrow> 0 < turnsnile b + num n reopening b \<and> turnsnile2 b + num n (\<lambda>q. q = Pass_2) b = 1 \<and>
     places n (- {Close_2, Open_1, Close_1, Open_2}) b \<and> int n + int (num n counted_1 b) \<le> waiting b"

definition barrier_inv :: "nat \<Rightarrow> barrier_t \<Rightarrow> bool" where
  "barrier_inv n b \<longleftrightarrow> 0 < n \<and> mutex b + num n holding b = 1 \<and>
     (arriving n b \<or> turning_1 n b \<or> leaving n b \<or> turning_2 n b \<or> counting n b \<or> all_counted n b \<or> open_barrier n b)"

lemma barrier_wait_place: "barrier_wait m i b = Some c \<Longrightarrow> place_of c = (place_of b)(i := place_of c i)"
  by (cases "place_of b i") (auto simp: barrier_wait_def goto_def Let_def split: if_splits)

lemma num_step:
  assumes "barrier_wait m i b = Some c" and "i < n"
  shows "num n P c + (if P (place_of b i) then 1 else 0) = num n P b + (if P (place_of c i) then 1 else 0)"
proof -
  have "num n P c = count_pcs n P ((place_of b)(i := place_of c i))" by (subst barrier_wait_place[OF assms(1)]) (rule refl)
  then show ?thesis using count_pcs_upd[OF assms(2), of P "place_of b" "place_of c i"] by simp
qed

lemma places_step:
  assumes "barrier_wait m i b = Some c" and "places n S b" and "place_of c i \<in> T" and "S \<subseteq> T"
  shows "places n T c"
proof -
  have "place_of c j = (if j = i then place_of c i else place_of b j)" for j
    using arg_cong[OF barrier_wait_place[OF assms(1)], of "\<lambda>f. f j"] by simp
  then show ?thesis using assms(2-4) unfolding places_def by (metis subsetD)
qed

lemma others:
  assumes "i < n" and "\<not> P (place_of b i)" and "num n P b = n - 1"
  shows "\<forall>j<n. j \<noteq> i \<longrightarrow> P (place_of b j)"
proof (rule ccontr)
  assume "\<not> ?thesis"
  then obtain j where j: "j < n" "j \<noteq> i" "\<not> P (place_of b j)" by blast
  have "{k. k < n \<and> P (place_of b k)} \<subseteq> {..<n} - {i, j}" using assms(2) j(3) by auto
  then have "num n P b \<le> card ({..<n} - {i, j})" unfolding count_pcs_def by (rule card_mono[rotated]) simp
  also have "\<dots> = n - 2" using assms(1) j(1,2) by (simp add: card_Diff_subset)
  finally show False using assms(1,3) j(1,2) by linarith
qed

lemma mutex_step:
  assumes "mutex b + num n holding b = 1" and "barrier_wait m i b = Some c" and "i < n"
  shows "mutex c + num n holding c = 1"
proof -
  have "mutex c + (if holding (place_of c i) then 1 else 0) = mutex b + (if holding (place_of b i) then 1 else 0)"
    using assms(2) by (cases "place_of b i"; auto simp: barrier_wait_def goto_def Let_def holding_def sem_post_def split: if_splits)
  then show ?thesis using num_step[OF assms(2,3), of holding] assms(1) by linarith
qed

lemma one_holder:
  assumes "mutex b + num n holding b = 1" and "i < n" and "holding (place_of b i)" and "j < n" and "j \<noteq> i"
  shows "\<not> holding (place_of b j)"
  using count_pcs_unique[of n holding "place_of b" i j] assms by fastforce

section \<open>The steps\<close>

lemmas place_defs = holding_def counted_1_def counted_3_def reopening_def

lemmas wait_defs = barrier_wait_def goto_def Let_def sem_post_def

text \<open>What each step does to the place and to the shared variables.\<close>

lemma effects:
  assumes "barrier_wait m i b = Some c"
  shows
    "place_of b i = Outside \<Longrightarrow> place_of c i = Arrive \<and> turnsnile c = turnsnile b \<and> turnsnile2 c = turnsnile2 b \<and> waiting c = waiting b"
    and  "place_of b i = Arrive \<Longrightarrow> place_of c i = (if waiting b + 1 = m then Close_2 else Unlock_1) \<and> turnsnile c = turnsnile b \<and> turnsnile2 c = turnsnile2 b \<and> waiting c = waiting b + 1"
    and  "place_of b i = Close_2 \<Longrightarrow> place_of c i = Open_1 \<and> turnsnile c = turnsnile b \<and> Suc (turnsnile2 c) = turnsnile2 b \<and> waiting c = waiting b"
    and  "place_of b i = Open_1 \<Longrightarrow> place_of c i = Unlock_1 \<and> turnsnile c = turnsnile b + 1 \<and> turnsnile2 c = turnsnile2 b \<and> waiting c = waiting b"
    and  "place_of b i = Unlock_1 \<Longrightarrow> place_of c i = Wait_1 \<and> turnsnile c = turnsnile b \<and> turnsnile2 c = turnsnile2 b \<and> waiting c = waiting b"
    and  "place_of b i = Wait_1 \<Longrightarrow> place_of c i = Pass_1 \<and> Suc (turnsnile c) = turnsnile b \<and> turnsnile2 c = turnsnile2 b \<and> waiting c = waiting b"
    and  "place_of b i = Pass_1 \<Longrightarrow> place_of c i = Lock_2 \<and> turnsnile c = turnsnile b + 1 \<and> turnsnile2 c = turnsnile2 b \<and> waiting c = waiting b"
    and  "place_of b i = Lock_2 \<Longrightarrow> place_of c i = Leave \<and> turnsnile c = turnsnile b \<and> turnsnile2 c = turnsnile2 b \<and> waiting c = waiting b"
    and  "place_of b i = Leave \<Longrightarrow> place_of c i = (if waiting b - 1 = 0 then Close_1 else Unlock_2) \<and> turnsnile c = turnsnile b \<and> turnsnile2 c = turnsnile2 b \<and> waiting c = waiting b - 1"
    and  "place_of b i = Close_1 \<Longrightarrow> place_of c i = Open_2 \<and> Suc (turnsnile c) = turnsnile b \<and> turnsnile2 c = turnsnile2 b \<and> waiting c = waiting b"
    and  "place_of b i = Open_2 \<Longrightarrow> place_of c i = Unlock_2 \<and> turnsnile c = turnsnile b \<and> turnsnile2 c = turnsnile2 b + 1 \<and> waiting c = waiting b"
    and  "place_of b i = Unlock_2 \<Longrightarrow> place_of c i = Wait_2 \<and> turnsnile c = turnsnile b \<and> turnsnile2 c = turnsnile2 b \<and> waiting c = waiting b"
    and  "place_of b i = Wait_2 \<Longrightarrow> place_of c i = Pass_2 \<and> turnsnile c = turnsnile b \<and> Suc (turnsnile2 c) = turnsnile2 b \<and> waiting c = waiting b"
    and  "place_of b i = Pass_2 \<Longrightarrow> place_of c i = Lock_3 \<and> turnsnile c = turnsnile b \<and> turnsnile2 c = turnsnile2 b + 1 \<and> waiting c = waiting b"
    and  "place_of b i = Lock_3 \<Longrightarrow> place_of c i = Again \<and> turnsnile c = turnsnile b \<and> turnsnile2 c = turnsnile2 b \<and> waiting c = waiting b"
    and  "place_of b i = Again \<Longrightarrow> place_of c i = Unlock_3 \<and> turnsnile c = turnsnile b \<and> turnsnile2 c = turnsnile2 b \<and> waiting c = waiting b + 1"
    and  "place_of b i = Unlock_3 \<Longrightarrow> place_of c i = Test_3 \<and> turnsnile c = turnsnile b \<and> turnsnile2 c = turnsnile2 b \<and> waiting c = waiting b"
    and  "place_of b i = Test_3 \<Longrightarrow> place_of c i = (if waiting b = m then Post_3 else Wait_3) \<and> turnsnile c = turnsnile b \<and> turnsnile2 c = turnsnile2 b \<and> waiting c = waiting b"
    and  "place_of b i = Post_3 \<Longrightarrow> place_of c i = Wait_3 \<and> turnsnile c = turnsnile b + 1 \<and> turnsnile2 c = turnsnile2 b \<and> waiting c = waiting b"
    and  "place_of b i = Wait_3 \<Longrightarrow> place_of c i = Pass_3 \<and> Suc (turnsnile c) = turnsnile b \<and> turnsnile2 c = turnsnile2 b \<and> waiting c = waiting b"
    and  "place_of b i = Pass_3 \<Longrightarrow> place_of c i = Outside \<and> turnsnile c = turnsnile b + 1 \<and> turnsnile2 c = turnsnile2 b \<and> waiting c = waiting b"
  using assms by (auto simp: barrier_wait_def goto_def Let_def sem_post_def)

lemma rounds_same: "barrier_wait m i b = Some c \<Longrightarrow> place_of b i \<noteq> Pass_3 \<Longrightarrow> rounds c = rounds b"
  by (cases "place_of b i") (auto simp: barrier_wait_def goto_def Let_def)

lemma arriving_step:
  assumes b: "arriving n b" "mutex b + num n holding b = 1" and i: "i < n" "barrier_wait (int n) i b = Some c"
  shows "arriving n c \<or> turning_1 n c"
proof -
  note num = num_step[OF i(2,1), of counted_1]
  have pl: "place_of b i \<in> {Outside, Arrive, Unlock_1, Wait_1}" using b(1) i(1) by (simp add: arriving_def places_def)
  have w: "turnsnile b = 0" "turnsnile2 b = 1" "waiting b = int (num n counted_1 b)" "num n counted_1 b < n" "\<forall>i<n. rounds b i = 0"
    using b(1) by (simp_all add: arriving_def)
  note places = places_step[OF i(2), of n "{Outside, Arrive, Unlock_1, Wait_1}" "{Outside, Arrive, Unlock_1, Wait_1}"]
  have S: "places n {Outside, Arrive, Unlock_1, Wait_1} b" using b(1) by (simp add: arriving_def)
  show ?thesis
  proof (cases "place_of b i = Arrive \<and> waiting b + 1 = int n")
    case True
    then have c: "c = goto i Close_2 (b\<lparr>waiting := waiting b + 1, arrived := arrived b + 1\<rparr>)" using i(2) by (simp add: barrier_wait_def Let_def)
    have "num n counted_1 b = n - 1" using True w(3) by linarith
    moreover have "\<not> counted_1 (place_of b i)" using True by (simp add: counted_1_def)
    ultimately have o: "\<forall>j<n. j \<noteq> i \<longrightarrow> counted_1 (place_of b j)" using others[of i n counted_1 b] i(1) by blast
    have "place_of b j = Wait_1" if "j < n" "j \<noteq> i" for j
    proof -
      have "\<not> holding (place_of b j)" using one_holder[OF b(2) i(1) _ that] True by (simp add: holding_def)
      moreover have "place_of b j \<in> {Outside, Arrive, Unlock_1, Wait_1}" "counted_1 (place_of b j)" using o that S by (simp_all add: places_def)
      ultimately show ?thesis by (auto simp: place_defs)
    qed
    then show ?thesis using c w True i(1) by (auto simp: turning_1_def goto_def intro!: exI[of _ i])
  next
    case False
    then have "place_of c i \<in> {Outside, Arrive, Unlock_1, Wait_1}" using pl i(2) w(1) by (auto simp: wait_defs split: if_splits)
    from places[OF S this] have p: "places n {Outside, Arrive, Unlock_1, Wait_1} c" by simp
    have r: "rounds c = rounds b" using rounds_same[OF i(2)] pl by auto
    from pl consider "place_of b i = Outside" | "place_of b i = Arrive" | "place_of b i = Unlock_1" | "place_of b i = Wait_1" by blast
    then have "arriving n c"
    proof cases
      case 1 then show ?thesis using effects(1)[OF i(2) 1] num w p r by (simp add: arriving_def counted_1_def)
    next
      case 2 then show ?thesis using effects(2)[OF i(2) 2] num w p r False by (simp add: arriving_def counted_1_def)
    next
      case 3 then show ?thesis using effects(5)[OF i(2) 3] num w p r by (simp add: arriving_def counted_1_def)
    next
      case 4 then show ?thesis using effects(6)[OF i(2) 4] w by simp
    qed
    then show ?thesis by blast
  qed
qed

lemma turning_1_step:
  assumes b: "turning_1 n b" and i: "i < n" "barrier_wait (int n) i b = Some c" and n: "0 < n"
  shows "turning_1 n c \<or> leaving n c"
proof -
  obtain k where k: "k < n" "place_of b k = Close_2 \<and> turnsnile2 b = 1 \<or> place_of b k = Open_1 \<and> turnsnile2 b = 0"
    "\<forall>j<n. j \<noteq> k \<longrightarrow> place_of b j = Wait_1" "turnsnile b = 0" "waiting b = int n" using b by (auto simp: turning_1_def)
  have ik: "i = k"
  proof (rule ccontr)
    assume "i \<noteq> k"
    then show False using k i by (simp add: barrier_wait_def Let_def)
  qed
  show ?thesis
  proof (cases "place_of b i = Close_2")
    case True
    then show ?thesis using k ik i by (auto simp: turning_1_def wait_defs intro!: exI[of _ k])
  next
    case False
    then have c: "c = goto i Unlock_1 (b\<lparr>turnsnile := 1\<rparr>)" "turnsnile2 b = 0" using k ik i(2) by (simp_all add: barrier_wait_def Let_def sem_post_def)
    then have all: "\<forall>j<n. place_of c j = Unlock_1 \<or> place_of c j = Wait_1" using k ik by (simp add: goto_def)
    then have "num n counted_1 c = n" unfolding count_pcs_all by (auto simp: counted_1_def)
    moreover have "num n (\<lambda>q. q = Pass_1) c = 0" unfolding count_pcs_0 using all by auto
    ultimately show ?thesis using c k(5) all n by (auto simp: leaving_def places_def goto_def)
  qed
qed

lemma leaving_step:
  assumes b: "leaving n b" "mutex b + num n holding b = 1" and i: "i < n" "barrier_wait (int n) i b = Some c"
  shows "leaving n c \<or> turning_2 n c"
proof -
  let ?S = "{Unlock_1, Wait_1, Pass_1, Lock_2, Leave, Unlock_2, Wait_2}"
  note num = num_step[OF i(2,1), of counted_1] num_step[OF i(2,1), of "\<lambda>q. q = Pass_1"]
  have S: "places n ?S b" using b(1) by (simp add: leaving_def)
  then have pl: "place_of b i \<in> ?S" using i(1) by (simp add: places_def)
  have w: "turnsnile2 b = 0" "turnsnile b + num n (\<lambda>q. q = Pass_1) b = 1" "waiting b = int (num n counted_1 b)" "0 < num n counted_1 b"
    using b(1) by (simp_all add: leaving_def)
  show ?thesis
  proof (cases "place_of b i = Leave \<and> waiting b - 1 = 0")
    case True
    then have c: "c = goto i Close_1 (b\<lparr>waiting := 0\<rparr>)" using i(2) by (simp add: barrier_wait_def Let_def)
    have 1: "num n counted_1 b \<le> 1" "counted_1 (place_of b i)" using True w(3) by (simp_all add: counted_1_def)
    have o: "place_of b j = Wait_2" if "j < n" "j \<noteq> i" for j
    proof -
      have "\<not> holding (place_of b j)" using one_holder[OF b(2) i(1) _ that] True by (simp add: holding_def)
      moreover have "\<not> counted_1 (place_of b j)" using count_pcs_unique[OF 1(1) i(1) 1(2) that(1)] that(2) by blast
      moreover have "place_of b j \<in> ?S" using S that by (simp add: places_def)
      ultimately show ?thesis by (auto simp: place_defs)
    qed
    have "place_of b j \<noteq> Pass_1" if "j < n" for j using o[OF that] True by (cases "j = i") simp_all
    then have "num n (\<lambda>q. q = Pass_1) b = 0" unfolding count_pcs_0 by blast
    then show ?thesis using c w True i(1) o by (auto simp: turning_2_def goto_def intro!: exI[of _ i])
  next
    case False
    then have "place_of c i \<in> ?S" using pl i(2) w(1) by (auto simp: wait_defs split: if_splits)
    from places_step[OF i(2) S this] have p: "places n ?S c" by simp
    from pl consider "place_of b i = Unlock_1" | "place_of b i = Wait_1" | "place_of b i = Pass_1" | "place_of b i = Lock_2" | "place_of b i = Leave"
      | "place_of b i = Unlock_2" | "place_of b i = Wait_2" by blast
    then have "leaving n c"
    proof cases
      case 1 then show ?thesis using effects(5)[OF i(2) 1] num w p by (simp add: leaving_def counted_1_def)
    next
      case 2 then show ?thesis using effects(6)[OF i(2) 2] num w p by (simp add: leaving_def counted_1_def)
    next
      case 3 then show ?thesis using effects(7)[OF i(2) 3] num w p by (simp add: leaving_def counted_1_def)
    next
      case 4 then show ?thesis using effects(8)[OF i(2) 4] num w p by (simp add: leaving_def counted_1_def)
    next
      case 5 then show ?thesis using effects(9)[OF i(2) 5] num w p False by (simp add: leaving_def counted_1_def)
    next
      case 6 then show ?thesis using effects(12)[OF i(2) 6] num w p by (simp add: leaving_def counted_1_def)
    next
      case 7 then show ?thesis using effects(13)[OF i(2) 7] w by simp
    qed
    then show ?thesis by blast
  qed
qed

lemma turning_2_step:
  assumes b: "turning_2 n b" and i: "i < n" "barrier_wait (int n) i b = Some c" and n: "0 < n"
  shows "turning_2 n c \<or> counting n c"
proof -
  obtain k where k: "k < n" "place_of b k = Close_1 \<and> turnsnile b = 1 \<or> place_of b k = Open_2 \<and> turnsnile b = 0"
    "\<forall>j<n. j \<noteq> k \<longrightarrow> place_of b j = Wait_2" "turnsnile2 b = 0" "waiting b = 0" using b by (auto simp: turning_2_def)
  have ik: "i = k"
  proof (rule ccontr)
    assume "i \<noteq> k"
    then show False using k i by (simp add: barrier_wait_def Let_def)
  qed
  show ?thesis
  proof (cases "place_of b i = Close_1")
    case True
    then show ?thesis using k ik i by (auto simp: turning_2_def wait_defs intro!: exI[of _ k])
  next
    case False
    then have c: "c = goto i Unlock_2 (b\<lparr>turnsnile2 := 1\<rparr>)" "turnsnile b = 0" using k ik i(2) by (simp_all add: barrier_wait_def Let_def sem_post_def)
    then have all: "\<forall>j<n. place_of c j = Unlock_2 \<or> place_of c j = Wait_2" using k ik by (simp add: goto_def)
    then have "num n counted_3 c = 0" unfolding count_pcs_0 by (auto simp: counted_3_def)
    moreover have "num n (\<lambda>q. q = Pass_2) c = 0" unfolding count_pcs_0 using all by auto
    ultimately show ?thesis using c k(5) all n by (auto simp: counting_def places_def goto_def)
  qed
qed

lemma counting_step:
  assumes b: "counting n b" and i: "i < n" "barrier_wait (int n) i b = Some c"
    and m: "mutex b + num n holding b = 1"
  shows "counting n c \<or> all_counted n c"
proof -
  let ?S = "{Unlock_2, Wait_2, Pass_2, Lock_3, Again, Unlock_3, Test_3, Wait_3}"
  note num = num_step[OF i(2,1), of counted_3] num_step[OF i(2,1), of "\<lambda>q. q = Pass_2"]
  have S: "places n ?S b" using b by (simp add: counting_def)
  then have pl: "place_of b i \<in> ?S" using i(1) by (simp add: places_def)
  have w: "turnsnile b = 0" "turnsnile2 b + num n (\<lambda>q. q = Pass_2) b = 1" "waiting b = int (num n counted_3 b)" "num n counted_3 b < n"
    using b by (simp_all add: counting_def)
  show ?thesis
  proof (cases "place_of b i = Again \<and> num n counted_3 b = n - 1")
    case True
    note e = effects(16)[OF i(2)]
    have e: "place_of c i = Unlock_3" "turnsnile c = 0" "turnsnile2 c = turnsnile2 b" "waiting c = int n" using e True w by auto
    have "\<not> counted_3 (place_of b i)" using True by (simp add: counted_3_def)
    then have o: "\<forall>j<n. j \<noteq> i \<longrightarrow> counted_3 (place_of b j)" using others[of i n counted_3 b] i(1) True by blast
    have same: "place_of c j = place_of b j" if "j \<noteq> i" for j
      using that arg_cong[OF barrier_wait_place[OF i(2)], of "\<lambda>f. f j"] by simp
    have "place_of c j \<in> {Unlock_3, Test_3, Wait_3}" if "j < n" for j
      using o that e(1) same by (cases "j = i") (auto simp: counted_3_def)
    moreover have "place_of b j \<noteq> Pass_2" if "j < n" for j using o that True by (cases "j = i") (auto simp: counted_3_def)
    then have "num n (\<lambda>q. q = Pass_2) b = 0" unfolding count_pcs_0 by blast
    moreover have "0 < num n (\<lambda>q. q = Unlock_3 \<or> q = Test_3) c" using count_pcs_pos[OF i(1), of "\<lambda>q. q = Unlock_3 \<or> q = Test_3"] e(1) by simp
    ultimately show ?thesis using e w by (simp add: all_counted_def places_def)
  next
    case False
    have "place_of c i \<in> ?S" using pl i(2) w by (auto simp: wait_defs split: if_splits)
    from places_step[OF i(2) S this] have p: "places n ?S c" by simp
    from pl consider "place_of b i = Unlock_2" | "place_of b i = Wait_2" | "place_of b i = Pass_2" | "place_of b i = Lock_3" | "place_of b i = Again" | "place_of b i = Unlock_3" | "place_of b i = Test_3" | "place_of b i = Wait_3" by blast
    then have "counting n c"
    proof cases
      case 1 then show ?thesis using effects(12)[OF i(2) 1] num w p by (simp add: counting_def counted_3_def)
    next
      case 2 then show ?thesis using effects(13)[OF i(2) 2] num w p by (simp add: counting_def counted_3_def)
    next
      case 3 then show ?thesis using effects(14)[OF i(2) 3] num w p by (simp add: counting_def counted_3_def)
    next
      case 4 then show ?thesis using effects(15)[OF i(2) 4] num w p by (simp add: counting_def counted_3_def)
    next
      case 5 then show ?thesis using effects(16)[OF i(2) 5] num w p False by (simp add: counting_def counted_3_def)
    next
      case 6 then show ?thesis using effects(17)[OF i(2) 6] num w p by (simp add: counting_def counted_3_def)
    next
      case 7 then show ?thesis using effects(18)[OF i(2) 7] num w p by (simp add: counting_def counted_3_def)
    next
      case 8 then show ?thesis using effects(20)[OF i(2) 8] w by (simp add: counting_def counted_3_def)
    qed
    then show ?thesis by blast
  qed
qed

lemma all_counted_step:
  assumes b: "all_counted n b" and i: "i < n" "barrier_wait (int n) i b = Some c"
  shows "all_counted n c \<or> open_barrier n c"
proof -
  let ?S = "{Unlock_3, Test_3, Wait_3}"
  have S: "places n ?S b" using b by (simp add: all_counted_def)
  then have pl: "place_of b i \<in> ?S" using i(1) by (simp add: places_def)
  have w: "turnsnile b = 0" "turnsnile2 b = 1" "waiting b = int n" "0 < num n (\<lambda>q. q = Unlock_3 \<or> q = Test_3) b"
    using b by (simp_all add: all_counted_def)
  from pl consider (unlock) "place_of b i = Unlock_3" | (test) "place_of b i = Test_3" | (wait) "place_of b i = Wait_3" by blast
  then show ?thesis
  proof cases
    case unlock
    note e = effects(17)[OF i(2) unlock]
    have "places n ?S c" using places_step[OF i(2) S, of ?S] e by simp
    moreover have "0 < num n (\<lambda>q. q = Unlock_3 \<or> q = Test_3) c" using count_pcs_pos[OF i(1), of "\<lambda>q. q = Unlock_3 \<or> q = Test_3"] e by simp
    ultimately have "all_counted n c" using w e by (simp add: all_counted_def)
    then show ?thesis by blast
  next
    case test
    note e = effects(18)[OF i(2) test]
    have e: "place_of c i = Post_3" "turnsnile2 c = 1" "waiting c = int n" using e w by simp_all
    have pc: "place_of c j \<in> {Post_3, Unlock_3, Test_3, Wait_3}" if "j < n" for j
      using places_step[OF i(2) S, of "{Post_3, Unlock_3, Test_3, Wait_3}"] e(1) that by (auto simp: places_def)
    have "num n (\<lambda>q. q = Pass_2) c = 0" "num n counted_1 c = 0" unfolding count_pcs_0 using pc by (force simp: counted_1_def)+
    moreover have "0 < num n reopening c" using count_pcs_pos[OF i(1), of reopening] e(1) by (simp add: reopening_def)
    moreover have "places n (- {Close_2, Open_1, Close_1, Open_2}) c" using pc by (force simp: places_def)
    ultimately have "open_barrier n c" using e by (simp add: open_barrier_def)
    then show ?thesis by blast
  next
    case wait
    then show ?thesis using effects(20)[OF i(2) wait] w by simp
  qed
qed

lemma open_barrier_step:
  assumes b: "open_barrier n b" and i: "i < n" "barrier_wait (int n) i b = Some c"
  shows "open_barrier n c"
proof -
  let ?S = "- {Close_2, Open_1, Close_1, Open_2}"
  note num = num_step[OF i(2,1), of counted_1] num_step[OF i(2,1), of "\<lambda>q. q = Pass_2"] num_step[OF i(2,1), of reopening]
  have S: "places n ?S b" using b by (simp add: open_barrier_def)
  then have pl: "place_of b i \<in> ?S" using i(1) by (simp add: places_def)
  have w: "0 < turnsnile b + num n reopening b" "turnsnile2 b + num n (\<lambda>q. q = Pass_2) b = 1" "int n + int (num n counted_1 b) \<le> waiting b"
    using b by (simp_all add: open_barrier_def)
  have l: "0 < num n counted_1 b" if "place_of b i = Leave" using count_pcs_pos[OF i(1), of counted_1] that by (simp add: counted_1_def)
  have lv: "waiting b \<noteq> 1" if "place_of b i = Leave" using l[OF that] w(3) i(1) by linarith
  have "place_of c i \<in> ?S" using pl i w l effects[OF i(2)] by (cases "place_of b i") auto
  from places_step[OF i(2) S this] have p: "places n ?S c" by simp
  from pl consider "place_of b i = Outside" | "place_of b i = Arrive" | "place_of b i = Unlock_1" | "place_of b i = Wait_1" | "place_of b i = Pass_1" | "place_of b i = Lock_2" | "place_of b i = Leave" | "place_of b i = Unlock_2" | "place_of b i = Wait_2" | "place_of b i = Pass_2" | "place_of b i = Lock_3" | "place_of b i = Again" | "place_of b i = Unlock_3" | "place_of b i = Test_3" | "place_of b i = Post_3" | "place_of b i = Wait_3" | "place_of b i = Pass_3"
    by (cases "place_of b i") auto
  then have "open_barrier n c"
  proof cases
    case 1 then show ?thesis using effects(1)[OF i(2) 1] num w p by (simp add: open_barrier_def place_defs)
  next
    case 2 then show ?thesis using effects(2)[OF i(2) 2] num w p by (simp add: open_barrier_def place_defs)
  next
    case 3 then show ?thesis using effects(5)[OF i(2) 3] num w p by (simp add: open_barrier_def place_defs)
  next
    case 4 then show ?thesis using effects(6)[OF i(2) 4] num w p by (simp add: open_barrier_def place_defs)
  next
    case 5 then show ?thesis using effects(7)[OF i(2) 5] num w p by (simp add: open_barrier_def place_defs)
  next
    case 6 then show ?thesis using effects(8)[OF i(2) 6] num w p by (simp add: open_barrier_def place_defs)
  next
    case 7 then show ?thesis using effects(9)[OF i(2) 7] num w p lv[OF 7] by (simp add: open_barrier_def place_defs)
  next
    case 8 then show ?thesis using effects(12)[OF i(2) 8] num w p by (simp add: open_barrier_def place_defs)
  next
    case 9 then show ?thesis using effects(13)[OF i(2) 9] num w p by (simp add: open_barrier_def place_defs)
  next
    case 10 then show ?thesis using effects(14)[OF i(2) 10] num w p by (simp add: open_barrier_def place_defs)
  next
    case 11 then show ?thesis using effects(15)[OF i(2) 11] num w p by (simp add: open_barrier_def place_defs)
  next
    case 12 then show ?thesis using effects(16)[OF i(2) 12] num w p by (simp add: open_barrier_def place_defs)
  next
    case 13 then show ?thesis using effects(17)[OF i(2) 13] num w p by (simp add: open_barrier_def place_defs)
  next
    case 14 then show ?thesis using effects(18)[OF i(2) 14] num w p by (simp add: open_barrier_def place_defs)
  next
    case 15 then show ?thesis using effects(19)[OF i(2) 15] num w p by (simp add: open_barrier_def place_defs)
  next
    case 16 then show ?thesis using effects(20)[OF i(2) 16] num w p by (simp add: open_barrier_def place_defs)
  next
    case 17 then show ?thesis using effects(21)[OF i(2) 17] num w p by (simp add: open_barrier_def place_defs)
  qed
  then show ?thesis .
qed

lemma barrier_inv_step:
  assumes "barrier_inv n b" and "horses_step n (int n) b c"
  shows "barrier_inv n c"
proof -
  obtain i where i: "i < n" "barrier_wait (int n) i b = Some c" using assms(2) by (auto simp: horses_step_def interleaved_def)
  have m: "0 < n" "mutex b + num n holding b = 1" using assms(1) by (simp_all add: barrier_inv_def)
  have "arriving n c \<or> turning_1 n c \<or> leaving n c \<or> turning_2 n c \<or> counting n c \<or> all_counted n c \<or> open_barrier n c"
    using assms(1) arriving_step[OF _ m(2) i] turning_1_step[OF _ i m(1)] leaving_step[OF _ m(2) i] turning_2_step[OF _ i m(1)]
      counting_step[OF _ i m(2)] all_counted_step[OF _ i] open_barrier_step[OF _ i]
    unfolding barrier_inv_def by blast
  then show ?thesis using mutex_step[OF m(2) i(2,1)] m(1) by (simp add: barrier_inv_def)
qed

section \<open>Somebody can go on\<close>

text \<open>A process that has completed a round and is outside has nothing to do.\<close>

definition idle :: "barrier_t \<Rightarrow> nat \<Rightarrow> bool" where
  "idle b i \<longleftrightarrow> place_of b i = Outside \<and> 0 < rounds b i"

definition through :: "nat \<Rightarrow> barrier_t \<Rightarrow> bool" where
  "through n b \<longleftrightarrow> (\<forall>i<n. idle b i)"

fun way_left :: "place \<times> bool \<Rightarrow> nat" where
  "way_left (Outside, done_once) = (if done_once then 0 else 21)"
| "way_left (Arrive, _) = 20" | "way_left (Close_2, _) = 19" | "way_left (Open_1, _) = 18" | "way_left (Unlock_1, _) = 17"
| "way_left (Wait_1, _) = 16" | "way_left (Pass_1, _) = 15" | "way_left (Lock_2, _) = 14" | "way_left (Leave, _) = 13"
| "way_left (Close_1, _) = 12" | "way_left (Open_2, _) = 11" | "way_left (Unlock_2, _) = 10" | "way_left (Wait_2, _) = 9"
| "way_left (Pass_2, _) = 8" | "way_left (Lock_3, _) = 7" | "way_left (Again, _) = 6" | "way_left (Unlock_3, _) = 5"
| "way_left (Test_3, _) = 4" | "way_left (Post_3, _) = 3" | "way_left (Wait_3, _) = 2" | "way_left (Pass_3, _) = 1"

definition where_is :: "barrier_t \<Rightarrow> nat \<Rightarrow> place \<times> bool" where
  "where_is b i = (place_of b i, 0 < rounds b i)"

definition round_work :: "nat \<Rightarrow> barrier_t \<Rightarrow> nat" where
  "round_work n b = sum_pcs n way_left (where_is b)"

lemma round_work_less:
  assumes "barrier_wait m i b = Some c" and "i < n" and "\<not> idle b i"
  shows "round_work n c < round_work n b"
proof -
  note mv = barrier_wait_moves[OF assms(1)]
  have "where_is c = (where_is b)(i := where_is c i)" using mv(1) by (auto simp: where_is_def fun_eq_iff)
  then have "sum_pcs n way_left (where_is c) = sum_pcs n way_left ((where_is b)(i := where_is c i))" by simp
  moreover have "way_left (where_is c i) < way_left (where_is b i)"
    using effects[OF assms(1)] mv(2) assms(3) unfolding where_is_def idle_def
    by (cases "place_of b i") (simp_all split: if_splits)
  ultimately show ?thesis using sum_pcs_upd[OF assms(2), of way_left "where_is b" "where_is c i"] by (simp add: round_work_def)
qed

lemma barrier_wait_None:
  "barrier_wait m i b = None \<longleftrightarrow>
     place_of b i \<in> {Outside, Lock_2, Lock_3} \<and> mutex b = 0 \<or> place_of b i \<in> {Close_2, Wait_2} \<and> turnsnile2 b = 0 \<or>
     place_of b i \<in> {Wait_1, Close_1, Wait_3} \<and> turnsnile b = 0"
  by (cases "place_of b i") (simp_all add: barrier_wait_def Let_def)

lemma holder_goes_on:
  assumes "barrier_inv n b" and i: "i < n" "holding (place_of b i)"
  shows "barrier_wait m i b \<noteq> None"
proof -
  have "place_of b i = Close_2 \<longrightarrow> turnsnile2 b = 1" "place_of b i = Close_1 \<longrightarrow> turnsnile b = 1"
  proof -
    from assms(1) consider "turning_1 n b" | "turning_2 n b" | "place_of b i \<noteq> Close_2 \<and> place_of b i \<noteq> Close_1"
      unfolding barrier_inv_def arriving_def leaving_def counting_def all_counted_def open_barrier_def places_def
      using i(1) by fastforce
    then show "place_of b i = Close_2 \<longrightarrow> turnsnile2 b = 1" "place_of b i = Close_1 \<longrightarrow> turnsnile b = 1"
      using i(1) by (cases; fastforce simp: turning_1_def turning_2_def)+
  qed
  then show ?thesis using i(2) unfolding barrier_wait_None by (auto simp: holding_def)
qed

lemma no_holder_phase:
  assumes "barrier_inv n b" and "\<forall>i<n. \<not> holding (place_of b i)"
  shows "mutex b = 1 \<and> (arriving n b \<or> leaving n b \<or> counting n b \<or> all_counted n b \<or> open_barrier n b)"
proof -
  have "num n holding b = 0" unfolding count_pcs_0 using assms(2) .
  moreover have "\<not> turning_1 n b" "\<not> turning_2 n b" using assms(2) by (force simp: turning_1_def turning_2_def holding_def)+
  ultimately show ?thesis using assms(1) by (simp add: barrier_inv_def)
qed

lemma somebody_goes_on:
  assumes inv: "barrier_inv n b" and "\<not> through n b"
  shows "\<exists>i<n. \<not> idle b i \<and> barrier_wait (int n) i b \<noteq> None"
proof (cases "\<exists>i<n. holding (place_of b i)")
  case True
  then obtain i where i: "i < n" "holding (place_of b i)" by blast
  then have "\<not> idle b i" by (auto simp: idle_def holding_def)
  then show ?thesis using holder_goes_on[OF inv i] i(1) by blast
next
  case False
  then have ph: "mutex b = 1" "arriving n b \<or> leaving n b \<or> counting n b \<or> all_counted n b \<or> open_barrier n b"
    using no_holder_phase[OF inv] by blast+
  show ?thesis
  proof (rule ccontr)
    assume "\<not> ?thesis"
    then have w: "idle b i \<or> place_of b i = Wait_2 \<and> turnsnile2 b = 0 \<or> place_of b i \<in> {Wait_1, Wait_3} \<and> turnsnile b = 0" if "i < n" for i
      using that False ph(1) unfolding barrier_wait_None by (auto simp: holding_def)
    have pass: "num n (\<lambda>q. q = Pass_1) b = 0" "num n (\<lambda>q. q = Pass_2) b = 0" "num n reopening b = 0" "num n (\<lambda>q. q = Unlock_3 \<or> q = Test_3) b = 0"
      unfolding count_pcs_0 using w by (force simp: idle_def reopening_def)+
    from ph(2) show False
    proof (elim disjE)
      assume a: "arriving n b"
      then have "place_of b i = Wait_1" if "i < n" for i using w[OF that] that by (fastforce simp: arriving_def places_def idle_def)
      then have "num n counted_1 b = n" unfolding count_pcs_all by (simp add: counted_1_def)
      then show False using a by (simp add: arriving_def)
    next
      assume l: "leaving n b"
      then have "turnsnile b = 1" using pass(1) by (simp add: leaving_def)
      then have "\<not> counted_1 (place_of b i)" if "i < n" for i using w[OF that] by (auto simp: idle_def counted_1_def)
      then have "num n counted_1 b = 0" unfolding count_pcs_0 by blast
      then show False using l by (simp add: leaving_def)
    next
      assume c: "counting n b"
      then have "turnsnile2 b = 1" using pass(2) by (simp add: counting_def)
      then have "counted_3 (place_of b i)" if "i < n" for i using w[OF that] that c by (fastforce simp: idle_def counted_3_def counting_def places_def)
      then have "num n counted_3 b = n" unfolding count_pcs_all by blast
      then show False using c by (simp add: counting_def)
    next
      assume "all_counted n b"
      then show False using pass(4) by (simp add: all_counted_def)
    next
      assume "open_barrier n b"
      then have "turnsnile2 b \<noteq> 0" "turnsnile b \<noteq> 0" using pass(2,3) by (auto simp: open_barrier_def)
      then have "through n b" using w by (auto simp: through_def)
      then show False using assms(2) by blast
    qed
  qed
qed

lemma barrier_closer:
  assumes "barrier_inv n b" and "\<not> through n b"
  shows "\<exists>c. horses_step n (int n) b c \<and> round_work n c < round_work n b"
proof -
  obtain i c where i: "i < n" "\<not> idle b i" "barrier_wait (int n) i b = Some c" using somebody_goes_on[OF assms] by blast
  then have "horses_step n (int n) b c" by (auto simp: horses_step_def interleaved_def)
  then show ?thesis using round_work_less[OF i(3,1,2)] by blast
qed

lemma barrier_inv_init: "barrier_init (int n) = Inr b \<Longrightarrow> barrier_inv n b"
proof -
  assume "barrier_init (int n) = Inr b"
  then have b: "0 < n" "b = \<lparr>turnsnile = 0, turnsnile2 = 1, mutex = 1, waiting = 0, place_of = (\<lambda>_. Outside), rounds = (\<lambda>_. 0), arrived = 0\<rparr>"
    by (auto simp: barrier_init_def split: if_splits)
  have "arriving n b" using b(1) unfolding b(2) by (simp add: arriving_def places_def counted_1_def)
  then show ?thesis using b(1) unfolding barrier_inv_def by (simp add: b(2) holding_def)
qed

interpretation full_barrier: converging_system "\<lambda>b. barrier_init (int n) = Inr b" "horses_step n (int n)" "barrier_inv n" "through n" "round_work n"
  for n
  by unfold_locales (rule barrier_inv_init, assumption, rule barrier_inv_step, assumption+, rule barrier_closer)

section \<open>Properties\<close>

text \<open>
  C39: \<open>n\<close> processes at a barrier for \<open>n\<close> never stop one another: from every state they can reach there is a way on after which each of them has completed at least one \<open>barrier_wait\<close> and
  is outside of it; and as long as one has not, some process can take a step.
\<close>

theorem barrier_live:
  assumes "horses_reach n (int n) b"
  shows "(\<exists>c. (horses_step n (int n))\<^sup>*\<^sup>* b c \<and> (\<forall>i<n. place_of c i = Outside \<and> 0 < rounds c i)) \<and>
    (\<forall>i<n. rounds b i = 0 \<longrightarrow> (\<exists>c. horses_step n (int n) b c))"
proof -
  have "barrier_inv n b" using full_barrier.inv_reach[OF assms] .
  then have "\<forall>i<n. rounds b i = 0 \<longrightarrow> (\<exists>c. horses_step n (int n) b c)"
    using barrier_closer by (force simp: through_def idle_def)
  moreover obtain c where "(horses_step n (int n))\<^sup>*\<^sup>* b c" "through n c" using full_barrier.reachable_can_reach_goal[OF assms] by blast
  ultimately show ?thesis by (auto simp: through_def idle_def)
qed

theorem barrier_live_witness: "\<exists>c. (horses_step 50 50)\<^sup>*\<^sup>* (arrived_bar 50 0) c \<and> (\<forall>i<50. 0 < rounds c i)"
proof -
  have "barrier_init 50 = Inr (arrived_bar 50 0)" by (simp add: barrier_init_def arrived_bar_def bar_def split_at_def)
  then have "horses_reach 50 (int 50) (arrived_bar 50 0)" by (intro reach_init) simp
  from barrier_live[OF this] show ?thesis by auto
qed

end
