(* ===== verification/Ringstop.thy ===== *)
theory Ringstop
  imports Cycle
begin

text \<open>
  The end of the ring of \<open>2/so21_lista_2/cycle.c\<close>: \<open>SIGINT\<close>, which is never blocked and whose handler ends the process, sent to any of the processes at any time. A child that
  has ended stays a zombie, to which a signal can still be sent, as long as the parent lives, for the parent never waits; the parent itself, and after it the zombies, are
  reaped by others. A signal to a process that has been reaped is an error, and the wrapper \<open>Kill\<close> ends the sender. Process ids are not used again.
\<close>

section \<open>The program\<close>

datatype sent = SIGUSR1 | SIGINT

record stopping =
  wheel :: ring
  gone :: "nat \<Rightarrow> bool"
  reaped :: "nat \<Rightarrow> bool"

definition exits :: "nat \<Rightarrow> stopping \<Rightarrow> stopping" where
  "exits i s = s\<lparr>gone := (gone s)(i := True)\<rparr>"

definition signal_handler :: "sent \<Rightarrow> nat \<Rightarrow> stopping \<Rightarrow> stopping" where
  "signal_handler signum i s = (if signum = SIGINT then exits i s else s)"

datatype occurrence = Plays nat | Interrupt nat | Reap nat

fun ring_do :: "nat \<Rightarrow> occurrence \<Rightarrow> stopping \<Rightarrow> stopping option" where
  "ring_do n (Plays i) s =
    (if n < i \<or> gone s i then None
     else if plays (wheel s) i = Has_ball \<and> reaped s (next_of n i) then Some (exits i s)
     else case play_step n i (wheel s) of
         None \<Rightarrow> None
       | Some r \<Rightarrow> Some (if plays (wheel s) i = Waiting then signal_handler SIGUSR1 i (s\<lparr>wheel := r\<rparr>) else s\<lparr>wheel := r\<rparr>))"
| "ring_do n (Interrupt i) s = (if n < i \<or> gone s i then None else Some (signal_handler SIGINT i s))"
| "ring_do n (Reap i) s =
    (if n < i \<or> \<not> gone s i \<or> i \<noteq> n \<and> \<not> gone s n then None else Some (s\<lparr>reaped := (reaped s)(i := True)\<rparr>))"

definition stopping_step :: "nat \<Rightarrow> stopping \<Rightarrow> stopping \<Rightarrow> bool" where
  "stopping_step n s t \<longleftrightarrow> (\<exists>h. ring_do n h s = Some t)"

abbreviation stopping_reach :: "nat \<Rightarrow> stopping \<Rightarrow> bool" where
  "stopping_reach n \<equiv> reach (\<lambda>s. cycle_main (int n) = Inr (wheel s) \<and> gone s = (\<lambda>_. False) \<and> reaped s = (\<lambda>_. False)) (stopping_step n)"

section \<open>The ball is lost\<close>

fun is_play :: "occurrence \<Rightarrow> bool" where
  "is_play (Plays i) = True"
| "is_play _ = False"

text \<open>A process ends, or the ball takes its next turn; the other occurrences leave the ball alone.\<close>

lemma plays_ball:
  assumes "ring_do n (Plays i) s = Some t" and "wheel s = ball b h" and "0 < n"
  shows "i = b \<and> \<not> gone s b \<and> (h \<and> t = exits b s \<or> (\<exists>b' h'. turn n (b, h) = (b', h') \<and> t = s\<lparr>wheel := ball b' h'\<rparr>))"
proof -
  have i: "i \<le> n" "\<not> gone s i" using assms(1) by (auto split: if_splits)
  have b: "i = b" using assms(1,2) i by (cases h) (auto simp: play_step_def ball_def split: if_splits option.splits)
  have "ring_step n (ball b h) r" if "play_step n b (ball b h) = Some r" for r
    using that i(1) b by (auto simp: ring_step_def interleaved_def less_Suc_eq_le)
  then have "r = (case turn n (b, h) of (b', h') \<Rightarrow> ball b' h')" if "play_step n b (ball b h) = Some r" for r
    using that ring_step_ball[of b n h r] i(1) b assms(3) by blast
  then show ?thesis using assms(1,2) i b
    by (cases h) (auto simp: signal_handler_def ball_def turn_def split: if_splits option.splits)
qed

lemma others_ball:
  assumes "ring_do n e s = Some t" and "\<not> is_play e"
  shows "wheel t = wheel s \<and> (\<forall>g. gone s g \<longrightarrow> gone t g)"
  using assms by (cases e) (auto simp: signal_handler_def exits_def split: if_splits)

definition stopping_inv :: "nat \<Rightarrow> stopping \<Rightarrow> bool" where
  "stopping_inv n s \<longleftrightarrow> one_ball n (wheel s)"

interpretation stopping_ring: safe_system "\<lambda>s. cycle_main (int n) = Inr (wheel s) \<and> gone s = (\<lambda>_. False) \<and> reaped s = (\<lambda>_. False)" "stopping_step n" "stopping_inv n"
proof unfold_locales
  show "stopping_inv n s" if "cycle_main (int n) = Inr (wheel s) \<and> gone s = (\<lambda>_. False) \<and> reaped s = (\<lambda>_. False)" for s
    using that cycle.inv_init[of n "wheel s"] by (simp add: stopping_inv_def)
next
  show "stopping_inv n t" if s: "stopping_step n s t" "stopping_inv n s" for s t
  proof -
    obtain e where e: "ring_do n e s = Some t" using s(1) by (auto simp: stopping_step_def)
    obtain b h where b: "wheel s = ball b h" "b \<le> n" "0 < n" using s(2) by (auto simp: stopping_inv_def one_ball_def)
    have "\<exists>b\<le>n. \<exists>h. wheel t = ball b h"
    proof (cases e)
      case (Plays i)
      from plays_ball[OF e[unfolded Plays] b(1,3)] show ?thesis using b(1,2) turn_le[of "(b, h)" n] by (force simp: exits_def)
    qed (use others_ball[OF e] b(1,2) in auto)
    then show ?thesis using b(3) by (simp add: stopping_inv_def one_ball_def)
  qed
qed

text \<open>The ball takes no more turns than it needs to come to a process that has ended.\<close>

lemma plays_bounded:
  assumes "0 < n"
  shows "run_schedule (ring_do n) es s = Some t \<Longrightarrow> wheel s = ball b h \<Longrightarrow> gone s g \<Longrightarrow> (turn n ^^ m) (b, h) = (g, k) \<Longrightarrow>
    length (filter is_play es) \<le> m"
proof (induction es arbitrary: s b h g m k)
  case (Cons e es)
  then obtain u where u: "ring_do n e s = Some u" "run_schedule (ring_do n) es u = Some t" by (auto split: option.splits)
  show ?case
  proof (cases e)
    case (Plays i)
    note p = plays_ball[OF u(1)[unfolded Plays] Cons.prems(2) assms]
    then have "m \<noteq> 0" using Cons.prems(3,4) by (cases m) auto
    then obtain m' where m: "m = Suc m'" by (cases m) auto
    have "length (filter is_play es) \<le> m'"
    proof (cases "u = exits b s")
      case True
      then show ?thesis using Cons.IH[of u b h b 0 h, OF u(2)] Cons.prems(2) by (simp add: exits_def)
    next
      case False
      then obtain b' h' where t: "turn n (b, h) = (b', h')" "u = s\<lparr>wheel := ball b' h'\<rparr>" using p by blast
      then have "(turn n ^^ m') (b', h') = (g, k)" using Cons.prems(4) unfolding m by (simp add: funpow_Suc_right del: funpow.simps)
      then show ?thesis using Cons.IH[of u b' h' g m' k, OF u(2)] Cons.prems(3) t(2) by simp
    qed
    then show ?thesis using Plays m by simp
  qed (use Cons.IH[OF u(2), of b h g m k] others_ball[OF u(1)] Cons.prems in auto)
qed simp

section \<open>Property\<close>

text \<open>
  C31: once a process of the ring has been interrupted, the ball is lost: in any run from there the processes take at most \<open>2 * n + 1\<close> steps, and
  the ring can only come to the state in which no process ever moves again.
\<close>

theorem ring_interrupted:
  assumes "stopping_reach n s" and "gone s g" and "g \<le> n"
  shows "(\<forall>es t. run_schedule (ring_do n) es s = Some t \<longrightarrow> length (filter is_play es) \<le> 2 * n + 1) \<and>
    (\<exists>es t. run_schedule (ring_do n) es s = Some t \<and> (\<forall>es' u i. run_schedule (ring_do n) es' t = Some u \<longrightarrow> ring_do n (Plays i) u = None))"
proof -
  let ?run = "run_schedule (ring_do n)" and ?plays = "\<lambda>es. length (filter is_play es)"
  obtain b h where b: "wheel s = ball b h" "b \<le> n" "0 < n"
    using stopping_ring.inv_reach[OF assms(1)] by (auto simp: stopping_inv_def one_ball_def)
  obtain m where m: "m \<le> 2 * n + 1" "(turn n ^^ m) (b, h) = (g, True)" using ball_comes[OF b(2,3) assms(3)] by blast
  have le: "?plays es \<le> 2 * n + 1" if "?run es s = Some t" for es t
    using plays_bounded[OF b(3) that b(1) assms(2) m(2)] m(1) by simp
  moreover have "\<exists>es t. ?run es s = Some t \<and> (\<forall>es' u i. ?run es' t = Some u \<longrightarrow> ring_do n (Plays i) u = None)"
  proof (rule ccontr)
    assume more: "\<not> ?thesis"
    have "\<exists>es t. ?run es s = Some t \<and> k \<le> ?plays es" for k
    proof (induction k)
      case 0
      show ?case by (intro exI[of _ "[]"]) simp
    next
      case (Suc k)
      then obtain es t where t: "?run es s = Some t" "k \<le> ?plays es" by blast
      then obtain es' u i where u: "?run es' t = Some u" "ring_do n (Plays i) u \<noteq> None" using more by blast
      then have "\<exists>v. ?run (es @ es' @ [Plays i]) s = Some v" using t(1) by (auto simp: run_schedule_append)
      moreover have "Suc k \<le> ?plays (es @ es' @ [Plays i])" using t(2) by simp
      ultimately show ?case by blast
    qed
    then obtain es t where "?run es s = Some t" "2 * n + 2 \<le> ?plays es" by blast
    then show False using le by fastforce
  qed
  ultimately show ?thesis by blast
qed

theorem ring_interrupted_witness:
  "\<exists>s es t. stopping_reach 4 s \<and> gone s 2 \<and> run_schedule (ring_do 4) es s = Some t \<and> (\<forall>i. ring_do 4 (Plays i) t = None)"
proof -
  let ?s = "\<lparr>wheel = ball 4 True, gone = \<lambda>_. False, reaped = \<lambda>_. False\<rparr>"
  have "stopping_reach 4 ?s" by (rule reach_init) (simp add: cycle_main_def ball_def fun_eq_iff)
  moreover have "stopping_step 4 ?s (exits 2 ?s)"
    unfolding stopping_step_def by (rule exI[of _ "Interrupt 2"]) (simp add: signal_handler_def)
  ultimately have s: "stopping_reach 4 (exits 2 ?s)" by (rule reach_step)
  have g: "gone (exits 2 ?s) 2" by (simp add: exits_def)
  obtain es t where t: "run_schedule (ring_do 4) es (exits 2 ?s) = Some t"
      "\<forall>es' u i. run_schedule (ring_do 4) es' t = Some u \<longrightarrow> ring_do 4 (Plays i) u = None"
    using ring_interrupted[OF s g] by auto
  have "\<forall>i. ring_do 4 (Plays i) t = None" using t(2)[rule_format, of "[]" t] by simp
  with s g t(1) show ?thesis by blast
qed

end
