(* ===== verification/Spec2Isabelle.thy ===== *)
theory Spec2Isabelle
  imports Testh Forksort Hashdb Coro Sieve Philosophers Savages Barrier Semaphore Ramen Queens Writeperf Echo Listdir
    Ride Office Cycle Demand Game Mergesort Smokers Sinit Reaper Fdleak Fileshare Mkholes Corostack Echoline Echosystem Lookup Boardlock Orphan
    Echoclients Echoquit Templates Threads Spurious Barrierlive Ringstop
begin

text \<open>
  Verification of the C programs of an operating-systems course. The repository holds one directory for each
  list of exercises; the programs do not depend on one another, except for the two allocators of list 8, which share
  the list of arenas and the test. Each program has a theory of its own.

  \<^bold>\<open>Shared theories.\<close> \<open>Prelude\<close>: the machine integers, the ways a run of a C function can fail
  (\<open>c_error\<close>, \<open>run\<close>), generic lemmas. \<open>Conc\<close>: programs with threads as step relations; reachability, the locales
  \<open>safe_system\<close> (an invariant) and \<open>converging_system\<close> (some step brings the goal closer), schedules,
  semaphores, condition variables, and how a step of one thread changes the number of the threads at a place.
  \<open>Fdtable\<close>: descriptor tables with the lowest free descriptor. \<open>Kernel\<close>: inodes, open files with positions, tables, and the system calls on them
  (\<open>open\<close>, \<open>close\<close>, \<open>read\<close>, \<open>write\<close>, \<open>lseek\<close>, \<open>dup2\<close>, the flag that closes at \<open>exec\<close>, \<open>fork\<close>, \<open>exec\<close>) with the well-formedness
  that they keep. \<open>Ctext\<close>: reading and writing numbers and lines of text. \<open>Stdio\<close>: the buffer of an output stream, what a call writes and
  what stays, and the orders in which several processes write to one file.

  \<^bold>\<open>The allocators\<close> (\<open>8/so21_lista_8\<close>). \<open>Arena\<close>: \<open>arena.h\<close>, \<open>arena.c\<close>; a locale of stores of arenas.
  \<open>Stralloc\<close>: \<open>stralloc.c\<close>, the implicit list of blocks in chunks of signed bytes; the abstract view of a chunk is a list of
  regions, and \<open>alloc_block\<close> is first fit on it. \<open>Bitmap\<close> and \<open>Objpool\<close>: \<open>objpool.c\<close>, the bitmap of three levels
  refines the flat one of the macro \<open>TEST\<close>; a locale states what the pool needs of a bitmap, interpreted on both. \<open>Testh\<close>:
  \<open>test.h\<close>, the randomised test as a client of a locale of allocators, interpreted on both allocators. The groups of lemmas:
  well-formedness and its preservation, the result of every operation on every branch, disjoint
  blocks, no failing assertion in a test of any length. The search loop of \<open>stralloc\<close> gets one step of fuel for every chunk and
  two more; \<open>stralloc_ok\<close> shows that this is enough.

  \<^bold>\<open>Sorting.\<close> \<open>Forksort\<close>: \<open>7/so21_lista_7/forksort.c\<close>; insertion sort, partition and quicksort over a shared table; permutation,
  frame and order of every part; children that sort disjoint ranges commute, which justifies running a
  child where it is forked. \<open>Mergesort\<close>: \<open>5/so21_lista_5/mergesort.c\<close>, where \<open>Sort\<close> is unfinished; the parent is also shown right for a child that sorts.

  \<^bold>\<open>Data.\<close> \<open>Hashdb\<close>: \<open>7/so21_lista_7/hashdb.c\<close>, a hash set in a mapped file; the refinement to a set of keys, the growth
  by rehashing into a new file, the reader of lines in place, whole sessions. The number of rehashes of an insertion is bounded by fuel; the
  theorems state how much is enough. The hash function, which the repository does not contain, is a parameter.
  \<open>Listdir\<close>: \<open>5/so21_lista_5/listdir.c\<close> and \<open>6/access.c\<close>. \<open>Queens\<close>: \<open>1/het.c\<close>, a process for each placement; \<open>Boardlock\<close>: their
  writes to one file under a lock. \<open>Writeperf\<close>:
  \<open>6/so21_lista_6/writeperf.c\<close>, the ways of writing the same bytes, over the streams of \<open>Stdio\<close>, with the limits of the system as parameters. \<open>Game\<close>: \<open>3/so21_lista_3/game.c\<close>, the
  rules as a reference function over answers; a line is an answer for each call of \<open>Read\<close> that it takes to read it. \<open>Lookup\<close>: \<open>6/so21_lista_6/id.c\<close> and \<open>9/so21_lista_9/hostinfo.c\<close>.

  \<^bold>\<open>Files.\<close> The programs over \<open>Kernel\<close>. \<open>Fdleak\<close>: \<open>4/so21_lista_4/leaky.c\<close> and \<open>innocent.c\<close>, the second as the command that the first
  one runs; the fuel of its reading loop is one more than the length of the file, and \<open>read_all_printed\<close> shows that it is enough. \<open>Fileshare\<close>: \<open>1/7.c\<close>, \<open>1/7_2.c\<close> and \<open>1/7_ptrace.c\<close>, a file shared by parent and child, with and without a
  shared table, and the loop of the monitor. \<open>Mkholes\<close>: \<open>4/so21_lista_4/mkholes.c\<close>, a file with holes. \<open>Templates\<close>: the exercises of \<open>1/so21_lista_1\<close> that were left
  without a solution.

  \<^bold>\<open>Processes and coroutines.\<close> \<open>Coro\<close>: \<open>3/so21_lista_3/coro.c\<close>, three coroutines that hand on values through
  saved contexts (the fuel counts resumptions; three for each byte of the input and four more are enough); \<open>Corostack\<close>: their stacks. \<open>Sieve\<close>:
  \<open>5/so21_lista_5/prime.c\<close>, the chain of filter processes with their pipes, descriptor tables and the buffers of \<open>stdout\<close> that they inherit at \<open>fork\<close>. \<open>Echo\<close>:
  \<open>9/so21_lista_9/echoserver-fork.c\<close>, the client table shared by the server and its children; \<open>Echoline\<close>: the lines between
  \<open>echoclient.c\<close> and \<open>echo\<close>, where writing a line and counting it are two steps, and \<open>echoserver.c\<close>; \<open>Echosystem\<close>: the server and its clients, one after the other; \<open>Echoclients\<close>: any number of clients at the same
  time, with the number printed at the end as the sum of all inputs; \<open>Echoquit\<close>: \<open>main\<close> and the handlers of \<open>SIGCHLD\<close> and \<open>SIGINT\<close> in single steps, with the masks: \<open>SIGINT\<close> can interrupt the other handler, and it can come to a child that does not yet ignore it; four bad moments are
  left out for the liveness, and each of them is shown to stop the server. \<open>Sinit\<close>: \<open>2/so21_lista_2/sinit.c\<close>, an init process that reaps orphans and starts commands;
  \<open>Reaper\<close>: \<open>2/so21_lista_2/reaper.c\<close>, a reaper and an orphan; \<open>Orphan\<close>: \<open>1/2.c\<close>. \<open>Cycle\<close>:
  \<open>2/so21_lista_2/cycle.c\<close>, a ring of processes with one signal; \<open>Ringstop\<close>: the ring when processes are interrupted. \<open>Demand\<close>: \<open>2/so21_lista_2/demand.c\<close>, the handler of page faults; a
  store is run at most twice.

  \<^bold>\<open>Synchronisation\<close> (\<open>13\<close> and \<open>14\<close>). \<open>Philosophers\<close>, \<open>Savages\<close>, \<open>Barrier\<close>, \<open>Smokers\<close>: \<open>philosophers.c\<close>, \<open>savages.c\<close>, \<open>barrier.c\<close> with its race of horses, and the unfinished \<open>smokers.c\<close>,
  with semaphores. \<open>Semaphore\<close>: \<open>13/sem.c\<close>, a semaphore made of a mutex and a condition variable, a refinement
  of the counting semaphore. \<open>Ramen\<close>, \<open>Ride\<close>, \<open>Office\<close>: \<open>ramen.c\<close>, \<open>ride.c\<close>, \<open>office.c\<close>, with condition variables. \<open>Barrierlive\<close>: the phases of the first round of the barrier, and its liveness. \<open>Threads\<close>: the \<open>main\<close> functions that
  create and join the threads, which do not change what states are reachable. \<open>Spurious\<close>: wake-ups without a signal in the ride and the office, which the theorems of \<open>Ride\<close> and \<open>Office\<close> exclude (those of
  \<open>Semaphore\<close> allow them). The count that \<open>ride_init\<close> leaves unset is a parameter of the ride. A step is what
  a thread does between two operations of the thread library or, where all shared state is
  accessed with the mutex held, a critical section. For each: an invariant by induction over reachability, liveness as \<open>from every reachable state
  there is a way on\<close> where it holds, and concrete runs to the states that should not be reachable where it does not.

  \<^bold>\<open>What the theorems show.\<close> The allocators, the sort, the database, the coroutines, the sieve, the
  philosophers, the savages, the semaphore, the ring, the pager, the game, the queens, init, the reaper, the echo of
  whole lines and the file with holes do what they are meant to do, under the hypotheses stated in each theorem; the password file stays
  closed to the other program. The streams of \<open>stdio\<close> matter for what a program writes in the sieve and in the benchmark, and are modelled there; elsewhere what a program prints is taken
  as it is given to the stream. The theorems that state an error, each with
  a run that shows it: the barrier works once only; the ramen bar forgets customers; the roller coaster can stop for ever; the table of the echo
  server overflows; a line without an end stops the echo client; a database read from a text that fills its last page runs past the
  mapping; a failing \<open>fork\<close> leaves the table unsorted; the smokers smoke without ingredients; the merge sort never prints; the sieve repeats primes when its output is not a terminal; \<open>writev\<close> loses bytes when a batch is larger than the
  system takes; the echo
  server can wait for ever when it is interrupted, in four ways; one interrupted process stops the ring; a wake-up without a signal overfills the cart and sends a customer away
  unserved; the monitor runs for ever when its tracee dies of a signal.

  \<^bold>\<open>Not modelled.\<close> System calls appear as far as the programs rely on them; their failures are modelled where the program handles them, the others end the
  process in a wrapper. Messages are left out unless they are the result of the program. Not modelled: the functions that are never called or never reached
  (\<open>mprotect_page\<close>, \<open>outc\<close>, the functions that destroy the shared objects of list 14, whose threads never return), sleeping and yielding, which any interleaving
  covers, sockets and host names, and the scripts and write-ups.
\<close>

end
